(* ===== verification/Dift_Prelude.thy ===== *)
theory Dift_Prelude
  imports Main "HOL-Library.Word" "HOL-Library.Signed_Division"
begin

text \<open>
  Shared ground of the development: the fixed-width integer types of the C++ code,
  memory regions as byte lists with the write that \<open>memcpy\<close> and the pointer casts
  perform, and the little-endian view of a machine word as bytes. The collection
  \<open>mem_simps\<close> gathers the laws of region writes and \<open>byte_simps\<close> those of
  the byte views; the component theories add to both.
\<close>

unbundle bit_operations_syntax

named_theorems mem_simps "laws of writes into a byte region"
named_theorems byte_simps "laws of the byte view of machine words"

type_synonym u8 = "8 word"
type_synonym u16 = "16 word"
type_synonym u32 = "32 word"
type_synonym u64 = "64 word"
type_synonym i32 = "32 word"
type_synonym bytes = "u8 list"

section \<open>Writing into a region\<close>

text \<open>
  \<open>overwrite m p bs\<close> is region \<open>m\<close> after the bytes \<open>bs\<close> have been stored from
  position \<open>p\<close> on: what \<open>memcpy(m + p, bs, n)\<close> leaves behind. A region that grows from
  empty models an array of which only a prefix has been initialised.
\<close>

definition overwrite :: "'a list \<Rightarrow> nat \<Rightarrow> 'a list \<Rightarrow> 'a list" where
  "overwrite m p bs = take p m @ bs @ drop (p + length bs) m"

lemma length_overwrite [mem_simps]:
  "p \<le> length m \<Longrightarrow> length (overwrite m p bs) = max (length m) (p + length bs)"
  by (auto simp: overwrite_def max_def)

lemma length_overwrite_inside [simp]:
  "p + length bs \<le> length m \<Longrightarrow> length (overwrite m p bs) = length m"
  by (auto simp: overwrite_def)

lemma overwrite_Nil [simp]: "overwrite m p [] = m"
  by (simp add: overwrite_def)

lemma overwrite_at_end: "p = length m \<Longrightarrow> overwrite m p bs = m @ bs"
  by (simp add: overwrite_def)

lemma overwrite_adjacent [mem_simps]:
  assumes "p \<le> length m" and "q = p + length xs"
  shows "overwrite (overwrite m p xs) q ys = overwrite m p (xs @ ys)"
  using assms by (simp add: overwrite_def min_def ac_simps)

lemma take_overwrite [mem_simps]:
  assumes "p \<le> length m" and "n = p + length bs"
  shows "take n (overwrite m p bs) = take p m @ bs"
  using assms by (simp add: overwrite_def min_def)

lemma drop_overwrite [mem_simps]:
  assumes "p \<le> length m" and "p + length bs \<le> n"
  shows "drop n (overwrite m p bs) = drop n m"
  using assms by (simp add: overwrite_def min_def ac_simps)

lemma nth_overwrite:
  assumes "p + length bs \<le> length m" and "i < length m"
  shows "overwrite m p bs ! i = (if p \<le> i \<and> i < p + length bs then bs ! (i - p) else m ! i)"
  using assms by (auto simp: overwrite_def nth_append min_def add.commute)

text \<open>A write leaves a window beside it alone and fills its own.\<close>

lemma window_overwrite:
  assumes "p + length bs \<le> length m" and "q + n \<le> p \<or> p + length bs \<le> q"
  shows "take n (drop q (overwrite m p bs)) = take n (drop q m)"
  using assms by (intro nth_equalityI) (auto simp: nth_overwrite)

lemma window_overwrite_same: "p + length bs \<le> length m \<Longrightarrow> take (length bs) (drop p (overwrite m p bs)) = bs"
  by (simp add: overwrite_def)

lemma take_overwrite_before:
  "n \<le> p \<Longrightarrow> p \<le> length m \<Longrightarrow> take n (overwrite m p bs) = take n m"
  by (simp add: overwrite_def min_def)

text \<open>Moving a window of \<open>r\<close> bytes forward by \<open>m\<close> or, if it is shorter, past its end.\<close>

lemma window_advance:
  "take (r - min r m) (drop (g + min r m) d) = take (r - m) (drop (g + m) d)"
  by (cases "r \<le> m") (simp_all add: min_def)

section \<open>Machine words as bytes\<close>

text \<open>
  \<open>bytes_le n w\<close> lists the \<open>n\<close> low bytes of \<open>w\<close>, least significant first;
  \<open>word_le\<close> reads them back.
\<close>

fun bytes_le :: "nat \<Rightarrow> 'a::len word \<Rightarrow> bytes" where
  "bytes_le 0 w = []"
| "bytes_le (Suc n) w = ucast w # bytes_le n (drop_bit 8 w)"

fun word_le :: "bytes \<Rightarrow> 'a::len word" where
  "word_le [] = 0"
| "word_le (b # bs) = ucast b OR push_bit 8 (word_le bs)"

lemma length_bytes_le [simp]: "length (bytes_le n w) = n"
  by (induction n arbitrary: w) auto

lemma word_le_bytes_le: "word_le (bytes_le n w) = take_bit (8 * n) w"
proof (induction n arbitrary: w)
  case 0
  then show ?case by simp
next
  case (Suc n)
  show ?case
    by (rule bit_word_eqI) (auto simp: Suc bit_simps)
qed

lemma word_le_bytes_le_full [byte_simps]:
  "LENGTH('a) \<le> 8 * n \<Longrightarrow> word_le (bytes_le n (w :: 'a::len word)) = w"
  by (simp add: word_le_bytes_le take_bit_word_eq_self)

lemma bytes_le_2: "bytes_le 2 w = [ucast w, ucast (drop_bit 8 w)]"
  by (simp add: numeral_eq_Suc)

lemma bytes_le_4: "bytes_le 4 w = bytes_le 2 w @ bytes_le 2 (drop_bit 16 w)"
  by (simp add: numeral_eq_Suc)

lemma bytes_le_8: "bytes_le 8 w = bytes_le 4 w @ bytes_le 4 (drop_bit 32 w)"
  by (simp add: numeral_eq_Suc)

lemma and_0xffff: "(x :: 'a::len word) AND 0xffff = take_bit 16 x"
  by (simp add: take_bit_eq_mask mask_eq_exp_minus_1)

lemma and_0xffffffff: "(x :: 'a::len word) AND 0xffffffff = take_bit 32 x"
  by (simp add: take_bit_eq_mask mask_eq_exp_minus_1)

lemma and_0xff: "(x :: 'a::len word) AND 0xff = take_bit 8 x"
  by (simp add: take_bit_eq_mask mask_eq_exp_minus_1)

lemma and_0xf: "(x :: 'a::len word) AND 0xf = take_bit 4 x"
  by (simp add: take_bit_eq_mask mask_eq_exp_minus_1)

lemmas mask_simps = and_0xffff and_0xffffffff and_0xff and_0xf

text \<open>A value below \<open>2 ^ k\<close> has no bit from \<open>k\<close> on; widening keeps the value.\<close>

lemma take_bit_small: "unat (w :: 'a::len word) < 2 ^ k \<Longrightarrow> take_bit k w = w"
  by (metis unsigned_take_bit_eq take_bit_nat_eq_self word_unat_eq_iff)

lemma bit_small: "unat (w :: 'a::len word) < 2 ^ k \<Longrightarrow> bit w i \<Longrightarrow> i < k"
  by (metis bit_take_bit_iff take_bit_small)

lemma unat_ucast_up:
  assumes "LENGTH('a) \<le> LENGTH('b)"
  shows "unat (ucast (w :: 'a::len word) :: 'b::len word) = unat w"
proof -
  have "unat w < 2 ^ LENGTH('b)" using unsigned_less [of w] assms
    by (meson one_le_numeral order_less_le_trans power_increasing)
  then show ?thesis by (simp add: unsigned_ucast_eq take_bit_nat_eq_self)
qed

section \<open>Signed values\<close>

text \<open>A non-negative \<open>int\<close> keeps its value when C++ converts it to \<open>size_t\<close>.\<close>

lemma sint_nonneg_uint:
  assumes "0 \<le> sint (m :: i32)"
  shows "sint m = uint m"
proof -
  have "sint m = take_bit 32 (uint m) - 2 ^ 32 * of_bool (bit (uint m) 31)"
    using signed_take_bit_eq_take_bit_minus [of 31 "uint m"] by (simp add: sint_uint)
  moreover have "take_bit 32 (uint m) = uint m" 
    using uint_lt2p [of m] by (simp add: take_bit_int_eq_self_iff)
  ultimately show ?thesis
    using assms uint_lt2p [of m] by (cases "bit (uint m) 31") auto
qed

lemma unat_scast_nonneg:
  assumes "0 \<le> sint (m :: i32)"
  shows "unat (scast m :: u64) = unat m"
proof -
  have "uint (scast m :: u64) = uint m mod 2 ^ 64"
    by (simp only: scast_eq sint_nonneg_uint [OF assms] uint_word_of_int) simp
  also have "\<dots> = uint m"
    using uint_lt2p [of m] by (simp add: mod_pos_pos_trivial)
  finally show ?thesis by (simp only: unat_eq_nat_uint)
qed
lemma unat_sint_nonneg: "0 \<le> sint (m :: i32) \<Longrightarrow> unat m = nat (sint m)"
  using sint_nonneg_uint [of m] by (simp only: unat_eq_nat_uint)

lemma unat_of_nat_u32: "n < 2 ^ 32 \<Longrightarrow> unat (of_nat n :: u32) = n"
  by (simp add: unat_of_nat)

lemma sint_pos_unat: "0 < sint (m :: i32) \<Longrightarrow> 0 < unat m"
  by (auto simp: unat_gt_0)

section \<open>Loops\<close>

text \<open>
  One iteration of a source loop either goes on with a new state, returns a value, or does
  something C++ leaves undefined (a write past an array, a division by zero). \<open>run\<close> iterates
  with fuel; \<open>None\<close> means the fuel did not last, so a returned result is always \<open>Some\<close>.
\<close>

datatype 's ctl = Again 's | Ret int 's | Trap

fun run :: "nat \<Rightarrow> ('s \<Rightarrow> 's ctl) \<Rightarrow> 's \<Rightarrow> 's ctl option" where
  "run 0 f s = None"
| "run (Suc k) f s = (case f s of Again s' \<Rightarrow> run k f s' | Ret r s' \<Rightarrow> Some (Ret r s') | Trap \<Rightarrow> Some Trap)"

lemma run_Again: "f s = Again s' \<Longrightarrow> run (Suc k) f s = run k f s'"
  by simp

lemma run_Ret: "f s = Ret r s' \<Longrightarrow> run (Suc k) f s = Some (Ret r s')"
  by simp

lemma run_more_fuel: "run k f s = Some r \<Longrightarrow> k \<le> k' \<Longrightarrow> run k' f s = Some r"
proof (induction k arbitrary: k' s)
  case 0
  then show ?case by simp
next
  case (Suc k)
  then obtain j where j: "k' = Suc j" "k \<le> j" by (cases k') auto
  with Suc show ?case by (auto split: ctl.splits)
qed

lemma run_fuel_unique: "run k f s = Some r \<Longrightarrow> run k' f s = Some r' \<Longrightarrow> r = r'"
  by (metis nat_le_linear option.inject run_more_fuel)

text \<open>Two loops whose bodies simulate each other run in step.\<close>

lemma run_sim:
  assumes "\<And>s t. R s t \<Longrightarrow> rel_ctl R (f s) (g t)" and "R s t"
  shows "rel_option (rel_ctl R) (run k f s) (run k g t)"
  using assms(2)
proof (induction k arbitrary: s t)
  case 0
  then show ?case by simp
next
  case (Suc k)
  from assms(1) [OF Suc.prems] Suc.IH show ?case by cases auto
qed

declare run.simps [simp del]

section \<open>Splitting a buffer\<close>

text \<open>
  \<open>chunks m xs\<close> cuts \<open>xs\<close> into pieces of \<open>m\<close> elements and a last piece of at most
  \<open>m\<close>; an empty buffer is one empty piece. \<open>emit\<close> numbers the pieces: the header state
  \<open>h\<close> advances from piece to piece and \<open>mk\<close> is told whether a piece is the last.
\<close>

function chunks :: "nat \<Rightarrow> 'a list \<Rightarrow> 'a list list" where
  "chunks m xs = (if m = 0 \<or> length xs \<le> m then [xs] else take m xs # chunks m (drop m xs))"
  by pat_completeness auto
termination
  by (relation "measure (\<lambda>(m, xs). length xs)") auto

declare chunks.simps [simp del]

fun emit :: "('h \<Rightarrow> bool \<Rightarrow> 'a \<Rightarrow> 'b) \<Rightarrow> ('h \<Rightarrow> 'a \<Rightarrow> 'h) \<Rightarrow> 'h \<Rightarrow> 'a list \<Rightarrow> 'b list" where
  "emit mk adv h [] = []"
| "emit mk adv h (c # cs) = mk h (cs = []) c # emit mk adv (adv h c) cs"

lemma chunks_last: "length xs \<le> m \<Longrightarrow> chunks m xs = [xs]"
  by (simp add: chunks.simps)

lemma chunks_step: "0 < m \<Longrightarrow> m < length xs \<Longrightarrow> chunks m xs = take m xs # chunks m (drop m xs)"
  by (simp add: chunks.simps)

lemma chunks_not_Nil [simp]: "chunks m xs \<noteq> []"
  by (subst chunks.simps) simp

lemma concat_chunks [simp]: "concat (chunks m xs) = xs"
proof (induction m xs rule: chunks.induct)
  case (1 m xs)
  then show ?case by (subst chunks.simps) auto
qed

lemma length_chunk_le: "0 < m \<Longrightarrow> c \<in> set (chunks m xs) \<Longrightarrow> length c \<le> m"
proof (induction m xs rule: chunks.induct)
  case (1 m xs)
  then show ?case
    by (cases "m = 0 \<or> length xs \<le> m") (auto simp: chunks.simps [of m xs])
qed

lemma length_le_concat: "c \<in> set cs \<Longrightarrow> length c \<le> length (concat cs)"
  by (induction cs) auto

lemma length_chunk_min: "0 < m \<Longrightarrow> c \<in> set (chunks m xs) \<Longrightarrow> length c \<le> min (length xs) m"
  using length_le_concat [of c "chunks m xs"] length_chunk_le [of m c xs] by simp

lemma chunk_not_Nil: "0 < m \<Longrightarrow> xs \<noteq> [] \<Longrightarrow> c \<in> set (chunks m xs) \<Longrightarrow> c \<noteq> []"
proof (induction m xs rule: chunks.induct)
  case (1 m xs)
  then show ?case
    by (cases "m = 0 \<or> length xs \<le> m") (auto simp: chunks.simps [of m xs])
qed

lemma length_emit [simp]: "length (emit mk adv h cs) = length cs"
  by (induction cs arbitrary: h) auto

end
