(* ===== verification/Byte_Order.thy ===== *)
theory Byte_Order
  imports Dift_Prelude
begin

text \<open>
  Byte order: the swap routines of ejfat_packetize.hpp and ejfat_assemble_ersap.hpp, the
  swap macros of ByteOrder.h, the host test of \<open>ByteOrder\<close>, the conversions
  \<open>htons\<close>, \<open>htonl\<close>, \<open>htonll\<close> (and back) and the loads and stores through a casted
  pointer, whose effect depends on the host. Every definition takes the host's order, and
  the lemmas show that what goes on the wire does not depend on it.
\<close>

section \<open>Swap routines\<close>

definition bswap_16 :: "u16 \<Rightarrow> u16" where
  "bswap_16 x = drop_bit 8 x OR push_bit 8 x"

definition bswap_32 :: "u32 \<Rightarrow> u32" where
  "bswap_32 x = push_bit 16 (ucast (bswap_16 (ucast (x AND 0xffff))))
              OR ucast (bswap_16 (ucast (drop_bit 16 x)))"

definition bswap_64 :: "u64 \<Rightarrow> u64" where
  "bswap_64 x = push_bit 32 (ucast (bswap_32 (ucast (x AND 0xffffffff))))
              OR ucast (bswap_32 (ucast (drop_bit 32 x)))"

definition SWAP_16 :: "u16 \<Rightarrow> u16" where
  "SWAP_16 x = drop_bit 8 x OR push_bit 8 x"

definition SWAP_32 :: "u32 \<Rightarrow> u32" where
  "SWAP_32 x = drop_bit 24 x
     OR drop_bit 8 (x AND 0x00ff0000)
     OR push_bit 8 (x AND 0x0000ff00)
     OR push_bit 24 x"

definition SWAP_64 :: "u64 \<Rightarrow> u64" where
  "SWAP_64 x = drop_bit 56 x
     OR drop_bit 40 (x AND 0x00ff000000000000)
     OR drop_bit 24 (x AND 0x0000ff0000000000)
     OR drop_bit 8 (x AND 0x000000ff00000000)
     OR push_bit 8 (x AND 0x00000000ff000000)
     OR push_bit 24 (x AND 0x0000000000ff0000)
     OR push_bit 40 (x AND 0x000000000000ff00)
     OR push_bit 56 x"

section \<open>The host\<close>

datatype byte_order = ENDIAN_LITTLE | ENDIAN_BIG

text \<open>The bytes a host stores for a word, in ascending addresses, and the word it loads.\<close>

definition native_bytes :: "byte_order \<Rightarrow> nat \<Rightarrow> 'a::len word \<Rightarrow> bytes" where
  "native_bytes host n w =
     (case host of ENDIAN_LITTLE \<Rightarrow> bytes_le n w | ENDIAN_BIG \<Rightarrow> rev (bytes_le n w))"

definition native_word :: "byte_order \<Rightarrow> bytes \<Rightarrow> 'a::len word" where
  "native_word host bs =
     (case host of ENDIAN_LITTLE \<Rightarrow> word_le bs | ENDIAN_BIG \<Rightarrow> word_le (rev bs))"

definition isLocalHostBigEndian :: "byte_order \<Rightarrow> bool" where
  "isLocalHostBigEndian host = (hd (native_bytes host 4 (1 :: i32)) = 0)"

definition getLocalByteOrder :: "byte_order \<Rightarrow> byte_order" where
  "getLocalByteOrder host = (if isLocalHostBigEndian host then ENDIAN_BIG else ENDIAN_LITTLE)"

definition getOppositeEndian :: "byte_order \<Rightarrow> byte_order" where
  "getOppositeEndian ord = (if ord = ENDIAN_BIG then ENDIAN_LITTLE else ENDIAN_BIG)"

definition needToSwap :: "byte_order \<Rightarrow> byte_order \<Rightarrow> bool" where
  "needToSwap host ord = (\<not> ord = getLocalByteOrder host)"

section \<open>Network byte order\<close>

definition htons :: "byte_order \<Rightarrow> u16 \<Rightarrow> u16" where
  "htons host x = (if host = ENDIAN_BIG then x else bswap_16 x)"

definition htonl :: "byte_order \<Rightarrow> u32 \<Rightarrow> u32" where
  "htonl host x = (if host = ENDIAN_BIG then x else bswap_32 x)"

text \<open>
  The macro \<open>htonll\<close> tests the host by \<open>1 == htonl(1)\<close> and otherwise exchanges the two
  halves while converting each.
\<close>

definition htonll :: "byte_order \<Rightarrow> u64 \<Rightarrow> u64" where
  "htonll host x =
     (if 1 = htonl host 1 then x
      else push_bit 32 (ucast (htonl host (ucast (x AND 0xFFFFFFFF))))
           OR ucast (htonl host (ucast (drop_bit 32 x))))"

definition ntohs :: "byte_order \<Rightarrow> u16 \<Rightarrow> u16" where
  "ntohs = htons"

definition ntohl :: "byte_order \<Rightarrow> u32 \<Rightarrow> u32" where
  "ntohl = htonl"

definition ntohll :: "byte_order \<Rightarrow> u64 \<Rightarrow> u64" where
  "ntohll host x =
     (if 1 = ntohl host 1 then x
      else push_bit 32 (ucast (ntohl host (ucast (x AND 0xFFFFFFFF))))
           OR ucast (ntohl host (ucast (drop_bit 32 x))))"

text \<open>A store or a load through \<open>*((uintN_t *)(buffer + p))\<close>.\<close>

definition store16 :: "byte_order \<Rightarrow> bytes \<Rightarrow> nat \<Rightarrow> u16 \<Rightarrow> bytes" where
  "store16 host buf p w = overwrite buf p (native_bytes host 2 w)"

definition store32 :: "byte_order \<Rightarrow> bytes \<Rightarrow> nat \<Rightarrow> u32 \<Rightarrow> bytes" where
  "store32 host buf p w = overwrite buf p (native_bytes host 4 w)"

definition store64 :: "byte_order \<Rightarrow> bytes \<Rightarrow> nat \<Rightarrow> u64 \<Rightarrow> bytes" where
  "store64 host buf p w = overwrite buf p (native_bytes host 8 w)"

definition load16 :: "byte_order \<Rightarrow> bytes \<Rightarrow> nat \<Rightarrow> u16" where
  "load16 host buf p = native_word host (take 2 (drop p buf))"

definition load32 :: "byte_order \<Rightarrow> bytes \<Rightarrow> nat \<Rightarrow> u32" where
  "load32 host buf p = native_word host (take 4 (drop p buf))"

definition load64 :: "byte_order \<Rightarrow> bytes \<Rightarrow> nat \<Rightarrow> u64" where
  "load64 host buf p = native_word host (take 8 (drop p buf))"

section \<open>Laws of the swaps\<close>

lemmas swap_defs = bswap_16_def bswap_32_def bswap_64_def

lemma bytes_le_bswap_16: "bytes_le 2 (bswap_16 x) = rev (bytes_le 2 x)"
  by (auto simp: bytes_le_2 swap_defs bit_simps intro!: bit_word_eqI)

lemma bytes_le_bswap_32: "bytes_le 4 (bswap_32 x) = rev (bytes_le 4 x)"
  by (auto simp: bytes_le_4 bytes_le_2 swap_defs mask_simps bit_simps intro!: bit_word_eqI)

lemma bytes_le_bswap_64: "bytes_le 8 (bswap_64 x) = rev (bytes_le 8 x)"
  by (auto simp: bytes_le_8 bytes_le_4 bytes_le_2 swap_defs mask_simps bit_simps
           intro!: bit_word_eqI)

lemma bytes_le_inj:
  assumes "LENGTH('a) \<le> 8 * n" and "bytes_le n (x :: 'a::len word) = bytes_le n y"
  shows "x = y"
  using arg_cong [OF assms(2), of word_le] word_le_bytes_le_full [OF assms(1)] by metis

lemma bswap_16_bswap_16 [simp]: "bswap_16 (bswap_16 x) = x"
  by (rule bytes_le_inj [of 2]) (simp_all add: bytes_le_bswap_16)

lemma bswap_32_bswap_32 [simp]: "bswap_32 (bswap_32 x) = x"
  by (rule bytes_le_inj [of 4]) (simp_all add: bytes_le_bswap_32)

lemma bswap_64_bswap_64 [simp]: "bswap_64 (bswap_64 x) = x"
  by (rule bytes_le_inj [of 8]) (simp_all add: bytes_le_bswap_64)

lemma htonl_1: "1 = htonl host 1 \<longleftrightarrow> host = ENDIAN_BIG"
  by (cases host) (simp_all add: htonl_def bswap_32_def bswap_16_def)

lemma htonll_alt: "htonll host x = (if host = ENDIAN_BIG then x else bswap_64 x)"
  unfolding htonll_def htonl_1 by (simp add: htonl_def bswap_64_def)

lemma ntohll_eq_htonll: "ntohll = htonll"
  by (intro ext) (simp add: ntohll_def htonll_def ntohl_def)

lemma native_word_bytes [byte_simps]:
  "LENGTH('a) \<le> 8 * n \<Longrightarrow> native_word host (native_bytes host n (w :: 'a::len word)) = w"
  by (cases host) (simp_all add: native_word_def native_bytes_def word_le_bytes_le_full)

lemma length_native_bytes [simp]: "length (native_bytes host n w) = n"
  by (cases host) (simp_all add: native_bytes_def)

text \<open>Storing a converted word puts the big-endian bytes in memory, whatever the host.\<close>

lemma native_htons [byte_simps]: "native_bytes host 2 (htons host w) = rev (bytes_le 2 w)"
  by (cases host) (simp_all add: native_bytes_def htons_def bytes_le_bswap_16)

lemma native_htonl [byte_simps]: "native_bytes host 4 (htonl host w) = rev (bytes_le 4 w)"
  by (cases host) (simp_all add: native_bytes_def htonl_def bytes_le_bswap_32)

lemma native_htonll [byte_simps]: "native_bytes host 8 (htonll host w) = rev (bytes_le 8 w)"
  by (cases host) (simp_all add: native_bytes_def htonll_alt bytes_le_bswap_64)

lemma ntohs_native [byte_simps]: "ntohs host (native_word host (rev (bytes_le 2 w))) = w"
  by (simp add: native_htons [of host, symmetric] native_word_bytes)
     (simp add: ntohs_def htons_def)

lemma ntohl_native [byte_simps]: "ntohl host (native_word host (rev (bytes_le 4 w))) = w"
  by (simp add: native_htonl [of host, symmetric] native_word_bytes)
     (simp add: ntohl_def htonl_def)

lemma ntohll_native [byte_simps]: "ntohll host (native_word host (rev (bytes_le 8 w))) = w"
  by (simp add: native_htonll [of host, symmetric] native_word_bytes)
     (simp add: ntohll_eq_htonll htonll_alt)

lemma store_htons [mem_simps]: "store16 host m p (htons host w) = overwrite m p (rev (bytes_le 2 w))"
  by (simp add: store16_def native_htons)

lemma store_htonl [mem_simps]: "store32 host m p (htonl host w) = overwrite m p (rev (bytes_le 4 w))"
  by (simp add: store32_def native_htonl)

lemma store_htonll [mem_simps]: "store64 host m p (htonll host w) = overwrite m p (rev (bytes_le 8 w))"
  by (simp add: store64_def native_htonll)

lemma isLocalHostBigEndian_iff: "isLocalHostBigEndian host \<longleftrightarrow> host = ENDIAN_BIG"
  by (cases host) (simp_all add: isLocalHostBigEndian_def native_bytes_def bytes_le_4 bytes_le_2)

lemma SWAP_16_eq: "SWAP_16 x = bswap_16 x"
  by (simp add: SWAP_16_def bswap_16_def)

text \<open>The byte masks of the macros, as eight set bits moved into place.\<close>

lemma SWAP_32_masks:
  "(0x00ff0000 :: u32) = push_bit 16 (mask 8)"
  "(0x0000ff00 :: u32) = push_bit 8 (mask 8)"
  by (simp_all add: mask_eq_exp_minus_1)

lemma SWAP_64_masks:
  "(0x00ff000000000000 :: u64) = push_bit 48 (mask 8)"
  "(0x0000ff0000000000 :: u64) = push_bit 40 (mask 8)"
  "(0x000000ff00000000 :: u64) = push_bit 32 (mask 8)"
  "(0x00000000ff000000 :: u64) = push_bit 24 (mask 8)"
  "(0x0000000000ff0000 :: u64) = push_bit 16 (mask 8)"
  "(0x000000000000ff00 :: u64) = push_bit 8 (mask 8)"
  by (simp_all add: mask_eq_exp_minus_1)

lemma SWAP_32_eq: "SWAP_32 x = bswap_32 x"
proof (rule bytes_le_inj [of 4])
  show "bytes_le 4 (SWAP_32 x) = bytes_le 4 (bswap_32 x)"
    unfolding bytes_le_bswap_32 SWAP_32_def SWAP_32_masks
    by (auto simp: bytes_le_4 bytes_le_2 bit_simps intro!: bit_word_eqI)
qed simp

lemma SWAP_64_eq: "SWAP_64 x = bswap_64 x"
proof (rule bytes_le_inj [of 8])
  show "bytes_le 8 (SWAP_64 x) = bytes_le 8 (bswap_64 x)"
    unfolding bytes_le_bswap_64 SWAP_64_def SWAP_64_masks
    by (auto simp: bytes_le_8 bytes_le_4 bytes_le_2 bit_simps intro!: bit_word_eqI)
qed simp

end
