(* ===== verification/Packet_Headers.thy ===== *)
theory Packet_Headers
  imports Byte_Order
begin

text \<open>
  The headers of an EJFAT packet: the writers of ejfat_packetize.hpp (load balancer header,
  reassembly header in its version 1 and version 2 layouts, synchronisation message) and
  the parsers of ejfat_assemble_ersap.hpp. A writer stores field by field into the
  region \<open>buf\<close> at position \<open>p\<close>; a parser reads a packet from its first byte. The C type
  \<open>char\<close> is signed on the supported hosts, so the parsers widen a byte with its sign before
  they mask it. The lemmas give the wire layout of every writer and the round trip
  through every parser, also between hosts of different byte order.
\<close>

section \<open>Sizes\<close>

definition LB_HEADER_BYTES :: nat where "LB_HEADER_BYTES = 16"
definition RE_HEADER_BYTES :: nat where "RE_HEADER_BYTES = 20"
definition HEADER_BYTES :: nat where "HEADER_BYTES = 36"
definition RE_HEADER_BYTES_OLD :: nat where "RE_HEADER_BYTES_OLD = 18"
definition HEADER_BYTES_OLD :: nat where "HEADER_BYTES_OLD = 34"
definition MAX_EJFAT_MTU :: nat where "MAX_EJFAT_MTU = 9978"

lemmas size_defs = LB_HEADER_BYTES_def RE_HEADER_BYTES_def HEADER_BYTES_def
  RE_HEADER_BYTES_OLD_def HEADER_BYTES_OLD_def MAX_EJFAT_MTU_def

section \<open>Writers\<close>

definition setLbMetadata ::
  "byte_order \<Rightarrow> bytes \<Rightarrow> nat \<Rightarrow> u64 \<Rightarrow> i32 \<Rightarrow> i32 \<Rightarrow> i32 \<Rightarrow> bytes" where
  "setLbMetadata host buf p tick version protocol entropy =
    (let b = overwrite buf p [0x4C];
         b = overwrite b (p + 1) [0x42];
         b = overwrite b (p + 2) [ucast version];
         b = overwrite b (p + 3) [ucast protocol];
         b = overwrite b (p + 4) [0];
         b = overwrite b (p + 5) [0];
         b = store16 host b (p + 6) (htons host (ucast entropy))
     in store64 host b (p + 8) (htonll host tick))"

definition setReMetadataOld ::
  "byte_order \<Rightarrow> bytes \<Rightarrow> nat \<Rightarrow> bool \<Rightarrow> bool \<Rightarrow> u64 \<Rightarrow> u32 \<Rightarrow> i32 \<Rightarrow> u16 \<Rightarrow> bytes" where
  "setReMetadataOld host buf p isFirst isLast tick offset version dataId =
    (let b = overwrite buf p [ucast (push_bit 4 version)];
         b = overwrite b (p + 1) [push_bit 1 (of_bool isFirst) + of_bool isLast];
         b = store16 host b (p + 2) (htons host dataId);
         b = store32 host b (p + 4) (htonl host offset);
         b = store64 host b (p + 8) (htonll host tick)
     in overwrite (overwrite b (p + 16) [0]) (p + 17) [0])"

definition setReMetadata_reserved ::
  "byte_order \<Rightarrow> bytes \<Rightarrow> nat \<Rightarrow> u32 \<Rightarrow> u32 \<Rightarrow> u64 \<Rightarrow> i32 \<Rightarrow> u16 \<Rightarrow> i32 \<Rightarrow> bytes" where
  "setReMetadata_reserved host buf p offset len tick version dataId reserved =
    (let b = overwrite buf p [ucast (push_bit 4 version)];
         b = overwrite b (p + 1) [ucast (reserved AND 0xff)];
         b = store16 host b (p + 2) (htons host dataId);
         b = store32 host b (p + 4) (htonl host offset);
         b = store32 host b (p + 8) (htonl host len)
     in store64 host b (p + 12) (htonll host tick))"

definition setReMetadata ::
  "byte_order \<Rightarrow> bytes \<Rightarrow> nat \<Rightarrow> u32 \<Rightarrow> u32 \<Rightarrow> u64 \<Rightarrow> i32 \<Rightarrow> u16 \<Rightarrow> bytes" where
  "setReMetadata host buf p offset len tick version dataId =
    (let b = overwrite buf p [ucast (push_bit 4 version)];
         b = overwrite b (p + 1) [0];
         b = store16 host b (p + 2) (htons host dataId);
         b = store32 host b (p + 4) (htonl host offset);
         b = store32 host b (p + 8) (htonl host len)
     in store64 host b (p + 12) (htonll host tick))"

definition setSyncData ::
  "byte_order \<Rightarrow> bytes \<Rightarrow> nat \<Rightarrow> i32 \<Rightarrow> u32 \<Rightarrow> u64 \<Rightarrow> u32 \<Rightarrow> u64 \<Rightarrow> bytes" where
  "setSyncData host buf p version srcId evtNum evtRate nanos =
    (let b = overwrite buf p [0x4C];
         b = overwrite b (p + 1) [0x43];
         b = overwrite b (p + 2) [ucast version];
         b = overwrite b (p + 3) [0];
         b = store32 host b (p + 4) (htonl host srcId);
         b = store64 host b (p + 8) (htonll host evtNum);
         b = store32 host b (p + 16) (htonl host evtRate)
     in store64 host b (p + 20) (htonll host nanos))"

section \<open>Parsers\<close>

record reHeader =
  re_version :: u8
  re_reserved :: i32
  re_dataId :: u16
  re_offset :: u32
  re_length :: u32
  re_tick :: u64

text \<open>\<open>clearHeader\<close> zeroes the structure and sets the version to 2.\<close>

definition clearHeader :: reHeader where
  "clearHeader = \<lparr>re_version = 2, re_reserved = 0, re_dataId = 0, re_offset = 0,
                   re_length = 0, re_tick = 0\<rparr>"

datatype parse_error = NotLB

definition high_nibble :: "u8 \<Rightarrow> i32" where
  "high_nibble c = signed_drop_bit 4 (scast c) AND 0xf"

definition parseLbHeader ::
  "byte_order \<Rightarrow> bytes \<Rightarrow> parse_error + (u8 \<times> u8 \<times> u32 \<times> u32 \<times> u32 \<times> u64)" where
  "parseLbHeader host buf =
    (let ll = buf ! 0; bb = buf ! 1 in
     if ll \<noteq> 0x4C \<or> bb \<noteq> 0x42 then Inl NotLB
     else Inr (ll, bb, scast (buf ! 2) AND 0xff, scast (buf ! 3) AND 0xff,
               ucast (ntohs host (load16 host buf 6)) AND 0xffff,
               ntohll host (load64 host buf 8)))"

definition readLbHeader ::
  "byte_order \<Rightarrow> bytes \<Rightarrow> i32 \<times> i32 \<times> u32 \<times> u32 \<times> u32 \<times> u64" where
  "readLbHeader host buf =
    (scast (buf ! 0), scast (buf ! 1), scast (buf ! 2) AND 0xff, scast (buf ! 3) AND 0xff,
     ucast (ntohs host (load16 host buf 6)) AND 0xffff,
     ntohll host (load64 host buf 8))"

definition parseReHeaderOld ::
  "byte_order \<Rightarrow> bytes \<Rightarrow> i32 \<times> bool \<times> bool \<times> u16 \<times> u32 \<times> u64" where
  "parseReHeaderOld host buf =
    (high_nibble (buf ! 0),
     drop_bit 1 ((scast (buf ! 1) :: i32) AND 0x02) \<noteq> 0,
     (scast (buf ! 1) :: i32) AND 0x01 \<noteq> 0,
     ntohs host (load16 host buf 2),
     ntohl host (load32 host buf 4),
     ntohll host (load64 host buf 8))"

definition parseReHeader ::
  "byte_order \<Rightarrow> bytes \<Rightarrow> i32 \<times> u16 \<times> u32 \<times> u32 \<times> u64" where
  "parseReHeader host buf =
    (high_nibble (buf ! 0),
     ntohs host (load16 host buf 2),
     ntohl host (load32 host buf 4),
     ntohl host (load32 host buf 8),
     ntohll host (load64 host buf 12))"

text \<open>The overload that fills a \<open>reHeader\<close>; \<open>None\<close> stands for a null pointer.\<close>

definition parseReHeader_struct ::
  "byte_order \<Rightarrow> bytes \<Rightarrow> reHeader option \<Rightarrow> reHeader option" where
  "parseReHeader_struct host buf header =
    (case header of
       None \<Rightarrow> None
     | Some h \<Rightarrow> Some (h\<lparr>re_version := ucast (high_nibble (buf ! 0)),
                         re_reserved := scast (buf ! 1) AND 0xff,
                         re_dataId := ntohs host (load16 host buf 2),
                         re_offset := ntohl host (load32 host buf 4),
                         re_length := ntohl host (load32 host buf 8),
                         re_tick := ntohll host (load64 host buf 12)\<rparr>))"

definition parseReHeader_short :: "byte_order \<Rightarrow> bytes \<Rightarrow> u32 \<times> u32 \<times> u64" where
  "parseReHeader_short host buf =
    (ntohl host (load32 host buf 4),
     ntohl host (load32 host buf 8),
     ntohll host (load64 host buf 12))"

text \<open>The overload that fills an array of at least five elements.\<close>

definition parseReHeader_array ::
  "byte_order \<Rightarrow> bytes \<Rightarrow> u32 list option \<Rightarrow> i32 \<Rightarrow> u32 list option \<times> u64" where
  "parseReHeader_array host buf intArray arraySize =
    ((case intArray of
        None \<Rightarrow> None
      | Some xs \<Rightarrow>
          Some (if sint arraySize > 4
                then xs[0 := high_nibble (buf ! 0),
                        1 := ucast (ntohs host (load16 host buf 2)),
                        2 := ntohl host (load32 host buf 4),
                        3 := ntohl host (load32 host buf 8)]
                else xs)),
     ntohll host (load64 host buf 12))"

text \<open>
  \<open>parseReHeaderFast\<close> stores the tick with one 64-bit store over two array elements.
\<close>

definition parseReHeaderFast ::
  "byte_order \<Rightarrow> bytes \<Rightarrow> u32 list \<Rightarrow> nat \<Rightarrow> u32 list \<times> u64" where
  "parseReHeaderFast host buf intArray index =
    (let t = ntohll host (load64 host buf 12);
         nb = native_bytes host 8 t
     in (intArray[index := ntohl host (load32 host buf 4),
                  index + 1 := ntohl host (load32 host buf 8),
                  index + 2 := native_word host (take 4 nb),
                  index + 3 := native_word host (drop 4 nb)],
         t))"

section \<open>Wire layouts\<close>

text \<open>The layouts the header comments draw, as byte sequences.\<close>

definition lb_layout :: "u64 \<Rightarrow> i32 \<Rightarrow> i32 \<Rightarrow> i32 \<Rightarrow> bytes" where
  "lb_layout t v pr e = [0x4C, 0x42, ucast v, ucast pr, 0, 0]
     @ rev (bytes_le 2 (ucast e :: u16)) @ rev (bytes_le 8 t)"

definition re_layout :: "u32 \<Rightarrow> u32 \<Rightarrow> u64 \<Rightarrow> i32 \<Rightarrow> u16 \<Rightarrow> i32 \<Rightarrow> bytes" where
  "re_layout off l t v d r = [ucast (push_bit 4 v), ucast (r AND 0xff)]
     @ rev (bytes_le 2 d) @ rev (bytes_le 4 off) @ rev (bytes_le 4 l) @ rev (bytes_le 8 t)"

definition re_layout_old :: "bool \<Rightarrow> bool \<Rightarrow> u64 \<Rightarrow> u32 \<Rightarrow> i32 \<Rightarrow> u16 \<Rightarrow> bytes" where
  "re_layout_old f l t off v d =
     [ucast (push_bit 4 v), push_bit 1 (of_bool f) + of_bool l]
     @ rev (bytes_le 2 d) @ rev (bytes_le 4 off) @ rev (bytes_le 8 t) @ [0, 0]"

definition sync_layout :: "i32 \<Rightarrow> u32 \<Rightarrow> u64 \<Rightarrow> u32 \<Rightarrow> u64 \<Rightarrow> bytes" where
  "sync_layout v s e r n = [0x4C, 0x43, ucast v, 0]
     @ rev (bytes_le 4 s) @ rev (bytes_le 8 e) @ rev (bytes_le 4 r) @ rev (bytes_le 8 n)"

lemma length_layouts [simp]:
  "length (lb_layout t v pr e) = 16"
  "length (re_layout off l t v d r) = 20"
  "length (re_layout_old f k t off v d) = 18"
  "length (sync_layout v s evt r n) = 28"
  by (simp_all add: lb_layout_def re_layout_def re_layout_old_def sync_layout_def)

lemma setLbMetadata_layout:
  "p \<le> length buf \<Longrightarrow>
   setLbMetadata host buf p t v pr e = overwrite buf p (lb_layout t v pr e)"
  by (simp add: setLbMetadata_def lb_layout_def Let_def mem_simps)

lemma setReMetadata_reserved_layout:
  "p \<le> length buf \<Longrightarrow>
   setReMetadata_reserved host buf p off l t v d r = overwrite buf p (re_layout off l t v d r)"
  by (simp add: setReMetadata_reserved_def re_layout_def Let_def mem_simps)

lemma setReMetadata_layout:
  "p \<le> length buf \<Longrightarrow>
   setReMetadata host buf p off l t v d = overwrite buf p (re_layout off l t v d 0)"
  by (simp add: setReMetadata_def re_layout_def Let_def mem_simps)

lemma setReMetadataOld_layout:
  "p \<le> length buf \<Longrightarrow>
   setReMetadataOld host buf p f k t off v d = overwrite buf p (re_layout_old f k t off v d)"
  by (simp add: setReMetadataOld_def re_layout_old_def Let_def mem_simps)

lemma setSyncData_layout:
  "p \<le> length buf \<Longrightarrow>
   setSyncData host buf p v s e r n = overwrite buf p (sync_layout v s e r n)"
  by (simp add: setSyncData_def sync_layout_def Let_def mem_simps)

lemmas layout_simps = setLbMetadata_layout setReMetadata_reserved_layout setReMetadata_layout
  setReMetadataOld_layout setSyncData_layout

section \<open>Round trips\<close>

lemma high_nibble_eq: "high_nibble c = ucast (drop_bit 4 c)"
proof (rule bit_word_eqI)
  fix n
  have "bit c (4 + n) \<Longrightarrow> 4 + n < 8" using bit_imp_le_length [of c "4 + n"] by simp
  then show "bit (high_nibble c) n = bit (ucast (drop_bit 4 c) :: i32) n" if "n < LENGTH(32)"
    using that by (auto simp: high_nibble_def mask_simps bit_simps min.absorb2)
qed

lemma scast_and_ff [simp]: "(scast (c :: u8) :: u32) AND 0xff = ucast c"
proof (rule bit_word_eqI)
  fix n
  have "bit c n \<Longrightarrow> n < 8" using bit_imp_le_length [of c n] by simp
  then show "bit ((scast c :: u32) AND 0xff) n = bit (ucast c :: u32) n" if "n < LENGTH(32)"
    using that by (auto simp: mask_simps bit_simps min.absorb2)
qed

lemma version_nibble: "high_nibble (ucast (push_bit 4 (v :: i32))) = v AND 0xf"
  by (rule bit_word_eqI) (auto simp: high_nibble_eq mask_simps bit_simps)

lemma reserved_byte: "ucast (ucast ((r :: i32) AND 0xff) :: u8) = r AND 0xff"
  by (rule bit_word_eqI) (auto simp: mask_simps bit_simps)

lemma ucast_byte: "(ucast (ucast (v :: i32) :: u8) :: u32) = v AND 0xff"
  by (rule bit_word_eqI) (auto simp: mask_simps bit_simps)

lemma ucast_half: "(ucast (ucast (e :: i32) :: u16) :: u32) AND 0xffff = e AND 0xffff"
  by (rule bit_word_eqI) (auto simp: mask_simps bit_simps)

lemma nibble_byte: "(ucast ((v :: i32) AND 0xf) :: u8) = ucast v AND 0xf"
  by (rule bit_word_eqI) (auto simp: mask_simps bit_simps)

lemma first_last_bits:
  "drop_bit 1 ((scast (push_bit 1 (of_bool f) + of_bool k :: u8) :: i32) AND 2) \<noteq> 0 \<longleftrightarrow> f"
  "((scast (push_bit 1 (of_bool f) + of_bool k :: u8) :: i32) AND 1 \<noteq> 0) \<longleftrightarrow> k"
  by (cases f; cases k; simp)+

lemma load_skip [simp]:
  "p = length xs + q \<Longrightarrow> load16 host (xs @ ys) p = load16 host ys q"
  "p = length xs + q \<Longrightarrow> load32 host (xs @ ys) p = load32 host ys q"
  "p = length xs + q \<Longrightarrow> load64 host (xs @ ys) p = load64 host ys q"
  by (simp_all add: load16_def load32_def load64_def)

lemma load_here [simp]:
  "length xs = 2 \<Longrightarrow> load16 host (xs @ ys) 0 = native_word host xs"
  "length xs = 4 \<Longrightarrow> load32 host (xs @ ys) 0 = native_word host xs"
  "length xs = 8 \<Longrightarrow> load64 host (xs @ ys) 0 = native_word host xs"
  by (simp_all add: load16_def load32_def load64_def)

text \<open>The fields of a version 2 header, read from the packet that starts with it.\<close>

lemma re_fields:
  fixes rest :: bytes and off l :: u32 and t :: u64 and v r :: i32 and d :: u16
  defines "pkt \<equiv> re_layout off l t v d r @ rest"
  shows re_field_version: "high_nibble (pkt ! 0) = v AND 0xf"
    and re_field_reserved: "pkt ! Suc 0 = ucast (r AND 0xff)"
    and re_field_dataId: "ntohs host (load16 host pkt 2) = d"
    and re_field_offset: "ntohl host (load32 host pkt 4) = off"
    and re_field_length: "ntohl host (load32 host pkt 8) = l"
    and re_field_tick: "ntohll host (load64 host pkt 12) = t"
proof -
  have pkt: "pkt = [ucast (push_bit 4 v), ucast (r AND 0xff)] @ rev (bytes_le 2 d)
      @ rev (bytes_le 4 off) @ rev (bytes_le 4 l) @ rev (bytes_le 8 t) @ rest"
    by (simp add: pkt_def re_layout_def)
  show "high_nibble (pkt ! 0) = v AND 0xf" by (simp add: pkt version_nibble)
  show "pkt ! Suc 0 = ucast (r AND 0xff)" by (simp add: pkt)
  show "ntohs host (load16 host pkt 2) = d"
    by (simp add: load16_def pkt byte_simps)
  show "ntohl host (load32 host pkt 4) = off"
    by (simp add: load32_def pkt byte_simps)
  show "ntohl host (load32 host pkt 8) = l"
    by (simp add: load32_def pkt byte_simps)
  show "ntohll host (load64 host pkt 12) = t"
    by (simp add: load64_def pkt byte_simps)
qed

lemma parseReHeader_layout [byte_simps]:
  "parseReHeader host (re_layout off l t v d r @ rest) = (v AND 0xf, d, off, l, t)"
  by (simp add: parseReHeader_def re_fields)

lemma lb_fields:
  fixes rest :: bytes and t :: u64 and v pr e :: i32
  defines "pkt \<equiv> lb_layout t v pr e @ rest"
  shows "pkt ! 0 = 0x4C" and "pkt ! Suc 0 = 0x42" and "pkt ! 2 = ucast v" and "pkt ! 3 = ucast pr"
    and "ntohs host (load16 host pkt 6) = ucast e"
    and "ntohll host (load64 host pkt 8) = t"
  by (simp_all add: pkt_def lb_layout_def load16_def load64_def byte_simps)

lemma re_fields_old:
  fixes rest :: bytes and f k :: bool and off :: u32 and t :: u64 and v :: i32 and d :: u16
  defines "pkt \<equiv> re_layout_old f k t off v d @ rest"
  shows "high_nibble (pkt ! 0) = v AND 0xf"
    and "pkt ! Suc 0 = push_bit 1 (of_bool f) + of_bool k"
    and "ntohs host (load16 host pkt 2) = d"
    and "ntohl host (load32 host pkt 4) = off"
    and "ntohll host (load64 host pkt 8) = t"
  by (simp_all add: pkt_def re_layout_old_def load16_def load32_def load64_def byte_simps
      version_nibble)

lemma drop_writer: "p \<le> length buf \<Longrightarrow> drop p (overwrite buf p bs) = bs @ drop (p + length bs) buf"
  by (simp add: overwrite_def min_def)

section \<open>Properties\<close>

text \<open>
  C15: a version 2 reassembly header written on one host and parsed on another, whatever
  their byte orders, gives back the data id, offset, length and tick, the low four bits of
  the version and, in the structure overload, the low byte of the reserved field.
\<close>

theorem re_header_roundtrip:
  assumes "p \<le> length buf"
  shows "parseReHeader receiver (drop p (setReMetadata_reserved sender buf p off l t v d r))
           = (v AND 0xf, d, off, l, t)
       \<and> parseReHeader_struct receiver (drop p (setReMetadata_reserved sender buf p off l t v d r)) (Some h)
           = Some \<lparr>re_version = ucast v AND 0xf, re_reserved = r AND 0xff, re_dataId = d,
                   re_offset = off, re_length = l, re_tick = t\<rparr>"
  using assms
  by (cases h) (simp add: layout_simps drop_writer parseReHeader_struct_def parseReHeader_def
      re_fields nibble_byte reserved_byte)

theorem re_header_roundtrip_witness:
  "0 \<le> length (replicate 20 (0 :: u8)) \<and>
   parseReHeader ENDIAN_BIG (drop 0 (setReMetadata_reserved ENDIAN_LITTLE (replicate 20 0) 0
      9000 25000 77 2 5 300)) = (2, 5, 9000, 25000, 77)"
  using re_header_roundtrip [of 0 "replicate 20 0" ENDIAN_BIG ENDIAN_LITTLE 9000 25000 77 2 5 300]
  by simp

text \<open>
  A load balancer header written at any position is recognised by \<open>parseLbHeader\<close> on
  any host, which returns the low bytes of version and protocol, the low half of entropy
  and the whole tick; \<open>readLbHeader\<close> returns the same fields.
\<close>

theorem lb_header_roundtrip:
  assumes "p \<le> length buf"
  shows "parseLbHeader receiver (drop p (setLbMetadata sender buf p t v pr e))
           = Inr (0x4C, 0x42, v AND 0xff, pr AND 0xff, e AND 0xffff, t)
       \<and> readLbHeader receiver (drop p (setLbMetadata sender buf p t v pr e))
           = (0x4C, 0x42, v AND 0xff, pr AND 0xff, e AND 0xffff, t)"
  using assms
  by (simp add: layout_simps drop_writer parseLbHeader_def readLbHeader_def lb_fields
      ucast_byte ucast_half)

theorem lb_header_roundtrip_witness:
  "1 \<le> length [7 :: u8, 0] \<and>
   parseLbHeader ENDIAN_LITTLE (drop 1 (setLbMetadata ENDIAN_LITTLE [7, 0] 1 123456789 2 1 65537))
     = Inr (0x4C, 0x42, 2, 1, 1, 123456789)"
  using lb_header_roundtrip [of 1 "[7, 0]" ENDIAN_LITTLE ENDIAN_LITTLE 123456789 2 1 65537]
  by simp

text \<open>
  A version 1 reassembly header keeps its first and last bits, data id, sequence number
  and tick through \<open>setReMetadataOld\<close> and \<open>parseReHeaderOld\<close>, and the low four bits
  of the version.
\<close>

theorem re_header_old_roundtrip:
  assumes "p \<le> length buf"
  shows "parseReHeaderOld receiver (drop p (setReMetadataOld sender buf p f k t off v d))
           = (v AND 0xf, f, k, d, off, t)"
  using assms
  by (simp add: layout_simps drop_writer parseReHeaderOld_def re_fields_old first_last_bits)

theorem re_header_old_roundtrip_witness:
  "0 \<le> length ([] :: bytes) \<and>
   parseReHeaderOld ENDIAN_LITTLE (drop 0 (setReMetadataOld ENDIAN_BIG [] 0 False True 9 3 1 4))
     = (1, False, True, 4, 3, 9)"
  using re_header_old_roundtrip [of 0 "[]" ENDIAN_LITTLE ENDIAN_BIG False True 9 3 1 4]
  by simp

end
