(* ===== verification/Packetize.thy ===== *)
theory Packetize
  imports Packet_Headers
begin

text \<open>
  The senders of ejfat_packetize.hpp: each cuts a buffer into packets of at most
  \<open>maxUdpPayload\<close> data bytes, puts the headers in front and hands the packets to the
  socket, retrying with a payload smaller by a fifth while the very first packet is refused
  as too long. The kernel is a parameter: \<open>sock c i p\<close> is what call number \<open>i\<close> of the
  system call \<open>c\<close> answers to packet \<open>p\<close>. One iteration of each source loop is a
  step function; \<open>run\<close> iterates it with fuel.
\<close>

section \<open>Socket and arguments\<close>

datatype errno = EMSGSIZE | EFAULT | EOTHER

datatype send_call = CallSend | CallSendto | CallSendmsg

datatype send_res = Sent nat | SendErr errno

type_synonym socket = "send_call \<Rightarrow> nat \<Rightarrow> bytes \<Rightarrow> send_res"

text \<open>The arguments no sender changes.\<close>

record send_args =
  sa_tick :: u64
  sa_protocol :: i32
  sa_entropy :: i32
  sa_version :: i32
  sa_dataId :: u16
  sa_fullLen :: u32
  sa_delay :: u32
  sa_delayPrescale :: u32
  sa_firstBuffer :: bool
  sa_lastBuffer :: bool
  sa_direct :: bool
  sa_noConnect :: bool
  sa_reserved :: i32

text \<open>
  The local variables of the sending loops, the number of system calls made and the packets
  the socket has taken. \<open>localOffset\<close> is \<open>packetCounter\<close> in the version 1 senders;
  \<open>pbuf\<close> is the local packet array as far as it has been written.
\<close>

record send_state =
  maxUdpPayload :: i32
  localOffset :: u32
  remainingBytes :: u64
  getDataFrom :: nat
  totalDataBytesSent :: u64
  sentPackets :: int
  delayCounter :: u32
  veryFirstPacket :: bool
  veryLastPacket :: bool
  firstLoop :: bool
  pbuf :: bytes
  calls :: nat
  wire :: "bytes list"

definition PACKET_STORAGE :: nat where "PACKET_STORAGE = 65536"

text \<open>\<open>maxUdpPayload * 8 / 10\<close> in int arithmetic.\<close>

definition reducePayload :: "i32 \<Rightarrow> i32" where
  "reducePayload m = word_of_int (sint (m * 8) sdiv 10)"

text \<open>\<open>dataLen > maxUdpPayload ? maxUdpPayload : dataLen\<close>, compared as \<open>size_t\<close>.\<close>

definition bytesToWrite :: "u64 \<Rightarrow> i32 \<Rightarrow> u64" where
  "bytesToWrite rem m = (if rem > scast m then scast m else rem)"

text \<open>The delay counter after one packet; the sleep itself has no effect on the state.\<close>

definition delayTick :: "u32 \<Rightarrow> u32 \<Rightarrow> u32 \<Rightarrow> u32" where
  "delayTick delay prescale c =
     (if delay > 0 then (if c - 1 < 1 then prescale else c - 1) else c)"

section \<open>Version 2 header, copying: sendPacketizedBufferSendNew\<close>

text \<open>The header sizes: without the load balancer header when packets bypass it.\<close>

definition lbHeaderSize :: "send_args \<Rightarrow> nat" where
  "lbHeaderSize a = (if sa_direct a then 0 else LB_HEADER_BYTES)"

definition headerSize :: "send_args \<Rightarrow> nat" where
  "headerSize a = (if sa_direct a then RE_HEADER_BYTES else HEADER_BYTES)"

text \<open>
  The packet array after both headers and \<open>n\<close> bytes of data have been written into it.
\<close>

definition fillPacket ::
  "byte_order \<Rightarrow> send_args \<Rightarrow> bytes \<Rightarrow> u32 \<Rightarrow> bytes \<Rightarrow> bytes" where
  "fillPacket host a buffer off d =
    (let b = (if sa_direct a then buffer
              else setLbMetadata host buffer 0 (sa_tick a) (sa_version a) (sa_protocol a)
                     (sa_entropy a));
         b = setReMetadata_reserved host b (lbHeaderSize a) off (sa_fullLen a)
               (sa_tick a) (sa_version a) (sa_dataId a) (sa_reserved a)
     in overwrite b (headerSize a) d)"

text \<open>The updates after a packet has been taken, shared by the copying senders.\<close>

definition afterSend :: "u32 \<Rightarrow> u64 \<Rightarrow> u32 \<Rightarrow> bytes \<Rightarrow> send_state \<Rightarrow> send_state" where
  "afterSend off n dc pkt st =
     st\<lparr>sentPackets := sentPackets st + 1,
        delayCounter := dc,
        localOffset := off,
        totalDataBytesSent := totalDataBytesSent st + n,
        remainingBytes := remainingBytes st - n,
        getDataFrom := getDataFrom st + unat n,
        veryFirstPacket := False,
        wire := wire st @ [pkt]\<rparr>"

definition sendNew_step ::
  "byte_order \<Rightarrow> socket \<Rightarrow> send_args \<Rightarrow> bytes \<Rightarrow> send_state \<Rightarrow> send_state ctl" where
  "sendNew_step host sock a dataBuffer st =
    (if \<not> (firstLoop st \<or> remainingBytes st > 0) then Ret 0 st
     else
      let n = bytesToWrite (remainingBytes st) (maxUdpPayload st);
          veryLast = (veryLastPacket st \<or> n = remainingBytes st \<and> sa_lastBuffer a)
      in
       if headerSize a + unat n > PACKET_STORAGE \<or> getDataFrom st + unat n > length dataBuffer
       then Trap
       else
        let b = fillPacket host a (pbuf st) (localOffset st)
                  (take (unat n) (drop (getDataFrom st) dataBuffer));
            pkt = take (headerSize a + unat n) b;
            st = st\<lparr>firstLoop := False, veryLastPacket := veryLast, pbuf := b,
                    calls := calls st + 1\<rparr>
        in
         (case sock (if sa_noConnect a then CallSendto else CallSend) (calls st) pkt of
            SendErr e \<Rightarrow>
              if e = EMSGSIZE \<and> veryFirstPacket st
              then Again (st\<lparr>maxUdpPayload := reducePayload (maxUdpPayload st),
                             veryLastPacket := False\<rparr>)
              else Ret (-1) st
          | Sent _ \<Rightarrow>
              Again (afterSend (localOffset st + ucast n) n
                      (delayTick (sa_delay a) (sa_delayPrescale a) (delayCounter st)) pkt st)))"

text \<open>The state on entry: \<open>*offset\<close>, \<open>*delayCounter\<close> and \<open>dataLen\<close> come from the caller.\<close>

definition send_init :: "send_args \<Rightarrow> u64 \<Rightarrow> i32 \<Rightarrow> u32 \<Rightarrow> u32 \<Rightarrow> send_state" where
  "send_init a dataLen maxPayload off dc =
    \<lparr>maxUdpPayload = maxPayload, localOffset = off, remainingBytes = dataLen,
     getDataFrom = 0, totalDataBytesSent = 0, sentPackets = 0, delayCounter = dc,
     veryFirstPacket = sa_firstBuffer a, veryLastPacket = False, firstLoop = True,
     pbuf = [], calls = 0, wire = []\<rparr>"

text \<open>
  What a sender leaves behind: the return value, \<open>*offset\<close> (written on success only),
  \<open>*packetsSent\<close>, \<open>*delayCounter\<close>, and the packets on the wire.
\<close>

record send_result =
  ret :: int
  out_offset :: u32
  out_packetsSent :: int
  out_delayCounter :: u32
  out_wire :: "bytes list"

definition send_finish :: "u32 \<Rightarrow> send_state ctl option \<Rightarrow> send_result option" where
  "send_finish off r =
    (case r of
       Some (Ret c st) \<Rightarrow>
         Some \<lparr>ret = c, out_offset = (if c = 0 then localOffset st else off),
               out_packetsSent = sentPackets st, out_delayCounter = delayCounter st,
               out_wire = wire st\<rparr>
     | _ \<Rightarrow> None)"

definition sendPacketizedBufferSendNew ::
  "nat \<Rightarrow> byte_order \<Rightarrow> socket \<Rightarrow> send_args \<Rightarrow> bytes \<Rightarrow> u64 \<Rightarrow> i32 \<Rightarrow> u32 \<Rightarrow> u32 \<Rightarrow> send_result option"
  where
  "sendPacketizedBufferSendNew fuel host sock a dataBuffer dataLen maxPayload off dc =
     send_finish off (run fuel (sendNew_step host sock a dataBuffer)
                            (send_init a dataLen maxPayload off dc))"

text \<open>The overload without \<open>reserved\<close>, \<open>noConnect\<close> and a destination.\<close>

definition sendPacketizedBufferSendNew_default ::
  "nat \<Rightarrow> byte_order \<Rightarrow> socket \<Rightarrow> send_args \<Rightarrow> bytes \<Rightarrow> u64 \<Rightarrow> i32 \<Rightarrow> u32 \<Rightarrow> u32 \<Rightarrow> send_result option"
  where
  "sendPacketizedBufferSendNew_default fuel host sock a dataBuffer dataLen maxPayload off dc =
     sendPacketizedBufferSendNew fuel host sock (a\<lparr>sa_noConnect := False, sa_reserved := 0\<rparr>)
       dataBuffer dataLen maxPayload off dc"

section \<open>The contract of a sending loop\<close>

text \<open>
  What the loops share. In a state that satisfies \<open>inv\<close>, \<open>rest\<close> is the data still to be
  sent, \<open>hdr\<close> what the next header will say and \<open>fresh\<close> that the loop body has not
  run; one step sends one piece. The conclusion is proved once: the loop ends with 0 and has
  put exactly the packets of the pieces on the wire.
\<close>

locale chunk_sender =
  fixes step :: "'s \<Rightarrow> 's ctl"
    and inv :: "'s \<Rightarrow> bool"
    and fresh :: "'s \<Rightarrow> bool"
    and rest :: "'s \<Rightarrow> bytes"
    and hdr :: "'s \<Rightarrow> 'h"
    and sent :: "'s \<Rightarrow> bytes list"
    and m :: nat
    and mk :: "'h \<Rightarrow> bool \<Rightarrow> bytes \<Rightarrow> bytes"
    and adv :: "'h \<Rightarrow> bytes \<Rightarrow> 'h"
  assumes m_pos: "inv s \<Longrightarrow> 0 < m"
    and stop: "inv s \<Longrightarrow> \<not> fresh s \<Longrightarrow> rest s = [] \<Longrightarrow> step s = Ret 0 s"
    and send_piece: "inv s \<Longrightarrow> fresh s \<or> rest s \<noteq> [] \<Longrightarrow>
      \<exists>s'. step s = Again s' \<and> inv s' \<and> \<not> fresh s' \<and> rest s' = drop m (rest s)
         \<and> hdr s' = adv (hdr s) (take m (rest s))
         \<and> sent s' = sent s @ [mk (hdr s) (length (rest s) \<le> m) (take m (rest s))]"
begin

lemma sends_all:
  assumes "inv s" and "fresh s \<or> rest s \<noteq> []"
  shows "\<exists>s'. run (Suc (length (chunks m (rest s)))) step s = Some (Ret 0 s') \<and> inv s'
    \<and> sent s' = sent s @ emit mk adv (hdr s) (chunks m (rest s))
    \<and> hdr s' = fold (\<lambda>c h. adv h c) (chunks m (rest s)) (hdr s)"
  using assms
proof (induction "length (rest s)" arbitrary: s rule: less_induct)
  case less
  obtain s1 where s1: "step s = Again s1" "inv s1" "\<not> fresh s1" "rest s1 = drop m (rest s)"
    "hdr s1 = adv (hdr s) (take m (rest s))"
    "sent s1 = sent s @ [mk (hdr s) (length (rest s) \<le> m) (take m (rest s))]"
    using send_piece [OF less.prems] by blast
  show ?case
  proof (cases "length (rest s) \<le> m")
    case True
    then have "step s1 = Ret 0 s1" using s1 stop by simp
    with True s1 show ?thesis by (simp add: chunks_last run.simps)
  next
    case False
    have m: "0 < m" using less.prems(1) by (rule m_pos)
    have lt: "length (rest s1) < length (rest s)" and ne: "rest s1 \<noteq> []"
      using False m s1(4) by auto
    have "\<exists>s'. run (Suc (length (chunks m (rest s1)))) step s1 = Some (Ret 0 s') \<and> inv s'
        \<and> sent s' = sent s1 @ emit mk adv (hdr s1) (chunks m (rest s1))
        \<and> hdr s' = fold (\<lambda>c h. adv h c) (chunks m (rest s1)) (hdr s1)"
      by (rule less.hyps [OF lt s1(2)]) (use ne in simp)
    moreover have "chunks m (rest s) = take m (rest s) # chunks m (rest s1)"
      using False m s1(4) by (simp add: chunks_step)
    ultimately show ?thesis
      using s1 False by (auto simp: run.simps(2) [of _ step s])
  qed
qed

end

section \<open>The copying sender meets the contract\<close>

lemma unat_bytesToWrite:
  "0 \<le> sint m \<Longrightarrow> unat (bytesToWrite rem m) = min (unat rem) (unat m)"
  by (auto simp: bytesToWrite_def unat_scast_nonneg word_less_nat_alt min_def)

text \<open>The socket takes every packet of at most \<open>L\<close> bytes.\<close>

definition accepts :: "nat \<Rightarrow> socket \<Rightarrow> bool" where
  "accepts L sock \<longleftrightarrow> (\<forall>c i p. length p \<le> L \<longrightarrow> (\<exists>k. sock c i p = Sent k))"

text \<open>The version 2 packet of a piece: headers as laid out on the wire, then the data.\<close>

definition header_new :: "send_args \<Rightarrow> u32 \<Rightarrow> bytes" where
  "header_new a off =
     (if sa_direct a then []
      else lb_layout (sa_tick a) (sa_version a) (sa_protocol a) (sa_entropy a))
     @ re_layout off (sa_fullLen a) (sa_tick a) (sa_version a) (sa_dataId a) (sa_reserved a)"

definition packet_new :: "send_args \<Rightarrow> u32 \<Rightarrow> bool \<Rightarrow> bytes \<Rightarrow> bytes" where
  "packet_new a off final c = header_new a off @ c"

definition advance_new :: "u32 \<Rightarrow> bytes \<Rightarrow> u32" where
  "advance_new off c = off + of_nat (length c)"

lemma length_header_new [simp]: "length (header_new a off) = headerSize a"
  by (simp add: header_new_def headerSize_def size_defs)

definition sn_rest :: "bytes \<Rightarrow> send_state \<Rightarrow> bytes" where
  "sn_rest dataBuffer st = take (unat (remainingBytes st)) (drop (getDataFrom st) dataBuffer)"

definition sn_inv ::
  "nat \<Rightarrow> i32 \<Rightarrow> u32 \<Rightarrow> socket \<Rightarrow> send_args \<Rightarrow> bytes \<Rightarrow> send_state \<Rightarrow> bool" where
  "sn_inv L mp dc sock a dataBuffer st \<longleftrightarrow>
     accepts L sock \<and> maxUdpPayload st = mp \<and> 0 < sint mp
     \<and> sentPackets st = int (length (wire st))
     \<and> delayCounter st = (delayTick (sa_delay a) (sa_delayPrescale a) ^^ length (wire st)) dc
     \<and> headerSize a + min (unat (remainingBytes st)) (unat mp) \<le> L
     \<and> headerSize a + min (unat (remainingBytes st)) (unat mp) \<le> PACKET_STORAGE
     \<and> getDataFrom st + unat (remainingBytes st) \<le> length dataBuffer"

lemma take_fillPacket:
  "length d = n \<Longrightarrow> take (headerSize a + n) (fillPacket host a b off d) = header_new a off @ d"
  by (auto simp: fillPacket_def Let_def header_new_def headerSize_def lbHeaderSize_def size_defs
      layout_simps mem_simps)

lemma unat_gt_0_word: "0 < (w :: 'a::len word) \<longleftrightarrow> 0 < unat w"
  by (simp add: word_less_nat_alt)

lemma sn_stop:
  assumes "sn_inv L mp dc sock a d s" and "\<not> firstLoop s" and "sn_rest d s = []"
  shows "sendNew_step host sock a d s = Ret 0 s"
proof -
  have "unat (remainingBytes s) = 0"
    using assms by (auto simp: sn_inv_def sn_rest_def)
  then show ?thesis
    using assms(2) by (simp add: sendNew_step_def unat_gt_0_word)
qed

lemma sn_send_piece:
  assumes inv: "sn_inv L mp dc sock a d s" and go: "firstLoop s \<or> sn_rest d s \<noteq> []"
  shows "\<exists>s'. sendNew_step host sock a d s = Again s' \<and> sn_inv L mp dc sock a d s'
     \<and> \<not> firstLoop s' \<and> sn_rest d s' = drop (unat mp) (sn_rest d s)
     \<and> localOffset s' = advance_new (localOffset s) (take (unat mp) (sn_rest d s))
     \<and> wire s' = wire s @ [packet_new a (localOffset s) (length (sn_rest d s) \<le> unat mp)
                                     (take (unat mp) (sn_rest d s))]"
proof -
  define n where "n = bytesToWrite (remainingBytes s) (maxUdpPayload s)"
  have un: "unat n = min (unat (remainingBytes s)) (unat mp)"
    using inv by (simp add: n_def sn_inv_def unat_bytesToWrite)
  have len: "length (sn_rest d s) = unat (remainingBytes s)"
    using inv by (auto simp: sn_rest_def sn_inv_def min_def)
  have piece: "take (unat n) (drop (getDataFrom s) d) = take (unat mp) (sn_rest d s)"
    by (simp add: un sn_rest_def min.commute)
  have lenp: "length (take (unat mp) (sn_rest d s)) = unat n"
    by (simp add: len un)
  have guard: "firstLoop s \<or> remainingBytes s > 0"
    using go len by (auto simp: unat_gt_0_word)
  have room: "\<not> (headerSize a + unat n > PACKET_STORAGE \<or> getDataFrom s + unat n > length d)"
    using inv by (auto simp: sn_inv_def un min_def)
  define pkt where "pkt = header_new a (localOffset s) @ take (unat mp) (sn_rest d s)"
  have "length pkt \<le> L"
    using inv unfolding pkt_def length_append length_header_new lenp
    by (simp add: sn_inv_def un)
  then obtain k where k: "sock (if sa_noConnect a then CallSendto else CallSend) (calls s + 1) pkt = Sent k"
    using inv unfolding sn_inv_def accepts_def by blast
  define b where "b = fillPacket host a (pbuf s) (localOffset s) (take (unat mp) (sn_rest d s))"
  have step: "sendNew_step host sock a d s = Again (afterSend (localOffset s + ucast n) n
      (delayTick (sa_delay a) (sa_delayPrescale a) (delayCounter s)) pkt
      (s\<lparr>firstLoop := False,
         veryLastPacket := (veryLastPacket s \<or> n = remainingBytes s \<and> sa_lastBuffer a),
         pbuf := b, calls := calls s + 1\<rparr>))"
    using guard room k
    by (simp add: sendNew_step_def Let_def n_def [symmetric] piece take_fillPacket [OF lenp]
        pkt_def [symmetric] b_def)
  have le: "n \<le> remainingBytes s" by (simp add: word_le_nat_alt un)
  have rem: "unat (remainingBytes s - n) = unat (remainingBytes s) - unat n"
    using le by (simp add: unat_sub)
  have off: "(of_nat (unat n) :: u32) = ucast n"
    by simp
  have fits: "headerSize a + min (unat (remainingBytes s) - unat n) (unat mp) \<le> L"
      "headerSize a + min (unat (remainingBytes s) - unat n) (unat mp) \<le> PACKET_STORAGE"
    using inv by (auto simp: sn_inv_def min_def split: if_splits)
  define s' where "s' = afterSend (localOffset s + ucast n) n
      (delayTick (sa_delay a) (sa_delayPrescale a) (delayCounter s)) pkt
      (s\<lparr>firstLoop := False,
         veryLastPacket := (veryLastPacket s \<or> n = remainingBytes s \<and> sa_lastBuffer a),
         pbuf := b, calls := calls s + 1\<rparr>)"
  have "sn_inv L mp dc sock a d s'"
    using inv fits un by (auto simp: s'_def sn_inv_def afterSend_def rem)
  moreover have "sn_rest d s' = drop (unat mp) (sn_rest d s)"
    by (simp add: s'_def sn_rest_def afterSend_def rem un drop_take window_advance add.commute)
  moreover have "localOffset s' = advance_new (localOffset s) (take (unat mp) (sn_rest d s))"
    by (simp only: advance_new_def lenp off) (simp add: s'_def afterSend_def)
  moreover have "\<not> firstLoop s'"
    and "wire s' = wire s @ [packet_new a (localOffset s) (length (sn_rest d s) \<le> unat mp)
                                     (take (unat mp) (sn_rest d s))]"
    by (simp_all add: s'_def afterSend_def pkt_def packet_new_def)
  moreover have "sendNew_step host sock a d s = Again s'"
    using step by (simp only: s'_def)
  ultimately show ?thesis by (intro exI [of _ s'] conjI)
qed

text \<open>The copying sender as an instance of the contract.\<close>

interpretation sendNew: chunk_sender
  "sendNew_step host sock a d" "sn_inv L mp dc sock a d" firstLoop "sn_rest d" localOffset wire
  "unat mp" "packet_new a" advance_new
  for host sock a d L mp dc
proof
  show "sn_inv L mp dc sock a d s \<Longrightarrow> 0 < unat mp" for s
    by (simp add: sn_inv_def sint_pos_unat)
  show "sn_inv L mp dc sock a d s \<Longrightarrow> \<not> firstLoop s \<Longrightarrow> sn_rest d s = [] \<Longrightarrow>
      sendNew_step host sock a d s = Ret 0 s" for s
    by (rule sn_stop)
  show "sn_inv L mp dc sock a d s \<Longrightarrow> firstLoop s \<or> sn_rest d s \<noteq> [] \<Longrightarrow>
      \<exists>s'. sendNew_step host sock a d s = Again s' \<and> sn_inv L mp dc sock a d s' \<and> \<not> firstLoop s'
        \<and> sn_rest d s' = drop (unat mp) (sn_rest d s)
        \<and> localOffset s' = advance_new (localOffset s) (take (unat mp) (sn_rest d s))
        \<and> wire s' = wire s @ [packet_new a (localOffset s) (length (sn_rest d s) \<le> unat mp)
                                         (take (unat mp) (sn_rest d s))]" for s
    by (rule sn_send_piece)
qed

lemma fold_advance_new: "fold (\<lambda>c h. advance_new h c) cs off = off + of_nat (length (concat cs))"
  by (induction cs arbitrary: off) (simp_all add: advance_new_def)

text \<open>What a completed sender reports, in one place for all the senders.\<close>

definition sent_ok :: "send_args \<Rightarrow> u32 \<Rightarrow> u32 \<Rightarrow> bytes list \<Rightarrow> send_result" where
  "sent_ok a off dc ps =
     \<lparr>ret = 0, out_offset = off, out_packetsSent = int (length ps),
      out_delayCounter = (delayTick (sa_delay a) (sa_delayPrescale a) ^^ length ps) dc,
      out_wire = ps\<rparr>"

lemma sn_run:
  assumes inv: "sn_inv L mp dc sock a d s" and go: "firstLoop s \<or> sn_rest d s \<noteq> []"
    and fuel: "length (chunks (unat mp) (sn_rest d s)) < fuel"
    and start: "wire s = []"
  shows "send_finish off (run fuel (sendNew_step host sock a d) s)
     = Some (sent_ok a (localOffset s + of_nat (length (sn_rest d s))) dc
              (emit (packet_new a) advance_new (localOffset s) (chunks (unat mp) (sn_rest d s))))"
proof -
  obtain s' where s': "run (Suc (length (chunks (unat mp) (sn_rest d s)))) (sendNew_step host sock a d) s
        = Some (Ret 0 s')" "sn_inv L mp dc sock a d s'"
      "wire s' = emit (packet_new a) advance_new (localOffset s) (chunks (unat mp) (sn_rest d s))"
      "localOffset s' = localOffset s + of_nat (length (sn_rest d s))"
    using sendNew.sends_all [OF inv go, of host] start by (auto simp: fold_advance_new)
  have "run fuel (sendNew_step host sock a d) s = Some (Ret 0 s')"
    using run_more_fuel [OF s'(1)] fuel by simp
  with s'(2-4) show ?thesis
    by (simp add: send_finish_def sent_ok_def sn_inv_def)
qed

lemma sn_inv_init:
  assumes "accepts L sock" and "0 < sint mp" and "headerSize a + min (length d) (unat mp) \<le> L"
    and "headerSize a + min (length d) (unat mp) \<le> PACKET_STORAGE" and "unat dataLen = length d"
  shows "sn_inv L mp dc sock a d (send_init a dataLen mp off dc)"
    and "sn_rest d (send_init a dataLen mp off dc) = d"
  using assms by (auto simp: sn_inv_def send_init_def sn_rest_def)

lemma sendNew_sends:
  assumes "accepts L sock" and "0 < sint mp" and "headerSize a + min (length d) (unat mp) \<le> L"
    and "headerSize a + min (length d) (unat mp) \<le> PACKET_STORAGE" and "unat dataLen = length d"
    and "length (chunks (unat mp) d) < fuel"
  shows "sendPacketizedBufferSendNew fuel host sock a d dataLen mp off dc
    = Some (sent_ok a (off + of_nat (length d)) dc
             (emit (packet_new a) advance_new off (chunks (unat mp) d)))"
  using sn_run [OF sn_inv_init(1) [OF assms(1-5)], where fuel = fuel and host = host] assms(6)
  by (simp add: sendPacketizedBufferSendNew_def sn_inv_init(2) [OF assms(1-5)])
     (simp add: send_init_def)

text \<open>
  C9: when the socket takes packets of the chosen size, \<open>sendPacketizedBufferSendNew\<close>
  returns 0 after exactly one packet per piece of the buffer, each packet carrying the
  headers and the offset of its piece, and reports the next offset and the number of
  packets. The pieces are non-empty, no longer than the payload, and make up the buffer.
\<close>

theorem sendNew_packets:
  assumes "accepts L sock" and "0 < sint mp" and "headerSize a + min (length d) (unat mp) \<le> L"
    and "headerSize a + min (length d) (unat mp) \<le> PACKET_STORAGE" and "unat dataLen = length d"
    and "d \<noteq> []" and "length (chunks (unat mp) d) < fuel"
  shows "sendPacketizedBufferSendNew fuel host sock a d dataLen mp off dc
      = Some (sent_ok a (off + of_nat (length d)) dc
               (emit (packet_new a) advance_new off (chunks (unat mp) d)))
    \<and> concat (chunks (unat mp) d) = d
    \<and> (\<forall>c \<in> set (chunks (unat mp) d). c \<noteq> [] \<and> length c \<le> unat mp)"
  using sendNew_sends [OF assms(1-5,7)] chunk_not_Nil [OF _ assms(6)] length_chunk_le
    sint_pos_unat [OF assms(2)] by auto

text \<open>
  A socket with the no-fragment flag set refuses with EMSGSIZE what exceeds the path MTU
  and takes the rest.
\<close>

definition mtu_limited :: "nat \<Rightarrow> socket \<Rightarrow> bool" where
  "mtu_limited L sock \<longleftrightarrow> accepts L sock \<and> (\<forall>c i p. L < length p \<longrightarrow> sock c i p = SendErr EMSGSIZE)"

definition mtu_socket :: "nat \<Rightarrow> socket" where
  "mtu_socket L c i p = (if length p \<le> L then Sent (length p) else SendErr EMSGSIZE)"

lemma mtu_limited_mtu_socket [simp]: "mtu_limited L (mtu_socket L)"
  by (auto simp: mtu_limited_def accepts_def mtu_socket_def)

lemma accepts_mtu_socket [simp]: "accepts L (mtu_socket L)"
  using mtu_limited_mtu_socket by (simp add: mtu_limited_def)

text \<open>Five bytes in packets of two, as the examples below send them.\<close>

definition example_args :: send_args where
  "example_args = \<lparr>sa_tick = 7, sa_protocol = 1, sa_entropy = 0, sa_version = 2, sa_dataId = 3,
     sa_fullLen = 5, sa_delay = 0, sa_delayPrescale = 1, sa_firstBuffer = True,
     sa_lastBuffer = True, sa_direct = False, sa_noConnect = False, sa_reserved = 0\<rparr>"

definition example_data :: bytes where
  "example_data = [1, 2, 3, 4, 5]"

lemma chunks_example: "chunks 2 example_data = [[1, 2], [3, 4], [5]]"
  by (simp add: example_data_def chunks.simps)

lemma length_example [simp]: "length example_data = 5" "headerSize example_args = 36"
    "example_data \<noteq> []" "sa_firstBuffer example_args" "sa_fullLen example_args = 5"
  by (simp_all add: example_data_def example_args_def headerSize_def size_defs)

theorem sendNew_packets_witness:
  "accepts 40 (mtu_socket 40) \<and> length (chunks (unat (2 :: i32)) example_data) < 4
   \<and> sendPacketizedBufferSendNew 4 ENDIAN_LITTLE (mtu_socket 40) example_args example_data 5 2 0 0
     = Some (sent_ok example_args 5 0 [packet_new example_args 0 False [1, 2],
         packet_new example_args 2 False [3, 4], packet_new example_args 4 True [5]])"
  using sendNew_packets [of 40 "mtu_socket 40" 2 example_args example_data 5 4 ENDIAN_LITTLE 0 0]
  by (simp add: chunks_example advance_new_def PACKET_STORAGE_def)

section \<open>Discovering the packet size\<close>

lemma sint_times_8:
  assumes "0 \<le> sint (m :: i32)" and "sint m \<le> 65536"
  shows "sint (m * 8) = sint m * 8"
proof -
  have "sint (m * 8) = signed_take_bit 31 (sint m * 8)"
    using sint_word_ariths(3) [of m 8] by simp
  also have "\<dots> = sint m * 8"
    using assms by (intro signed_take_bit_int_eq_self) auto
  finally show ?thesis .
qed

lemma sint_reducePayload:
  assumes "0 \<le> sint m" and "sint m \<le> 65536"
  shows "sint (reducePayload m) = sint m * 8 div 10"
proof -
  have "reducePayload m = word_of_int (sint m * 8 div 10)"
    using assms by (simp add: reducePayload_def sint_times_8 signed_divide_int_def sgn_if)
  moreover have "signed_take_bit 31 (sint m * 8 div 10) = sint m * 8 div 10"
    using assms by (intro signed_take_bit_int_eq_self) auto
  ultimately show ?thesis
    by (simp add: signed_of_int)
qed

lemma reducePayload_progress:
  assumes "2 \<le> sint m" and "sint m \<le> 65536"
  shows "0 < sint (reducePayload m)" and "sint (reducePayload m) < sint m"
  using assms sint_reducePayload [of m] by auto

lemma sendNew_step_refused:
  assumes "mtu_limited L sock" and "0 < sint (maxUdpPayload s)" and "veryFirstPacket s"
    and "getDataFrom s + unat (remainingBytes s) \<le> length d" and "sn_rest d s \<noteq> []"
    and "headerSize a + unat (maxUdpPayload s) \<le> PACKET_STORAGE"
    and big: "L < headerSize a + min (unat (remainingBytes s)) (unat (maxUdpPayload s))"
  shows "\<exists>b. sendNew_step host sock a d s = Again (s\<lparr>firstLoop := False, pbuf := b,
       calls := calls s + 1, maxUdpPayload := reducePayload (maxUdpPayload s),
       veryLastPacket := False\<rparr>)"
proof -
  define n where "n = bytesToWrite (remainingBytes s) (maxUdpPayload s)"
  have un: "unat n = min (unat (remainingBytes s)) (unat (maxUdpPayload s))"
    using assms(2) by (simp add: n_def unat_bytesToWrite)
  have lenp: "length (take (unat n) (drop (getDataFrom s) d)) = unat n"
    using assms(4) un by auto
  have guard: "firstLoop s \<or> remainingBytes s > 0"
    using assms(5) by (auto simp: unat_gt_0_word sn_rest_def)
  have room: "\<not> (headerSize a + unat n > PACKET_STORAGE \<or> getDataFrom s + unat n > length d)"
    using assms(4,6) by (auto simp: un)
  have "sock c i (header_new a (localOffset s) @ take (unat n) (drop (getDataFrom s) d))
      = SendErr EMSGSIZE" for c i
    using assms(1) big lenp unfolding mtu_limited_def by (simp add: un)
  then show ?thesis
    using guard room assms(3)
    by (auto simp: sendNew_step_def Let_def n_def [symmetric] take_fillPacket [OF lenp])
qed

lemma sn_discovers:
  assumes mtu: "mtu_limited L sock" and L: "headerSize a < L"
    and pos: "0 < sint (maxUdpPayload s)"
    and cap: "headerSize a + unat (maxUdpPayload s) \<le> PACKET_STORAGE"
    and first: "veryFirstPacket s" and w: "wire s = []" "sentPackets s = 0" "delayCounter s = dc"
    and data: "getDataFrom s + unat (remainingBytes s) \<le> length d" "sn_rest d s \<noteq> []"
  shows "\<exists>(mp' :: i32) k. 0 < sint mp' \<and> sint mp' \<le> sint (maxUdpPayload s)
    \<and> headerSize a + min (length (sn_rest d s)) (unat mp') \<le> L
    \<and> send_finish off (run k (sendNew_step host sock a d) s)
      = Some (sent_ok a (localOffset s + of_nat (length (sn_rest d s))) dc
              (emit (packet_new a) advance_new (localOffset s) (chunks (unat mp') (sn_rest d s))))"
  using pos cap first w data
proof (induction "nat (sint (maxUdpPayload s))" arbitrary: s rule: less_induct)
  case less
  let ?mp = "maxUdpPayload s"
  have len: "length (sn_rest d s) = unat (remainingBytes s)"
    using less.prems(7) by (auto simp: sn_rest_def)
  show ?case
  proof (cases "headerSize a + min (unat (remainingBytes s)) (unat ?mp) \<le> L")
    case True
    have inv: "sn_inv L ?mp dc sock a d s"
      using mtu less.prems True by (auto simp: sn_inv_def mtu_limited_def)
    let ?k = "Suc (length (chunks (unat ?mp) (sn_rest d s)))"
    have fin: "send_finish off (run ?k (sendNew_step host sock a d) s)
        = Some (sent_ok a (localOffset s + of_nat (length (sn_rest d s))) dc
            (emit (packet_new a) advance_new (localOffset s) (chunks (unat ?mp) (sn_rest d s))))"
      by (rule sn_run [OF inv _ lessI less.prems(4)]) (use less.prems(8) in simp)
    have "headerSize a + min (length (sn_rest d s)) (unat ?mp) \<le> L" using True len by simp
    with fin less.prems(1) show ?thesis
      by (intro exI [of _ ?mp] exI [of _ ?k] conjI order_refl)
  next
    case False
    then obtain b where step: "sendNew_step host sock a d s = Again (s\<lparr>firstLoop := False,
        pbuf := b, calls := calls s + 1, maxUdpPayload := reducePayload ?mp,
        veryLastPacket := False\<rparr>)" (is "_ = Again ?s'")
      using sendNew_step_refused [OF mtu, of s d a host] less.prems by auto
    have u: "unat ?mp = nat (sint ?mp)"
      using less.prems(1) by (simp add: unat_sint_nonneg)
    have ge2: "2 \<le> sint ?mp"
    proof (rule ccontr)
      assume "\<not> 2 \<le> sint ?mp"
      then have "unat ?mp = 1" using less.prems(1) u by simp
      then show False using False L by simp
    qed
    have le: "sint ?mp \<le> 65536"
      using less.prems(2) u by (simp add: PACKET_STORAGE_def)
    note prog = reducePayload_progress [OF ge2 le]
    have "unat (reducePayload ?mp) \<le> unat ?mp"
      using prog by (simp add: u unat_sint_nonneg)
    then have cap': "headerSize a + unat (maxUdpPayload ?s') \<le> PACKET_STORAGE"
      using less.prems(2) by simp
    have rest': "sn_rest d ?s' = sn_rest d s" by (simp add: sn_rest_def)
    have "\<exists>(mp' :: i32) k. 0 < sint mp' \<and> sint mp' \<le> sint (maxUdpPayload ?s')
      \<and> headerSize a + min (length (sn_rest d ?s')) (unat mp') \<le> L
      \<and> send_finish off (run k (sendNew_step host sock a d) ?s')
        = Some (sent_ok a (localOffset ?s' + of_nat (length (sn_rest d ?s'))) dc
            (emit (packet_new a) advance_new (localOffset ?s') (chunks (unat mp') (sn_rest d ?s'))))"
      by (rule less.hyps [OF _ _ cap']) (use prog less.prems rest' in simp_all)
    then obtain mp' k where mp': "0 < sint (mp' :: i32)" "sint mp' \<le> sint (reducePayload ?mp)"
        "headerSize a + min (length (sn_rest d s)) (unat mp') \<le> L"
        "send_finish off (run k (sendNew_step host sock a d) ?s')
         = Some (sent_ok a (localOffset s + of_nat (length (sn_rest d s))) dc
              (emit (packet_new a) advance_new (localOffset s) (chunks (unat mp') (sn_rest d s))))"
      unfolding rest' by auto
    have "sint mp' \<le> sint ?mp" using mp'(2) prog(2) by simp
    with mp' show ?thesis
      using run_Again [of "sendNew_step host sock a d", OF step, of k]
      by (intro exI [of _ mp'] exI [of _ "Suc k"] conjI) simp_all
  qed
qed

lemma sendNew_finds_mtu:
  assumes "mtu_limited L sock" and "headerSize a < L" and "0 < sint mp"
    and "headerSize a + unat mp \<le> PACKET_STORAGE" and "sa_firstBuffer a"
    and "unat dataLen = length d" and "d \<noteq> []"
  shows "\<exists>(mp' :: i32) k. 0 < sint mp' \<and> sint mp' \<le> sint mp
    \<and> headerSize a + min (length d) (unat mp') \<le> L
    \<and> sendPacketizedBufferSendNew k host sock a d dataLen mp off dc
      = Some (sent_ok a (off + of_nat (length d)) dc
               (emit (packet_new a) advance_new off (chunks (unat mp') d)))"
proof -
  let ?s = "send_init a dataLen mp off dc"
  have rest: "sn_rest d ?s = d" using assms(6) by (simp add: sn_rest_def send_init_def)
  have proj: "maxUdpPayload ?s = mp" "localOffset ?s = off" "veryFirstPacket ?s = sa_firstBuffer a"
      "wire ?s = []" "sentPackets ?s = 0" "delayCounter ?s = dc" "getDataFrom ?s = 0"
      "remainingBytes ?s = dataLen"
    by (simp_all add: send_init_def)
  show ?thesis
    using sn_discovers [of L sock a ?s dc d off host] assms
    unfolding rest proj sendPacketizedBufferSendNew_def by simp
qed

text \<open>
  C10: on a socket that refuses packets above the path MTU with EMSGSIZE, the sender of the
  first buffer of a series ends: it lowers the payload by a fifth until the first packet
  is taken, never to zero, and then sends every byte of the buffer with one payload size
  that fits.
\<close>

theorem sendNew_discovers_mtu:
  assumes "mtu_limited L sock" and "headerSize a < L" and "0 < sint mp"
    and "headerSize a + unat mp \<le> PACKET_STORAGE" and "sa_firstBuffer a"
    and "unat dataLen = length d" and "d \<noteq> []"
  shows "\<exists>(mp' :: i32) k. 0 < sint mp' \<and> sint mp' \<le> sint mp
    \<and> headerSize a + min (length d) (unat mp') \<le> L
    \<and> sendPacketizedBufferSendNew k host sock a d dataLen mp off dc
      = Some (sent_ok a (off + of_nat (length d)) dc
               (emit (packet_new a) advance_new off (chunks (unat mp') d)))"
  by (rule sendNew_finds_mtu [OF assms])

theorem sendNew_discovers_mtu_witness:
  "mtu_limited 38 (mtu_socket 38) \<and>
   (\<exists>(mp' :: i32) k. 0 < sint mp' \<and> sint mp' \<le> 5 \<and> 36 + min 5 (unat mp') \<le> 38
    \<and> sendPacketizedBufferSendNew k ENDIAN_LITTLE (mtu_socket 38) example_args example_data 5 5 0 0
      = Some (sent_ok example_args 5 0
               (emit (packet_new example_args) advance_new 0 (chunks (unat mp') example_data))))"
  using sendNew_discovers_mtu [of 38 "mtu_socket 38" example_args 5 5 example_data ENDIAN_LITTLE 0 0]
  by (simp add: PACKET_STORAGE_def)

end
