(* ===== verification/Packetize_More.thy ===== *)
theory Packetize_More
  imports Packetize
begin

text \<open>
  The other senders of ejfat_packetize.hpp: the copying senders with the version 1 header
  (\<open>sendPacketizedBufferSend\<close>, \<open>Sendto\<close>, \<open>Sendmsg\<close>), the two that write headers into the
  caller's buffer (\<open>Fast\<close>, \<open>FastNew\<close>), the MTU helpers and \<open>sendBuffer\<close>. All of them are
  related to one reference sender without packet storage, \<open>ref_step\<close>: each loop body
  simulates it, so what they put on the wire is proved once.
\<close>

section \<open>Version 1 headers, copying\<close>

definition headersOld :: "byte_order \<Rightarrow> send_args \<Rightarrow> bytes \<Rightarrow> nat \<Rightarrow> u32 \<Rightarrow> bool \<Rightarrow> bool \<Rightarrow> bytes" where
  "headersOld host a buffer p counter isFirst isLast =
     setReMetadataOld host
       (setLbMetadata host buffer p (sa_tick a) (sa_version a) (sa_protocol a) (sa_entropy a))
       (p + LB_HEADER_BYTES) isFirst isLast (sa_tick a) counter (sa_version a) (sa_dataId a)"

text \<open>
  The body shared by \<open>Send\<close> and \<open>Sendto\<close>, which differ in the system call and in whether the
  delay is prescaled. On every error the packet counter is not handed back, so it need not
  be decremented in the state.
\<close>

definition sendOld_step ::
  "send_call \<Rightarrow> bool \<Rightarrow> byte_order \<Rightarrow> socket \<Rightarrow> send_args \<Rightarrow> bytes \<Rightarrow> send_state \<Rightarrow> send_state ctl" where
  "sendOld_step call prescaled host sock a dataBuffer st =
    (if \<not> (firstLoop st \<or> remainingBytes st > 0) then Ret 0 st
     else
      let n = bytesToWrite (remainingBytes st) (maxUdpPayload st);
          veryLast = (veryLastPacket st \<or> n = remainingBytes st \<and> sa_lastBuffer a)
      in
       if HEADER_BYTES_OLD + unat n > PACKET_STORAGE \<or> getDataFrom st + unat n > length dataBuffer
       then Trap
       else
        let b = overwrite (headersOld host a (pbuf st) 0 (localOffset st) (veryFirstPacket st) veryLast)
                  HEADER_BYTES_OLD (take (unat n) (drop (getDataFrom st) dataBuffer));
            pkt = take (HEADER_BYTES_OLD + unat n) b;
            st = st\<lparr>firstLoop := False, veryLastPacket := veryLast, pbuf := b, calls := calls st + 1\<rparr>
        in
         (case sock call (calls st) pkt of
            SendErr e \<Rightarrow>
              if e = EMSGSIZE \<and> veryFirstPacket st
              then Again (st\<lparr>maxUdpPayload := reducePayload (maxUdpPayload st), veryLastPacket := False\<rparr>)
              else Ret (-1) st
          | Sent _ \<Rightarrow>
              Again (afterSend (localOffset st + 1) n
                (if prescaled then delayTick (sa_delay a) (sa_delayPrescale a) (delayCounter st)
                 else delayCounter st) pkt st)))"

definition sendPacketizedBufferSend ::
  "nat \<Rightarrow> byte_order \<Rightarrow> socket \<Rightarrow> send_args \<Rightarrow> bytes \<Rightarrow> u64 \<Rightarrow> i32 \<Rightarrow> u32 \<Rightarrow> u32 \<Rightarrow> send_result option"
  where
  "sendPacketizedBufferSend fuel host sock a dataBuffer dataLen maxPayload off dc =
     send_finish off (run fuel (sendOld_step CallSend True host sock a dataBuffer)
                            (send_init a dataLen maxPayload off dc))"

text \<open>\<open>Sendto\<close> has no delay counter: the one in the state stays at its start.\<close>

definition sendPacketizedBufferSendto ::
  "nat \<Rightarrow> byte_order \<Rightarrow> socket \<Rightarrow> send_args \<Rightarrow> bytes \<Rightarrow> u64 \<Rightarrow> i32 \<Rightarrow> u32 \<Rightarrow> send_result option" where
  "sendPacketizedBufferSendto fuel host sock a dataBuffer dataLen maxPayload off =
     send_finish off (run fuel (sendOld_step CallSendto False host sock a dataBuffer)
                            (send_init a dataLen maxPayload off 0))"

section \<open>Version 1 headers, scatter and gather\<close>

text \<open>\<open>Sendmsg\<close> keeps its byte counts in \<open>int\<close> and hands header and data to the kernel separately.\<close>

record msg_state =
  mm_maxUdpPayload :: i32
  mm_packetCounter :: u32
  mm_remainingBytes :: i32
  mm_totalDataBytesSent :: i32
  mm_getDataFrom :: nat
  mm_sentPackets :: int
  mm_veryFirstPacket :: bool
  mm_veryLastPacket :: bool
  mm_firstLoop :: bool
  mm_headerBuffer :: bytes
  mm_calls :: nat
  mm_wire :: "bytes list"

text \<open>A negative length, or one beyond the data, is outside of what the model describes.\<close>

definition sendmsg_step ::
  "byte_order \<Rightarrow> socket \<Rightarrow> send_args \<Rightarrow> bytes \<Rightarrow> msg_state \<Rightarrow> msg_state ctl" where
  "sendmsg_step host sock a dataBuffer st =
    (if \<not> (mm_firstLoop st \<or> sint (mm_remainingBytes st) > 0) then Ret 0 st
     else
      let n = (if sint (mm_remainingBytes st) > sint (mm_maxUdpPayload st)
               then mm_maxUdpPayload st else mm_remainingBytes st);
          veryLast = (mm_veryLastPacket st \<or> n = mm_remainingBytes st \<and> sa_lastBuffer a)
      in
       if sint n < 0 \<or> mm_getDataFrom st + unat n > length dataBuffer then Trap
       else
        let b = headersOld host a (mm_headerBuffer st) 0 (mm_packetCounter st) (mm_veryFirstPacket st) veryLast;
            pkt = take HEADER_BYTES_OLD b @ take (unat n) (drop (mm_getDataFrom st) dataBuffer);
            st = st\<lparr>mm_firstLoop := False, mm_veryLastPacket := veryLast, mm_headerBuffer := b,
                    mm_calls := mm_calls st + 1\<rparr>
        in
         (case sock CallSendmsg (mm_calls st) pkt of
            SendErr e \<Rightarrow>
              if e = EMSGSIZE \<and> mm_veryFirstPacket st
              then Again (st\<lparr>mm_maxUdpPayload := reducePayload (mm_maxUdpPayload st),
                             mm_veryLastPacket := False\<rparr>)
              else Ret (-1) st
          | Sent _ \<Rightarrow>
              Again (st\<lparr>mm_sentPackets := mm_sentPackets st + 1,
                mm_packetCounter := mm_packetCounter st + 1,
                mm_totalDataBytesSent := mm_totalDataBytesSent st + n,
                mm_remainingBytes := mm_remainingBytes st - n,
                mm_getDataFrom := mm_getDataFrom st + unat n,
                mm_veryFirstPacket := False,
                mm_wire := mm_wire st @ [pkt]\<rparr>)))"

definition msg_init :: "send_args \<Rightarrow> u64 \<Rightarrow> i32 \<Rightarrow> u32 \<Rightarrow> msg_state" where
  "msg_init a dataLen maxPayload off =
    \<lparr>mm_maxUdpPayload = maxPayload, mm_packetCounter = off, mm_remainingBytes = ucast dataLen,
     mm_totalDataBytesSent = 0, mm_getDataFrom = 0, mm_sentPackets = 0,
     mm_veryFirstPacket = sa_firstBuffer a, mm_veryLastPacket = False, mm_firstLoop = True,
     mm_headerBuffer = [], mm_calls = 0, mm_wire = []\<rparr>"

definition sendPacketizedBufferSendmsg ::
  "nat \<Rightarrow> byte_order \<Rightarrow> socket \<Rightarrow> send_args \<Rightarrow> bytes \<Rightarrow> u64 \<Rightarrow> i32 \<Rightarrow> u32 \<Rightarrow> send_result option" where
  "sendPacketizedBufferSendmsg fuel host sock a dataBuffer dataLen maxPayload off =
    (case run fuel (sendmsg_step host sock a dataBuffer) (msg_init a dataLen maxPayload off) of
       Some (Ret c st) \<Rightarrow>
         Some \<lparr>ret = c, out_offset = (if c = 0 then mm_packetCounter st else off),
               out_packetsSent = mm_sentPackets st, out_delayCounter = 0, out_wire = mm_wire st\<rparr>
     | _ \<Rightarrow> None)"

section \<open>Headers written into the data: Fast and FastNew\<close>

text \<open>
  The state is that of the copying senders and the array \<open>mem\<close> that holds the data from
  index \<open>base\<close> on. The first packet is put together in \<open>packetStorage\<close> (\<open>pbuf\<close>); from then on
  \<open>writeHeaderTo\<close> is one header length before the data to be sent.
\<close>

definition headersNew :: "byte_order \<Rightarrow> send_args \<Rightarrow> bytes \<Rightarrow> nat \<Rightarrow> u32 \<Rightarrow> bool \<Rightarrow> bool \<Rightarrow> bytes" where
  "headersNew host a buffer p off isFirst isLast =
     setReMetadata host
       (setLbMetadata host buffer p (sa_tick a) (sa_version a) (sa_protocol a) (sa_entropy a))
       (p + LB_HEADER_BYTES) off (sa_fullLen a) (sa_tick a) (sa_version a) (sa_dataId a)"

type_synonym header_writer = "bytes \<Rightarrow> nat \<Rightarrow> u32 \<Rightarrow> bool \<Rightarrow> bool \<Rightarrow> bytes"

definition fast_step ::
  "nat \<Rightarrow> header_writer \<Rightarrow> (u32 \<Rightarrow> u64 \<Rightarrow> u32) \<Rightarrow> socket \<Rightarrow> send_args \<Rightarrow> nat
    \<Rightarrow> send_state \<times> bytes \<Rightarrow> (send_state \<times> bytes) ctl" where
  "fast_step hl headers nxt sock a base p =
    (let (st, mem) = p in
     if \<not> (firstLoop st \<or> remainingBytes st > 0) then Ret 0 p
     else
      let n = bytesToWrite (remainingBytes st) (maxUdpPayload st);
          veryLast = (veryLastPacket st \<or> n = remainingBytes st \<and> sa_lastBuffer a);
          here = base + getDataFrom st
      in
       if here + unat n > length mem \<or> (if firstLoop st then unat n > 65536 else here < hl)
       then Trap
       else
        let w = here - hl;
            b = (if firstLoop st
                 then overwrite (headers (pbuf st) 0 (localOffset st) (veryFirstPacket st) veryLast) hl
                        (take (unat n) (drop here mem))
                 else pbuf st);
            mem = (if firstLoop st then mem
                   else headers mem w (localOffset st) (veryFirstPacket st) veryLast);
            pkt = (if firstLoop st then take (hl + unat n) b else take (hl + unat n) (drop w mem));
            st = st\<lparr>veryLastPacket := veryLast, pbuf := b, calls := calls st + 1\<rparr>
        in
         (case sock CallSend (calls st) pkt of
            SendErr e \<Rightarrow>
              if e = EMSGSIZE \<and> veryFirstPacket st
              then Again (st\<lparr>maxUdpPayload := reducePayload (maxUdpPayload st), veryLastPacket := False\<rparr>, mem)
              else Ret (-1) (st, mem)
          | Sent _ \<Rightarrow>
              Again (afterSend (nxt (localOffset st) n) n
                       (delayTick (sa_delay a) (sa_delayPrescale a) (delayCounter st)) pkt
                       (st\<lparr>firstLoop := False\<rparr>), mem)))"

text \<open>The result and the caller's array, whose contents have changed.\<close>

definition fast_finish :: "u32 \<Rightarrow> (send_state \<times> bytes) ctl option \<Rightarrow> (send_result \<times> bytes) option" where
  "fast_finish off r =
    (case r of
       Some (Ret c (st, mem)) \<Rightarrow>
         (case send_finish off (Some (Ret c st)) of Some res \<Rightarrow> Some (res, mem) | None \<Rightarrow> None)
     | _ \<Rightarrow> None)"

definition sendPacketizedBufferFastNew ::
  "nat \<Rightarrow> byte_order \<Rightarrow> socket \<Rightarrow> send_args \<Rightarrow> bytes \<Rightarrow> nat \<Rightarrow> u64 \<Rightarrow> i32 \<Rightarrow> u32 \<Rightarrow> u32
    \<Rightarrow> (send_result \<times> bytes) option" where
  "sendPacketizedBufferFastNew fuel host sock a mem base dataLen maxPayload off dc =
     fast_finish off (run fuel (fast_step HEADER_BYTES (headersNew host a) (\<lambda>off n. off + ucast n) sock a base)
                            (send_init a dataLen maxPayload off dc, mem))"

definition sendPacketizedBufferFast ::
  "nat \<Rightarrow> byte_order \<Rightarrow> socket \<Rightarrow> send_args \<Rightarrow> bytes \<Rightarrow> nat \<Rightarrow> u64 \<Rightarrow> i32 \<Rightarrow> u32 \<Rightarrow> u32
    \<Rightarrow> (send_result \<times> bytes) option" where
  "sendPacketizedBufferFast fuel host sock a mem base dataLen maxPayload off dc =
     fast_finish off (run fuel (fast_step HEADER_BYTES_OLD (headersOld host a) (\<lambda>off n. off + 1) sock a base)
                            (send_init a dataLen maxPayload off dc, mem))"

section \<open>MTU and the whole buffer\<close>

text \<open>
  The network interface: \<open>if_get\<close> and \<open>if_set\<close> are the \<open>ioctl\<close> calls that read and set the MTU
  (\<open>None\<close> for failure), \<open>net_socket\<close> and \<open>net_connect\<close> the results of creating and connecting
  the socket for IPv6 or IPv4.
\<close>

record net_env =
  if_get :: "string \<Rightarrow> i32 option"
  if_set :: "string \<Rightarrow> i32 \<Rightarrow> i32 option"
  net_socket :: "bool \<Rightarrow> int"
  net_connect :: "bool \<Rightarrow> string \<Rightarrow> int"

definition getMTU :: "net_env \<Rightarrow> string \<Rightarrow> i32" where
  "getMTU net interfaceName = (case if_get net interfaceName of Some mtu \<Rightarrow> mtu | None \<Rightarrow> 1500)"

text \<open>The MTU in force, -1 if unknown, and whether the no-fragment flag has been set.\<close>

definition setMTU :: "net_env \<Rightarrow> string \<Rightarrow> i32 \<Rightarrow> i32 \<times> bool" where
  "setMTU net interfaceName mtu =
    (let mtu = (if sint mtu < 500 then 500 else mtu);
         mtu = (if sint mtu > int MAX_EJFAT_MTU then of_nat MAX_EJFAT_MTU else mtu)
     in case if_set net interfaceName mtu of
          Some m \<Rightarrow> (m, sint m > 1500)
        | None \<Rightarrow>
           (case if_get net interfaceName of
              Some m \<Rightarrow> (m, sint m > 1500)
            | None \<Rightarrow> (-1, False)))"

definition chooseMtu :: "net_env \<Rightarrow> string \<Rightarrow> i32 \<Rightarrow> i32" where
  "chooseMtu net interface mtu =
    (let mtu = (if mtu = 0 then getMTU net (if interface = [] then ''eth0'' else interface) else mtu)
     in if mtu = 0 then 1400 else mtu)"

text \<open>
  \<open>path\<close> is the connected socket, which may behave differently after \<open>setMTU\<close> has set the MTU
  of the interface and the no-fragment flag. The result is \<open>None\<close> when the fuel did not last or
  the sender left the arrays it was given.
\<close>

definition sendBuffer ::
  "nat \<Rightarrow> byte_order \<Rightarrow> net_env \<Rightarrow> (i32 \<times> bool \<Rightarrow> socket) \<Rightarrow> send_args \<Rightarrow> bytes \<Rightarrow> nat \<Rightarrow> u32 \<Rightarrow> string \<Rightarrow> string \<Rightarrow> i32
    \<Rightarrow> bool \<Rightarrow> bool \<Rightarrow> (int \<times> bytes list) option" where
  "sendBuffer fuel host net path args mem base bufLen hostName interface mtu fast useIPv6 =
    (let hostName = (if hostName = [] then ''127.0.0.1'' else hostName);
         mtu = chooseMtu net interface mtu;
         maxUdpPayload = mtu - 20 - 8 - of_nat HEADER_BYTES_OLD;
         sock = path (setMTU net interface mtu);
         a = args\<lparr>sa_fullLen := bufLen, sa_firstBuffer := True, sa_lastBuffer := True, sa_direct := False\<rparr>
     in
      if net_socket net useIPv6 < 0 then Some (-1, [])
      else if net_connect net useIPv6 hostName < 0 then Some (net_connect net useIPv6 hostName, [])
      else if fast
      then map_option (\<lambda>(res, _). (ret res, out_wire res))
             (sendPacketizedBufferFastNew fuel host sock a mem base (ucast bufLen) maxUdpPayload 0 (sa_delayPrescale args))
      else map_option (\<lambda>res. (ret res, out_wire res))
             (sendPacketizedBufferSendNew_default fuel host sock a (drop base mem) (ucast bufLen) maxUdpPayload 0
                (sa_delayPrescale args)))"

section \<open>The reference sender\<close>

text \<open>
  What a sender does, without the arrays it uses: \<open>hdr\<close> gives the header of the next packet,
  \<open>nxt\<close> the offset or counter after it and \<open>dly\<close> the delay counter.
\<close>

definition ref_step ::
  "nat \<Rightarrow> (u32 \<Rightarrow> bool \<Rightarrow> bool \<Rightarrow> bytes) \<Rightarrow> (u32 \<Rightarrow> u64 \<Rightarrow> u32) \<Rightarrow> (u32 \<Rightarrow> u32) \<Rightarrow> (nat \<Rightarrow> bytes \<Rightarrow> send_res)
    \<Rightarrow> send_args \<Rightarrow> bytes \<Rightarrow> send_state \<Rightarrow> send_state ctl" where
  "ref_step hl hdr nxt dly sendit a d st =
    (if \<not> (firstLoop st \<or> remainingBytes st > 0) then Ret 0 st
     else
      let n = bytesToWrite (remainingBytes st) (maxUdpPayload st);
          veryLast = (veryLastPacket st \<or> n = remainingBytes st \<and> sa_lastBuffer a)
      in
       if hl + unat n > PACKET_STORAGE \<or> getDataFrom st + unat n > length d then Trap
       else
        let pkt = hdr (localOffset st) (veryFirstPacket st) veryLast @ take (unat n) (drop (getDataFrom st) d);
            st = st\<lparr>firstLoop := False, veryLastPacket := veryLast, calls := calls st + 1\<rparr>
        in
         (case sendit (calls st) pkt of
            SendErr e \<Rightarrow>
              if e = EMSGSIZE \<and> veryFirstPacket st
              then Again (st\<lparr>maxUdpPayload := reducePayload (maxUdpPayload st), veryLastPacket := False\<rparr>)
              else Ret (-1) st
          | Sent _ \<Rightarrow> Again (afterSend (nxt (localOffset st) n) n (dly (delayCounter st)) pkt st)))"

definition erased :: "send_state \<Rightarrow> send_state" where
  "erased st = st\<lparr>pbuf := []\<rparr>"

lemma send_finish_sim:
  assumes "rel_option (rel_ctl (\<lambda>s t. t = erased s)) r r'"
  shows "send_finish off r = send_finish off r'"
  using assms by (cases r; cases r'; cases "the r") (auto simp: send_finish_def erased_def elim: ctl.rel_cases)

definition header_old :: "send_args \<Rightarrow> u32 \<Rightarrow> bool \<Rightarrow> bool \<Rightarrow> bytes" where
  "header_old a k f l = lb_layout (sa_tick a) (sa_version a) (sa_protocol a) (sa_entropy a)
     @ re_layout_old f l (sa_tick a) k (sa_version a) (sa_dataId a)"

text \<open>A writer of both headers, and the layout it leaves.\<close>

locale header_layout =
  fixes hl :: nat and headers :: header_writer and hdr :: "u32 \<Rightarrow> bool \<Rightarrow> bool \<Rightarrow> bytes"
  assumes headers_layout: "p \<le> length b \<Longrightarrow> headers b p k f l = overwrite b p (hdr k f l)"
    and hdr_length: "length (hdr k f l) = hl"
begin

lemma storage_packet:
  "length d = n \<Longrightarrow> take (hl + n) (overwrite (headers b 0 k f l) hl d) = hdr k f l @ d"
  by (simp add: headers_layout hdr_length mem_simps)

lemma inplace_packet:
  assumes "hl \<le> q" and "q + n \<le> length mem"
  shows "take (hl + n) (drop (q - hl) (headers mem (q - hl) k f l)) = hdr k f l @ take n (drop q mem)"
    and "drop q (headers mem (q - hl) k f l) = drop q mem"
    and "length (headers mem (q - hl) k f l) = length mem"
proof -
  have w: "headers mem (q - hl) k f l = overwrite mem (q - hl) (hdr k f l)"
    using assms by (intro headers_layout) simp
  show drop: "drop q (headers mem (q - hl) k f l) = drop q mem"
    unfolding w using assms by (intro drop_overwrite) (simp_all add: hdr_length)
  show "length (headers mem (q - hl) k f l) = length mem"
    unfolding w using assms by (simp add: hdr_length)
  show "take (hl + n) (drop (q - hl) (headers mem (q - hl) k f l)) = hdr k f l @ take n (drop q mem)"
    unfolding w overwrite_def using assms by (simp add: hdr_length)
qed

end

text \<open>The fast sender and the reference sender in step.\<close>

definition fast_rel :: "nat \<Rightarrow> nat \<Rightarrow> bytes \<Rightarrow> send_state \<times> bytes \<Rightarrow> send_state \<Rightarrow> bool" where
  "fast_rel hl base d p t = (case p of (s, mem) \<Rightarrow>
     t = s\<lparr>pbuf := [], firstLoop := firstLoop t\<rparr> \<and> (firstLoop t \<longrightarrow> firstLoop s)
     \<and> (firstLoop s \<longrightarrow> getDataFrom s = 0 \<and> 0 < remainingBytes s)
     \<and> 0 \<le> sint (maxUdpPayload s) \<and> hl + unat (maxUdpPayload s) \<le> PACKET_STORAGE
     \<and> hl \<le> base \<and> base + getDataFrom s + unat (remainingBytes s) \<le> length mem
     \<and> getDataFrom s + unat (remainingBytes s) = length d
     \<and> drop (getDataFrom s) d = take (unat (remainingBytes s)) (drop (base + getDataFrom s) mem))"

lemma reducePayload_le:
  assumes "0 \<le> sint m" and "unat m \<le> 65536"
  shows "0 \<le> sint (reducePayload m) \<and> unat (reducePayload m) \<le> unat m"
proof -
  have m: "sint m \<le> 65536" using assms unat_sint_nonneg [OF assms(1)] by simp
  have "sint (reducePayload m) = sint m * 8 div 10" by (rule sint_reducePayload [OF assms(1) m])
  moreover have "0 \<le> sint m * 8 div 10" "sint m * 8 div 10 \<le> sint m" using assms(1) by auto
  ultimately show ?thesis using assms(1) by (simp add: unat_sint_nonneg)
qed

interpretation new_headers: header_layout HEADER_BYTES "headersNew host a" "\<lambda>k f l. header_new (a\<lparr>sa_direct := False, sa_reserved := 0\<rparr>) k"
  for host a
  by unfold_locales (auto simp: headersNew_def header_new_def layout_simps size_defs mem_simps headerSize_def)

interpretation old_headers: header_layout HEADER_BYTES_OLD "headersOld host a" "header_old a"
  for host a
  by unfold_locales (auto simp: headersOld_def header_old_def layout_simps size_defs mem_simps)

context header_layout
begin

lemma fast_sim:
  assumes rel: "fast_rel hl base d p t"
  shows "rel_ctl (fast_rel hl base d) (fast_step hl headers nxt sock a base p)
    (ref_step hl hdr nxt (delayTick (sa_delay a) (sa_delayPrescale a)) (sock CallSend) a d t)"
proof -
  obtain s mem where p: "p = (s, mem)" by fastforce
  define n where "n = bytesToWrite (remainingBytes s) (maxUdpPayload s)"
  define fin where "fin = (veryLastPacket s \<or> n = remainingBytes s \<and> sa_lastBuffer a)"
  define here where "here = base + getDataFrom s"
  define mem' where "mem' = (if firstLoop s then mem
      else headers mem (here - hl) (localOffset s) (veryFirstPacket s) fin)"
  define pkt where "pkt = hdr (localOffset s) (veryFirstPacket s) fin @ take (unat n) (drop (getDataFrom s) d)"
  have t: "t = s\<lparr>pbuf := [], firstLoop := firstLoop t\<rparr>"
    and fl: "firstLoop t \<longrightarrow> firstLoop s" "firstLoop s \<longrightarrow> getDataFrom s = 0 \<and> 0 < remainingBytes s"
    and mp: "0 \<le> sint (maxUdpPayload s)" "hl + unat (maxUdpPayload s) \<le> PACKET_STORAGE"
    and base: "hl \<le> base" "here + unat (remainingBytes s) \<le> length mem"
      "getDataFrom s + unat (remainingBytes s) = length d"
      "drop (getDataFrom s) d = take (unat (remainingBytes s)) (drop here mem)"
    using rel by (simp_all add: p fast_rel_def here_def)
  have ts: "remainingBytes t = remainingBytes s" "maxUdpPayload t = maxUdpPayload s"
    "veryLastPacket t = veryLastPacket s" "getDataFrom t = getDataFrom s" "localOffset t = localOffset s"
    "veryFirstPacket t = veryFirstPacket s" "calls t = calls s" "delayCounter t = delayCounter s"
    by (subst t, simp)+
  have un: "unat n = min (unat (remainingBytes s)) (unat (maxUdpPayload s))"
    using mp(1) by (simp add: n_def unat_bytesToWrite)
  have guard: "(firstLoop s \<or> remainingBytes s > 0) = (firstLoop t \<or> remainingBytes s > 0)" using fl by auto
  have room: "\<not> (here + unat n > length mem \<or> (if firstLoop s then unat n > 65536 else here < hl))"
      "\<not> (hl + unat n > PACKET_STORAGE \<or> getDataFrom s + unat n > length d)"
    using base mp un by (auto simp: here_def PACKET_STORAGE_def)
  have data: "take (unat n) (drop here mem) = take (unat n) (drop (getDataFrom s) d)"
    unfolding base(4) by (simp add: un)
  have len: "length (take (unat n) (drop (getDataFrom s) d)) = unat n" using base(3) un by auto
  have q: "hl \<le> here" "here + unat n \<le> length mem" using base un by (simp_all add: here_def)
  note inplace = inplace_packet [OF q, of "localOffset s" "veryFirstPacket s" fin]
  have kept: "length mem' = length mem" "drop here mem' = drop here mem"
    using inplace(2,3) by (auto simp: mem'_def)
  define b where "b = (if firstLoop s
      then overwrite (headers (pbuf s) 0 (localOffset s) (veryFirstPacket s) fin) hl (take (unat n) (drop here mem))
      else pbuf s)"
  have pkts: "(if firstLoop s then take (hl + unat n) b else take (hl + unat n) (drop (here - hl) mem')) = pkt"
    using storage_packet [OF len] inplace(1) by (simp add: pkt_def b_def mem'_def data)
  let ?s = "s\<lparr>veryLastPacket := fin, pbuf := b, calls := calls s + 1\<rparr>"
  let ?t = "t\<lparr>firstLoop := False, veryLastPacket := fin, calls := calls s + 1\<rparr>"
  let ?dc = "delayTick (sa_delay a) (sa_delayPrescale a) (delayCounter s)"
  have fast: "fast_step hl headers nxt sock a base (s, mem) =
      (if \<not> (firstLoop s \<or> remainingBytes s > 0) then Ret 0 (s, mem)
       else case sock CallSend (calls s + 1) pkt of
            SendErr e \<Rightarrow>
              if e = EMSGSIZE \<and> veryFirstPacket s
              then Again (?s\<lparr>maxUdpPayload := reducePayload (maxUdpPayload s), veryLastPacket := False\<rparr>, mem')
              else Ret (-1) (?s, mem')
          | Sent _ \<Rightarrow> Again (afterSend (nxt (localOffset s) n) n ?dc pkt (?s\<lparr>firstLoop := False\<rparr>), mem'))"
    unfolding fast_step_def Let_def prod.case n_def [symmetric] fin_def [symmetric] here_def [symmetric]
      b_def [symmetric] mem'_def [symmetric] pkts
    by (simp only: room(1) if_False) (simp split: send_res.split)
  have ref: "ref_step hl hdr nxt (delayTick (sa_delay a) (sa_delayPrescale a)) (sock CallSend) a d t =
      (if \<not> (firstLoop t \<or> remainingBytes s > 0) then Ret 0 t
       else case sock CallSend (calls s + 1) pkt of
            SendErr e \<Rightarrow>
              if e = EMSGSIZE \<and> veryFirstPacket s
              then Again (?t\<lparr>maxUdpPayload := reducePayload (maxUdpPayload s), veryLastPacket := False\<rparr>)
              else Ret (-1) ?t
          | Sent _ \<Rightarrow> Again (afterSend (nxt (localOffset s) n) n ?dc pkt ?t))"
    unfolding ref_step_def Let_def ts n_def [symmetric] fin_def [symmetric] pkt_def [symmetric]
    by (simp only: room(2) if_False) (simp add: ts split: send_res.split)
  have red: "0 \<le> sint (reducePayload (maxUdpPayload s)) \<and> hl + unat (reducePayload (maxUdpPayload s)) \<le> PACKET_STORAGE"
    using reducePayload_le [OF mp(1)] mp(2) by (simp add: PACKET_STORAGE_def)
  have tt: "?t = s\<lparr>pbuf := [], firstLoop := False, veryLastPacket := fin, calls := calls s + 1\<rparr>"
    by (subst t) simp
  have le: "n \<le> remainingBytes s" by (simp add: word_le_nat_alt un)
  have rem: "unat (remainingBytes s - n) = unat (remainingBytes s) - unat n" using le by (simp add: unat_sub)
  have still: "drop (getDataFrom s + unat n) d = take (unat (remainingBytes s) - unat n) (drop (here + unat n) mem')"
  proof -
    have "drop (here + unat n) mem' = drop (unat n) (drop here mem')" by (simp add: add.commute)
    then have "drop (here + unat n) mem' = drop (unat n) (drop here mem)" by (simp only: kept)
    moreover have "drop (getDataFrom s + unat n) d = drop (unat n) (drop (getDataFrom s) d)" by (simp add: add.commute)
    ultimately show ?thesis unfolding base(4) by (simp add: drop_take)
  qed
  show ?thesis
  proof (cases "firstLoop s \<or> remainingBytes s > 0")
    case False
    then have "\<not> (firstLoop t \<or> remainingBytes s > 0)" using guard by simp
    then show ?thesis using fast ref False rel by (simp add: p)
  next
    case True
    then have go: "firstLoop t \<or> remainingBytes s > 0" using guard by simp
    show ?thesis
    proof (cases "sock CallSend (calls s + 1) pkt")
      case (SendErr e)
      then show ?thesis
        using True go fl mp base red kept unfolding p fast ref tt
        by (auto simp: fast_rel_def here_def)
    next
      case (Sent k)
      then show ?thesis
        using True go fl mp base kept still rem un unfolding p fast ref tt
        by (auto simp: fast_rel_def here_def afterSend_def add.assoc)
    qed
  qed
qed

end

section \<open>The copying senders in step with the reference\<close>

lemma erased_simps [simp]:
  "remainingBytes (erased s) = remainingBytes s" "maxUdpPayload (erased s) = maxUdpPayload s"
  "veryLastPacket (erased s) = veryLastPacket s" "getDataFrom (erased s) = getDataFrom s"
  "localOffset (erased s) = localOffset s" "veryFirstPacket (erased s) = veryFirstPacket s"
  "calls (erased s) = calls s" "delayCounter (erased s) = delayCounter s" "firstLoop (erased s) = firstLoop s"
  by (simp_all add: erased_def)

lemma sendNew_sim:
  "rel_ctl (\<lambda>s t. t = erased s) (sendNew_step host sock a d s)
     (ref_step (headerSize a) (\<lambda>k f l. header_new a k) (\<lambda>off n. off + ucast n)
        (delayTick (sa_delay a) (sa_delayPrescale a))
        (sock (if sa_noConnect a then CallSendto else CallSend)) a d (erased s))"
proof -
  define n where "n = bytesToWrite (remainingBytes s) (maxUdpPayload s)"
  have "take (headerSize a + unat n) (fillPacket host a (pbuf s) (localOffset s)
        (take (unat n) (drop (getDataFrom s) d)))
      = header_new a (localOffset s) @ take (unat n) (drop (getDataFrom s) d)"
    if "\<not> getDataFrom s + unat n > length d"
    using that by (intro take_fillPacket) simp
  then show ?thesis
    unfolding sendNew_step_def ref_step_def Let_def erased_simps n_def [symmetric]
    by (auto split: send_res.split simp: erased_def afterSend_def)
qed

lemma sendOld_sim:
  "rel_ctl (\<lambda>s t. t = erased s) (sendOld_step call prescaled host sock a d s)
     (ref_step HEADER_BYTES_OLD (header_old a) (\<lambda>off n. off + 1)
        (if prescaled then delayTick (sa_delay a) (sa_delayPrescale a) else id) (sock call) a d (erased s))"
proof -
  define n where "n = bytesToWrite (remainingBytes s) (maxUdpPayload s)"
  have "take (HEADER_BYTES_OLD + unat n) (overwrite (headersOld host a (pbuf s) 0 k f l) HEADER_BYTES_OLD
        (take (unat n) (drop (getDataFrom s) d)))
      = header_old a k f l @ take (unat n) (drop (getDataFrom s) d)"
    if "\<not> getDataFrom s + unat n > length d" for k f l
    using that by (intro old_headers.storage_packet) simp
  then show ?thesis
    unfolding sendOld_step_def ref_step_def Let_def erased_simps n_def [symmetric]
    by (auto split: send_res.split simp: erased_def afterSend_def)
qed

text \<open>\<open>Sendmsg\<close> as long as the counts fit an \<open>int\<close>.\<close>

definition msg_rel :: "bytes \<Rightarrow> msg_state \<Rightarrow> send_state \<Rightarrow> bool" where
  "msg_rel d m t \<longleftrightarrow>
     maxUdpPayload t = mm_maxUdpPayload m \<and> localOffset t = mm_packetCounter m
     \<and> unat (remainingBytes t) = unat (mm_remainingBytes m) \<and> 0 \<le> sint (mm_remainingBytes m)
     \<and> getDataFrom t = mm_getDataFrom m \<and> sentPackets t = mm_sentPackets m
     \<and> veryFirstPacket t = mm_veryFirstPacket m \<and> veryLastPacket t = mm_veryLastPacket m
     \<and> firstLoop t = mm_firstLoop m \<and> calls t = mm_calls m \<and> wire t = mm_wire m
     \<and> 0 \<le> sint (mm_maxUdpPayload m) \<and> HEADER_BYTES_OLD + unat (mm_maxUdpPayload m) \<le> PACKET_STORAGE
     \<and> getDataFrom t + unat (remainingBytes t) = length d \<and> delayCounter t = 0"

lemma sint_less_nonneg: "0 \<le> sint (x :: i32) \<Longrightarrow> 0 \<le> sint (y :: i32) \<Longrightarrow> sint x < sint y \<longleftrightarrow> unat x < unat y"
  using unat_sint_nonneg [of x] unat_sint_nonneg [of y] by auto

lemma nonneg_sub:
  assumes "0 \<le> sint (r :: i32)" and "0 \<le> sint n" and "unat n \<le> unat r"
  shows "0 \<le> sint (r - n) \<and> unat (r - n) = unat r - unat n"
proof -
  have le: "n \<le> r" using assms(3) by (simp add: word_le_nat_alt)
  then have u: "unat (r - n) = unat r - unat n" by (simp add: unat_sub)
  have "unat r < 2 ^ 31" using assms(1) unat_sint_nonneg [OF assms(1)] sint_less [of r] by simp
  then have "uint (r - n) < 2 ^ 31" using u by (simp add: uint_nat)
  moreover have "- (2 ^ 31) \<le> uint (r - n)" by (rule order_trans [OF _ uint_ge_0]) simp
  ultimately have "sint (r - n) = uint (r - n)"
    using signed_take_bit_int_eq_self [of 31 "uint (r - n)"] by (simp add: sint_uint)
  then show ?thesis using u by simp
qed

lemma sendmsg_sim:
  assumes rel: "msg_rel d m t"
  shows "rel_ctl (msg_rel d) (sendmsg_step host sock a d m)
     (ref_step HEADER_BYTES_OLD (header_old a) (\<lambda>off n. off + 1) id (sock CallSendmsg) a d t)"
proof -
  define n where "n = (if sint (mm_remainingBytes m) > sint (mm_maxUdpPayload m)
      then mm_maxUdpPayload m else mm_remainingBytes m)"
  define n' where "n' = bytesToWrite (remainingBytes t) (maxUdpPayload t)"
  define fin where "fin = (mm_veryLastPacket m \<or> n = mm_remainingBytes m \<and> sa_lastBuffer a)"
  note r = rel [unfolded msg_rel_def]
  have un: "unat n = min (unat (mm_remainingBytes m)) (unat (mm_maxUdpPayload m))" "0 \<le> sint n"
    using r by (auto simp: n_def sint_less_nonneg)
  have un': "unat n' = unat n" using r un by (simp add: n'_def unat_bytesToWrite)
  have last: "n' = remainingBytes t \<longleftrightarrow> n = mm_remainingBytes m"
    using un' r by (metis word_unat_eq_iff)
  have pos: "0 < remainingBytes t \<longleftrightarrow> 0 < sint (mm_remainingBytes m)"
    using r by (simp add: unat_gt_0_word unat_sint_nonneg)
  have room: "\<not> (sint n < 0 \<or> mm_getDataFrom m + unat n > length d)"
     "\<not> (HEADER_BYTES_OLD + unat n' > PACKET_STORAGE \<or> getDataFrom t + unat n' > length d)"
    using r un un' by auto
  have hdr: "take HEADER_BYTES_OLD (headersOld host a b 0 k f l) = header_old a k f l" for b k f l
    using old_headers.storage_packet [of "[]" 0 host a b k f l] by simp
  have sub: "0 \<le> sint (mm_remainingBytes m - n) \<and> unat (mm_remainingBytes m - n) = unat (mm_remainingBytes m) - unat n"
    using r un by (intro nonneg_sub) auto
  have "n' \<le> remainingBytes t" using un un' r by (simp add: word_le_nat_alt)
  then have sub': "unat (remainingBytes t - n') = unat (remainingBytes t) - unat n'" by (simp add: unat_sub)
  have red: "0 \<le> sint (reducePayload (mm_maxUdpPayload m))
      \<and> HEADER_BYTES_OLD + unat (reducePayload (mm_maxUdpPayload m)) \<le> PACKET_STORAGE"
    using reducePayload_le [of "mm_maxUdpPayload m"] r by (simp add: PACKET_STORAGE_def)
  show ?thesis
    unfolding sendmsg_step_def ref_step_def Let_def n_def [symmetric] n'_def [symmetric] fin_def [symmetric]
    using r room pos last sub sub' red un un' 
    by (auto simp: hdr msg_rel_def afterSend_def fin_def split: send_res.split)
qed

section \<open>The wire of the reference sender\<close>

lemma fast_finish_sim:
  assumes "rel_option (rel_ctl (fast_rel hl base d)) r r'"
  shows "map_option fst (fast_finish off r) = send_finish off r'"
proof (cases "\<exists>c s mem. r = Some (Ret c (s, mem))")
  case True
  then obtain c s mem where r: "r = Some (Ret c (s, mem))" by blast
  then obtain t where t: "r' = Some (Ret c t)" "fast_rel hl base d (s, mem) t"
    using assms by (auto simp: option_rel_Some1 elim: ctl.rel_cases)
  then have eq: "t = s\<lparr>pbuf := [], firstLoop := firstLoop t\<rparr>" by (simp add: fast_rel_def)
  have "localOffset t = localOffset s" "sentPackets t = sentPackets s" "delayCounter t = delayCounter s" "wire t = wire s"
    by (subst eq, simp)+
  then show ?thesis using r t by (simp add: fast_finish_def send_finish_def)
next
  case False
  then have "\<nexists>c t. r' = Some (Ret c t)"
    using assms by (auto simp: option_rel_Some2 elim!: ctl.rel_cases)
  then show ?thesis
    using False by (auto simp: fast_finish_def send_finish_def split: option.splits ctl.splits)
qed

lemma fast_rel_init:
  assumes "hl \<le> base" "base + unat dataLen \<le> length mem" "0 < dataLen" "0 \<le> sint mp" "hl + unat mp \<le> PACKET_STORAGE"
  shows "fast_rel hl base (take (unat dataLen) (drop base mem)) (send_init a dataLen mp off dc, mem)
    (erased (send_init a dataLen mp off dc))"
  using assms by (simp add: fast_rel_def send_init_def erased_def)

lemma fast_copying:
  assumes "HEADER_BYTES \<le> base" and "base + unat dataLen \<le> length mem" and "0 < dataLen"
    and "0 \<le> sint mp" and "HEADER_BYTES + unat mp \<le> PACKET_STORAGE"
    and "\<not> sa_direct a" "\<not> sa_noConnect a" "sa_reserved a = 0"
  shows "map_option fst (sendPacketizedBufferFastNew fuel host sock a mem base dataLen mp off dc)
      = sendPacketizedBufferSendNew fuel host sock a (take (unat dataLen) (drop base mem)) dataLen mp off dc
    \<and> map_option fst (sendPacketizedBufferFast fuel host sock a mem base dataLen mp off dc)
      = sendPacketizedBufferSend fuel host sock a (take (unat dataLen) (drop base mem)) dataLen mp off dc"
proof
  let ?d = "take (unat dataLen) (drop base mem)" and ?s = "send_init a dataLen mp off dc"
  let ?dly = "delayTick (sa_delay a) (sa_delayPrescale a)"
  let ?new = "ref_step HEADER_BYTES (\<lambda>k f l. header_new a k) (\<lambda>off n. off + ucast n) ?dly (sock CallSend) a ?d"
  let ?old = "ref_step HEADER_BYTES_OLD (header_old a) (\<lambda>off n. off + 1) ?dly (sock CallSend) a ?d"
  have old: "HEADER_BYTES_OLD \<le> base" "HEADER_BYTES_OLD + unat mp \<le> PACKET_STORAGE"
    using assms(1,5) by (simp_all add: size_defs)
  have a: "a\<lparr>sa_direct := False, sa_reserved := 0\<rparr> = a" using assms(6,8) by simp
  have new: "header_layout HEADER_BYTES (headersNew host a) (\<lambda>k f l. header_new a k)"
    using new_headers.header_layout_axioms [of host a] by (simp only: a)
  have hl: "headerSize a = HEADER_BYTES" using assms(6) by (simp add: headerSize_def)
  show "map_option fst (sendPacketizedBufferFastNew fuel host sock a mem base dataLen mp off dc)
      = sendPacketizedBufferSendNew fuel host sock a ?d dataLen mp off dc"
  proof -
    have "map_option fst (sendPacketizedBufferFastNew fuel host sock a mem base dataLen mp off dc)
        = send_finish off (run fuel ?new (erased ?s))"
      unfolding sendPacketizedBufferFastNew_def
      by (rule fast_finish_sim, rule run_sim [where R = "fast_rel HEADER_BYTES base ?d"])
         (rule header_layout.fast_sim [OF new] fast_rel_init assms | assumption)+
    moreover have "rel_option (rel_ctl (\<lambda>s t. t = erased s)) (run fuel (sendNew_step host sock a ?d) ?s)
        (run fuel ?new (erased ?s))"
      using sendNew_sim [of host sock a ?d] assms(7) by (intro run_sim) (simp_all add: hl)
    ultimately show ?thesis by (simp add: sendPacketizedBufferSendNew_def send_finish_sim)
  qed
  show "map_option fst (sendPacketizedBufferFast fuel host sock a mem base dataLen mp off dc)
      = sendPacketizedBufferSend fuel host sock a ?d dataLen mp off dc"
  proof -
    have "map_option fst (sendPacketizedBufferFast fuel host sock a mem base dataLen mp off dc)
        = send_finish off (run fuel ?old (erased ?s))"
      unfolding sendPacketizedBufferFast_def
      by (rule fast_finish_sim, rule run_sim [where R = "fast_rel HEADER_BYTES_OLD base ?d"])
         (rule old_headers.fast_sim fast_rel_init old assms | assumption)+
    moreover have "rel_option (rel_ctl (\<lambda>s t. t = erased s)) (run fuel (sendOld_step CallSend True host sock a ?d) ?s)
        (run fuel ?old (erased ?s))"
      using sendOld_sim [of CallSend True host sock a ?d] by (intro run_sim) simp_all
    ultimately show ?thesis by (simp add: sendPacketizedBufferSend_def send_finish_sim)
  qed
qed

text \<open>
  C11: \<open>sendPacketizedBufferFastNew\<close> and \<open>sendPacketizedBufferFast\<close>, which write headers
  over data they have already sent, are equivalent to the copying senders
  \<open>sendPacketizedBufferSendNew\<close> and \<open>sendPacketizedBufferSend\<close>: on every socket, whatever it
  refuses, they send the same packets and report the same return value, next offset, packet
  count and delay counter, provided the caller's array has room for one header before the
  data.
\<close>

theorem fast_equals_copying:
  assumes "HEADER_BYTES \<le> base" and "base + unat dataLen \<le> length mem" and "0 < dataLen"
    and "0 \<le> sint mp" and "HEADER_BYTES + unat mp \<le> PACKET_STORAGE"
    and "\<not> sa_direct a" "\<not> sa_noConnect a" "sa_reserved a = 0"
  shows "map_option fst (sendPacketizedBufferFastNew fuel host sock a mem base dataLen mp off dc)
      = sendPacketizedBufferSendNew fuel host sock a (take (unat dataLen) (drop base mem)) dataLen mp off dc
    \<and> map_option fst (sendPacketizedBufferFast fuel host sock a mem base dataLen mp off dc)
      = sendPacketizedBufferSend fuel host sock a (take (unat dataLen) (drop base mem)) dataLen mp off dc"
  by (rule fast_copying [OF assms])

theorem fast_equals_copying_witness:
  "map_option fst (sendPacketizedBufferFastNew 9 ENDIAN_LITTLE (mtu_socket 38) example_args
       (replicate 36 0 @ example_data) 36 5 4 0 0)
   = sendPacketizedBufferSendNew 9 ENDIAN_LITTLE (mtu_socket 38) example_args example_data 5 4 0 0"
  using fast_equals_copying [of 36 5 "replicate 36 0 @ example_data" 4 example_args 9 ENDIAN_LITTLE "mtu_socket 38" 0 0]
  by (simp add: size_defs PACKET_STORAGE_def example_args_def)

section \<open>The packets of the version 1 senders\<close>

text \<open>The header state is the packet counter and whether the packet is the very first.\<close>

definition packet_old :: "send_args \<Rightarrow> u32 \<times> bool \<Rightarrow> bool \<Rightarrow> bytes \<Rightarrow> bytes" where
  "packet_old a h final c = header_old a (fst h) (snd h) (final \<and> sa_lastBuffer a) @ c"

definition advance_old :: "u32 \<times> bool \<Rightarrow> bytes \<Rightarrow> u32 \<times> bool" where
  "advance_old h c = (fst h + 1, False)"

definition old_inv ::
  "nat \<Rightarrow> i32 \<Rightarrow> (u32 \<Rightarrow> u32) \<Rightarrow> u32 \<Rightarrow> (nat \<Rightarrow> bytes \<Rightarrow> send_res) \<Rightarrow> bytes \<Rightarrow> send_state \<Rightarrow> bool" where
  "old_inv L mp dly dc sendit d st \<longleftrightarrow>
     (\<forall>i p. length p \<le> L \<longrightarrow> (\<exists>k. sendit i p = Sent k)) \<and> maxUdpPayload st = mp \<and> 0 < sint mp
     \<and> sentPackets st = int (length (wire st)) \<and> delayCounter st = (dly ^^ length (wire st)) dc
     \<and> HEADER_BYTES_OLD + min (unat (remainingBytes st)) (unat mp) \<le> L
     \<and> HEADER_BYTES_OLD + min (unat (remainingBytes st)) (unat mp) \<le> PACKET_STORAGE
     \<and> getDataFrom st + unat (remainingBytes st) \<le> length d
     \<and> (veryLastPacket st \<longrightarrow> remainingBytes st = 0 \<and> \<not> firstLoop st)"

lemma old_send_piece:
  assumes inv: "old_inv L mp dly dc sendit d s" and go: "firstLoop s \<or> sn_rest d s \<noteq> []"
  shows "\<exists>s'. ref_step HEADER_BYTES_OLD (header_old a) (\<lambda>off n. off + 1) dly sendit a d s = Again s'
     \<and> old_inv L mp dly dc sendit d s' \<and> \<not> firstLoop s' \<and> sn_rest d s' = drop (unat mp) (sn_rest d s)
     \<and> (localOffset s', veryFirstPacket s')
       = advance_old (localOffset s, veryFirstPacket s) (take (unat mp) (sn_rest d s))
     \<and> wire s' = wire s @ [packet_old a (localOffset s, veryFirstPacket s) (length (sn_rest d s) \<le> unat mp)
                                     (take (unat mp) (sn_rest d s))]"
proof -
  define n where "n = bytesToWrite (remainingBytes s) (maxUdpPayload s)"
  have un: "unat n = min (unat (remainingBytes s)) (unat mp)"
    using inv by (simp add: n_def old_inv_def unat_bytesToWrite)
  have len: "length (sn_rest d s) = unat (remainingBytes s)" using inv by (auto simp: sn_rest_def old_inv_def)
  have piece: "take (unat n) (drop (getDataFrom s) d) = take (unat mp) (sn_rest d s)"
    by (simp add: un sn_rest_def min.commute)
  have last: "n = remainingBytes s \<longleftrightarrow> length (sn_rest d s) \<le> unat mp"
    using un len by (auto simp: word_unat_eq_iff min_def)
  have guard: "firstLoop s \<or> remainingBytes s > 0" using go len by (auto simp: unat_gt_0_word)
  then have open': "\<not> veryLastPacket s" using inv by (auto simp: old_inv_def)
  have room: "\<not> (HEADER_BYTES_OLD + unat n > PACKET_STORAGE \<or> getDataFrom s + unat n > length d)"
    using inv by (auto simp: old_inv_def un min_def)
  define pkt where "pkt = packet_old a (localOffset s, veryFirstPacket s) (length (sn_rest d s) \<le> unat mp)
      (take (unat mp) (sn_rest d s))"
  have "length pkt = HEADER_BYTES_OLD + unat n"
    unfolding pkt_def packet_old_def length_append old_headers.hdr_length by (simp add: len un)
  then have "length pkt \<le> L" using inv un by (simp add: old_inv_def)
  then obtain k where k: "sendit (calls s + 1) pkt = Sent k"
    using inv unfolding old_inv_def by blast
  define s' where "s' = afterSend (localOffset s + 1) n (dly (delayCounter s)) pkt
      (s\<lparr>firstLoop := False, veryLastPacket := (n = remainingBytes s \<and> sa_lastBuffer a), calls := calls s + 1\<rparr>)"
  have step: "ref_step HEADER_BYTES_OLD (header_old a) (\<lambda>off n. off + 1) dly sendit a d s = Again s'"
    using guard room k open' unfolding ref_step_def Let_def n_def [symmetric]
    by (simp add: s'_def piece last pkt_def packet_old_def)
  have le: "n \<le> remainingBytes s" by (simp add: word_le_nat_alt un)
  have rem: "unat (remainingBytes s - n) = unat (remainingBytes s) - unat n" using le by (simp add: unat_sub)
  have "old_inv L mp dly dc sendit d s'"
    using inv un by (auto simp: s'_def old_inv_def afterSend_def rem min_def split: if_splits)
  moreover have "sn_rest d s' = drop (unat mp) (sn_rest d s)"
    by (simp add: s'_def sn_rest_def afterSend_def rem un drop_take window_advance add.commute)
  ultimately show ?thesis
    using step by (intro exI [of _ s']) (simp add: s'_def afterSend_def advance_old_def pkt_def)
qed

interpretation old: chunk_sender
  "ref_step HEADER_BYTES_OLD (header_old a) (\<lambda>off n. off + 1) dly sendit a d" "old_inv L mp dly dc sendit d"
  firstLoop "sn_rest d" "\<lambda>s. (localOffset s, veryFirstPacket s)" wire "unat mp" "packet_old a" advance_old
  for a dly sendit d L mp dc
proof
  show "old_inv L mp dly dc sendit d s \<Longrightarrow> 0 < unat mp" for s
    by (simp add: old_inv_def sint_pos_unat)
  show "old_inv L mp dly dc sendit d s \<Longrightarrow> \<not> firstLoop s \<Longrightarrow> sn_rest d s = [] \<Longrightarrow>
      ref_step HEADER_BYTES_OLD (header_old a) (\<lambda>off n. off + 1) dly sendit a d s = Ret 0 s" for s
    by (auto simp: ref_step_def old_inv_def sn_rest_def unat_gt_0_word)
qed (rule old_send_piece)

lemma fold_advance_old:
  "fst (fold (\<lambda>c h. advance_old h c) cs h) = fst h + of_nat (length cs)"
  by (induction cs arbitrary: h) (simp_all add: advance_old_def)

definition sent_old :: "send_args \<Rightarrow> u32 \<Rightarrow> (u32 \<Rightarrow> u32) \<Rightarrow> u32 \<Rightarrow> bytes list \<Rightarrow> send_result" where
  "sent_old a off dly dc cs =
     \<lparr>ret = 0, out_offset = off + of_nat (length cs), out_packetsSent = int (length cs),
      out_delayCounter = (dly ^^ length cs) dc,
      out_wire = emit (packet_old a) advance_old (off, sa_firstBuffer a) cs\<rparr>"

lemma old_ref_sends:
  assumes sendit: "\<forall>i p. length p \<le> L \<longrightarrow> (\<exists>k. sendit i p = Sent k)" and "0 < sint mp"
    and "HEADER_BYTES_OLD + min (length d) (unat mp) \<le> L"
    and "HEADER_BYTES_OLD + min (length d) (unat mp) \<le> PACKET_STORAGE"
    and len: "unat dataLen = length d" and fuel: "length (chunks (unat mp) d) < fuel"
  shows "\<exists>s'. run fuel (ref_step HEADER_BYTES_OLD (header_old a) (\<lambda>off n. off + 1) dly sendit a d)
      (erased (send_init a dataLen mp off dc)) = Some (Ret 0 s')
    \<and> localOffset s' = off + of_nat (length (chunks (unat mp) d)) \<and> sentPackets s' = int (length (chunks (unat mp) d))
    \<and> delayCounter s' = (dly ^^ length (chunks (unat mp) d)) dc
    \<and> wire s' = emit (packet_old a) advance_old (off, sa_firstBuffer a) (chunks (unat mp) d)"
proof -
  let ?s = "erased (send_init a dataLen mp off dc)"
  have init: "firstLoop ?s" "localOffset ?s = off" "veryFirstPacket ?s = sa_firstBuffer a" "wire ?s = []"
    by (simp_all add: send_init_def erased_def)
  have inv: "old_inv L mp dly dc sendit d ?s" and rest: "sn_rest d ?s = d"
    using assms by (simp_all add: old_inv_def sn_rest_def send_init_def erased_def)
  from old.sends_all [OF inv, of a] init obtain s' where
    s': "run (Suc (length (chunks (unat mp) d))) (ref_step HEADER_BYTES_OLD (header_old a) (\<lambda>off n. off + 1) dly sendit a d) ?s
        = Some (Ret 0 s')" "old_inv L mp dly dc sendit d s'"
      "wire s' = emit (packet_old a) advance_old (off, sa_firstBuffer a) (chunks (unat mp) d)"
      "(localOffset s', veryFirstPacket s') = fold (\<lambda>c h. advance_old h c) (chunks (unat mp) d) (off, sa_firstBuffer a)"
    by (auto simp: rest)
  have "localOffset s' = off + of_nat (length (chunks (unat mp) d))"
    using arg_cong [OF s'(4), of fst] by (simp add: fold_advance_old)
  then show ?thesis
    using run_more_fuel [OF s'(1), of fuel] fuel s'(2,3) by (auto simp: old_inv_def)
qed

lemma sendOld_sends:
  assumes "accepts L sock" and "0 < sint mp" and "HEADER_BYTES_OLD + min (length d) (unat mp) \<le> L"
    and "HEADER_BYTES_OLD + min (length d) (unat mp) \<le> PACKET_STORAGE"
    and "unat dataLen = length d" and "length (chunks (unat mp) d) < fuel"
  shows "send_finish off (run fuel (sendOld_step call prescaled host sock a d) (send_init a dataLen mp off dc))
    = Some (sent_old a off (if prescaled then delayTick (sa_delay a) (sa_delayPrescale a) else id) dc
        (chunks (unat mp) d))"
proof -
  let ?dly = "if prescaled then delayTick (sa_delay a) (sa_delayPrescale a) else id"
  let ?ref = "ref_step HEADER_BYTES_OLD (header_old a) (\<lambda>off n. off + 1) ?dly (sock call) a d"
  have "\<forall>i p. length p \<le> L \<longrightarrow> (\<exists>k. sock call i p = Sent k)" using assms(1) by (simp add: accepts_def)
  from old_ref_sends [OF this assms(2-6), of a ?dly off dc]
  have "send_finish off (run fuel ?ref (erased (send_init a dataLen mp off dc))) = Some (sent_old a off ?dly dc (chunks (unat mp) d))"
    by (auto simp: send_finish_def sent_old_def)
  moreover have "rel_option (rel_ctl (\<lambda>s t. t = erased s))
      (run fuel (sendOld_step call prescaled host sock a d) (send_init a dataLen mp off dc))
      (run fuel ?ref (erased (send_init a dataLen mp off dc)))"
    using sendOld_sim by (intro run_sim) simp_all
  ultimately show ?thesis by (simp only: send_finish_sim)
qed

lemma sendmsg_sends:
  assumes "accepts L sock" and "0 < sint mp" and "HEADER_BYTES_OLD + min (length d) (unat mp) \<le> L"
    and "HEADER_BYTES_OLD + unat mp \<le> PACKET_STORAGE"
    and len: "unat dataLen = length d" "length d < 2 ^ 31" and "length (chunks (unat mp) d) < fuel"
  shows "sendPacketizedBufferSendmsg fuel host sock a d dataLen mp off
    = Some (sent_old a off id 0 (chunks (unat mp) d))"
proof -
  let ?ref = "ref_step HEADER_BYTES_OLD (header_old a) (\<lambda>off n. off + 1) id (sock CallSendmsg) a d"
  have cap: "HEADER_BYTES_OLD + min (length d) (unat mp) \<le> PACKET_STORAGE" using assms(4) by simp
  have u: "unat (ucast dataLen :: i32) = length d" using len by (simp add: unsigned_ucast_eq take_bit_nat_eq_self)
  then have "uint (ucast dataLen :: i32) < 2 ^ 31" using len by (simp add: uint_nat)
  moreover have "- (2 ^ 31) \<le> uint (ucast dataLen :: i32)" by (rule order_trans [OF _ uint_ge_0]) simp
  ultimately have s: "0 \<le> sint (ucast dataLen :: i32)"
    using signed_take_bit_int_eq_self [of 31 "uint (ucast dataLen :: i32)"] by (simp add: sint_uint)
  have rel: "msg_rel d (msg_init a dataLen mp off) (erased (send_init a dataLen mp off 0))"
    using assms u s by (simp add: msg_rel_def msg_init_def send_init_def erased_def)
  have "rel_option (rel_ctl (msg_rel d)) (run fuel (sendmsg_step host sock a d) (msg_init a dataLen mp off))
      (run fuel ?ref (erased (send_init a dataLen mp off 0)))"
    by (rule run_sim [OF sendmsg_sim rel])
  moreover have "\<forall>i p. length p \<le> L \<longrightarrow> (\<exists>k. sock CallSendmsg i p = Sent k)" using assms(1) by (simp add: accepts_def)
  from old_ref_sends [OF this assms(2,3) cap len(1) assms(7), of a id off 0]
  obtain t where "run fuel ?ref (erased (send_init a dataLen mp off 0)) = Some (Ret 0 t)"
    "localOffset t = off + of_nat (length (chunks (unat mp) d))" "sentPackets t = int (length (chunks (unat mp) d))"
    "wire t = emit (packet_old a) advance_old (off, sa_firstBuffer a) (chunks (unat mp) d)"
    by auto
  ultimately show ?thesis
    unfolding sendPacketizedBufferSendmsg_def sent_old_def
    by (auto simp: option_rel_Some2 msg_rel_def elim!: ctl.rel_cases)
qed

text \<open>
  C12: the three senders with the version 1 header, through \<open>send\<close>, \<open>sendto\<close> and \<open>sendmsg\<close>,
  put the same packets on a socket that takes them: one for each piece of the buffer,
  numbered in order from the caller's counter, the first marked when the buffer is the first
  of its series, the last when it is the last; and they report the next counter.
\<close>

theorem old_senders_packets:
  assumes "accepts L sock" and "0 < sint mp" and "HEADER_BYTES_OLD + min (length d) (unat mp) \<le> L"
    and "HEADER_BYTES_OLD + unat mp \<le> PACKET_STORAGE"
    and "unat dataLen = length d" and "length d < 2 ^ 31" and "length (chunks (unat mp) d) < fuel"
  shows "sendPacketizedBufferSend fuel host sock a d dataLen mp off dc
      = Some (sent_old a off (delayTick (sa_delay a) (sa_delayPrescale a)) dc (chunks (unat mp) d))
    \<and> sendPacketizedBufferSendto fuel host sock a d dataLen mp off = Some (sent_old a off id 0 (chunks (unat mp) d))
    \<and> sendPacketizedBufferSendmsg fuel host sock a d dataLen mp off = Some (sent_old a off id 0 (chunks (unat mp) d))"
proof -
  have "HEADER_BYTES_OLD + min (length d) (unat mp) \<le> PACKET_STORAGE" using assms(4) by simp
  note old = sendOld_sends [OF assms(1-3) this assms(5,7)]
  show ?thesis
    using old [of off CallSend True host a dc] old [of off CallSendto False host a 0] sendmsg_sends [OF assms]
    by (simp add: sendPacketizedBufferSend_def sendPacketizedBufferSendto_def)
qed

theorem old_senders_packets_witness:
  "\<exists>res. sendPacketizedBufferSendmsg 4 ENDIAN_BIG (mtu_socket 40) example_args example_data 5 2 9 = Some res
     \<and> out_offset res = 12 \<and> out_wire res = [packet_old example_args (9, True) False [1, 2],
         packet_old example_args (10, False) False [3, 4], packet_old example_args (11, False) True [5]]"
  using old_senders_packets [of 40 "mtu_socket 40" 2 example_data 5 4 ENDIAN_BIG example_args 9 0]
  by (simp add: chunks_example sent_old_def advance_old_def size_defs PACKET_STORAGE_def)

section \<open>Whole buffers\<close>

lemma sint_minus_small:
  assumes "100 \<le> sint (m :: i32)" and "sint m \<le> 9978"
  shows "sint (m - 62) = sint m - 62" and "unat (m - 62) = unat m - 62" and "62 \<le> unat m" and "m \<noteq> 0"
proof -
  have u: "unat m = nat (sint m)" using assms by (simp add: unat_sint_nonneg)
  then show ge: "62 \<le> unat m" and "m \<noteq> 0" using assms by auto
  have "(62 :: i32) \<le> m" using ge by (simp add: word_le_nat_alt)
  then show d: "unat (m - 62) = unat m - 62" by (simp add: unat_sub)
  have "0 \<le> sint (m - 62)" using nonneg_sub [of m 62] assms ge by simp
  then show "sint (m - 62) = sint m - 62" using d u ge unat_sint_nonneg [of "m - 62"] assms by simp
qed

text \<open>What \<open>sendBuffer\<close> asks of the copying sender, with the payload size it ends up with.\<close>

lemma sendBuffer_payload:
  fixes m :: i32
  assumes "100 \<le> sint m" and "sint m \<le> 9978" and mtu: "mtu_limited (unat m - 28) sock"
    and "d \<noteq> []" and "unat bufLen = length d" and "sa_firstBuffer a" and "\<not> sa_direct a"
  shows "\<exists>(mp :: i32) k. 0 < sint mp \<and> HEADER_BYTES + min (length d) (unat mp) + 28 \<le> unat m
    \<and> (unat m - 62 \<le> length d \<longrightarrow> sint mp < sint m - 62)
    \<and> sendPacketizedBufferSendNew k host sock a d (ucast (bufLen :: u32)) (m - 62) 0 dc
      = Some (sent_ok a (of_nat (length d)) dc (emit (packet_new a) advance_new 0 (chunks (unat mp) d)))"
proof -
  note m = sint_minus_small [OF assms(1,2)]
  have u: "unat m = nat (sint m)" using assms(1) by (simp add: unat_sint_nonneg)
  have hs: "headerSize a = 36" using assms(7) by (simp add: headerSize_def size_defs)
  have len: "unat (ucast bufLen :: u64) = length d" using assms(5) by (simp add: unat_ucast_up)
  have pre: "headerSize a < unat m - 28" "0 < sint (m - 62)" "headerSize a + unat (m - 62) \<le> PACKET_STORAGE"
    using m u assms(1,2) hs by (simp_all add: PACKET_STORAGE_def)
  from sendNew_finds_mtu [OF mtu pre assms(6) len assms(4), of host 0 dc]
  obtain mp k where mp: "0 < sint (mp :: i32)" "sint mp \<le> sint (m - 62)"
      "headerSize a + min (length d) (unat mp) \<le> unat m - 28"
      "sendPacketizedBufferSendNew k host sock a d (ucast bufLen) (m - 62) 0 dc
       = Some (sent_ok a (of_nat (length d)) dc (emit (packet_new a) advance_new 0 (chunks (unat mp) d)))"
    by auto
  have "sint mp < sint m - 62" if "unat m - 62 \<le> length d"
  proof (rule ccontr)
    assume "\<not> sint mp < sint m - 62"
    then have "sint mp = sint m - 62" using mp(2) m(1) by simp
    then have "unat mp = unat m - 62" using mp(1) u m(3) by (simp add: unat_sint_nonneg)
    then show False using mp(3) that hs m(3) by simp
  qed
  moreover have "HEADER_BYTES + min (length d) (unat mp) + 28 \<le> unat m"
    using mp(3) hs m(3) by (simp add: size_defs)
  ultimately show ?thesis using mp(1,4) by blast
qed

lemma sendBuffer_sends:
  assumes "0 \<le> net_socket net v6" and "\<forall>h. 0 \<le> net_connect net v6 h"
    and "100 \<le> sint m" and "sint m \<le> 9978" and "mtu_limited (unat m - 28) (path (setMTU net interface m))"
    and "0 < bufLen" and "base + unat bufLen = length mem" and "HEADER_BYTES \<le> base"
    and "\<not> sa_noConnect args" and "sa_reserved args = 0"
  shows "\<exists>(mp :: i32) k. 0 < sint mp \<and> HEADER_BYTES + min (unat bufLen) (unat mp) + 28 \<le> unat m
    \<and> (unat m - 62 \<le> unat bufLen \<longrightarrow> sint mp < sint m - 62)
    \<and> sendBuffer k host net path args mem base bufLen hostName interface m fast v6
      = Some (0, emit (packet_new (args\<lparr>sa_fullLen := bufLen, sa_direct := False\<rparr>)) advance_new 0
                   (chunks (unat mp) (drop base mem)))"
proof -
  let ?a = "args\<lparr>sa_fullLen := bufLen, sa_firstBuffer := True, sa_lastBuffer := True, sa_direct := False\<rparr>"
  let ?d = "drop base mem" and ?sock = "path (setMTU net interface m)" and ?dc = "sa_delayPrescale args"
  have d: "?d \<noteq> []" "unat bufLen = length ?d" using assms(6,7) by (auto simp: word_less_nat_alt)
  have a: "?a\<lparr>sa_noConnect := False, sa_reserved := 0\<rparr> = ?a" using assms(9,10) by simp
  have pk: "packet_new ?a = packet_new (args\<lparr>sa_fullLen := bufLen, sa_direct := False\<rparr>)"
    by (simp add: fun_eq_iff packet_new_def header_new_def)
  note m = sint_minus_small [OF assms(3,4)]
  have mtu: "chooseMtu net interface m = m" using m(4) by (simp add: chooseMtu_def)
  have payload: "m - 20 - 8 - of_nat HEADER_BYTES_OLD = m - 62" by (simp add: size_defs)
  from sendBuffer_payload [OF assms(3-5) d, of ?a host ?dc]
  obtain mp k where mp: "0 < sint (mp :: i32)" "HEADER_BYTES + min (length ?d) (unat mp) + 28 \<le> unat m"
      "unat m - 62 \<le> length ?d \<longrightarrow> sint mp < sint m - 62"
      "sendPacketizedBufferSendNew k host ?sock ?a ?d (ucast bufLen) (m - 62) 0 ?dc
       = Some (sent_ok ?a (of_nat (length ?d)) ?dc (emit (packet_new ?a) advance_new 0 (chunks (unat mp) ?d)))"
    by auto
  have "map_option fst (sendPacketizedBufferFastNew k host ?sock ?a mem base (ucast bufLen) (m - 62) 0 ?dc)
      = sendPacketizedBufferSendNew k host ?sock ?a ?d (ucast bufLen) (m - 62) 0 ?dc"
  proof -
    have len: "unat (ucast bufLen :: u64) = unat bufLen" by (simp add: unat_ucast_up)
    have "unat m \<le> 9978" using assms(3,4) by (simp add: unat_sint_nonneg)
    then have "HEADER_BYTES + unat (m - 62) \<le> PACKET_STORAGE" using m(2) by (simp add: size_defs PACKET_STORAGE_def)
    then show ?thesis
      using fast_copying [of base "ucast bufLen" mem "m - 62" ?a k host ?sock 0 ?dc] assms m(1) len
      by (simp add: word_less_nat_alt)
  qed
  then have "sendBuffer k host net path args mem base bufLen hostName interface m fast v6
      = Some (0, emit (packet_new ?a) advance_new 0 (chunks (unat mp) ?d))"
    using assms(1,2) mp(4)
    unfolding sendBuffer_def Let_def mtu payload sendPacketizedBufferSendNew_default_def a
    by (auto simp: not_less [symmetric] sent_ok_def split: prod.splits)
  then show ?thesis using mp(1-3) d(2) unfolding pk by (intro exI [of _ mp] exI [of _ k]) simp
qed

text \<open>
  C13: \<open>sendBuffer\<close> told the path's MTU \<open>m\<close> delivers the whole buffer and returns 0 when the
  socket can be created and connected, in its copying and in its fast form. But it reserves
  room for a header of 34 bytes and writes one of 36: the size it begins with is refused
  for any buffer that fills a packet, and it settles for a smaller one.
\<close>

theorem sendBuffer_delivers:
  assumes "0 \<le> net_socket net v6" and "\<forall>h. 0 \<le> net_connect net v6 h"
    and "100 \<le> sint m" and "sint m \<le> 9978" and "mtu_limited (unat m - 28) (path (setMTU net interface m))"
    and "0 < bufLen" and "base + unat bufLen = length mem" and "HEADER_BYTES \<le> base"
    and "\<not> sa_noConnect args" and "sa_reserved args = 0"
  shows "\<exists>(mp :: i32) k. 0 < sint mp \<and> HEADER_BYTES + min (unat bufLen) (unat mp) + 28 \<le> unat m
    \<and> (unat m - 62 \<le> unat bufLen \<longrightarrow> sint mp < sint m - 62)
    \<and> sendBuffer k host net path args mem base bufLen hostName interface m fast v6
      = Some (0, emit (packet_new (args\<lparr>sa_fullLen := bufLen, sa_direct := False\<rparr>)) advance_new 0
                   (chunks (unat mp) (drop base mem)))"
  by (rule sendBuffer_sends [where path = path and net = net and interface = interface, OF assms])

theorem sendBuffer_delivers_witness:
  "\<exists>(mp :: i32) k. 0 < sint mp \<and> sint mp < 38
    \<and> sendBuffer k ENDIAN_LITTLE \<lparr>if_get = \<lambda>_. None, if_set = \<lambda>_ _. None, net_socket = \<lambda>_. 3, net_connect = \<lambda>_ _. 0\<rparr>
        (\<lambda>_. mtu_socket 72) example_args (replicate 100 0) 40 60 [] [] 100 True False
      = Some (0, emit (packet_new (example_args\<lparr>sa_fullLen := 60, sa_direct := False\<rparr>)) advance_new 0
                   (chunks (unat mp) (replicate 60 0)))"
proof -
  let ?net = "\<lparr>if_get = \<lambda>_. None, if_set = \<lambda>_ _. None, net_socket = \<lambda>_. 3, net_connect = \<lambda>_ _. 0\<rparr>"
  have "\<not> sa_noConnect example_args" "sa_reserved example_args = 0" by (simp_all add: example_args_def)
  with sendBuffer_delivers [of ?net False 100 "\<lambda>_. mtu_socket 72" "[]" 60 40 "replicate 100 0" example_args
      ENDIAN_LITTLE "[]" True]
  show ?thesis by (fastforce simp: size_defs)
qed

end
