(* ===== verification/Assemble.thy ===== *)
theory Assemble
  imports Packet_Headers "HOL-Library.Multiset"
begin

text \<open>
  The receivers of ejfat_assemble_ersap.hpp. The network is a parameter: the list of what
  successive calls of \<open>recvfrom\<close> deliver. A receiver consumes the list packet by packet;
  when the list ends it is still waiting, which the result \<open>Again\<close> records. Everything C++
  leaves undefined here (a division by zero, a write past the end of a heap block) is
  \<open>Trap\<close>.
\<close>

section \<open>Error codes and statistics\<close>

datatype errorCodes = RECV_MSG | TRUNCATED_MSG | BUF_TOO_SMALL | OUT_OF_ORDER
  | BAD_FIRST_LAST_BIT | OUT_OF_MEM | BAD_ARG | NO_REASSEMBLY | NETWORK_ERROR | INTERNAL_ERROR

fun errorCode :: "errorCodes \<Rightarrow> int" where
  "errorCode RECV_MSG = -1"
| "errorCode TRUNCATED_MSG = -2"
| "errorCode BUF_TOO_SMALL = -3"
| "errorCode OUT_OF_ORDER = -4"
| "errorCode BAD_FIRST_LAST_BIT = -5"
| "errorCode OUT_OF_MEM = -6"
| "errorCode BAD_ARG = -7"
| "errorCode NO_REASSEMBLY = -8"
| "errorCode NETWORK_ERROR = -9"
| "errorCode INTERNAL_ERROR = -10"

record packetRecvStats =
  endTime :: int
  startTime :: int
  readTime :: int
  droppedPackets :: int
  acceptedPackets :: int
  discardedPackets :: int
  badSrcIdPackets :: int
  droppedBytes :: int
  acceptedBytes :: int
  discardedBytes :: int
  droppedBuffers :: int
  discardedBuffers :: int
  builtBuffers :: int
  cpuPkt :: int
  cpuBuf :: int

definition clearStats :: "packetRecvStats \<Rightarrow> packetRecvStats" where
  "clearStats stats = stats\<lparr>endTime := 0, startTime := 0, readTime := 0,
     droppedPackets := 0, acceptedPackets := 0, discardedPackets := 0, badSrcIdPackets := 0,
     droppedBytes := 0, acceptedBytes := 0, discardedBytes := 0,
     droppedBuffers := 0, discardedBuffers := 0, builtBuffers := 0,
     cpuPkt := -1, cpuBuf := -1\<rparr>"

section \<open>Reading one packet\<close>

datatype recv = RecvFail | Datagram bytes

definition PKT_STORAGE :: nat where "PKT_STORAGE = 65536"

text \<open>What \<open>recvfrom\<close> leaves in the local array \<open>pkt[65536]\<close> of a longer datagram.\<close>

definition received :: "bytes \<Rightarrow> bytes" where
  "received p = take PKT_STORAGE p"

text \<open>
  \<open>readPacketRecvFrom\<close> for version 2 headers: the number of data bytes or an error, the
  data buffer and the header fields, which are written only when the packet fits.
\<close>

definition readPacketRecvFrom ::
  "byte_order \<Rightarrow> bytes \<Rightarrow> nat \<Rightarrow> recv \<Rightarrow> int \<times> bytes \<times> (i32 \<times> u16 \<times> u32 \<times> u32 \<times> u64) option" where
  "readPacketRecvFrom host dataBuf bufLen r =
    (case r of
       RecvFail \<Rightarrow> (errorCode RECV_MSG, dataBuf, None)
     | Datagram p \<Rightarrow>
         let pkt = received p; bytesRead = length pkt in
         if bytesRead < RE_HEADER_BYTES then (errorCode INTERNAL_ERROR, dataBuf, None)
         else if bufLen < bytesRead then (errorCode BUF_TOO_SMALL, dataBuf, None)
         else (int (bytesRead - RE_HEADER_BYTES),
               overwrite dataBuf 0 (drop RE_HEADER_BYTES pkt),
               Some (parseReHeader host pkt)))"

definition readPacketRecvFromOld ::
  "byte_order \<Rightarrow> bytes \<Rightarrow> nat \<Rightarrow> recv
    \<Rightarrow> int \<times> bytes \<times> (i32 \<times> bool \<times> bool \<times> u16 \<times> u32 \<times> u64) option" where
  "readPacketRecvFromOld host dataBuf bufLen r =
    (case r of
       RecvFail \<Rightarrow> (errorCode RECV_MSG, dataBuf, None)
     | Datagram p \<Rightarrow>
         let pkt = received p; bytesRead = length pkt in
         if bytesRead < RE_HEADER_BYTES_OLD then (errorCode INTERNAL_ERROR, dataBuf, None)
         else if bufLen < bytesRead then (errorCode BUF_TOO_SMALL, dataBuf, None)
         else (int (bytesRead - RE_HEADER_BYTES_OLD),
               overwrite dataBuf 0 (drop RE_HEADER_BYTES_OLD pkt),
               Some (parseReHeaderOld host pkt)))"

section \<open>Reassembling one buffer\<close>

text \<open>
  The local variables of \<open>getCompletePacketizedBuffer\<close>, the caller's buffer and the
  value-result arguments.
\<close>

record asm_state =
  dataBuf :: bytes
  prevTick :: u64
  msgLength :: u32
  totalPkts :: u32
  pktCount :: u32
  dumpTick :: bool
  veryFirstRead :: bool
  srcId :: u16
  totalBytesRead :: int
  discPackets :: int
  discBytes :: int
  discBufs :: int
  stats :: "packetRecvStats option"
  outTick :: u64
  outDataId :: u16

definition UINT_MAX64 :: u64 where "UINT_MAX64 = 0xFFFFFFFF"

definition asm_init :: "bytes \<Rightarrow> u64 \<Rightarrow> packetRecvStats option \<Rightarrow> asm_state" where
  "asm_init buf tick st =
    \<lparr>dataBuf = buf, prevTick = UINT_MAX64, msgLength = 0, totalPkts = 0, pktCount = 0,
     dumpTick = False, veryFirstRead = True, srcId = 0, totalBytesRead = 0,
     discPackets = 0, discBytes = 0, discBufs = 0, stats = st, outTick = tick, outDataId = 0\<rparr>"

text \<open>The guess at the number of packets, a division in 64-bit arithmetic.\<close>

definition guessPkts :: "u32 \<Rightarrow> nat \<Rightarrow> u32" where
  "guessPkts len dataBytes = word_of_int ((uint len + (int dataBytes - 1)) sdiv int dataBytes)"

definition rejectSource :: "asm_state \<Rightarrow> asm_state" where
  "rejectSource st =
     st\<lparr>stats := map_option (\<lambda>s. s\<lparr>badSrcIdPackets := badSrcIdPackets s + 1\<rparr>) (stats st)\<rparr>"

text \<open>A new tick that does not start at offset 0: the whole tick is skipped.\<close>

definition skipTick :: "u64 \<Rightarrow> u32 \<Rightarrow> asm_state \<Rightarrow> asm_state" where
  "skipTick packetTick len st =
     st\<lparr>veryFirstRead := True, dumpTick := True, prevTick := packetTick,
        discPackets := discPackets st + uint (totalPkts st),
        discBytes := discBytes st + uint len,
        discBufs := discBufs st + 1\<rparr>"

text \<open>A new tick at offset 0: an unfinished predecessor is discarded.\<close>

definition startTick :: "u16 \<Rightarrow> u32 \<Rightarrow> u32 \<Rightarrow> asm_state \<Rightarrow> asm_state" where
  "startTick packetDataId prevLength prevTotalPkts st =
     (if \<not> veryFirstRead st
      then st\<lparr>pktCount := 0, totalBytesRead := 0, srcId := packetDataId,
              discPackets := discPackets st + uint prevTotalPkts,
              discBytes := discBytes st + uint prevLength,
              discBufs := discBufs st + 1\<rparr>
      else st)\<lparr>dumpTick := False\<rparr>"

text \<open>The statistics of a completed buffer; \<open>None\<close> when \<open>tickPrescale\<close> is 0 and divides.\<close>

definition absDiff :: "u64 \<Rightarrow> u64 \<Rightarrow> u64" where
  "absDiff packetTick expectedTick =
     (let diff = packetTick - expectedTick in if sint diff < 0 then - diff else diff)"

definition finishStats ::
  "u64 \<Rightarrow> u64 \<Rightarrow> u32 \<Rightarrow> asm_state \<Rightarrow> packetRecvStats \<Rightarrow> packetRecvStats option" where
  "finishStats packetTick expectedTick tickPrescale st s =
    (let knowExpectedTick = (expectedTick \<noteq> 0xffffffffffffffff) in
     if knowExpectedTick \<and> tickPrescale = 0 then None
     else
      let droppedTicks = (if knowExpectedTick
                          then sint (absDiff packetTick expectedTick) sdiv uint tickPrescale else 0)
      in Some (s\<lparr>droppedBuffers := droppedBuffers s + droppedTicks,
                 droppedPackets := droppedPackets s + droppedTicks * uint (pktCount st),
                 acceptedBytes := acceptedBytes s + totalBytesRead st,
                 acceptedPackets := acceptedPackets s + uint (pktCount st),
                 discardedBytes := discardedBytes s + discBytes st,
                 discardedPackets := discardedPackets s + discPackets st,
                 discardedBuffers := discardedBuffers s + discBufs st\<rparr>))"

definition finishBuffer :: "u64 \<Rightarrow> u16 \<Rightarrow> u64 \<Rightarrow> u32 \<Rightarrow> asm_state \<Rightarrow> asm_state ctl" where
  "finishBuffer packetTick packetDataId expectedTick tickPrescale st =
    (let st = st\<lparr>outTick := packetTick, outDataId := packetDataId\<rparr> in
     case stats st of
       None \<Rightarrow> Ret (totalBytesRead st) st
     | Some s \<Rightarrow>
         (case finishStats packetTick expectedTick tickPrescale st s of
            None \<Rightarrow> Trap
          | Some s' \<Rightarrow> Ret (totalBytesRead st) (st\<lparr>stats := Some s'\<rparr>)))"

text \<open>Copying the data in place and counting it.\<close>

definition storeData :: "nat \<Rightarrow> bytes \<Rightarrow> u64 \<Rightarrow> asm_state \<Rightarrow> asm_state" where
  "storeData off payload packetTick st =
     st\<lparr>dataBuf := overwrite (dataBuf st) off payload,
        totalBytesRead := totalBytesRead st + int (length payload),
        veryFirstRead := False,
        prevTick := packetTick,
        pktCount := pktCount st + 1\<rparr>"

text \<open>
  One turn of the loop up to the room check: \<open>Inl\<close> when the turn ends there, \<open>Inr\<close> with
  the state, the offset, the payload, the tick and the data id when the payload is to be
  stored. Both reassembly routines share this part word for word.
\<close>

definition asm_receive ::
  "byte_order \<Rightarrow> asm_state \<Rightarrow> recv
    \<Rightarrow> asm_state ctl + (asm_state \<times> nat \<times> bytes \<times> u64 \<times> u16)" where
  "asm_receive host st0 r =
    (let st = (if veryFirstRead st0 then st0\<lparr>totalBytesRead := 0, pktCount := 0\<rparr> else st0) in
     case r of
       RecvFail \<Rightarrow> Inl (Ret (errorCode RECV_MSG) st)
     | Datagram p \<Rightarrow>
        let pkt = received p in
        if length pkt < RE_HEADER_BYTES then Inl (Ret (errorCode INTERNAL_ERROR) st)
        else
         let dataBytes = length pkt - RE_HEADER_BYTES;
             prevLength = msgLength st;
             prevTotalPkts = totalPkts st;
             (version, packetDataId, offset, len, packetTick) = parseReHeader host pkt;
             st = st\<lparr>msgLength := len\<rparr>
         in
          if veryFirstRead st \<and> dataBytes = 0 then Inl Trap
          else if \<not> veryFirstRead st \<and> packetDataId \<noteq> srcId st then Inl (Again (rejectSource st))
          else
           let st = (if veryFirstRead st
                     then st\<lparr>srcId := packetDataId, totalPkts := guessPkts len dataBytes\<rparr> else st)
           in
            if packetTick \<noteq> prevTick st \<and> offset \<noteq> 0
            then Inl (Again (skipTick packetTick len st))
            else if packetTick = prevTick st \<and> dumpTick st
            then Inl (Again (st\<lparr>veryFirstRead := True\<rparr>))
            else
             Inr (if packetTick \<noteq> prevTick st
                  then startTick packetDataId prevLength prevTotalPkts st else st,
                  unat offset, drop RE_HEADER_BYTES pkt, packetTick, packetDataId))"

definition asm_step ::
  "byte_order \<Rightarrow> nat \<Rightarrow> u64 \<Rightarrow> u32 \<Rightarrow> asm_state \<Rightarrow> recv \<Rightarrow> asm_state ctl" where
  "asm_step host bufLen expectedTick tickPrescale st0 r =
    (case asm_receive host st0 r of
       Inl c \<Rightarrow> c
     | Inr (st, off, payload, packetTick, packetDataId) \<Rightarrow>
         if off + length payload > bufLen then Ret (errorCode BUF_TOO_SMALL) st
         else
          let st = storeData off payload packetTick st in
          if totalBytesRead st \<ge> uint (msgLength st)
          then finishBuffer packetTick packetDataId expectedTick tickPrescale st
          else Again st)"

text \<open>
  The loop: \<open>Again\<close> at the end of the input means that \<open>recvfrom\<close> blocks. The datagrams
  not consumed are returned as well.
\<close>

fun recv_loop :: "('s \<Rightarrow> recv \<Rightarrow> 's ctl) \<Rightarrow> 's \<Rightarrow> recv list \<Rightarrow> 's ctl \<times> recv list" where
  "recv_loop f st [] = (Again st, [])"
| "recv_loop f st (r # rs) =
     (case f st r of Again st' \<Rightarrow> recv_loop f st' rs | Ret c st' \<Rightarrow> (Ret c st', rs) | Trap \<Rightarrow> (Trap, rs))"

definition getCompletePacketizedBuffer ::
  "byte_order \<Rightarrow> bytes \<Rightarrow> nat \<Rightarrow> recv list \<Rightarrow> u64 \<Rightarrow> packetRecvStats option \<Rightarrow> u32
    \<Rightarrow> asm_state ctl \<times> recv list" where
  "getCompletePacketizedBuffer host buf bufLen net tick st tickPrescale =
     recv_loop (asm_step host bufLen tick tickPrescale) (asm_init buf tick st) net"

section \<open>Pieces of a buffer\<close>

text \<open>
  A piece is an offset and the bytes found there. \<open>tiles d ps\<close>: the pieces are non-empty
  parts of \<open>d\<close>, reach every byte of it and add up to its length.
\<close>

type_synonym piece = "nat \<times> bytes"

definition piece_of :: "bytes \<Rightarrow> piece \<Rightarrow> bool" where
  "piece_of d = (\<lambda>(off, c). c \<noteq> [] \<and> off + length c \<le> length d \<and> take (length c) (drop off d) = c)"

definition covered :: "piece list \<Rightarrow> nat \<Rightarrow> bool" where
  "covered ps i \<longleftrightarrow> (\<exists>(off, c) \<in> set ps. off \<le> i \<and> i < off + length c)"

definition total_len :: "piece list \<Rightarrow> nat" where
  "total_len ps = sum_list (map (\<lambda>(off, c). length c) ps)"

definition tiles :: "bytes \<Rightarrow> piece list \<Rightarrow> bool" where
  "tiles d ps \<longleftrightarrow> (\<forall>p \<in> set ps. piece_of d p) \<and> (\<forall>i < length d. covered ps i) \<and> total_len ps = length d"

fun pieces :: "nat \<Rightarrow> bytes list \<Rightarrow> piece list" where
  "pieces off [] = []"
| "pieces off (c # cs) = (off, c) # pieces (off + length c) cs"

lemma total_len_simps [simp]: "total_len [] = 0" "total_len ((off, c) # ps) = length c + total_len ps"
    "total_len (ps @ qs) = total_len ps + total_len qs"
  by (simp_all add: total_len_def)

lemma piece_nth:
  assumes "piece_of d (off, c)" and "i < length c"
  shows "c ! i = d ! (off + i)"
proof -
  have c: "take (length c) (drop off d) = c" and len: "off \<le> length d"
    using assms(1) by (simp_all add: piece_of_def)
  have "c ! i = take (length c) (drop off d) ! i" by (simp only: c)
  also have "\<dots> = d ! (off + i)" using assms(2) len by (simp only: nth_take nth_drop)
  finally show ?thesis .
qed

lemma snd_pieces: "p \<in> set (pieces off cs) \<Longrightarrow> snd p \<in> set cs"
  by (induction cs arbitrary: off) auto

lemma total_pieces: "total_len (pieces off cs) = length (concat cs)"
  by (induction cs arbitrary: off) auto

lemma covered_pieces:
  "off \<le> i \<Longrightarrow> i < off + length (concat cs) \<Longrightarrow> covered (pieces off cs) i"
proof (induction cs arbitrary: off)
  case Nil
  then show ?case by simp
next
  case (Cons c cs)
  show ?case
  proof (cases "i < off + length c")
    case True
    with Cons.prems show ?thesis by (auto simp: covered_def)
  next
    case False
    with Cons.prems Cons.IH [of "off + length c"] show ?thesis by (auto simp: covered_def)
  qed
qed

lemma piece_of_pieces:
  assumes "\<forall>c \<in> set cs. c \<noteq> []" and "d = pre @ concat cs" and "p \<in> set (pieces (length pre) cs)"
  shows "piece_of d p"
  using assms
proof (induction cs arbitrary: pre)
  case Nil
  then show ?case by simp
next
  case (Cons c cs)
  show ?case
  proof (cases "p = (length pre, c)")
    case True
    with Cons.prems show ?thesis by (simp add: piece_of_def)
  next
    case False
    with Cons.prems Cons.IH [of "pre @ c"] show ?thesis by simp
  qed
qed

text \<open>The pieces a sender cuts tile the buffer, in whatever order they arrive.\<close>

lemma tiles_pieces:
  assumes "0 < m" and "d \<noteq> []"
  shows "tiles d (pieces 0 (chunks m d))"
  using assms piece_of_pieces [of "chunks m d" d "[]"] covered_pieces [of 0 _ "chunks m d"]
  by (auto simp: tiles_def total_pieces dest: chunk_not_Nil)

lemma total_len_perm: "mset ps = mset qs \<Longrightarrow> total_len ps = total_len qs"
  unfolding total_len_def by (metis mset_map sum_mset_sum_list)

lemma tiles_perm:
  assumes "mset ps = mset qs"
  shows "tiles d ps = tiles d qs"
  using mset_eq_setD [OF assms] total_len_perm [OF assms] by (simp add: tiles_def covered_def)

lemma tiles_nonempty: "tiles d ps \<Longrightarrow> p \<in> set ps \<Longrightarrow> 0 < length (snd p)"
  by (cases p) (auto simp: tiles_def piece_of_def)

section \<open>Reassembly is correct\<close>

text \<open>The version 2 packet that carries a piece.\<close>

definition re_packet :: "u32 \<Rightarrow> u64 \<Rightarrow> i32 \<Rightarrow> u16 \<Rightarrow> i32 \<Rightarrow> piece \<Rightarrow> bytes" where
  "re_packet len t v d r = (\<lambda>(off, c). re_layout (of_nat off) len t v d r @ c)"

text \<open>
  What reaches the receiver: packets of the buffer and, between them, packets of other
  sources.
\<close>

type_synonym arrival = "bytes + piece"

fun own :: "arrival list \<Rightarrow> piece list" where
  "own [] = []"
| "own (Inl _ # xs) = own xs"
| "own (Inr p # xs) = p # own xs"

definition foreign_packet :: "byte_order \<Rightarrow> u16 \<Rightarrow> bytes \<Rightarrow> bool" where
  "foreign_packet host d p \<longleftrightarrow> RE_HEADER_BYTES \<le> length (received p)
     \<and> fst (snd (parseReHeader host (received p))) \<noteq> d"

fun arrives :: "(piece \<Rightarrow> bytes) \<Rightarrow> arrival \<Rightarrow> recv" where
  "arrives enc (Inl p) = Datagram p"
| "arrives enc (Inr p) = Datagram (enc p)"

lemma received_short: "length p \<le> PKT_STORAGE \<Longrightarrow> received p = p"
  by (simp add: received_def)

lemma length_re_packet [simp]: "length (re_packet len t v d r (off, c)) = RE_HEADER_BYTES + length c"
  by (simp add: re_packet_def size_defs)

lemma parse_re_packet [simp]:
  "parseReHeader host (re_packet len t v d r (off, c)) = (v AND 0xf, d, of_nat off, len, t)"
  by (simp add: re_packet_def parseReHeader_layout)

lemma drop_re_packet [simp]: "drop RE_HEADER_BYTES (re_packet len t v d r (off, c)) = c"
  by (simp add: re_packet_def size_defs)

text \<open>
  Between two packets of a buffer, after the pieces \<open>done\<close> and \<open>f\<close> foreign packets: the
  bytes of the pieces are in place, nothing beyond the buffer's length has been touched and
  the counters agree with the pieces.
\<close>

definition asm_inv ::
  "bytes \<Rightarrow> bytes \<Rightarrow> u64 \<Rightarrow> u16 \<Rightarrow> packetRecvStats option \<Rightarrow> piece list \<Rightarrow> nat \<Rightarrow> asm_state \<Rightarrow> bool" where
  "asm_inv d buf t i sts ps f st \<longleftrightarrow>
     \<not> veryFirstRead st \<and> \<not> dumpTick st \<and> prevTick st = t \<and> srcId st = i
     \<and> totalBytesRead st = int (total_len ps) \<and> pktCount st = of_nat (length ps)
     \<and> discPackets st = 0 \<and> discBytes st = 0 \<and> discBufs st = 0
     \<and> stats st = map_option (\<lambda>s. s\<lparr>badSrcIdPackets := badSrcIdPackets s + int f\<rparr>) sts
     \<and> length (dataBuf st) = length buf
     \<and> drop (length d) (dataBuf st) = drop (length d) buf
     \<and> (\<forall>j < length d. covered ps j \<longrightarrow> dataBuf st ! j = d ! j)"

lemma asm_receive_own:
  assumes "\<not> veryFirstRead st" and "\<not> dumpTick st" and "prevTick st = t" and "srcId st = i"
    and "RE_HEADER_BYTES + length c \<le> PKT_STORAGE" and "off < 2 ^ 32"
  shows "asm_receive host st (Datagram (re_packet len t v i r (off, c)))
    = Inr (st\<lparr>msgLength := len\<rparr>, off, c, t, i)"
  using assms by (simp add: asm_receive_def received_short unat_of_nat)

lemma asm_receive_first:
  assumes "RE_HEADER_BYTES + length c \<le> PKT_STORAGE" and "c \<noteq> []"
  shows "asm_receive host (asm_init buf tick sts) (Datagram (re_packet len t v i r (0, c)))
    = Inr ((asm_init buf tick sts)\<lparr>msgLength := len, srcId := i,
             totalPkts := guessPkts len (length c)\<rparr>, 0, c, t, i)"
  using assms
  by (cases "t = UINT_MAX64")
     (simp_all add: asm_receive_def received_short asm_init_def startTick_def)

lemma asm_receive_foreign:
  assumes "\<not> veryFirstRead st" and "srcId st = i" and "foreign_packet host i p"
  shows "\<exists>len. asm_receive host st (Datagram p) = Inl (Again (rejectSource (st\<lparr>msgLength := len\<rparr>)))"
  using assms
  by (cases "parseReHeader host (received p)")
     (auto simp: asm_receive_def foreign_packet_def Let_def)

lemma asm_inv_foreign:
  assumes "asm_inv d buf t i sts ps f st"
  shows "asm_inv d buf t i sts ps (Suc f) (rejectSource (st\<lparr>msgLength := len\<rparr>))"
  using assms by (cases sts) (auto simp: asm_inv_def rejectSource_def)

lemma covered_snoc: "covered (ps @ [(off, c)]) j \<longleftrightarrow> covered ps j \<or> off \<le> j \<and> j < off + length c"
  by (auto simp: covered_def)

lemma asm_inv_store:
  assumes inv: "asm_inv d buf t i sts ps f st" and p: "piece_of d (off, c)"
    and room: "length d \<le> length buf"
  shows "asm_inv d buf t i sts (ps @ [(off, c)]) f (storeData off c t (st\<lparr>msgLength := len\<rparr>))"
proof -
  have bound: "off + length c \<le> length d" using p by (simp add: piece_of_def)
  have len: "length (dataBuf st) = length buf" using inv by (simp add: asm_inv_def)
  have "overwrite (dataBuf st) off c ! j = d ! j"
    if "j < length d" and "covered (ps @ [(off, c)]) j" for j
    using that inv bound room len piece_nth [OF p, of "j - off"]
    by (auto simp: nth_overwrite covered_snoc asm_inv_def)
  moreover have "drop (length d) (overwrite (dataBuf st) off c) = drop (length d) buf"
    using inv bound room len by (simp add: drop_overwrite asm_inv_def)
  moreover have "length (overwrite (dataBuf st) off c) = length buf"
    using bound room len by simp
  ultimately show ?thesis
    using inv by (simp add: asm_inv_def storeData_def)
qed

lemma asm_inv_first:
  assumes p: "piece_of d (0, c)" and room: "length d \<le> length buf"
  shows "asm_inv d buf t i sts [(0, c)] 0 (storeData 0 c t
    ((asm_init buf tick sts)\<lparr>msgLength := len, srcId := i, totalPkts := g\<rparr>))"
proof -
  define s0 where "s0 = (asm_init buf tick sts)\<lparr>srcId := i, totalPkts := g,
      veryFirstRead := False, prevTick := t\<rparr>"
  have "asm_inv d buf t i sts [] 0 s0"
    by (cases sts) (simp_all add: s0_def asm_inv_def asm_init_def covered_def)
  from asm_inv_store [OF this p room, of len] show ?thesis
    by (simp add: s0_def asm_inv_def storeData_def asm_init_def)
qed

text \<open>What the statistics say once the buffer is complete.\<close>

definition completed_stats ::
  "u64 \<Rightarrow> u64 \<Rightarrow> u32 \<Rightarrow> nat \<Rightarrow> nat \<Rightarrow> nat \<Rightarrow> packetRecvStats \<Rightarrow> packetRecvStats" where
  "completed_stats t expected prescale bytes pkts f s =
    (let dropped = (if expected = 0xffffffffffffffff then 0
                    else sint (absDiff t expected) sdiv uint prescale)
     in s\<lparr>badSrcIdPackets := badSrcIdPackets s + int f,
          droppedBuffers := droppedBuffers s + dropped,
          droppedPackets := droppedPackets s + dropped * uint (of_nat pkts :: u32),
          acceptedBytes := acceptedBytes s + int bytes,
          acceptedPackets := acceptedPackets s + uint (of_nat pkts :: u32)\<rparr>)"

definition asm_complete ::
  "bytes \<Rightarrow> bytes \<Rightarrow> u64 \<Rightarrow> u16 \<Rightarrow> packetRecvStats option \<Rightarrow> asm_state \<Rightarrow> bool" where
  "asm_complete d buf t i sts st \<longleftrightarrow>
     take (length d) (dataBuf st) = d \<and> drop (length d) (dataBuf st) = drop (length d) buf
     \<and> outTick st = t \<and> outDataId st = i \<and> stats st = sts"

lemma finishBuffer_complete:
  assumes inv: "asm_inv d buf t i sts ps f st" and tl: "tiles d ps" and tp: "tickPrescale \<noteq> 0"
    and room: "length d \<le> length buf"
  shows "\<exists>st'. finishBuffer t i expected tickPrescale st = Ret (int (length d)) st'
    \<and> asm_complete d buf t i
        (map_option (completed_stats t expected tickPrescale (length d) (length ps) f) sts) st'"
proof -
  have len: "length (dataBuf st) = length buf" using inv by (simp add: asm_inv_def)
  have "take (length d) (dataBuf st) = d"
    using inv tl room len by (auto simp: list_eq_iff_nth_eq asm_inv_def tiles_def)
  moreover have "totalBytesRead st = int (length d)" using inv tl by (simp add: asm_inv_def tiles_def)
  ultimately show ?thesis
    using inv tp
    by (cases sts) (auto simp: finishBuffer_def finishStats_def asm_complete_def asm_inv_def
        completed_stats_def Let_def)
qed

definition foreigns :: "arrival list \<Rightarrow> nat" where
  "foreigns xs = length (filter isl xs)"

text \<open>
  What a receiver is given: every packet fits the packet array, the packets that are not of
  the buffer are of other sources, and the last packet is of the buffer.
\<close>

definition arrivals_ok :: "byte_order \<Rightarrow> u16 \<Rightarrow> arrival list \<Rightarrow> bool" where
  "arrivals_ok host i xs \<longleftrightarrow> (\<forall>p. Inl p \<in> set xs \<longrightarrow> foreign_packet host i p)
     \<and> (\<forall>(off, c) \<in> set (own xs). RE_HEADER_BYTES + length c \<le> PKT_STORAGE)
     \<and> (xs \<noteq> [] \<longrightarrow> \<not> isl (last xs))"

lemma arrivals_ok_tl: "arrivals_ok host i (x # xs) \<Longrightarrow> arrivals_ok host i xs"
  by (cases x) (auto simp: arrivals_ok_def split: if_splits)

lemma own_Nil: "arrivals_ok host i xs \<Longrightarrow> own xs = [] \<Longrightarrow> xs = []"
proof (rule ccontr)
  assume ok: "arrivals_ok host i xs" and own: "own xs = []" and ne: "xs \<noteq> []"
  then obtain ys x where xs: "xs = ys @ [x]" by (metis rev_exhaust)
  have own_append: "own (ys @ [Inr p]) \<noteq> []" for p
    by (induction ys rule: own.induct) auto
  from ok xs obtain p where "x = Inr p" by (cases x) (auto simp: arrivals_ok_def)
  with own xs own_append show False by simp
qed

lemma uint_of_length: "n < 2 ^ 32 \<Longrightarrow> uint (of_nat n :: u32) = int n"
  by (simp add: unsigned_of_nat take_bit_nat_eq_self)

lemma asm_step_own:
  assumes inv: "asm_inv d buf t i sts ps f st" and p: "piece_of d (off, c)"
    and d: "length d < 2 ^ 32" "length d \<le> bufLen" "length d \<le> length buf"
    and fit: "RE_HEADER_BYTES + length c \<le> PKT_STORAGE"
  defines "st' \<equiv> storeData off c t (st\<lparr>msgLength := of_nat (length d)\<rparr>)"
  shows "asm_step host bufLen expected prescale st
      (Datagram (re_packet (of_nat (length d)) t v i r (off, c)))
    = (if total_len ps + length c \<ge> length d then finishBuffer t i expected prescale st' else Again st')"
proof -
  have bound: "off + length c \<le> length d" using p by (simp add: piece_of_def)
  have rc: "asm_receive host st (Datagram (re_packet (of_nat (length d)) t v i r (off, c)))
      = Inr (st\<lparr>msgLength := of_nat (length d)\<rparr>, off, c, t, i)"
    using inv fit bound d by (intro asm_receive_own) (auto simp: asm_inv_def)
  have "totalBytesRead st' = int (total_len ps + length c)"
    using inv by (simp add: st'_def storeData_def asm_inv_def)
  moreover have "uint (msgLength st') = int (length d)"
    using d by (simp add: st'_def storeData_def uint_of_length)
  ultimately show ?thesis
    using bound d by (simp add: asm_step_def rc st'_def [symmetric] Let_def)
qed

lemma asm_loop:
  assumes "asm_inv d buf t i sts ps f st" and "tiles d (ps @ own xs)" and "xs \<noteq> []"
    and "arrivals_ok host i xs"
    and d: "length d < 2 ^ 32" "length d \<le> bufLen" "length d \<le> length buf" and tp: "prescale \<noteq> 0"
  shows "\<exists>st'. recv_loop (asm_step host bufLen expected prescale) st
      (map (arrives (re_packet (of_nat (length d)) t v i r)) xs @ later) = (Ret (int (length d)) st', later)
    \<and> asm_complete d buf t i (map_option (completed_stats t expected prescale (length d)
        (length (ps @ own xs)) (f + foreigns xs)) sts) st'"
  using assms(1-4)
proof (induction xs arbitrary: ps f st)
  case Nil
  then show ?case by simp
next
  case (Cons x xs)
  note ok = arrivals_ok_tl [OF Cons.prems(4)]
  show ?case
  proof (cases x)
    case (Inl p)
    then obtain len where "asm_receive host st (Datagram p)
        = Inl (Again (rejectSource (st\<lparr>msgLength := len\<rparr>)))"
      using Cons.prems asm_receive_foreign [of st i host p]
      by (auto simp: asm_inv_def arrivals_ok_def)
    moreover have "xs \<noteq> []" using Cons.prems(4) Inl by (auto simp: arrivals_ok_def)
    ultimately show ?thesis
      using Cons.IH [OF asm_inv_foreign [OF Cons.prems(1), of len] _ _ ok] Cons.prems(2) Inl
      by (auto simp: asm_step_def foreigns_def)
  next
    case (Inr q)
    obtain off c where q: "q = (off, c)" by (cases q)
    have p: "piece_of d (off, c)" using Cons.prems(2) Inr q by (auto simp: tiles_def)
    have fit: "RE_HEADER_BYTES + length c \<le> PKT_STORAGE"
      using Cons.prems(4) Inr q by (auto simp: arrivals_ok_def)
    let ?st = "storeData off c t (st\<lparr>msgLength := of_nat (length d)\<rparr>)"
    note step = asm_step_own [OF Cons.prems(1) p d fit, of host expected prescale v r]
    have inv': "asm_inv d buf t i sts (ps @ [(off, c)]) f ?st"
      by (rule asm_inv_store [OF Cons.prems(1) p d(3)])
    have sum: "total_len ps + length c + total_len (own xs) = length d"
      using Cons.prems(2) Inr q by (simp add: tiles_def)
    show ?thesis
    proof (cases "xs = []")
      case True
      have "tiles d (ps @ [(off, c)])" using Cons.prems(2) Inr q True by simp
      from finishBuffer_complete [OF inv' this tp d(3), of expected]
      show ?thesis using step sum True Inr q by (auto simp: foreigns_def)
    next
      case False
      then have "own xs \<noteq> []" using own_Nil [OF ok] by blast
      then have "0 < total_len (own xs)"
        using tiles_nonempty [OF Cons.prems(2), of "hd (own xs)"] Inr
        by (cases "own xs") (auto split: prod.splits)
      then show ?thesis
        using Cons.IH [OF inv' _ False ok] Cons.prems(2) step sum Inr q by (auto simp: foreigns_def)
    qed
  qed
qed

lemma asm_step_first:
  fixes t tick :: u64 and sts :: "packetRecvStats option" and i :: u16
  assumes p: "piece_of d (0, c)"
    and d: "length d < 2 ^ 32" "length d \<le> bufLen" "length d \<le> length buf"
    and fit: "RE_HEADER_BYTES + length c \<le> PKT_STORAGE"
  defines "st' \<equiv> storeData 0 c t ((asm_init buf tick sts)\<lparr>msgLength := of_nat (length d),
      srcId := i, totalPkts := guessPkts (of_nat (length d)) (length c)\<rparr>)"
  shows "asm_step host bufLen expected prescale (asm_init buf tick sts)
      (Datagram (re_packet (of_nat (length d)) t v i r (0, c)))
    = (if length c \<ge> length d then finishBuffer t i expected prescale st' else Again st')"
proof -
  have c: "c \<noteq> []" "length c \<le> length d" using p by (simp_all add: piece_of_def)
  have "totalBytesRead st' = int (length c)" by (simp add: st'_def storeData_def asm_init_def)
  moreover have "uint (msgLength st') = int (length d)"
    using d by (simp add: st'_def storeData_def uint_of_length)
  ultimately show ?thesis
    using c d
    unfolding asm_step_def asm_receive_first [OF fit c(1)] sum.case prod.case st'_def [symmetric]
      Let_def by simp
qed

lemma reassembles:
  assumes tl: "tiles d ((0, c) # own xs)" and ok: "arrivals_ok host i (Inr (0, c) # xs)"
    and d: "length d < 2 ^ 32" "length d \<le> bufLen" "length d \<le> length buf" and tp: "prescale \<noteq> 0"
  shows "\<exists>st'. getCompletePacketizedBuffer host buf bufLen
      (map (arrives (re_packet (of_nat (length d)) t v i r)) (Inr (0, c) # xs) @ later)
      expected sts prescale = (Ret (int (length d)) st', later)
    \<and> asm_complete d buf t i (map_option (completed_stats t expected prescale (length d)
        (length ((0, c) # own xs)) (foreigns xs)) sts) st'"
proof -
  have p: "piece_of d (0, c)" using tl by (auto simp: tiles_def)
  have fit: "RE_HEADER_BYTES + length c \<le> PKT_STORAGE" using ok by (auto simp: arrivals_ok_def)
  let ?st = "storeData 0 c t ((asm_init buf expected sts)\<lparr>msgLength := of_nat (length d),
      srcId := i, totalPkts := guessPkts (of_nat (length d)) (length c)\<rparr>)"
  have step: "asm_step host bufLen expected prescale (asm_init buf expected sts)
      (Datagram (re_packet (of_nat (length d)) t v i r (0, c)))
    = (if length c \<ge> length d then finishBuffer t i expected prescale ?st else Again ?st)"
    by (rule asm_step_first [OF p d fit])
  have inv: "asm_inv d buf t i sts [(0, c)] 0 ?st"
    by (rule asm_inv_first [OF p d(3)])
  have sum: "length c + total_len (own xs) = length d" using tl by (simp add: tiles_def)
  show ?thesis
  proof (cases "xs = []")
    case True
    have tl1: "tiles d [(0, c)]" using tl True by simp
    obtain st' where fin: "finishBuffer t i expected prescale ?st = Ret (int (length d)) st'"
      and "asm_complete d buf t i
        (map_option (completed_stats t expected prescale (length d) (length [(0 :: nat, c)]) 0) sts) st'"
      using finishBuffer_complete [OF inv tl1 tp d(3), of expected] by blast
    moreover have "length d \<le> length c" using sum True by simp
    then have "asm_step host bufLen expected prescale (asm_init buf expected sts)
        (Datagram (re_packet (of_nat (length d)) t v i r (0, c))) = Ret (int (length d)) st'"
      unfolding step fin by simp
    ultimately show ?thesis
      by (simp add: getCompletePacketizedBuffer_def foreigns_def True)
  next
    case False
    have ok': "arrivals_ok host i xs" by (rule arrivals_ok_tl [OF ok])
    then have "own xs \<noteq> []" using own_Nil False by blast
    then have "0 < total_len (own xs)"
      using tiles_nonempty [OF tl, of "hd (own xs)"] by (cases "own xs") (auto split: prod.splits)
    then have "\<not> length d \<le> length c" using sum by simp
    then show ?thesis
      using asm_loop [OF inv _ False ok' d tp, of expected v r later] tl
      by (simp add: getCompletePacketizedBuffer_def step)
  qed
qed

section \<open>Properties\<close>

text \<open>
  C2: whatever the order in which the packets of a buffer arrive, as long as the one at
  offset 0 comes first, and whatever packets of other sources arrive between them,
  \<open>getCompletePacketizedBuffer\<close> returns the buffer's length with the buffer's bytes in
  place, nothing written behind them, the tick and data id of the packets, and statistics
  that count the buffer's packets and bytes and the rejected packets. Later datagrams stay
  in the socket.
\<close>

theorem reassembly_any_order:
  assumes "tiles d ((0, c) # own xs)" and "arrivals_ok host i (Inr (0, c) # xs)"
    and "length d < 2 ^ 32" and "length d \<le> bufLen" and "bufLen \<le> length buf" and "prescale \<noteq> 0"
  shows "\<exists>st'. getCompletePacketizedBuffer host buf bufLen
      (map (arrives (re_packet (of_nat (length d)) t v i r)) (Inr (0, c) # xs) @ later)
      expected sts prescale = (Ret (int (length d)) st', later)
    \<and> asm_complete d buf t i (map_option (completed_stats t expected prescale (length d)
        (length ((0, c) # own xs)) (foreigns xs)) sts) st'"
  by (rule reassembles) (use assms in simp_all)

text \<open>A concrete run: five bytes in three packets, the last two swapped, one foreign packet.\<close>

theorem reassembly_any_order_witness:
  "\<exists>st'. getCompletePacketizedBuffer ENDIAN_LITTLE (replicate 8 0) 8
      (map (arrives (re_packet (of_nat (length [1, 2, 3, 4, 5 :: u8])) 7 2 3 0))
        (Inr (0, [1, 2]) # [Inl (re_packet 5 7 2 9 0 (0, [0])), Inr (4, [5]), Inr (2, [3, 4])]) @ [])
      7 None 1 = (Ret (int (length [1, 2, 3, 4, 5 :: u8])) st', [])
    \<and> asm_complete [1, 2, 3, 4, 5] (replicate 8 0) 7 3 (map_option (completed_stats 7 7 1
        (length [1, 2, 3, 4, 5 :: u8]) (length ((0, [1, 2]) # [(4, [5]), (2, [3, 4])]))
        (foreigns [Inl (re_packet 5 7 2 9 0 (0, [0])), Inr (4, [5]), Inr (2, [3, 4])])) None) st'"
proof -
  have "tiles [1, 2, 3, 4, 5] ((0, [1, 2]) # own [Inl (re_packet 5 7 2 9 0 (0, [0])), Inr (4, [5]), Inr (2, [3, 4])])"
    by (auto simp: tiles_def piece_of_def covered_def)
  moreover have "arrivals_ok ENDIAN_LITTLE 3
      (Inr (0, [1, 2]) # [Inl (re_packet 5 7 2 9 0 (0, [0])), Inr (4, [5]), Inr (2, [3, 4])])"
    by (auto simp: arrivals_ok_def foreign_packet_def received_short PKT_STORAGE_def size_defs)
  ultimately show ?thesis
    using reassembly_any_order [of "[1, 2, 3, 4, 5]" "[1, 2]"
        "[Inl (re_packet 5 7 2 9 0 (0, [0])), Inr (4, [5]), Inr (2, [3, 4])]" ENDIAN_LITTLE 3 8
        "replicate 8 0" 1 7 2 0 "[]" 7 None]
    by simp
qed

definition ctl_state :: "'s ctl \<Rightarrow> 's option" where
  "ctl_state c = (case c of Again st \<Rightarrow> Some st | Ret _ st \<Rightarrow> Some st | Trap \<Rightarrow> None)"

text \<open>Which parts of the caller's memory a receiving step leaves alone.\<close>

definition keeps_memory :: "nat \<Rightarrow> bytes \<Rightarrow> asm_state \<Rightarrow> bool" where
  "keeps_memory n buf st \<longleftrightarrow> length (dataBuf st) = length buf \<and> drop n (dataBuf st) = drop n buf"

lemma dataBuf_frames [simp]:
  "dataBuf (rejectSource st) = dataBuf st"
  "dataBuf (skipTick t len st) = dataBuf st"
  "dataBuf (startTick i l n st) = dataBuf st"
  by (simp_all add: rejectSource_def skipTick_def startTick_def)

lemma asm_receive_memory:
  "asm_receive host st r = Inl c \<Longrightarrow> ctl_state c = Some st' \<Longrightarrow> dataBuf st' = dataBuf st"
  "asm_receive host st r = Inr (st', off, pl, t, i) \<Longrightarrow> dataBuf st' = dataBuf st"
  by (auto simp: asm_receive_def ctl_state_def Let_def split: recv.splits if_splits prod.splits)

lemma finishBuffer_memory:
  "ctl_state (finishBuffer t i e p st) = Some st' \<Longrightarrow> dataBuf st' = dataBuf st"
  by (auto simp: finishBuffer_def ctl_state_def Let_def split: option.splits)

lemma asm_step_memory:
  assumes mem: "keeps_memory bufLen buf st" and room: "bufLen \<le> length buf"
    and st': "ctl_state (asm_step host bufLen expected prescale st r) = Some st'"
  shows "keeps_memory bufLen buf st'"
proof (cases "asm_receive host st r")
  case (Inl c)
  with st' asm_receive_memory(1) [OF Inl] have "dataBuf st' = dataBuf st"
    by (simp add: asm_step_def)
  with mem show ?thesis by (simp add: keeps_memory_def)
next
  case (Inr x)
  obtain s off pl t i where x: "x = (s, off, pl, t, i)" by (cases x)
  have s: "dataBuf s = dataBuf st" using asm_receive_memory(2) Inr x by blast
  show ?thesis
  proof (cases "off + length pl \<le> bufLen")
    case True
    then have "keeps_memory bufLen buf (storeData off pl t s)"
      using mem room s by (simp add: keeps_memory_def storeData_def drop_overwrite)
    moreover have "dataBuf st' = dataBuf (storeData off pl t s)"
      using st' Inr x True finishBuffer_memory
      by (auto simp: asm_step_def Let_def ctl_state_def split: if_splits)
    ultimately show ?thesis by (simp add: keeps_memory_def)
  next
    case False
    then show ?thesis
      using st' Inr x s mem by (auto simp: asm_step_def ctl_state_def keeps_memory_def)
  qed
qed

lemma recv_loop_invariant:
  assumes "P st" and "\<And>st r st'. P st \<Longrightarrow> ctl_state (f st r) = Some st' \<Longrightarrow> P st'"
    and "ctl_state (fst (recv_loop f st net)) = Some st'"
  shows "P st'"
  using assms(1,3)
proof (induction net arbitrary: st)
  case Nil
  then show ?case by (simp add: ctl_state_def)
next
  case (Cons r net)
  show ?case
  proof (cases "f st r")
    case (Again s)
    then have "P s" using assms(2) [OF Cons.prems(1), of r s] by (simp add: ctl_state_def)
    with Cons Again show ?thesis by simp
  next
    case (Ret c s)
    then show ?thesis using Cons.prems assms(2) [OF Cons.prems(1), of r s] by (simp add: ctl_state_def)
  next
    case Trap
    then show ?thesis using Cons.prems by (simp add: ctl_state_def)
  qed
qed

text \<open>
  C14: whatever arrives, \<open>getCompletePacketizedBuffer\<close> writes only inside the \<open>bufLen\<close>
  bytes it was given, whether it returns or still waits.
\<close>

theorem reassembly_stays_in_buffer:
  assumes "bufLen \<le> length buf"
    and "ctl_state (fst (getCompletePacketizedBuffer host buf bufLen net tick sts prescale)) = Some st'"
  shows "length (dataBuf st') = length buf \<and> drop bufLen (dataBuf st') = drop bufLen buf"
proof -
  have "keeps_memory bufLen buf st'"
  proof (rule recv_loop_invariant [OF _ asm_step_memory [OF _ assms(1)]])
    show "keeps_memory bufLen buf (asm_init buf tick sts)"
      by (simp add: keeps_memory_def asm_init_def)
    show "ctl_state (fst (recv_loop (asm_step host bufLen tick prescale) (asm_init buf tick sts) net))
        = Some st'"
      using assms(2) by (simp add: getCompletePacketizedBuffer_def)
  qed
  then show ?thesis by (simp add: keeps_memory_def)
qed

theorem reassembly_stays_in_buffer_witness:
  "2 \<le> length [9, 9, 9 :: u8] \<and>
   (\<exists>st'. ctl_state (fst (getCompletePacketizedBuffer ENDIAN_LITTLE [9, 9, 9] 2
      [Datagram (re_packet 3 7 2 1 0 (0, [1, 2, 3]))] 7 None 1)) = Some st'
     \<and> length (dataBuf st') = 3 \<and> drop 2 (dataBuf st') = [9])"
proof -
  have "asm_receive ENDIAN_LITTLE (asm_init [9, 9, 9] 7 None) (Datagram (re_packet 3 7 2 1 0 (0, [1, 2, 3])))
      = Inr ((asm_init [9, 9, 9] 7 None)\<lparr>msgLength := 3, srcId := 1,
             totalPkts := guessPkts 3 (length [1 :: u8, 2, 3])\<rparr>, 0, [1, 2, 3], 7, 1)"
    by (rule asm_receive_first) (simp_all add: size_defs PKT_STORAGE_def)
  then obtain st' where st': "ctl_state (fst (getCompletePacketizedBuffer ENDIAN_LITTLE [9, 9, 9] 2
      [Datagram (re_packet 3 7 2 1 0 (0, [1, 2, 3]))] 7 None 1)) = Some st'"
    by (simp add: getCompletePacketizedBuffer_def asm_step_def ctl_state_def)
  show ?thesis
    using st' reassembly_stays_in_buffer [OF _ st'] by simp
qed

text \<open>
  The code divides by the number of data bytes of the first packet, so a packet that
  carries a header and no data, which is what the senders emit for an empty buffer, is a
  division by zero in the receiver.
\<close>

theorem header_only_packet_divides_by_zero:
  assumes "length p = RE_HEADER_BYTES"
  shows "getCompletePacketizedBuffer host buf bufLen (Datagram p # net) tick sts prescale = (Trap, net)"
  using assms
  by (cases "parseReHeader host p")
     (simp add: getCompletePacketizedBuffer_def asm_step_def asm_receive_def asm_init_def
       received_def size_defs PKT_STORAGE_def)

theorem header_only_packet_divides_by_zero_witness:
  "length (re_packet 0 5 2 1 0 (0, [])) = RE_HEADER_BYTES
   \<and> getCompletePacketizedBuffer ENDIAN_LITTLE [] 0 [Datagram (re_packet 0 5 2 1 0 (0, []))] 0 None 1
     = (Trap, [])"
  using header_only_packet_divides_by_zero
    [of "re_packet 0 5 2 1 0 (0, [])" ENDIAN_LITTLE "[]" 0 "[]" 0 None 1]
  by simp

text \<open>
  C16: the routine counts bytes, not positions. When the first packet of a buffer of two
  equal halves arrives twice, the routine reports the buffer complete although its second
  half was never received and the caller's bytes there are the old ones.
\<close>

theorem duplicate_packet_reported_complete:
  assumes "d = c @ c'" and "length c' = length c" and "c \<noteq> []" and "length d < 2 ^ 32"
    and "length d \<le> bufLen" and "bufLen \<le> length buf" and "RE_HEADER_BYTES + length c \<le> PKT_STORAGE"
  shows "\<exists>st'. getCompletePacketizedBuffer host buf bufLen
      (map (\<lambda>p. Datagram (re_packet (of_nat (length d)) t v i r p)) [(0, c), (0, c)])
      tick None prescale = (Ret (int (length d)) st', [])
    \<and> drop (length c) (dataBuf st') = drop (length c) buf"
proof -
  have p: "piece_of d (0, c)" using assms(1,3) by (simp add: piece_of_def)
  have room: "length d \<le> length buf" using assms(5,6) by simp
  let ?st1 = "storeData 0 c t ((asm_init buf tick None)\<lparr>msgLength := of_nat (length d),
      srcId := i, totalPkts := guessPkts (of_nat (length d)) (length c)\<rparr>)"
  let ?st2 = "storeData 0 c t (?st1\<lparr>msgLength := of_nat (length d)\<rparr>)"
  have more: "\<not> length d \<le> length c" and all: "length d \<le> total_len [(0, c)] + length c"
    using assms(1-3) by auto
  note step1 = asm_step_first [OF p assms(4,5) room assms(7), of host tick prescale tick None t v i r]
  have inv: "asm_inv d buf t i None [(0, c)] 0 ?st1" by (rule asm_inv_first [OF p room])
  note step2 = asm_step_own [OF inv p assms(4,5) room assms(7), of host tick prescale v r]
  have "finishBuffer t i tick prescale ?st2
      = Ret (int (length d)) (?st2\<lparr>outTick := t, outDataId := i\<rparr>)"
    using assms(1,2) by (simp add: finishBuffer_def storeData_def asm_init_def)
  moreover have "drop (length c) (dataBuf ?st2) = drop (length c) buf"
    using room assms(1) by (simp add: storeData_def asm_init_def drop_overwrite)
  ultimately show ?thesis
    using more all by (simp add: getCompletePacketizedBuffer_def step1 step2)
qed

theorem duplicate_packet_reported_complete_witness:
  "\<exists>st'. getCompletePacketizedBuffer ENDIAN_LITTLE [9, 9, 9, 9] 4
      (map (\<lambda>p. Datagram (re_packet 4 7 2 3 0 p)) [(0, [1, 2]), (0, [1, 2])]) 0 None 1
      = (Ret 4 st', []) \<and> drop (Suc (Suc 0)) (dataBuf st') = [9, 9]"
  using duplicate_packet_reported_complete
    [of "[1, 2, 3, 4]" "[1, 2]" "[3, 4]" 4 "[9, 9, 9, 9]" ENDIAN_LITTLE 7 2 3 0 0 1]
  by (simp add: size_defs PKT_STORAGE_def)

end
