(* ===== verification/Assemble_More.thy ===== *)
theory Assemble_More
  imports Assemble
begin

text \<open>
  The other receivers of ejfat_assemble_ersap.hpp: \<open>getCompleteAllocatedBuffer\<close>, which
  allocates the buffer and doubles it when a packet does not fit, \<open>getPacketizedBuffer\<close>,
  which reads a large buffer in stages, \<open>writeBuffer\<close> and \<open>getBuffer\<close>. The first shares the
  handling of packets with \<open>getCompletePacketizedBuffer\<close> and is proved in step with it.
\<close>

section \<open>A buffer that grows: getCompleteAllocatedBuffer\<close>

text \<open>
  The heap: \<open>fresh n\<close> is what a newly allocated block of \<open>n\<close> bytes happens to contain, \<open>None\<close>
  when there is no memory. \<open>realloc\<close> keeps the old contents.
\<close>

type_synonym heap = "nat \<Rightarrow> bytes option"

definition realloc :: "heap \<Rightarrow> bytes \<Rightarrow> nat \<Rightarrow> bytes option" where
  "realloc fresh b n = map_option (\<lambda>f. take n b @ drop (length b) f) (fresh n)"

text \<open>
  The variables of the loop are those of \<open>getCompletePacketizedBuffer\<close>, whose \<open>dataBuf\<close> is the
  block in use, with \<open>bufLen\<close> and \<open>allocateBuf\<close>. \<open>al_callerLive\<close>: the block the caller passed has
  not been handed to \<open>realloc\<close>.
\<close>

record alloc_state =
  al_asm :: asm_state
  al_bufLen :: u64
  al_allocated :: bool
  al_callerLive :: bool

text \<open>What \<open>*dataBufAlloc\<close> points to (\<open>None\<close>: null or no longer allocated) and the other results.\<close>

record alloc_result =
  ar_buf :: "bytes option"
  ar_len :: u64
  ar_tick :: u64
  ar_dataId :: u16
  ar_stats :: "packetRecvStats option"

text \<open>The size to allocate; \<open>None\<close> when the caller's block is used.\<close>

definition alloc_request :: "bytes option \<Rightarrow> u64 \<Rightarrow> u64 option" where
  "alloc_request arg bufLen =
    (case arg of
       None \<Rightarrow> Some (if bufLen = 0 then 100000
                      else if bufLen < of_nat MAX_EJFAT_MTU then of_nat MAX_EJFAT_MTU else bufLen)
     | Some _ \<Rightarrow> if bufLen < of_nat MAX_EJFAT_MTU then Some (of_nat MAX_EJFAT_MTU) else None)"

definition alloc_init ::
  "heap \<Rightarrow> bytes option \<Rightarrow> u64 \<Rightarrow> u64 \<Rightarrow> packetRecvStats option \<Rightarrow> alloc_state option" where
  "alloc_init fresh arg bufLen tick sts =
    (case alloc_request arg bufLen of
       Some n \<Rightarrow>
         (case fresh (unat n) of
            None \<Rightarrow> None
          | Some b \<Rightarrow> Some \<lparr>al_asm = asm_init b tick sts, al_bufLen = n, al_allocated = True,
                           al_callerLive = (arg \<noteq> None)\<rparr>)
     | None \<Rightarrow> Some \<lparr>al_asm = asm_init (the arg) tick sts, al_bufLen = bufLen, al_allocated = False,
                    al_callerLive = True\<rparr>)"

text \<open>The room check: the size is doubled once, whatever is needed. \<open>Inl\<close>: no memory.\<close>

definition alloc_grow :: "heap \<Rightarrow> nat \<Rightarrow> alloc_state \<Rightarrow> alloc_state + alloc_state" where
  "alloc_grow fresh need st =
    (if need > unat (al_bufLen st)
     then let n = al_bufLen st * 2 in
       case realloc fresh (dataBuf (al_asm st)) (unat n) of
         None \<Rightarrow> Inl (st\<lparr>al_bufLen := n\<rparr>)
       | Some b \<Rightarrow> Inr (st\<lparr>al_asm := (al_asm st)\<lparr>dataBuf := b\<rparr>, al_bufLen := n, al_allocated := True,
                          al_callerLive := al_callerLive st \<and> al_allocated st\<rparr>)
     else Inr st)"

definition alloc_step ::
  "byte_order \<Rightarrow> heap \<Rightarrow> u64 \<Rightarrow> u32 \<Rightarrow> alloc_state \<Rightarrow> recv \<Rightarrow> alloc_state ctl" where
  "alloc_step host fresh expectedTick tickPrescale st r =
    (case asm_receive host (al_asm st) r of
       Inl c \<Rightarrow> map_ctl (\<lambda>s. st\<lparr>al_asm := s\<rparr>) c
     | Inr (s, off, payload, packetTick, packetDataId) \<Rightarrow>
        (case alloc_grow fresh (off + length payload) (st\<lparr>al_asm := s\<rparr>) of
           Inl st \<Rightarrow> Ret (errorCode OUT_OF_MEM) st
         | Inr st \<Rightarrow>
             if off + length payload > length (dataBuf (al_asm st)) then Trap
             else
              let s = storeData off payload packetTick (al_asm st) in
              if totalBytesRead s \<ge> uint (msgLength s)
              then map_ctl (\<lambda>s. st\<lparr>al_asm := s\<rparr>)
                     (finishBuffer packetTick packetDataId expectedTick tickPrescale s)
              else Again (st\<lparr>al_asm := s\<rparr>)))"

text \<open>
  What the caller sees: the value-result arguments are written on success only, and after an
  error an allocated block has been freed, a block obtained by growing the caller's included.
\<close>

definition alloc_out :: "bytes option \<Rightarrow> u64 \<Rightarrow> bool \<Rightarrow> alloc_state \<Rightarrow> alloc_result" where
  "alloc_out arg bufLen ok st =
    \<lparr>ar_buf = (if ok \<or> \<not> al_allocated st then Some (dataBuf (al_asm st))
               else if al_callerLive st then arg else None),
     ar_len = (if ok then al_bufLen st else bufLen),
     ar_tick = outTick (al_asm st), ar_dataId = outDataId (al_asm st), ar_stats = stats (al_asm st)\<rparr>"

definition alloc_finish :: "bytes option \<Rightarrow> u64 \<Rightarrow> alloc_state ctl \<Rightarrow> alloc_result ctl" where
  "alloc_finish arg bufLen c =
    (case c of
       Again st \<Rightarrow> Again (alloc_out arg bufLen False st)
     | Ret r st \<Rightarrow> Ret r (alloc_out arg bufLen (r \<ge> 0) st)
     | Trap \<Rightarrow> Trap)"

definition untouched :: "bytes option \<Rightarrow> u64 \<Rightarrow> u64 \<Rightarrow> packetRecvStats option \<Rightarrow> alloc_result" where
  "untouched arg bufLen tick sts =
    \<lparr>ar_buf = arg, ar_len = bufLen, ar_tick = tick, ar_dataId = 0, ar_stats = sts\<rparr>"

text \<open>Both pointer arguments may be null.\<close>

definition getCompleteAllocatedBuffer ::
  "byte_order \<Rightarrow> heap \<Rightarrow> bytes option option \<Rightarrow> u64 option \<Rightarrow> recv list \<Rightarrow> u64
    \<Rightarrow> packetRecvStats option \<Rightarrow> u32 \<Rightarrow> alloc_result ctl \<times> recv list" where
  "getCompleteAllocatedBuffer host fresh dataBufAlloc pBufLen net tick sts tickPrescale =
    (case (dataBufAlloc, pBufLen) of
       (Some arg, Some bufLen) \<Rightarrow>
         (case alloc_init fresh arg bufLen tick sts of
            None \<Rightarrow> (Ret (errorCode OUT_OF_MEM) (untouched arg bufLen tick sts), net)
          | Some st \<Rightarrow>
              (case recv_loop (alloc_step host fresh tick tickPrescale) st net of
                 (c, rest) \<Rightarrow> (alloc_finish arg bufLen c, rest)))
     | _ \<Rightarrow> (Ret (errorCode BAD_ARG) (untouched None 0 tick sts), net))"

section \<open>Reading in stages: getPacketizedBuffer\<close>

text \<open>
  Its local variables and value-result arguments. \<open>packetTick\<close> is not initialised before a
  packet has been read, hence the option.
\<close>

record part_state =
  pb_dataBuf :: bytes
  pb_veryFirstRead :: bool
  pb_last :: bool
  pb_firstTick :: u64
  pb_packetTick :: "u64 option"
  pb_firstSrcId :: u16
  pb_srcId :: u16
  pb_rejectedPkt :: int
  pb_pktCount :: u32
  pb_totalBytesRead :: int
  pb_remainingLen :: u64
  pb_firstOffset :: u32
  pb_nextOffset :: u32

definition part_init :: "bytes \<Rightarrow> u64 \<Rightarrow> bool \<Rightarrow> bool \<Rightarrow> u16 \<Rightarrow> u64 \<Rightarrow> u32 \<Rightarrow> part_state" where
  "part_init buf bufLen first lst src tick off =
    \<lparr>pb_dataBuf = buf, pb_veryFirstRead = first, pb_last = lst, pb_firstTick = tick, pb_packetTick = None,
     pb_firstSrcId = src, pb_srcId = src, pb_rejectedPkt = 0, pb_pktCount = 0, pb_totalBytesRead = 0,
     pb_remainingLen = bufLen, pb_firstOffset = off, pb_nextOffset = off\<rparr>"

text \<open>Copying the data behind what has been read and moving on.\<close>

definition part_store :: "u32 \<Rightarrow> u32 \<Rightarrow> bytes \<Rightarrow> part_state \<Rightarrow> part_state ctl" where
  "part_store packetOffset len payload st =
    (let offsetLocal = packetOffset - pb_firstOffset st in
     if unat offsetLocal + length payload > length (pb_dataBuf st) then Trap
     else
      let nextOffset = packetOffset + of_nat (length payload);
          total = pb_totalBytesRead st + int (length payload);
          st = st\<lparr>pb_dataBuf := overwrite (pb_dataBuf st) (unat offsetLocal) payload,
                  pb_totalBytesRead := total, pb_veryFirstRead := False,
                  pb_remainingLen := pb_remainingLen st - of_nat (length payload),
                  pb_pktCount := pb_pktCount st + 1, pb_nextOffset := nextOffset\<rparr>
      in if nextOffset \<ge> len then Ret total (st\<lparr>pb_last := True\<rparr>) else Again st)"

definition part_step :: "byte_order \<Rightarrow> part_state \<Rightarrow> recv \<Rightarrow> part_state ctl" where
  "part_step host st r =
    (case r of
       RecvFail \<Rightarrow> Ret (errorCode RECV_MSG) st
     | Datagram p \<Rightarrow>
        let pkt = received p in
        if length pkt < RE_HEADER_BYTES then Ret (errorCode INTERNAL_ERROR) st
        else
         let (version, packetDataId, packetOffset, len, packetTick) = parseReHeader host pkt;
             payload = drop RE_HEADER_BYTES pkt;
             st = st\<lparr>pb_packetTick := Some packetTick\<rparr>
         in
          if pb_veryFirstRead st then
            (if packetOffset \<noteq> 0 then Ret (errorCode OUT_OF_ORDER) st
             else part_store packetOffset len payload
                    (st\<lparr>pb_firstSrcId := packetDataId, pb_srcId := packetDataId, pb_firstTick := packetTick\<rparr>))
          else if packetOffset \<noteq> pb_nextOffset st then Ret (errorCode OUT_OF_ORDER) st
          else if packetDataId \<noteq> pb_firstSrcId st \<or> packetTick \<noteq> pb_firstTick st then
            (let st = st\<lparr>pb_rejectedPkt := pb_rejectedPkt st + 1\<rparr> in
             if pb_rejectedPkt st \<ge> 100 then Ret (errorCode NO_REASSEMBLY) st else Again st)
          else part_store packetOffset len payload st)"

fun part_loop :: "byte_order \<Rightarrow> part_state \<Rightarrow> recv list \<Rightarrow> part_state ctl \<times> recv list" where
  "part_loop host st net =
    (if pb_remainingLen st < of_nat MAX_EJFAT_MTU then (Ret (pb_totalBytesRead st) st, net)
     else case net of
       [] \<Rightarrow> (Again st, [])
     | r # rs \<Rightarrow>
         (case part_step host st r of
            Again st' \<Rightarrow> part_loop host st' rs | Ret c st' \<Rightarrow> (Ret c st', rs) | Trap \<Rightarrow> (Trap, rs)))"

text \<open>
  The results: \<open>*tick\<close>, \<open>*packetCount\<close> and \<open>*offset\<close> are written on success only, \<open>*srcId\<close> and
  \<open>*last\<close> on the way. \<open>None\<close> for the tick means that an uninitialised variable was copied.
\<close>

record part_result =
  pr_dataBuf :: bytes
  pr_last :: bool
  pr_srcId :: u16
  pr_tick :: "u64 option"
  pr_offset :: u32
  pr_packetCount :: u32

definition part_out :: "u64 \<Rightarrow> u32 \<Rightarrow> u32 \<Rightarrow> bool \<Rightarrow> part_state \<Rightarrow> part_result" where
  "part_out tick off cnt ok st =
    \<lparr>pr_dataBuf = pb_dataBuf st, pr_last = pb_last st, pr_srcId = pb_srcId st,
     pr_tick = (if ok then pb_packetTick st else Some tick),
     pr_offset = (if ok then pb_nextOffset st else off),
     pr_packetCount = (if ok then pb_pktCount st else cnt)\<rparr>"

definition getPacketizedBuffer ::
  "byte_order \<Rightarrow> bytes \<Rightarrow> u64 \<Rightarrow> recv list \<Rightarrow> bool \<Rightarrow> bool \<Rightarrow> u16 \<Rightarrow> u64 \<Rightarrow> u32 \<Rightarrow> u32
    \<Rightarrow> part_result ctl \<times> recv list" where
  "getPacketizedBuffer host buf bufLen net veryFirst lst src tick off cnt =
    (case part_loop host (part_init buf bufLen veryFirst lst src tick off) net of
       (Again st, rest) \<Rightarrow> (Again (part_out tick off cnt False st), rest)
     | (Ret r st, rest) \<Rightarrow> (Ret r (part_out tick off cnt (r \<ge> 0) st), rest)
     | (Trap, rest) \<Rightarrow> (Trap, rest))"

section \<open>Writing to a file and receiving one buffer\<close>

text \<open>
  \<open>fwrite\<close> says how many of the bytes offered are taken; the state is \<open>totalWritten\<close> and what the
  file holds. Value 1 stands for \<open>exit(1)\<close>.
\<close>

definition write_step :: "(bytes \<Rightarrow> nat) \<Rightarrow> bytes \<Rightarrow> u64 \<Rightarrow> u64 \<times> bytes \<Rightarrow> (u64 \<times> bytes) ctl" where
  "write_step fwrite buf nBytes = (\<lambda>(totalWritten, file).
    if unat nBytes > length buf then Trap
    else
     let n = fwrite (take (unat nBytes) buf);
         file = file @ take n (take (unat nBytes) buf)
     in if of_nat n \<noteq> nBytes then Ret 1 (totalWritten, file)
        else if totalWritten + of_nat n \<ge> nBytes then Ret 0 (totalWritten + of_nat n, file)
        else Again (totalWritten + of_nat n, file))"

definition writeBuffer :: "nat \<Rightarrow> (bytes \<Rightarrow> nat) \<Rightarrow> bytes \<Rightarrow> u64 \<Rightarrow> bytes \<Rightarrow> (u64 \<times> bytes) ctl option" where
  "writeBuffer fuel fwrite buf nBytes file = run fuel (write_step fwrite buf nBytes) (0, file)"

text \<open>
  \<open>udp\<close> gives the datagrams that will arrive at a port and address on a socket of version 6 or
  4, \<open>None\<close> when the socket cannot be created; a failed \<open>bind\<close> is ignored by the code, so it only
  means that nothing arrives.
\<close>

definition getBuffer ::
  "byte_order \<Rightarrow> heap \<Rightarrow> (u16 \<Rightarrow> string option \<Rightarrow> bool \<Rightarrow> recv list option) \<Rightarrow> bytes option option \<Rightarrow> u64 option
    \<Rightarrow> u16 \<Rightarrow> string option \<Rightarrow> bool \<Rightarrow> bool \<Rightarrow> alloc_result ctl" where
  "getBuffer host fresh udp userBuf userBufLen port listeningAddr noCopy useIPv6 =
    (case (userBuf, userBufLen) of
       (Some arg, Some bufLen) \<Rightarrow>
         let port = (if port < 1024 then 17750 else port) in
         (case udp port listeningAddr useIPv6 of
            None \<Rightarrow> Ret (errorCode NETWORK_ERROR) (untouched arg bufLen 0 None)
          | Some net \<Rightarrow>
              let r = (if noCopy then
                         (case arg of
                            None \<Rightarrow> Ret (errorCode BAD_ARG) (untouched arg bufLen 0 None)
                          | Some buf \<Rightarrow>
                              map_ctl (\<lambda>st. \<lparr>ar_buf = Some (dataBuf st), ar_len = bufLen, ar_tick = outTick st,
                                             ar_dataId = outDataId st, ar_stats = stats st\<rparr>)
                                (fst (getCompletePacketizedBuffer host buf (unat bufLen) net 0 None 1)))
                       else fst (getCompleteAllocatedBuffer host fresh userBuf userBufLen net 0 None 1))
              in case r of Ret c st \<Rightarrow> Ret (if c < 0 then c else 0) st | _ \<Rightarrow> r)
     | _ \<Rightarrow> Ret (errorCode BAD_ARG) (untouched None 0 0 None))"


section \<open>The growing buffer in step with the fixed one\<close>

text \<open>The size of a block after the given pieces, and that no piece needs more than twice the size.\<close>

fun grown :: "nat \<Rightarrow> piece list \<Rightarrow> nat" where
  "grown L [] = L"
| "grown L ((off, c) # ps) = grown (if off + length c > L then 2 * L else L) ps"

fun fits :: "nat \<Rightarrow> piece list \<Rightarrow> bool" where
  "fits L [] = True"
| "fits L ((off, c) # ps) = (off + length c \<le> 2 * L \<and> fits (if off + length c > L then 2 * L else L) ps)"

text \<open>
  The growing receiver \<open>a\<close> after the pieces \<open>ps\<close> of \<open>d\<close>: the variables are those of the fixed
  receiver \<open>s\<close>, the block has the size it is said to have and holds the pieces.
\<close>

definition alloc_rel :: "bytes \<Rightarrow> piece list \<Rightarrow> alloc_state \<Rightarrow> asm_state \<Rightarrow> bool" where
  "alloc_rel d ps a s \<longleftrightarrow> (let b = dataBuf (al_asm a) in
     al_asm a = s\<lparr>dataBuf := b\<rparr> \<and> length b = unat (al_bufLen a)
     \<and> (\<forall>j. covered ps j \<longrightarrow> j < length b \<and> b ! j = d ! j))"

lemma alloc_relD:
  assumes "alloc_rel d ps a s"
  shows "al_asm a = s\<lparr>dataBuf := dataBuf (al_asm a)\<rparr>" and "length (dataBuf (al_asm a)) = unat (al_bufLen a)"
    and "covered ps j \<Longrightarrow> j < length (dataBuf (al_asm a)) \<and> dataBuf (al_asm a) ! j = d ! j"
  using assms unfolding alloc_rel_def Let_def by blast+

definition heap_ok :: "heap \<Rightarrow> bool" where
  "heap_ok fresh \<longleftrightarrow> (\<forall>n. \<exists>b. fresh n = Some b \<and> length b = n)"

lemma asm_receive_dataBuf:
  "asm_receive host (s\<lparr>dataBuf := b\<rparr>) r =
    (case asm_receive host s r of
       Inl c \<Rightarrow> Inl (map_ctl (\<lambda>s. s\<lparr>dataBuf := b\<rparr>) c)
     | Inr (s', x) \<Rightarrow> Inr (s'\<lparr>dataBuf := b\<rparr>, x))"
  by (auto simp: asm_receive_def Let_def rejectSource_def skipTick_def startTick_def
      split: recv.splits prod.splits)

lemma finishBuffer_dataBuf:
  "finishBuffer t i e p (s\<lparr>dataBuf := b\<rparr>) = map_ctl (\<lambda>s. s\<lparr>dataBuf := b\<rparr>) (finishBuffer t i e p s)"
  by (auto simp: finishBuffer_def finishStats_def Let_def split: option.splits)

lemma storeData_dataBuf:
  "storeData off c t (s\<lparr>dataBuf := b\<rparr>) = (storeData off c t s)\<lparr>dataBuf := overwrite b off c\<rparr>"
  by (simp add: storeData_def)

lemma realloc_ok:
  assumes "heap_ok fresh" and "length b \<le> n"
  shows "\<exists>b'. realloc fresh b n = Some b' \<and> length b' = n \<and> take (length b) b' = b"
proof -
  obtain f where "fresh n = Some f" "length f = n" using assms(1) by (auto simp: heap_ok_def)
  then show ?thesis using assms(2) by (simp add: realloc_def)
qed

lemma unat_double: "unat (n :: u64) < 2 ^ 32 \<Longrightarrow> unat (n * 2) = 2 * unat n"
  by (simp add: unat_word_ariths)

text \<open>The block after the room check.\<close>

lemma alloc_grow_ok:
  assumes heap: "heap_ok fresh" and len: "length (dataBuf (al_asm a)) = unat (al_bufLen a)" and need: "need < 2 ^ 32"
  shows "\<exists>a' b'. alloc_grow fresh need a = Inr a' \<and> al_asm a' = (al_asm a)\<lparr>dataBuf := b'\<rparr>
    \<and> length b' = unat (al_bufLen a')
    \<and> unat (al_bufLen a') = (if need > unat (al_bufLen a) then 2 * unat (al_bufLen a) else unat (al_bufLen a))
    \<and> take (length (dataBuf (al_asm a))) b' = dataBuf (al_asm a)"
proof (cases "need > unat (al_bufLen a)")
  case True
  then have dbl: "unat (al_bufLen a * 2) = 2 * unat (al_bufLen a)" using need by (intro unat_double) simp
  then obtain b' where "realloc fresh (dataBuf (al_asm a)) (unat (al_bufLen a * 2)) = Some b'"
      "length b' = unat (al_bufLen a * 2)" "take (length (dataBuf (al_asm a))) b' = dataBuf (al_asm a)"
    using realloc_ok [OF heap] len by (metis le_add1 mult_2)
  with True dbl show ?thesis
    by (intro exI [of _ "a\<lparr>al_asm := (al_asm a)\<lparr>dataBuf := b'\<rparr>, al_bufLen := al_bufLen a * 2,
          al_allocated := True, al_callerLive := al_callerLive a \<and> al_allocated a\<rparr>"] exI [of _ b'])
       (simp add: alloc_grow_def)
next
  case False
  with len show ?thesis by (intro exI [of _ a] exI [of _ "dataBuf (al_asm a)"]) (simp add: alloc_grow_def)
qed

lemma alloc_step_Inl:
  assumes rel: "alloc_rel d ps a s" and rc: "asm_receive host s r = Inl c"
  shows "rel_ctl (\<lambda>a' s'. alloc_rel d ps a' s' \<and> al_bufLen a' = al_bufLen a)
    (alloc_step host fresh e p a r) (asm_step host bufLen e p s r)"
proof -
  define b where "b = dataBuf (al_asm a)"
  have b: "al_asm a = s\<lparr>dataBuf := b\<rparr>" "length b = unat (al_bufLen a)"
      "\<And>j. covered ps j \<Longrightarrow> j < length b \<and> b ! j = d ! j"
    unfolding b_def by (rule alloc_relD [OF rel], assumption?)+
  have "asm_receive host (al_asm a) r = Inl (map_ctl (\<lambda>s. s\<lparr>dataBuf := b\<rparr>) c)"
    by (simp add: b(1) asm_receive_dataBuf rc)
  then show ?thesis
    using b(2,3) rc by (cases c) (simp_all add: alloc_step_def asm_step_def alloc_rel_def Let_def)
qed

lemma alloc_step_Inr:
  assumes rel: "alloc_rel d ps a s" and rc: "asm_receive host s r = Inr (s', off, c, t, i)"
    and p: "piece_of d (off, c)" and d: "length d < 2 ^ 32" and heap: "heap_ok fresh"
  defines "L \<equiv> unat (al_bufLen a)"
  shows "if off + length c \<le> 2 * L
    then rel_ctl (\<lambda>a' s'. alloc_rel d (ps @ [(off, c)]) a' s'
                     \<and> unat (al_bufLen a') = (if off + length c > L then 2 * L else L))
           (alloc_step host fresh e q a r) (asm_step host (length d) e q s r)
    else alloc_step host fresh e q a r = Trap"
proof -
  define b where "b = dataBuf (al_asm a)"
  have b: "al_asm a = s\<lparr>dataBuf := b\<rparr>" "length b = L" "\<And>j. covered ps j \<Longrightarrow> j < length b \<and> b ! j = d ! j"
    unfolding b_def L_def by (rule alloc_relD [OF rel], assumption?)+
  have bound: "off + length c \<le> length d" using p by (simp add: piece_of_def)
  let ?a = "a\<lparr>al_asm := s'\<lparr>dataBuf := b\<rparr>\<rparr>"
  have rc': "asm_receive host (al_asm a) r = Inr (s'\<lparr>dataBuf := b\<rparr>, off, c, t, i)"
    by (simp add: b(1) asm_receive_dataBuf rc)
  obtain a' b' where g: "alloc_grow fresh (off + length c) ?a = Inr a'" "al_asm a' = s'\<lparr>dataBuf := b'\<rparr>"
      "length b' = unat (al_bufLen a')" "unat (al_bufLen a') = (if off + length c > L then 2 * L else L)"
      "take (length b) b' = b"
    using alloc_grow_ok [OF heap, of ?a "off + length c"] b(2) bound d by (auto simp: L_def)
  have alloc: "alloc_step host fresh e q a r =
      (if off + length c > length b' then Trap
       else let s = (storeData off c t s')\<lparr>dataBuf := overwrite b' off c\<rparr> in
         if totalBytesRead s \<ge> uint (msgLength s)
         then map_ctl (\<lambda>s. a'\<lparr>al_asm := s\<rparr>) (finishBuffer t i e q s) else Again (a'\<lparr>al_asm := s\<rparr>))"
    unfolding alloc_step_def rc' by (simp add: g(1,2) storeData_dataBuf)
  have fixed: "asm_step host (length d) e q s r =
      (let s = storeData off c t s' in
       if totalBytesRead s \<ge> uint (msgLength s) then finishBuffer t i e q s else Again s)"
    unfolding asm_step_def rc using bound by simp
  show ?thesis
  proof (cases "off + length c \<le> 2 * L")
    case True
    then have room: "off + length c \<le> length b'" using g(3,4) by (simp split: if_splits)
    have pieces: "j < length b' \<and> overwrite b' off c ! j = d ! j" if "covered (ps @ [(off, c)]) j" for j
    proof -
      have "j < length b' \<and> b' ! j = d ! j" if "covered ps j"
        using b(3) [OF that] g(5) by (metis length_take min_less_iff_conj nth_take)
      then show ?thesis
        using that room piece_nth [OF p, of "j - off"] by (auto simp: nth_overwrite covered_snoc)
    qed
    have "rel_ctl (\<lambda>x y. alloc_rel d (ps @ [(off, c)]) x y \<and> al_bufLen x = al_bufLen a')
        (map_ctl (\<lambda>s. a'\<lparr>al_asm := s\<rparr>) (map_ctl (\<lambda>s. s\<lparr>dataBuf := overwrite b' off c\<rparr>) x)) x" for x
      using pieces room g(3) by (cases x) (simp_all add: alloc_rel_def Let_def)
    from this [of "finishBuffer t i e q (storeData off c t s')"] this [of "Again (storeData off c t s')"]
    show ?thesis
      using True room g(4) unfolding alloc fixed
      by (auto simp: finishBuffer_dataBuf Let_def elim!: ctl.rel_mono_strong)
  next
    case False
    then show ?thesis using g(3,4) by (simp add: alloc)
  qed
qed


text \<open>The packets of a buffer and of other sources, after the pieces \<open>ps\<close>.\<close>

lemma alloc_loop:
  fixes t :: u64 and v r :: i32 and i :: u16 and later :: "recv list"
  assumes "asm_inv d buf t i sts ps f s" and "alloc_rel d ps a s" and "tiles d (ps @ own xs)" and "xs \<noteq> []"
    and "arrivals_ok host i xs"
    and d: "length d < 2 ^ 32" "length d \<le> length buf" and tp: "q \<noteq> 0" and heap: "heap_ok fresh"
  defines "net \<equiv> \<lambda>xs. map (arrives (re_packet (of_nat (length d)) t v i r)) xs @ later"
  shows "if fits (unat (al_bufLen a)) (own xs)
    then \<exists>a' s'. recv_loop (alloc_step host fresh e q) a (net xs) = (Ret (int (length d)) a', later)
      \<and> recv_loop (asm_step host (length d) e q) s (net xs) = (Ret (int (length d)) s', later)
      \<and> alloc_rel d (ps @ own xs) a' s' \<and> unat (al_bufLen a') = grown (unat (al_bufLen a)) (own xs)
    else fst (recv_loop (alloc_step host fresh e q) a (net xs)) = Trap"
  using assms(1-5)
proof (induction xs arbitrary: ps f s a)
  case Nil
  then show ?case by simp
next
  case (Cons x xs)
  note ok = arrivals_ok_tl [OF Cons.prems(5)]
  have net: "net (y # ys) = arrives (re_packet (of_nat (length d)) t v i r) y # net ys" for y ys by (simp add: net_def)
  show ?case
  proof (cases x)
    case (Inl p)
    then obtain len where rc: "asm_receive host s (Datagram p) = Inl (Again (rejectSource (s\<lparr>msgLength := len\<rparr>)))"
      using Cons.prems asm_receive_foreign [of s i host p] by (auto simp: asm_inv_def arrivals_ok_def)
    have fixed: "asm_step host (length d) e q s (Datagram p) = Again (rejectSource (s\<lparr>msgLength := len\<rparr>))"
      by (simp add: asm_step_def rc)
    from alloc_step_Inl [OF Cons.prems(2) rc, of fresh e q "length d"]
    obtain a1 where a1: "alloc_step host fresh e q a (Datagram p) = Again a1"
        "alloc_rel d ps a1 (rejectSource (s\<lparr>msgLength := len\<rparr>))" "al_bufLen a1 = al_bufLen a"
      by (auto simp: fixed elim: ctl.rel_cases)
    have "xs \<noteq> []" using Cons.prems(5) Inl by (auto simp: arrivals_ok_def)
    then show ?thesis
      using Cons.IH [OF asm_inv_foreign [OF Cons.prems(1)] a1(2) _ _ ok] Cons.prems(3) Inl a1(1,3) fixed
      by (simp add: net split: if_splits)
  next
    case (Inr w)
    obtain off c where w: "w = (off, c)" by (cases w)
    let ?pkt = "Datagram (re_packet (of_nat (length d)) t v i r (off, c))"
    let ?s = "storeData off c t (s\<lparr>msgLength := of_nat (length d)\<rparr>)"
    have p: "piece_of d (off, c)" using Cons.prems(3) Inr w by (auto simp: tiles_def)
    have fit: "RE_HEADER_BYTES + length c \<le> PKT_STORAGE" using Cons.prems(5) Inr w by (auto simp: arrivals_ok_def)
    have rc: "asm_receive host s ?pkt = Inr (s\<lparr>msgLength := of_nat (length d)\<rparr>, off, c, t, i)"
      using Cons.prems(1) fit p d by (intro asm_receive_own) (auto simp: asm_inv_def piece_of_def)
    note fixed = asm_step_own [OF Cons.prems(1) p d(1) order_refl d(2) fit, of host e q v r]
    note step = alloc_step_Inr [OF Cons.prems(2) rc p d(1) heap, of e q]
    have inv': "asm_inv d buf t i sts (ps @ [(off, c)]) f ?s" by (rule asm_inv_store [OF Cons.prems(1) p d(2)])
    have sum: "total_len ps + length c + total_len (own xs) = length d"
      using Cons.prems(3) Inr w by (simp add: tiles_def)
    show ?thesis
    proof (cases "off + length c \<le> 2 * unat (al_bufLen a)")
      case False
      then show ?thesis using step Inr w by (simp add: net)
    next
      case room: True
      note step = step [unfolded if_P [OF room]]
      show ?thesis
      proof (cases "xs = []")
        case True
        have "tiles d (ps @ [(off, c)])" using Cons.prems(3) Inr w True by simp
        from finishBuffer_complete [OF inv' this tp d(2), of e] obtain s'
          where "asm_step host (length d) e q s ?pkt = Ret (int (length d)) s'" using fixed sum True by auto
        with step room show ?thesis using Inr w True by (auto simp: net net_def elim!: ctl.rel_cases)
      next
        case False
        then have "own xs \<noteq> []" using own_Nil [OF ok] by blast
        then have "0 < total_len (own xs)"
          using tiles_nonempty [OF Cons.prems(3), of "hd (own xs)"] Inr by (cases "own xs") (auto split: prod.splits)
        then have again: "asm_step host (length d) e q s ?pkt = Again ?s" using fixed sum by simp
        with step obtain a1 where a1: "alloc_step host fresh e q a ?pkt = Again a1"
            "alloc_rel d (ps @ [(off, c)]) a1 ?s"
            "unat (al_bufLen a1) = (if off + length c > unat (al_bufLen a) then 2 * unat (al_bufLen a) else unat (al_bufLen a))"
          by (auto elim!: ctl.rel_cases)
        have "tiles d ((ps @ [(off, c)]) @ own xs)" using Cons.prems(3) Inr w by simp
        from Cons.IH [OF inv' a1(2) this False ok] show ?thesis
          using room Inr w again a1(1,3) by (simp add: net split: if_splits)
      qed
    qed
  qed
qed


text \<open>
  On the first packet the receiver does what it would do in the middle of a buffer of that
  tick and source, so the loop lemma covers it as well.
\<close>

definition primed :: "u64 \<Rightarrow> u16 \<Rightarrow> u32 \<Rightarrow> asm_state \<Rightarrow> asm_state" where
  "primed t i g s = s\<lparr>srcId := i, totalPkts := g, veryFirstRead := False, prevTick := t\<rparr>"

lemma primed_inv: "asm_inv d buf t i sts [] 0 (primed t i g (asm_init buf tick sts))"
  by (cases sts) (simp_all add: primed_def asm_inv_def asm_init_def covered_def)

lemma alloc_step_first:
  assumes "al_asm a = asm_init b tick sts" and "RE_HEADER_BYTES + length c \<le> PKT_STORAGE" and "c \<noteq> []"
    and heap: "heap_ok fresh"
  shows "alloc_step host fresh e q a (Datagram (re_packet len t v i r (0, c)))
    = alloc_step host fresh e q (a\<lparr>al_asm := primed t i (guessPkts len (length c)) (asm_init b tick sts)\<rparr>)
        (Datagram (re_packet len t v i r (0, c)))"
proof -
  let ?p = "primed t i (guessPkts len (length c)) (asm_init b tick sts)"
  have "asm_receive host ?p (Datagram (re_packet len t v i r (0, c))) = Inr (?p\<lparr>msgLength := len\<rparr>, 0, c, t, i)"
    using assms(2) by (intro asm_receive_own) (simp_all add: primed_def asm_init_def)
  moreover obtain x where "fresh (unat (al_bufLen a * 2)) = Some x" using heap unfolding heap_ok_def by blast
  then obtain y where "realloc fresh b (unat (al_bufLen a * 2)) = Some y" by (simp add: realloc_def)
  ultimately show ?thesis
    unfolding alloc_step_def assms(1) asm_receive_first [OF assms(2,3)]
    by (simp add: alloc_grow_def primed_def storeData_def asm_init_def Let_def)
qed

text \<open>The size the routine starts with.\<close>

definition alloc_size :: "bytes option \<Rightarrow> u64 \<Rightarrow> nat" where
  "alloc_size arg bufLen = unat (case alloc_request arg bufLen of Some n \<Rightarrow> n | None \<Rightarrow> bufLen)"

lemma alloc_init_ok:
  assumes "heap_ok fresh" and "\<forall>b. arg = Some b \<longrightarrow> length b = unat bufLen"
  shows "\<exists>a b. alloc_init fresh arg bufLen tick sts = Some a \<and> al_asm a = asm_init b tick sts
    \<and> length b = unat (al_bufLen a) \<and> unat (al_bufLen a) = alloc_size arg bufLen"
proof (cases "alloc_request arg bufLen")
  case None
  then obtain b where "arg = Some b" by (cases arg) (auto simp: alloc_request_def)
  with None assms(2) show ?thesis by (auto simp: alloc_init_def alloc_size_def)
next
  case (Some n)
  obtain b where "fresh (unat n) = Some b" "length b = unat n" using assms(1) by (auto simp: heap_ok_def)
  with Some show ?thesis by (auto simp: alloc_init_def alloc_size_def intro: exI [of _ b])
qed

lemma allocated_complete:
  assumes rel: "alloc_rel d ps a s" and tl: "tiles d ps"
  shows "take (length d) (dataBuf (al_asm a)) = d"
proof -
  let ?b = "dataBuf (al_asm a)"
  have "\<forall>j < length d. j < length ?b \<and> ?b ! j = d ! j" using tl alloc_relD(3) [OF rel] by (auto simp: tiles_def)
  moreover have "length d \<le> length ?b"
  proof (rule ccontr)
    assume "\<not> length d \<le> length ?b"
    then have "length ?b < length d" by simp
    with calculation show False by blast
  qed
  ultimately show ?thesis by (simp add: list_eq_iff_nth_eq)
qed

lemma allocated_reassembles:
  fixes t :: u64 and v r :: i32 and i :: u16
  assumes tl: "tiles d ((0, c) # own xs)" and ok: "arrivals_ok host i (Inr (0, c) # xs)"
    and d: "length d < 2 ^ 32" and tp: "prescale \<noteq> 0"
    and heap: "heap_ok fresh" and arg: "\<forall>b. arg = Some b \<longrightarrow> length b = unat bufLen"
  defines "net \<equiv> map (arrives (re_packet (of_nat (length d)) t v i r)) (Inr (0, c) # xs)"
  shows "if fits (alloc_size arg bufLen) ((0, c) # own xs)
    then \<exists>res b. getCompleteAllocatedBuffer host fresh (Some arg) (Some bufLen) (net @ later) expected sts prescale
        = (Ret (int (length d)) res, later)
      \<and> ar_buf res = Some b \<and> take (length d) b = d \<and> length b = unat (ar_len res)
      \<and> length b = grown (alloc_size arg bufLen) ((0, c) # own xs) \<and> ar_tick res = t \<and> ar_dataId res = i
      \<and> ar_stats res = map_option (completed_stats t expected prescale (length d)
          (length ((0, c) # own xs)) (foreigns xs)) sts
    else fst (getCompleteAllocatedBuffer host fresh (Some arg) (Some bufLen) (net @ later) expected sts prescale) = Trap"
proof -
  obtain a b where a: "alloc_init fresh arg bufLen expected sts = Some a" "al_asm a = asm_init b expected sts"
      "length b = unat (al_bufLen a)" "unat (al_bufLen a) = alloc_size arg bufLen"
    using alloc_init_ok [OF heap arg] by blast
  have c: "RE_HEADER_BYTES + length c \<le> PKT_STORAGE" "c \<noteq> []"
    using tl ok by (auto simp: arrivals_ok_def tiles_def piece_of_def)
  define pr where "pr = primed t i (guessPkts (of_nat (length d)) (length c))"
  define buf where "buf = (replicate (length d) 0 :: bytes)"
  let ?a = "a\<lparr>al_asm := pr (asm_init b expected sts)\<rparr>"
  have inv: "asm_inv d buf t i sts [] 0 (pr (asm_init buf expected sts))" unfolding pr_def by (rule primed_inv)
  have rel: "alloc_rel d [] ?a (pr (asm_init buf expected sts))"
    using a(3) by (simp add: alloc_rel_def covered_def pr_def primed_def asm_init_def)
  have run: "recv_loop (alloc_step host fresh expected prescale) a (net @ later)
      = recv_loop (alloc_step host fresh expected prescale) ?a (net @ later)"
    using alloc_step_first [OF a(2) c heap, of host expected prescale "of_nat (length d)" t v i r]
    by (simp add: net_def pr_def)
  have tl': "tiles d ([] @ own (Inr (0, c) # xs))" using tl by simp
  have buf: "length d \<le> length buf" by (simp add: buf_def)
  note loop = alloc_loop [OF inv rel tl' list.distinct(2) ok d buf tp heap, where v = v and r = r and later = later and e = expected]
    and fixed = asm_loop [OF inv tl' list.distinct(2) ok d order_refl buf tp, of expected v r later]
  show ?thesis
  proof (cases "fits (alloc_size arg bufLen) ((0, c) # own xs)")
    case True
    with loop fixed obtain a' s' where
      r: "recv_loop (alloc_step host fresh expected prescale) ?a (net @ later) = (Ret (int (length d)) a', later)"
        "alloc_rel d ((0, c) # own xs) a' s'" "unat (al_bufLen a') = grown (alloc_size arg bufLen) ((0, c) # own xs)"
        "asm_complete d buf t i (map_option (completed_stats t expected prescale (length d)
           (length ((0, c) # own xs)) (foreigns xs)) sts) s'"
      by (fastforce simp: a(4) net_def foreigns_def)
    have s': "outTick (al_asm a') = t" "outDataId (al_asm a') = i" "stats (al_asm a') = stats s'"
      using r(4) by (subst alloc_relD(1) [OF r(2)], simp add: asm_complete_def)+
    show ?thesis
      using True r a(1) s' allocated_complete [OF r(2) tl] alloc_relD(2) [OF r(2)]
      by (simp add: getCompleteAllocatedBuffer_def run alloc_finish_def alloc_out_def asm_complete_def)
  next
    case False
    then have nf: "\<not> fits (unat (al_bufLen ?a)) (own (Inr (0, c) # xs))" by (simp add: a(4))
    have "fst (recv_loop (alloc_step host fresh expected prescale) ?a (net @ later)) = Trap"
      unfolding net_def by (rule loop [unfolded if_not_P [OF nf]])
    with False a(1) run show ?thesis
      by (auto simp: getCompleteAllocatedBuffer_def alloc_finish_def split: prod.splits)
  qed
qed

text \<open>Packets that arrive in order and are not longer than the block always fit.\<close>

lemma fits_in_order:
  "\<forall>c \<in> set cs. length c \<le> L \<Longrightarrow> off \<le> L \<Longrightarrow> fits L (pieces off cs)"
proof (induction cs arbitrary: off L)
  case Nil
  then show ?case by simp
next
  case (Cons c cs)
  then show ?case using Cons.IH [of "if off + length c > L then 2 * L else L" "off + length c"] by fastforce
qed


section \<open>Reading in stages\<close>

lemma part_loop_Nil: "\<not> pb_remainingLen st < of_nat MAX_EJFAT_MTU \<Longrightarrow> part_loop host st [] = (Again st, [])"
  by simp

lemma part_loop_full:
  "pb_remainingLen st < of_nat MAX_EJFAT_MTU \<Longrightarrow> part_loop host st net = (Ret (pb_totalBytesRead st) st, net)"
  by simp

declare part_loop.simps [simp del]

text \<open>
  In the middle of a call that started at offset \<open>off\<close> of the buffer and has read \<open>got\<close> bytes in
  \<open>k\<close> packets.
\<close>

definition part_inv ::
  "bytes \<Rightarrow> u64 \<Rightarrow> bool \<Rightarrow> u16 \<Rightarrow> u64 \<Rightarrow> nat \<Rightarrow> bytes \<Rightarrow> nat \<Rightarrow> part_state \<Rightarrow> bool" where
  "part_inv buf bufLen lst i t off got k st \<longleftrightarrow>
     pb_dataBuf st = overwrite buf 0 got \<and> \<not> pb_veryFirstRead st \<and> pb_last st = lst
     \<and> pb_firstTick st = t \<and> pb_firstSrcId st = i \<and> pb_srcId st = i
     \<and> pb_pktCount st = of_nat k \<and> pb_totalBytesRead st = int (length got)
     \<and> length got \<le> unat bufLen \<and> pb_remainingLen st = bufLen - of_nat (length got)
     \<and> pb_firstOffset st = of_nat off \<and> pb_nextOffset st = of_nat (off + length got)"

lemma unat_room:
  assumes "n \<le> unat (w :: u64)"
  shows "unat (w - of_nat n) = unat w - n"
proof -
  have "unat w < 2 ^ LENGTH(64)" by (rule unsigned_less)
  then have "n < 2 ^ 64" using assms by simp
  then have "unat (of_nat n :: u64) = n" by (simp add: unat_of_nat)
  with assms show ?thesis by (simp add: unat_sub word_le_nat_alt)
qed

lemma part_step_piece:
  assumes inv: "part_inv buf bufLen lst i t off got k st"
    and buf: "unat bufLen \<le> length buf" and room: "MAX_EJFAT_MTU \<le> unat bufLen - length got"
    and c: "length c \<le> MAX_EJFAT_MTU" and d: "off + length got + length c \<le> n" "n < 2 ^ 32"
  shows "\<exists>st'. part_step host st (Datagram (re_packet (of_nat n) t v i r (off + length got, c)))
      = (if off + length got + length c = n then Ret (int (length (got @ c))) (st'\<lparr>pb_last := True\<rparr>) else Again st')
    \<and> part_inv buf bufLen lst i t off (got @ c) (Suc k) st' \<and> pb_packetTick st' = Some t"
proof -
  have fit: "RE_HEADER_BYTES + length c \<le> PKT_STORAGE" using c by (simp add: size_defs PKT_STORAGE_def)
  have got: "length got + length c \<le> unat bufLen" using inv room c by (auto simp: part_inv_def size_defs)
  have u: "unat (of_nat (length got) :: u32) = length got" using d by (intro unat_of_nat_u32) simp
  have le: "((of_nat n :: u32) \<le> of_nat off + (of_nat (length got) + of_nat (length c))) = (off + length got + length c = n)"
    using d by (auto simp: word_le_nat_alt unat_of_nat_u32 add.assoc simp flip: of_nat_add)
  have ov: "overwrite (overwrite buf 0 got) (length got) c = overwrite buf 0 (got @ c)" by (simp add: mem_simps)
  have len: "length (overwrite buf 0 got) = length buf" using got buf by simp
  let ?st = "st\<lparr>pb_packetTick := Some t, pb_dataBuf := overwrite buf 0 (got @ c),
      pb_totalBytesRead := int (length (got @ c)), pb_veryFirstRead := False,
      pb_remainingLen := bufLen - of_nat (length got) - of_nat (length c),
      pb_pktCount := of_nat k + 1, pb_nextOffset := of_nat off + (of_nat (length got) + of_nat (length c))\<rparr>"
  have "part_step host st (Datagram (re_packet (of_nat n) t v i r (off + length got, c)))
      = (if off + length got + length c = n then Ret (int (length (got @ c))) (?st\<lparr>pb_last := True\<rparr>) else Again ?st)"
    using inv fit got buf d(1)
    by (simp add: part_step_def part_store_def part_inv_def received_short Let_def u le len ov add.assoc)
  moreover have "part_inv buf bufLen lst i t off (got @ c) (Suc k) ?st"
    using inv got by (simp add: part_inv_def add_ac)
  ultimately show ?thesis by auto
qed


text \<open>
  The packets of the pieces \<open>cs\<close> in order: the call takes pieces until the buffer is complete or
  less room than a jumbo packet is left.
\<close>

lemma part_loop_stage:
  fixes v r :: i32 and later :: "recv list"
  assumes "part_inv buf bufLen lst i t off got k st" and "pb_packetTick st = Some t"
    and "off + length got + length (concat cs) = n" and "\<forall>c \<in> set cs. c \<noteq> [] \<and> length c \<le> MAX_EJFAT_MTU"
    and "cs \<noteq> []" and "unat bufLen \<le> length buf" and "n < 2 ^ 32"
  defines "net \<equiv> \<lambda>o' cs. map (\<lambda>q. Datagram (re_packet (of_nat n) t v i r q)) (pieces o' cs) @ later"
  shows "\<exists>j st'. let more = concat (take j cs) in
    part_loop host st (net (off + length got) cs)
      = (Ret (int (length (got @ more))) st', net (off + length (got @ more)) (drop j cs))
    \<and> j \<le> length cs \<and> part_inv buf bufLen (lst \<or> j = length cs) i t off (got @ more) (k + j) st'
    \<and> pb_packetTick st' = Some t \<and> (j = length cs \<or> unat bufLen - length (got @ more) < MAX_EJFAT_MTU)"
  using assms(1-5)
proof (induction cs arbitrary: got k st)
  case Nil
  then show ?case by simp
next
  case (Cons c cs)
  have mtu: "unat (of_nat MAX_EJFAT_MTU :: u64) = MAX_EJFAT_MTU" by (simp add: size_defs)
  have rem: "unat (pb_remainingLen st) = unat bufLen - length got" "pb_totalBytesRead st = int (length got)"
    using Cons.prems(1) unat_room by (simp_all add: part_inv_def)
  show ?case
  proof (cases "unat bufLen - length got < MAX_EJFAT_MTU")
    case True
    then have "pb_remainingLen st < of_nat MAX_EJFAT_MTU" using mtu rem by (simp add: word_less_nat_alt)
    with True rem Cons.prems(1,2) show ?thesis
      by (intro exI [of _ 0] exI [of _ st]) (simp add: part_loop_full net_def)
  next
    case False
    then have room: "MAX_EJFAT_MTU \<le> unat bufLen - length got" "\<not> pb_remainingLen st < of_nat MAX_EJFAT_MTU"
      using mtu rem by (simp_all add: word_less_nat_alt)
    have c: "length c \<le> MAX_EJFAT_MTU" "off + length got + length c \<le> n" using Cons.prems(3,4) by auto
    let ?pkt = "Datagram (re_packet (of_nat n) t v i r (off + length got, c))"
    obtain st1 where st1: "part_step host st ?pkt
        = (if off + length got + length c = n then Ret (int (length (got @ c))) (st1\<lparr>pb_last := True\<rparr>) else Again st1)"
        "part_inv buf bufLen lst i t off (got @ c) (Suc k) st1" "pb_packetTick st1 = Some t"
      using part_step_piece [OF Cons.prems(1) assms(6) room(1) c assms(7), of host v r] by blast
    have loop: "part_loop host st (net (off + length got) (c # cs))
        = (case part_step host st ?pkt of
             Again st' \<Rightarrow> part_loop host st' (net (off + length (got @ c)) cs)
           | Ret x st' \<Rightarrow> (Ret x st', net (off + length (got @ c)) cs) | Trap \<Rightarrow> (Trap, net (off + length (got @ c)) cs))"
      using room(2) by (subst part_loop.simps) (simp add: net_def add.assoc split: ctl.split)
    show ?thesis
    proof (cases "cs = []")
      case True
      then have "off + length got + length c = n" using Cons.prems(3) by simp
      with st1 loop True show ?thesis
        by (intro exI [of _ 1] exI [of _ "st1\<lparr>pb_last := True\<rparr>"]) (simp add: part_inv_def)
    next
      case False
      then have "concat cs \<noteq> []" using Cons.prems(4) by (cases cs) auto
      then have again: "part_step host st ?pkt = Again st1" using st1(1) Cons.prems(3) by auto
      have "off + length (got @ c) + length (concat cs) = n" using Cons.prems(3) by simp
      with Cons.IH [OF st1(2,3) this _ False] Cons.prems(4) obtain j st'
        where ih: "let more = concat (take j cs) in
            part_loop host st1 (net (off + length (got @ c)) cs)
              = (Ret (int (length ((got @ c) @ more))) st', net (off + length ((got @ c) @ more)) (drop j cs))
            \<and> j \<le> length cs \<and> part_inv buf bufLen (lst \<or> j = length cs) i t off ((got @ c) @ more) (Suc k + j) st'
            \<and> pb_packetTick st' = Some t \<and> (j = length cs \<or> unat bufLen - length ((got @ c) @ more) < MAX_EJFAT_MTU)"
        by auto
      show ?thesis
        using ih unfolding loop again Let_def ctl.case
        by (intro exI [of _ "Suc j"] exI [of _ st']) (simp add: add.assoc)
    qed
  qed
qed


text \<open>As above, the first packet of a call is handled as one in the middle of it.\<close>

lemma part_loop_first:
  fixes t :: u64 and v r :: i32 and i :: u16 and buf :: bytes and lst :: bool and n :: nat
  assumes "first \<longrightarrow> off = 0" and "\<not> first \<longrightarrow> src = i \<and> tick = t" and "RE_HEADER_BYTES + length c \<le> PKT_STORAGE"
    and "\<not> bufLen < of_nat MAX_EJFAT_MTU"
  defines "st \<equiv> part_init buf bufLen first lst src tick (of_nat off)"
    and "pkt \<equiv> Datagram (re_packet (of_nat n) t v i r (off, c))"
  shows "part_loop host st (pkt # net)
    = part_loop host (st\<lparr>pb_veryFirstRead := False, pb_firstSrcId := i, pb_srcId := i, pb_firstTick := t,
        pb_packetTick := Some t\<rparr>) (pkt # net)"
proof -
  have "part_step host st pkt = part_step host (st\<lparr>pb_veryFirstRead := False, pb_firstSrcId := i, pb_srcId := i,
      pb_firstTick := t, pb_packetTick := Some t\<rparr>) pkt"
    using assms(1-3) by (cases first) (simp_all add: st_def pkt_def part_init_def part_step_def received_short part_store_def Let_def)
  moreover have "pb_remainingLen st = bufLen" by (simp add: st_def part_init_def)
  ultimately show ?thesis using assms(4) by (simp add: part_loop.simps [of host _ "pkt # net"])
qed

lemma reads_stage:
  fixes v r :: i32 and later :: "recv list"
  assumes first: "first \<longrightarrow> off = 0" "\<not> first \<longrightarrow> src = i \<and> tick = t" and n: "off + length (concat cs) = n"
    and cs: "\<forall>c \<in> set cs. c \<noteq> [] \<and> length c \<le> MAX_EJFAT_MTU" "cs \<noteq> []"
    and buf: "MAX_EJFAT_MTU \<le> unat bufLen" "unat bufLen \<le> length buf" and n32: "n < 2 ^ 32"
  defines "net \<equiv> \<lambda>o' cs. map (\<lambda>q. Datagram (re_packet (of_nat n) t v i r q)) (pieces o' cs) @ later"
  shows "\<exists>j. let more = concat (take j cs) in 0 < j \<and> j \<le> length cs
    \<and> getPacketizedBuffer host buf bufLen (net off cs) first lst src tick (of_nat off) cnt
      = (Ret (int (length more)) \<lparr>pr_dataBuf = overwrite buf 0 more, pr_last = (lst \<or> j = length cs),
           pr_srcId = i, pr_tick = Some t, pr_offset = of_nat (off + length more), pr_packetCount = of_nat j\<rparr>,
         net (off + length more) (drop j cs))
    \<and> (j = length cs \<or> unat bufLen - length more < MAX_EJFAT_MTU)"
proof -
  let ?st = "part_init buf bufLen first lst src tick (of_nat off)"
  let ?st1 = "?st\<lparr>pb_veryFirstRead := False, pb_firstSrcId := i, pb_srcId := i, pb_firstTick := t, pb_packetTick := Some t\<rparr>"
  obtain c cs' where c: "cs = c # cs'" using cs(2) by (cases cs) auto
  have fit: "RE_HEADER_BYTES + length c \<le> PKT_STORAGE" using cs(1) c by (simp add: size_defs PKT_STORAGE_def)
  have len: "\<not> bufLen < of_nat MAX_EJFAT_MTU" using buf(1) by (simp add: word_less_nat_alt size_defs)
  have start: "part_loop host ?st (net off cs) = part_loop host ?st1 (net off cs)"
    using part_loop_first [OF first fit len, where host = host and buf = buf and lst = lst and n = n and v = v and r = r] by (simp add: net_def c)
  have inv: "part_inv buf bufLen lst i t off [] 0 ?st1" by (simp add: part_inv_def part_init_def)
  have n': "off + length [] + length (concat cs) = n" using n by simp
  from part_loop_stage [OF inv _ n' cs buf(2) n32, where v = v and r = r and later = later and host = host] obtain j st' where
    j: "part_loop host ?st1 (net off cs) = (Ret (int (length (concat (take j cs)))) st', net (off + length (concat (take j cs))) (drop j cs))"
      "j \<le> length cs" "part_inv buf bufLen (lst \<or> j = length cs) i t off (concat (take j cs)) j st'"
      "pb_packetTick st' = Some t" "j = length cs \<or> unat bufLen - length (concat (take j cs)) < MAX_EJFAT_MTU"
    by (auto simp: Let_def net_def)
  have "0 < j" using j(5) buf(1) cs(2) by (cases "j = 0") auto
  then show ?thesis
    using j(2,5) j(3,4)
    by (intro exI [of _ j]) (simp add: getPacketizedBuffer_def start j(1) part_out_def part_inv_def Let_def)
qed

section \<open>Properties\<close>

text \<open>
  C4: \<open>getCompleteAllocatedBuffer\<close>, with or without a block of the caller's, rebuilds a buffer
  whose packets arrive in any order after the first, exactly if every packet of it ends within
  twice the size the block has at that moment. Then it returns a block that holds the buffer,
  its length, the tick, the data id and the statistics. Otherwise, since the block is doubled
  only once for a packet, the first packet that ends further on is copied outside of the block.
\<close>

theorem allocated_reassembly:
  assumes "tiles d ((0, c) # own xs)" and "arrivals_ok host i (Inr (0, c) # xs)"
    and "length d < 2 ^ 32" and "prescale \<noteq> 0"
    and "heap_ok fresh" and "\<forall>b. arg = Some b \<longrightarrow> length b = unat bufLen"
  shows "if fits (alloc_size arg bufLen) ((0, c) # own xs)
    then \<exists>res b. getCompleteAllocatedBuffer host fresh (Some arg) (Some bufLen)
        (map (arrives (re_packet (of_nat (length d)) t v i r)) (Inr (0, c) # xs) @ later) expected sts prescale
        = (Ret (int (length d)) res, later)
      \<and> ar_buf res = Some b \<and> take (length d) b = d \<and> length b = unat (ar_len res)
      \<and> length b = grown (alloc_size arg bufLen) ((0, c) # own xs) \<and> ar_tick res = t \<and> ar_dataId res = i
      \<and> ar_stats res = map_option (completed_stats t expected prescale (length d)
          (length ((0, c) # own xs)) (foreigns xs)) sts
    else fst (getCompleteAllocatedBuffer host fresh (Some arg) (Some bufLen)
        (map (arrives (re_packet (of_nat (length d)) t v i r)) (Inr (0, c) # xs) @ later) expected sts prescale) = Trap"
  by (rule allocated_reassembles [OF assms])

theorem allocated_reassembly_witness:
  "\<exists>res b. getCompleteAllocatedBuffer ENDIAN_LITTLE (\<lambda>n. Some (replicate n 0)) (Some None) (Some 0)
      (map (arrives (re_packet (of_nat (length [1, 2, 3, 4, 5 :: u8])) 7 2 3 0))
        (Inr (0, [1, 2]) # [Inr (4, [5]), Inr (2, [3, 4])]) @ []) 7 None 1
      = (Ret (int (length [1, 2, 3, 4, 5 :: u8])) res, [])
    \<and> ar_buf res = Some b \<and> take (length [1, 2, 3, 4, 5 :: u8]) b = [1, 2, 3, 4, 5] \<and> ar_tick res = 7"
proof -
  have t: "tiles [1, 2, 3, 4, 5] ((0, [1, 2]) # own [Inr (4, [5]), Inr (2, [3, 4])])"
    by (auto simp: tiles_def piece_of_def covered_def)
  have o: "arrivals_ok ENDIAN_LITTLE 3 (Inr (0, [1, 2]) # [Inr (4, [5]), Inr (2, [3, 4])])"
    by (auto simp: arrivals_ok_def PKT_STORAGE_def size_defs)
  have f: "fits (alloc_size None 0) ((0, [1, 2]) # own [Inr (4, [5]), Inr (2, [3, 4])])"
    by (simp add: alloc_size_def alloc_request_def)
  have h: "heap_ok (\<lambda>n. Some (replicate n 0))" and l: "length [1, 2, 3, 4, 5 :: u8] < 2 ^ 32"
    and p: "(1 :: u32) \<noteq> 0" and a: "\<forall>b. None = Some b \<longrightarrow> length b = unat (0 :: u64)" for z :: bytes
    by (simp_all add: heap_ok_def)
  from allocated_reassembly [OF t o l p h, of None 0 7 2 0 "[]" 7 None, unfolded if_P [OF f]] a
  show ?thesis by blast
qed

text \<open>
  C8: \<open>getPacketizedBuffer\<close> called at offset \<open>off\<close> of a buffer whose remaining packets are waiting
  in order takes at least one of them, and goes on until they are all read or less room is left
  than a jumbo packet needs. It returns the bytes taken, which it has put at the start of the
  caller's array, their number of packets, the offset for the next call, and \<open>last\<close> when the
  buffer is complete; the packets not taken are left for the next call.
\<close>

theorem staged_reading:
  fixes v r :: i32
  assumes "first \<longrightarrow> off = 0" and "\<not> first \<longrightarrow> src = i \<and> tick = t" and "off + length (concat cs) = n"
    and "\<forall>c \<in> set cs. c \<noteq> [] \<and> length c \<le> MAX_EJFAT_MTU" and "cs \<noteq> []"
    and "MAX_EJFAT_MTU \<le> unat bufLen" and "unat bufLen \<le> length buf" and "n < 2 ^ 32"
  shows "\<exists>j. let more = concat (take j cs);
        net = \<lambda>o' cs. map (\<lambda>q. Datagram (re_packet (of_nat n) t v i r q)) (pieces o' cs) @ later
    in 0 < j \<and> j \<le> length cs
    \<and> getPacketizedBuffer host buf bufLen (net off cs) first lst src tick (of_nat off) cnt
      = (Ret (int (length more)) \<lparr>pr_dataBuf = overwrite buf 0 more, pr_last = (lst \<or> j = length cs),
           pr_srcId = i, pr_tick = Some t, pr_offset = of_nat (off + length more), pr_packetCount = of_nat j\<rparr>,
         net (off + length more) (drop j cs))
    \<and> (j = length cs \<or> unat bufLen - length more < MAX_EJFAT_MTU)"
  using reads_stage [OF assms, where v = v and r = r and later = later and host = host
    and lst = lst and cnt = cnt] by (simp add: Let_def)

definition stage_buf :: bytes where
  "stage_buf = replicate 20000 0"

theorem staged_reading_witness:
  "getPacketizedBuffer ENDIAN_BIG stage_buf 20000
      (map (\<lambda>q. Datagram (re_packet (of_nat 5) 7 2 3 0 q)) (pieces 2 [[3, 4], [5]])) False False 3 7 (of_nat 2) 0
    = (Ret 3 \<lparr>pr_dataBuf = overwrite stage_buf 0 [3, 4, 5], pr_last = True, pr_srcId = 3, pr_tick = Some 7,
              pr_offset = 5, pr_packetCount = 2\<rparr>, [])"
proof -
  let ?cs = "[[3, 4], [5]] :: bytes list"
  have "length stage_buf = 20000" unfolding stage_buf_def by (rule length_replicate)
  then have "\<exists>j. let more = concat (take j ?cs); net = \<lambda>o' cs. map (\<lambda>q. Datagram (re_packet (of_nat 5) 7 2 3 0 q)) (pieces o' cs) @ []
    in 0 < j \<and> j \<le> length ?cs
    \<and> getPacketizedBuffer ENDIAN_BIG stage_buf 20000 (net 2 ?cs) False False 3 7 (of_nat 2) 0
      = (Ret (int (length more)) \<lparr>pr_dataBuf = overwrite stage_buf 0 more, pr_last = (False \<or> j = length ?cs), pr_srcId = 3,
           pr_tick = Some 7, pr_offset = of_nat (2 + length more), pr_packetCount = of_nat j\<rparr>,
         net (2 + length more) (drop j ?cs))
    \<and> (j = length ?cs \<or> unat (20000 :: u64) - length more < MAX_EJFAT_MTU)"
    by (intro staged_reading) (simp_all add: size_defs)
  then show ?thesis by (auto simp: Let_def size_defs le_Suc_eq)
qed

lemma writeBuffer_once:
  assumes "unat nBytes \<le> length buf"
  shows "fwrite (take (unat nBytes) buf) = unat nBytes \<Longrightarrow>
      writeBuffer (Suc k) fwrite buf nBytes file = Some (Ret 0 (nBytes, file @ take (unat nBytes) buf))"
    and "fwrite (take (unat nBytes) buf) < unat nBytes \<Longrightarrow>
      writeBuffer (Suc k) fwrite buf nBytes file
        = Some (Ret 1 (0, file @ take (fwrite (take (unat nBytes) buf)) buf))"
proof -
  have small: "of_nat m \<noteq> nBytes" if "m < unat nBytes" for m
    using that by (metis of_nat_inverse order_less_irrefl order_less_trans unsigned_less)
  show "fwrite (take (unat nBytes) buf) = unat nBytes \<Longrightarrow>
      writeBuffer (Suc k) fwrite buf nBytes file = Some (Ret 0 (nBytes, file @ take (unat nBytes) buf))"
    using assms by (simp add: writeBuffer_def run_Ret write_step_def)
  show "fwrite (take (unat nBytes) buf) < unat nBytes \<Longrightarrow>
      writeBuffer (Suc k) fwrite buf nBytes file
        = Some (Ret 1 (0, file @ take (fwrite (take (unat nBytes) buf)) buf))"
    using assms small by (simp add: writeBuffer_def run_Ret write_step_def)
qed

end
