(* ===== verification/Grpc_Transfer.thy ===== *)
theory Grpc_Transfer
  imports Packetize_More Assemble_More
begin

text \<open>
  The simulation programs' transfer over gRPC-controlled backends: \<open>ersap_grpc_packetize.hpp\<close>
  sends buffers whose packets carry a processing time, the number of packets and their own
  number; \<open>ersap_grpc_assemble.hpp\<close> reassembles them, counts by these numbers and records the
  order of arrival in the buffer, and passes buffers on through a bounded queue. The parsers of
  both headers and the counters are those of \<open>ejfat_assemble_ersap.hpp\<close>, word for word; the
  writers differ in leaving the reserved bytes as they are.
\<close>

section \<open>Sending\<close>

text \<open>The writers; a reserved byte keeps what the array held.\<close>

definition grpc_setLbMetadata ::
  "byte_order \<Rightarrow> bytes \<Rightarrow> nat \<Rightarrow> u64 \<Rightarrow> i32 \<Rightarrow> i32 \<Rightarrow> i32 \<Rightarrow> bytes" where
  "grpc_setLbMetadata host buf p tick version protocol entropy =
    (let b = overwrite buf p [0x4C];
         b = overwrite b (p + 1) [0x42];
         b = overwrite b (p + 2) [ucast version];
         b = overwrite b (p + 3) [ucast protocol];
         b = store16 host b (p + 6) (htons host (ucast entropy))
     in store64 host b (p + 8) (htonll host tick))"

definition grpc_setReMetadata ::
  "byte_order \<Rightarrow> bytes \<Rightarrow> nat \<Rightarrow> u32 \<Rightarrow> u32 \<Rightarrow> u64 \<Rightarrow> i32 \<Rightarrow> u16 \<Rightarrow> bytes" where
  "grpc_setReMetadata host buf p offset len tick version dataId =
    (let b = overwrite buf p [ucast (push_bit 4 version)];
         b = store16 host b (p + 2) (htons host dataId);
         b = store32 host b (p + 4) (htonl host offset);
         b = store32 host b (p + 8) (htonl host len)
     in store64 host b (p + 12) (htonll host tick))"

definition grpc_setSyncData ::
  "byte_order \<Rightarrow> bytes \<Rightarrow> nat \<Rightarrow> i32 \<Rightarrow> u32 \<Rightarrow> u64 \<Rightarrow> u32 \<Rightarrow> u64 \<Rightarrow> bytes" where
  "grpc_setSyncData host buf p version sid evtNum evtRate nanos =
    (let b = overwrite buf p [0x4C];
         b = overwrite b (p + 1) [0x43];
         b = overwrite b (p + 2) [ucast version];
         b = store32 host b (p + 4) (htonl host sid);
         b = store64 host b (p + 8) (htonll host evtNum);
         b = store32 host b (p + 16) (htonl host evtRate)
     in store64 host b (p + 20) (htonll host nanos))"

definition grpc_setMTU :: "net_env \<Rightarrow> string \<Rightarrow> i32 \<Rightarrow> i32 \<times> bool" where
  "grpc_setMTU net interfaceName mtu =
    (let mtu = (if sint mtu < 500 then 500 else mtu);
         mtu = (if sint mtu > 9000 then 9000 else mtu)
     in case if_set net interfaceName mtu of
          Some m \<Rightarrow> (m, sint m > 1500)
        | None \<Rightarrow>
           (case if_get net interfaceName of
              Some m \<Rightarrow> (m, sint m > 1500)
            | None \<Rightarrow> (-1, False)))"

text \<open>The local array \<open>buffer[10000]\<close>, of which \<open>junk\<close> below is the initial contents.\<close>

definition GRPC_STORAGE :: nat where "GRPC_STORAGE = 10000"

record grpc_send_args =
  ga_dataLen :: u32
  ga_maxUdpPayload :: i32
  ga_backendTime :: u32
  ga_tick :: u64
  ga_protocol :: i32
  ga_entropy :: i32
  ga_version :: i32
  ga_dataId :: u16
  ga_delay :: u32
  ga_delayPrescale :: u32

record grpc_send_state =
  gs_buffer :: bytes
  gs_localOffset :: u32
  gs_remainingBytes :: u32
  gs_packetCounter :: u32
  gs_remainingPackets :: u32
  gs_delayCounter :: u32
  gs_wire :: "bytes list"

definition grpc_totalPackets :: "grpc_send_args \<Rightarrow> u32" where
  "grpc_totalPackets a = (ga_dataLen a + ga_maxUdpPayload a - 1) div ga_maxUdpPayload a"

text \<open>One packet: the part of the loop before \<open>send\<close>; the packet is the first \<open>n + 36\<close> bytes.\<close>

definition grpc_fill :: "byte_order \<Rightarrow> grpc_send_args \<Rightarrow> grpc_send_state \<Rightarrow> bytes" where
  "grpc_fill host a st =
    (let b = grpc_setReMetadata host (gs_buffer st) LB_HEADER_BYTES (gs_localOffset st) (ga_dataLen a)
               (ga_tick a) (ga_version a) (ga_dataId a)
     in store32 host b (HEADER_BYTES + 8) (htonl host (gs_packetCounter st + 1)))"

text \<open>The loop, with \<open>remainingPackets\<close> packets to go.\<close>

fun grpc_send_loop ::
  "byte_order \<Rightarrow> socket \<Rightarrow> grpc_send_args \<Rightarrow> nat \<Rightarrow> grpc_send_state \<Rightarrow> grpc_send_state ctl" where
  "grpc_send_loop host sock a 0 st = Ret 0 st"
| "grpc_send_loop host sock a (Suc k) st =
    (let n = (if gs_remainingBytes st > ga_maxUdpPayload a then ga_maxUdpPayload a else gs_remainingBytes st);
         b = grpc_fill host a st;
         pktSize = unat (n + of_nat HEADER_BYTES);
         st = st\<lparr>gs_buffer := b, gs_packetCounter := gs_packetCounter st + 1, gs_remainingPackets := of_nat k\<rparr>
     in
      if pktSize > GRPC_STORAGE then Trap
      else
       (case sock CallSend (unat (gs_packetCounter st)) (take pktSize b) of
          SendErr e \<Rightarrow> Ret (-1) st
        | Sent _ \<Rightarrow>
            grpc_send_loop host sock a k
              (st\<lparr>gs_delayCounter := delayTick (ga_delay a) (ga_delayPrescale a) (gs_delayCounter st),
                  gs_localOffset := gs_localOffset st + n,
                  gs_remainingBytes := gs_remainingBytes st - n,
                  gs_wire := gs_wire st @ [take pktSize b]\<rparr>)))"

record grpc_sent =
  gr_ret :: int
  gr_packetsSent :: int
  gr_delayCounter :: u32
  gr_wire :: "bytes list"

definition grpc_send_init :: "byte_order \<Rightarrow> grpc_send_args \<Rightarrow> bytes \<Rightarrow> u32 \<Rightarrow> grpc_send_state" where
  "grpc_send_init host a junk dc =
    (let b = grpc_setLbMetadata host junk 0 (ga_tick a) (ga_version a) (ga_protocol a) (ga_entropy a);
         b = store32 host b HEADER_BYTES (htonl host (ga_backendTime a));
         b = store32 host b (HEADER_BYTES + 4) (htonl host (grpc_totalPackets a))
     in \<lparr>gs_buffer = b, gs_localOffset = 0, gs_remainingBytes = ga_dataLen a, gs_packetCounter = 0,
         gs_remainingPackets = grpc_totalPackets a,         gs_delayCounter = dc, gs_wire = []\<rparr>)"

text \<open>\<open>None\<close>: a division by zero or a packet longer than the array.\<close>

definition sendPacketizedBuf ::
  "byte_order \<Rightarrow> socket \<Rightarrow> grpc_send_args \<Rightarrow> bytes \<Rightarrow> u32 \<Rightarrow> grpc_sent option" where
  "sendPacketizedBuf host sock a junk dc =
    (if ga_maxUdpPayload a = 0 then None
     else case grpc_send_loop host sock a (unat (grpc_totalPackets a)) (grpc_send_init host a junk dc) of
       Ret c st \<Rightarrow>
         Some \<lparr>gr_ret = c,
               gr_packetsSent = (if c = 0 then uint (grpc_totalPackets a) else uint (grpc_totalPackets a - gs_remainingPackets st - 1)),
               gr_delayCounter = gs_delayCounter st, gr_wire = gs_wire st\<rparr>
     | _ \<Rightarrow> None)"

section \<open>Reassembling\<close>

definition parsePacketData :: "byte_order \<Rightarrow> bytes \<Rightarrow> u32 \<times> u32 \<times> u32" where
  "parsePacketData host buf =
    (ntohl host (load32 host buf 0), ntohl host (load32 host buf 4), ntohl host (load32 host buf 8))"

text \<open>
  The variables are those of \<open>getCompletePacketizedBuffer\<close>, where \<open>dataBuf\<close> is the memory of
  the vector, with the packet array and \<open>bufLen\<close>. A shorter packet leaves the rest of the
  array as the one before it did.
\<close>

definition GRPC_PKT_STORAGE :: nat where "GRPC_PKT_STORAGE = 9100"

record grpc_state =
  gp_asm :: asm_state
  gp_pkt :: bytes
  gp_bufLen :: nat

text \<open>
  \<open>vec.reserve\<close> when the first packet announces a longer buffer; only the \<open>vecSize\<close> elements the
  vector has are kept. \<open>None\<close>: the exception of a failed allocation.
\<close>

definition grpc_reserve :: "heap \<Rightarrow> nat \<Rightarrow> grpc_state \<Rightarrow> grpc_state option" where
  "grpc_reserve fresh vecSize st =
    (let a = gp_asm st; n = unat (msgLength a) in
     if veryFirstRead a \<and> n > gp_bufLen st
     then map_option (\<lambda>f. st\<lparr>gp_asm := a\<lparr>dataBuf := take vecSize (dataBuf a) @ drop vecSize f\<rparr>, gp_bufLen := n\<rparr>) (fresh n)
     else Some st)"

text \<open>Storing the data, then the packet's number behind the first three words.\<close>

definition grpc_store :: "byte_order \<Rightarrow> nat \<Rightarrow> bytes \<Rightarrow> u32 \<Rightarrow> u64 \<Rightarrow> grpc_state \<Rightarrow> grpc_state option" where
  "grpc_store host off payload pktSequence packetTick st =
    (let a = gp_asm st; mark = 12 + unat (4 * pktCount a) in
     if off + length payload > length (dataBuf a) \<or> mark + 4 > length (dataBuf a) then None
     else let b = storeData off payload packetTick a
          in Some (st\<lparr>gp_asm := b\<lparr>dataBuf := store32 host (dataBuf b) mark pktSequence\<rparr>\<rparr>))"

text \<open>The check whether all packets have been counted.\<close>

definition grpc_count :: "u64 \<Rightarrow> u16 \<Rightarrow> u64 \<Rightarrow> u32 \<Rightarrow> grpc_state \<Rightarrow> grpc_state ctl" where
  "grpc_count packetTick packetDataId expectedTick tickPrescale st =
    (if pktCount (gp_asm st) \<ge> totalPkts (gp_asm st)
     then map_ctl (\<lambda>a. st\<lparr>gp_asm := a\<rparr>)
            (finishBuffer packetTick packetDataId expectedTick tickPrescale (gp_asm st))
     else Again st)"

text \<open>One turn of the loop; \<open>Trap\<close> is a write outside of the vector's memory or its exception.\<close>

definition grpc_step ::
  "byte_order \<Rightarrow> heap \<Rightarrow> nat \<Rightarrow> u64 \<Rightarrow> u32 \<Rightarrow> grpc_state \<Rightarrow> recv \<Rightarrow> grpc_state ctl" where
  "grpc_step host fresh vecSize expectedTick tickPrescale st r =
    (let a = (if veryFirstRead (gp_asm st) then (gp_asm st)\<lparr>totalBytesRead := 0, pktCount := 0\<rparr> else gp_asm st) in
     case r of
       RecvFail \<Rightarrow> Ret (errorCode RECV_MSG) (st\<lparr>gp_asm := a\<rparr>)
     | Datagram p \<Rightarrow>
        let d = take GRPC_PKT_STORAGE p;
            pkt = overwrite (gp_pkt st) 0 d;
            st = st\<lparr>gp_pkt := pkt\<rparr>
        in
        if length d < RE_HEADER_BYTES then Ret (errorCode INTERNAL_ERROR) (st\<lparr>gp_asm := a\<rparr>)
        else
         let prevLength = msgLength a;
             (version, packetDataId, offset, len, packetTick) = parseReHeader host pkt;
             a = a\<lparr>msgLength := len\<rparr>
         in
          if \<not> veryFirstRead a \<and> packetDataId \<noteq> srcId a then Again (st\<lparr>gp_asm := a\<rparr>)
          else
           let a = (if veryFirstRead a then a\<lparr>srcId := packetDataId\<rparr> else a);
               prevTotalPkts = totalPkts a;
               (delay, total, pktSequence) = parsePacketData host (drop RE_HEADER_BYTES pkt);
               a = a\<lparr>totalPkts := total\<rparr>
           in
            if packetTick \<noteq> prevTick a \<and> offset \<noteq> 0
            then Again (st\<lparr>gp_asm := skipTick packetTick len a\<rparr>)
            else if packetTick = prevTick a \<and> dumpTick a
            then Again (st\<lparr>gp_asm := a\<lparr>veryFirstRead := True\<rparr>\<rparr>)
            else
             let a = (if packetTick \<noteq> prevTick a then startTick packetDataId prevLength prevTotalPkts a else a) in
             (case Option.bind (grpc_reserve fresh vecSize (st\<lparr>gp_asm := a\<rparr>))
                     (grpc_store host (unat offset) (drop RE_HEADER_BYTES d) pktSequence packetTick) of
                None \<Rightarrow> Trap
              | Some st \<Rightarrow> grpc_count packetTick packetDataId expectedTick tickPrescale st))"

definition getReassembledBuffer ::
  "byte_order \<Rightarrow> heap \<Rightarrow> bytes \<Rightarrow> nat \<Rightarrow> bytes \<Rightarrow> recv list \<Rightarrow> u64 \<Rightarrow> packetRecvStats option \<Rightarrow> u32
    \<Rightarrow> grpc_state ctl \<times> recv list" where
  "getReassembledBuffer host fresh vec vecSize pkt net tick sts tickPrescale =
     recv_loop (grpc_step host fresh vecSize tick tickPrescale)
       \<lparr>gp_asm = asm_init vec tick sts, gp_pkt = pkt, gp_bufLen = length vec\<rparr> net"

section \<open>The bounded queue\<close>

text \<open>
  The class \<open>queue\<close>. Every operation holds the mutex, so it is one step; \<open>None\<close> is a call that
  waits on its condition variable.
\<close>

record 'a bqueue =
  q_content :: "'a list"
  q_capacity :: nat

definition q_new :: "nat \<Rightarrow> 'a bqueue" where
  "q_new capacity = \<lparr>q_content = [], q_capacity = capacity\<rparr>"

definition q_push :: "'a \<Rightarrow> 'a bqueue \<Rightarrow> 'a bqueue option" where
  "q_push item q =
     (if length (q_content q) < q_capacity q then Some (q\<lparr>q_content := q_content q @ [item]\<rparr>) else None)"

definition q_try_push :: "'a \<Rightarrow> 'a bqueue \<Rightarrow> bool \<times> 'a bqueue" where
  "q_try_push item q =
     (if length (q_content q) = q_capacity q then (False, q)
      else (True, q\<lparr>q_content := q_content q @ [item]\<rparr>))"

definition q_pop :: "'a bqueue \<Rightarrow> ('a \<times> 'a bqueue) option" where
  "q_pop q = (case q_content q of [] \<Rightarrow> None | x # xs \<Rightarrow> Some (x, q\<lparr>q_content := xs\<rparr>))"

definition q_try_pop :: "'a bqueue \<Rightarrow> 'a option \<times> 'a bqueue" where
  "q_try_pop q = (case q_content q of [] \<Rightarrow> (None, q) | x # xs \<Rightarrow> (Some x, q\<lparr>q_content := xs\<rparr>))"

definition q_size :: "'a bqueue \<Rightarrow> nat" where
  "q_size q = length (q_content q)"

text \<open>
  Calls by any threads in the order in which they get the mutex; the two lists record the items
  put in and taken out. A call that would wait does not happen.
\<close>

datatype 'a q_call = Push 'a | TryPush 'a | Pop | TryPop

fun q_do :: "'a q_call \<Rightarrow> 'a bqueue \<times> 'a list \<times> 'a list \<Rightarrow> ('a bqueue \<times> 'a list \<times> 'a list) option" where
  "q_do (Push x) (q, ins, outs) = map_option (\<lambda>q. (q, ins @ [x], outs)) (q_push x q)"
| "q_do (TryPush x) (q, ins, outs) =
     (let (ok, q) = q_try_push x q in Some (q, if ok then ins @ [x] else ins, outs))"
| "q_do Pop (q, ins, outs) = map_option (\<lambda>(x, q). (q, ins, outs @ [x])) (q_pop q)"
| "q_do TryPop (q, ins, outs) =
     (case q_try_pop q of (None, q) \<Rightarrow> Some (q, ins, outs) | (Some x, q) \<Rightarrow> Some (q, ins, outs @ [x]))"

fun q_calls :: "'a q_call list \<Rightarrow> 'a bqueue \<times> 'a list \<times> 'a list \<Rightarrow> ('a bqueue \<times> 'a list \<times> 'a list) option" where
  "q_calls [] s = Some s"
| "q_calls (c # cs) s = Option.bind (q_do c s) (q_calls cs)"

section \<open>What is sent\<close>

text \<open>\<open>be4 w\<close> is the word as it goes over the network.\<close>

abbreviation be4 :: "u32 \<Rightarrow> bytes" where
  "be4 w \<equiv> rev (bytes_le 4 w)"

abbreviation payload_size :: "grpc_send_args \<Rightarrow> nat" where
  "payload_size a \<equiv> unat (ga_maxUdpPayload a)"

definition packet_count :: "grpc_send_args \<Rightarrow> nat" where
  "packet_count a = (unat (ga_dataLen a) + payload_size a - 1) div payload_size a"

text \<open>The data of packet \<open>i\<close>, counted from 0; \<open>tail\<close> is what the array holds behind the three words.\<close>

definition grpc_data :: "grpc_send_args \<Rightarrow> bytes \<Rightarrow> nat \<Rightarrow> bytes" where
  "grpc_data a tail i = take (min (payload_size a) (unat (ga_dataLen a) - i * payload_size a))
     (be4 (ga_backendTime a) @ be4 (of_nat (packet_count a)) @ be4 (of_nat (Suc i)) @ tail)"

definition grpc_packet :: "grpc_send_args \<Rightarrow> i32 \<Rightarrow> bytes \<Rightarrow> nat \<Rightarrow> bytes" where
  "grpc_packet a r tail i =
     re_packet (ga_dataLen a) (ga_tick a) (ga_version a) (ga_dataId a) r (i * payload_size a, grpc_data a tail i)"

definition grpc_sendable :: "grpc_send_args \<Rightarrow> bytes \<Rightarrow> bool" where
  "grpc_sendable a junk \<longleftrightarrow> length junk = GRPC_STORAGE \<and> 0 < payload_size a
     \<and> HEADER_BYTES + payload_size a \<le> GRPC_STORAGE
     \<and> unat (ga_dataLen a) + payload_size a \<le> 2 ^ 32"

lemma overwrite_append:
  "p = length xs \<Longrightarrow> length bs = length ys \<Longrightarrow> overwrite (xs @ ys @ zs) p bs = xs @ bs @ zs"
  by (simp add: overwrite_def)

lemma grpc_setRe_layout:
  assumes "length hdr = 20" and "length lb = p"
  shows "grpc_setReMetadata host (lb @ hdr @ rest) p off len t v d
    = lb @ re_layout off len t v d (ucast (hdr ! 1)) @ rest"
proof -
  obtain h0 h1 hs where hdr: "hdr = h0 # h1 # hs" and hs: "length hs = 18"
    using assms(1) by (auto simp: length_Suc_conv numeral_eq_Suc)
  have byte: "(ucast ((ucast h1 :: i32) AND 0xff) :: u8) = h1"
    by (rule bit_word_eqI) (auto simp: mask_simps bit_simps)
  show ?thesis
    using assms(2) hs unfolding hdr
    by (simp add: grpc_setReMetadata_def Let_def mem_simps re_layout_def byte) (simp add: overwrite_def)
qed

text \<open>The array between two packets: only the reassembly header and the packet number vary.\<close>

definition grpc_frame :: "grpc_send_args \<Rightarrow> bytes \<Rightarrow> u8 \<Rightarrow> bytes \<Rightarrow> bytes \<Rightarrow> bool" where
  "grpc_frame a lb r tail b \<longleftrightarrow> length lb = LB_HEADER_BYTES
     \<and> (\<exists>hdr x. b = lb @ hdr @ be4 (ga_backendTime a) @ be4 (of_nat (packet_count a)) @ x @ tail
          \<and> length hdr = RE_HEADER_BYTES \<and> hdr ! 1 = r \<and> length x = 4)"

lemma grpc_fill_frame:
  assumes "grpc_frame a lb r tail (gs_buffer st)"
  shows "grpc_fill host a st = lb @ re_layout (gs_localOffset st) (ga_dataLen a) (ga_tick a) (ga_version a)
      (ga_dataId a) (ucast r) @ be4 (ga_backendTime a) @ be4 (of_nat (packet_count a))
      @ be4 (gs_packetCounter st + 1) @ tail"
    and "grpc_frame a lb r tail (grpc_fill host a st)"
proof -
  obtain hdr x where b: "gs_buffer st = lb @ hdr @ be4 (ga_backendTime a) @ be4 (of_nat (packet_count a)) @ x @ tail"
    and len: "length lb = 16" "length hdr = 20" "hdr ! 1 = r" "length x = 4"
    using assms by (auto simp: grpc_frame_def size_defs)
  let ?re = "re_layout (gs_localOffset st) (ga_dataLen a) (ga_tick a) (ga_version a) (ga_dataId a) (ucast r)"
  have "grpc_fill host a st
      = overwrite (lb @ ?re @ be4 (ga_backendTime a) @ be4 (of_nat (packet_count a)) @ x @ tail) 44
          (be4 (gs_packetCounter st + 1))"
    using len by (simp add: grpc_fill_def Let_def b grpc_setRe_layout size_defs mem_simps)
  also have "\<dots> = lb @ ?re @ be4 (ga_backendTime a) @ be4 (of_nat (packet_count a))
      @ be4 (gs_packetCounter st + 1) @ tail"
    using len by (simp add: overwrite_def)
  finally show fill: "grpc_fill host a st = lb @ ?re @ be4 (ga_backendTime a) @ be4 (of_nat (packet_count a))
      @ be4 (gs_packetCounter st + 1) @ tail" .
  have "(ucast ((ucast r :: i32) AND 0xff) :: u8) = r"
    by (rule bit_word_eqI) (auto simp: mask_simps bit_simps)
  then have "?re ! 1 = r" by (simp add: re_layout_def)
  with fill len show "grpc_frame a lb r tail (grpc_fill host a st)"
    unfolding grpc_frame_def
    by (intro conjI exI [of _ ?re] exI [of _ "be4 (gs_packetCounter st + 1)"]) (simp_all add: size_defs)
qed

lemma totalPackets_eq:
  assumes "grpc_sendable a junk"
  shows "grpc_totalPackets a = of_nat (packet_count a)" and "unat (grpc_totalPackets a) = packet_count a"
proof -
  let ?l = "unat (ga_dataLen a)" and ?m = "payload_size a"
  have m: "0 < ?m" "?l + ?m \<le> 2 ^ 32" using assms by (simp_all add: grpc_sendable_def)
  have "ga_dataLen a + ga_maxUdpPayload a - 1 = of_nat (?l + ?m - 1)" using m(1) by (simp add: of_nat_diff)
  then have sum: "unat (ga_dataLen a + ga_maxUdpPayload a - 1) = ?l + ?m - 1"
    using m by (simp only: unat_of_nat) simp
  then show eq: "unat (grpc_totalPackets a) = packet_count a"
    by (simp add: grpc_totalPackets_def packet_count_def unat_div_distrib)
  show "grpc_totalPackets a = of_nat (packet_count a)" by (simp add: eq [symmetric])
qed

lemma packet_count_bounds:
  assumes "0 < payload_size a"
  shows "unat (ga_dataLen a) \<le> packet_count a * payload_size a"
    and "i < packet_count a \<Longrightarrow> i * payload_size a < unat (ga_dataLen a)"
proof -
  let ?l = "unat (ga_dataLen a)" and ?m = "payload_size a"
  have "?l + ?m - 1 < (packet_count a + 1) * ?m"
    using assms dividend_less_div_times [of ?m "?l + ?m - 1"] by (simp add: packet_count_def algebra_simps)
  then show "?l \<le> packet_count a * ?m" using assms by (simp add: algebra_simps)
  show "i * ?m < ?l" if "i < packet_count a"
  proof -
    have "(i + 1) * ?m \<le> packet_count a * ?m" using that by (intro mult_le_mono1) simp
    also have "\<dots> \<le> ?l + ?m - 1" by (simp add: packet_count_def)
    finally show ?thesis using assms by (simp add: algebra_simps)
  qed
qed

lemma grpc_send_step:
  assumes ok: "grpc_sendable a junk" and acc: "accepts (HEADER_BYTES + payload_size a) sock"
    and frame: "grpc_frame a lb r tail (gs_buffer st)" and i: "i < packet_count a"
    and st: "gs_localOffset st = of_nat (i * payload_size a)" "gs_packetCounter st = of_nat i"
      "gs_remainingBytes st = of_nat (unat (ga_dataLen a) - i * payload_size a)"
    and tail: "length tail = GRPC_STORAGE - HEADER_BYTES - 12"
  shows "\<exists>st'. grpc_send_loop host sock a (Suc k) st = grpc_send_loop host sock a k st'
    \<and> grpc_frame a lb r tail (gs_buffer st') \<and> gs_packetCounter st' = of_nat (Suc i)
    \<and> gs_remainingBytes st' = of_nat (unat (ga_dataLen a) - Suc i * payload_size a)
    \<and> (Suc i < packet_count a \<longrightarrow> gs_localOffset st' = of_nat (Suc i * payload_size a))
    \<and> gs_delayCounter st' = delayTick (ga_delay a) (ga_delayPrescale a) (gs_delayCounter st)
    \<and> gs_wire st' = gs_wire st @ [lb @ grpc_packet a (ucast r) tail i]"
proof -
  let ?l = "unat (ga_dataLen a)" and ?m = "payload_size a"
  define n :: u32 where "n = (if gs_remainingBytes st > ga_maxUdpPayload a then ga_maxUdpPayload a else gs_remainingBytes st)"
  let ?n = "min ?m (?l - i * ?m)"
  have m: "0 < ?m" "36 + ?m \<le> GRPC_STORAGE" using ok by (simp_all add: grpc_sendable_def size_defs)
  have "?l - i * ?m < 2 ^ 32" using unsigned_less [of "ga_dataLen a"] by (intro le_less_trans [of "?l - i * ?m" ?l]) simp_all
  then have rem: "unat (gs_remainingBytes st) = ?l - i * ?m" unfolding st(3) by (simp only: unat_of_nat) simp
  then have un: "unat n = ?n" by (auto simp: n_def word_less_nat_alt min_def)
  have small: "?n + 36 < 2 ^ 32" using m(2) by (simp add: GRPC_STORAGE_def)
  have size: "unat (n + of_nat HEADER_BYTES) = 36 + ?n"
  proof -
    have "n + of_nat HEADER_BYTES = of_nat (?n + 36)" by (simp add: un [symmetric] size_defs)
    then show ?thesis using small by (simp only: unat_of_nat) simp
  qed
  let ?b = "grpc_fill host a st"
  have lb: "length lb = 16" using frame by (simp add: grpc_frame_def size_defs)
  have pkt: "take (36 + ?n) ?b = lb @ grpc_packet a (ucast r) tail i"
    using lb by (simp add: grpc_fill_frame(1) [OF frame] st grpc_packet_def re_packet_def grpc_data_def add.commute)
  have "length (take (36 + ?n) ?b) \<le> HEADER_BYTES + ?m" by (simp add: size_defs)
  then obtain j where j: "sock CallSend (unat (gs_packetCounter st + 1)) (take (36 + ?n) ?b) = Sent j"
    using acc unfolding accepts_def by blast
  let ?st = "st\<lparr>gs_buffer := ?b, gs_packetCounter := gs_packetCounter st + 1, gs_remainingPackets := of_nat k,
      gs_delayCounter := delayTick (ga_delay a) (ga_delayPrescale a) (gs_delayCounter st),
      gs_localOffset := gs_localOffset st + n, gs_remainingBytes := gs_remainingBytes st - n,
      gs_wire := gs_wire st @ [lb @ grpc_packet a (ucast r) tail i]\<rparr>"
  have step: "grpc_send_loop host sock a (Suc k) st = grpc_send_loop host sock a k ?st"
  proof -
    have "36 + ?n \<le> GRPC_STORAGE" using m(2) by simp
    then show ?thesis using j size by (simp add: Let_def n_def [symmetric] pkt [symmetric])
  qed
  have "gs_remainingBytes st - n = of_nat (?l - Suc i * ?m)"
  proof -
    have "n = of_nat ?n" by (simp add: un [symmetric])
    moreover have "(of_nat (?l - i * ?m - ?n) :: u32) = of_nat (?l - i * ?m) - of_nat ?n" by (rule of_nat_diff) simp
    ultimately have "gs_remainingBytes st - n = of_nat (?l - i * ?m - ?n)" by (simp only: st(3))
    then show ?thesis by (simp add: min_def add.commute)
  qed
  moreover have "gs_localOffset st + n = of_nat (Suc i * ?m)" if "Suc i < packet_count a"
  proof -
    have "Suc i * ?m < ?l" using packet_count_bounds(2) [OF m(1) that] .
    then have "?n = ?m" by simp
    then have "n = ga_maxUdpPayload a" using un by (simp add: word_unat_eq_iff)
    then show ?thesis by (simp add: st(1))
  qed
  ultimately show ?thesis
    using step grpc_fill_frame(2) [OF frame, of host] by (intro exI [of _ ?st]) (simp add: st(2))
qed

lemma grpc_send_run:
  assumes ok: "grpc_sendable a junk" and acc: "accepts (HEADER_BYTES + payload_size a) sock"
    and tail: "length tail = GRPC_STORAGE - HEADER_BYTES - 12"
    and "grpc_frame a lb r tail (gs_buffer st)" and "i + k = packet_count a"
    and "gs_packetCounter st = of_nat i" "gs_remainingBytes st = of_nat (unat (ga_dataLen a) - i * payload_size a)"
    and "i < packet_count a \<longrightarrow> gs_localOffset st = of_nat (i * payload_size a)"
  shows "\<exists>st'. grpc_send_loop host sock a k st = Ret 0 st'
    \<and> gs_wire st' = gs_wire st @ map (\<lambda>i. lb @ grpc_packet a (ucast r) tail i) [i..<packet_count a]
    \<and> gs_delayCounter st' = (delayTick (ga_delay a) (ga_delayPrescale a) ^^ k) (gs_delayCounter st)"
  using assms(4-)
proof (induction k arbitrary: i st)
  case (Suc k)
  then have i: "i < packet_count a" by simp
  obtain st1 where st1: "grpc_send_loop host sock a (Suc k) st = grpc_send_loop host sock a k st1"
    "grpc_frame a lb r tail (gs_buffer st1)" "gs_packetCounter st1 = of_nat (Suc i)"
    "gs_remainingBytes st1 = of_nat (unat (ga_dataLen a) - Suc i * payload_size a)"
    "Suc i < packet_count a \<longrightarrow> gs_localOffset st1 = of_nat (Suc i * payload_size a)"
    "gs_delayCounter st1 = delayTick (ga_delay a) (ga_delayPrescale a) (gs_delayCounter st)"
    "gs_wire st1 = gs_wire st @ [lb @ grpc_packet a (ucast r) tail i]"
    using grpc_send_step [OF ok acc Suc.prems(1) i _ Suc.prems(3,4) tail, of host k] i Suc.prems(5) by blast
  have "Suc i + k = packet_count a" using Suc.prems(2) by simp
  from Suc.IH [OF st1(2) this st1(3-5)] show ?case
    unfolding st1(1,6,7) using i by (auto simp: upt_conv_Cons funpow_swap1)
qed simp

lemma length_6: "length xs = 6 \<Longrightarrow> \<exists>a b c d e f. xs = [a, b, c, d, e, f]"
  by (auto simp: length_Suc_conv numeral_eq_Suc)

lemma grpc_init_frame:
  fixes host dc
  assumes ok: "grpc_sendable a junk"
  defines "b \<equiv> gs_buffer (grpc_send_init host a junk dc)"
  shows "grpc_frame a (take LB_HEADER_BYTES b) (junk ! 17) (drop (HEADER_BYTES + 12) junk) b"
proof -
  define lb where "lb = take 16 (grpc_setLbMetadata host junk 0 (ga_tick a) (ga_version a) (ga_protocol a) (ga_entropy a))"
  have len: "length junk = 10000" using ok by (simp add: grpc_sendable_def GRPC_STORAGE_def)
  obtain j0 j1 j2 j3 j4 j5 where j: "take 6 junk = [j0, j1, j2, j3, j4, j5]"
    using length_6 [of "take 6 junk"] len by auto
  define js where "js = take 10 (drop 6 junk)"
  have junk: "junk = [j0, j1, j2, j3, j4, j5] @ js @ drop 16 junk"
    using append_take_drop_id [of 6 junk] append_take_drop_id [of 10 "drop 6 junk"] by (simp add: j js_def)
  have js: "length js = 10" using len by (simp add: js_def)
  have set: "grpc_setLbMetadata host junk 0 t v p e = ([0x4C, 0x42, ucast v, ucast p, j4, j5]
      @ rev (bytes_le 2 (ucast e :: u16)) @ rev (bytes_le 8 t)) @ drop 16 junk" for t v p e
    by (subst junk) (simp add: grpc_setLbMetadata_def Let_def mem_simps js overwrite_def)
  have lb: "length lb = 16" by (simp add: lb_def set)
  have "grpc_setLbMetadata host junk 0 (ga_tick a) (ga_version a) (ga_protocol a) (ga_entropy a) = lb @ drop 16 junk"
    by (simp add: lb_def set)
  moreover have "drop 16 junk = take 20 (drop 16 junk) @ drop 36 junk"
    using append_take_drop_id [of 20 "drop 16 junk"] by simp
  ultimately have b: "b = lb @ take 20 (drop 16 junk) @ be4 (ga_backendTime a) @ be4 (of_nat (packet_count a)) @ drop 44 junk"
    using lb len totalPackets_eq(1) [OF ok]
    by (simp add: b_def grpc_send_init_def Let_def size_defs mem_simps overwrite_def)
  have "drop 44 junk = take 4 (drop 44 junk) @ drop 48 junk"
    using append_take_drop_id [of 4 "drop 44 junk"] by simp
  with b lb len show ?thesis
    unfolding grpc_frame_def
    by (intro conjI exI [of _ "take 20 (drop 16 junk)"] exI [of _ "take 4 (drop 44 junk)"])
       (simp_all add: size_defs)
qed

text \<open>The load balancer header of every packet; its two reserved bytes are whatever the array held.\<close>

definition grpc_lb :: "byte_order \<Rightarrow> grpc_send_args \<Rightarrow> bytes \<Rightarrow> bytes" where
  "grpc_lb host a junk = take LB_HEADER_BYTES (gs_buffer (grpc_send_init host a junk 0))"

lemma sendPacketizedBuf_sends:
  assumes ok: "grpc_sendable a junk" and acc: "accepts (HEADER_BYTES + payload_size a) sock"
  shows "sendPacketizedBuf host sock a junk dc = Some
    \<lparr>gr_ret = 0, gr_packetsSent = int (packet_count a),
     gr_delayCounter = (delayTick (ga_delay a) (ga_delayPrescale a) ^^ packet_count a) dc,
     gr_wire = map (\<lambda>i. grpc_lb host a junk @ grpc_packet a (ucast (junk ! 17)) (drop (HEADER_BYTES + 12) junk) i)
       [0..<packet_count a]\<rparr>"
proof -
  let ?st = "grpc_send_init host a junk dc"
  have init: "gs_packetCounter ?st = of_nat 0" "gs_remainingBytes ?st = of_nat (unat (ga_dataLen a) - 0 * payload_size a)"
    "gs_localOffset ?st = of_nat (0 * payload_size a)" "gs_wire ?st = []" "gs_delayCounter ?st = dc"
    "gs_buffer (grpc_send_init host a junk 0) = gs_buffer ?st"
    by (simp_all add: grpc_send_init_def Let_def)
  have len: "length (drop (HEADER_BYTES + 12) junk) = GRPC_STORAGE - HEADER_BYTES - 12"
    using ok by (simp add: grpc_sendable_def)
  have "ga_maxUdpPayload a \<noteq> 0" using ok by (auto simp: grpc_sendable_def)
  with grpc_send_run [OF ok acc len grpc_init_frame [OF ok, of host dc] _ init(1,2), of "packet_count a" host] init
  show ?thesis
    by (auto simp: sendPacketizedBuf_def totalPackets_eq(2) [OF ok] grpc_lb_def
        uint_nat [of "grpc_totalPackets a"])
qed

section \<open>What is received\<close>

lemma parsePacketData_be4:
  "parsePacketData host (be4 x @ be4 y @ be4 z @ rest) = (x, y, z)"
  by (simp add: parsePacketData_def byte_simps)

text \<open>
  A packet of the buffer: its piece and its number, behind a header and with the three words
  in front of the data.
\<close>

definition grpc_arrival :: "u32 \<Rightarrow> u32 \<Rightarrow> piece \<times> u32 \<Rightarrow> bool" where
  "grpc_arrival bt k = (\<lambda>((off, c), s). off < 2 ^ 32 \<and> RE_HEADER_BYTES + length c \<le> GRPC_PKT_STORAGE
     \<and> (\<exists>rest. c = be4 bt @ be4 k @ be4 s @ rest))"

text \<open>The step on a packet of the tick being built, and on the first packet of all.\<close>

lemma grpc_step_own:
  assumes "\<not> veryFirstRead (gp_asm st)" and "\<not> dumpTick (gp_asm st)" and "prevTick (gp_asm st) = t"
    and "srcId (gp_asm st) = i" and "grpc_arrival bt k ((off, c), s)"
  shows "grpc_step host fresh vecSize expected prescale st (Datagram (re_packet len t v i r (off, c)))
    = (case grpc_store host off c s t (st\<lparr>gp_pkt := overwrite (gp_pkt st) 0 (re_packet len t v i r (off, c)),
           gp_asm := (gp_asm st)\<lparr>msgLength := len, totalPkts := k\<rparr>\<rparr>) of
         None \<Rightarrow> Trap
       | Some st \<Rightarrow> grpc_count t i expected prescale st)"
proof -
  obtain rest where c: "c = be4 bt @ be4 k @ be4 s @ rest" and off: "off < 2 ^ 32"
    and len: "RE_HEADER_BYTES + length c \<le> GRPC_PKT_STORAGE"
    using assms(5) by (auto simp: grpc_arrival_def)
  let ?p = "re_packet len t v i r (off, c)"
  have p: "overwrite (gp_pkt st) 0 ?p = re_layout (of_nat off) len t v i r @ c @ drop (length ?p) (gp_pkt st)"
    by (simp add: overwrite_def re_packet_def)
  have fields: "parseReHeader host (overwrite (gp_pkt st) 0 ?p) = (v AND 0xf, i, of_nat off, len, t)"
    "parsePacketData host (drop RE_HEADER_BYTES (overwrite (gp_pkt st) 0 ?p)) = (bt, k, s)"
    unfolding p by (simp_all add: byte_simps) (simp add: size_defs c parsePacketData_be4)
  show ?thesis
    using assms(1-4) len off fields
    by (simp add: grpc_step_def Let_def grpc_reserve_def unat_of_nat)
qed

definition grpc_memory :: "heap \<Rightarrow> nat \<Rightarrow> bytes \<Rightarrow> nat \<Rightarrow> bytes option" where
  "grpc_memory fresh vecSize vec n =
    (if n > length vec then map_option (\<lambda>f. take vecSize vec @ drop vecSize f) (fresh n) else Some vec)"

lemma grpc_step_first:
  assumes "grpc_arrival bt k ((0, c), s)" and "grpc_memory fresh vecSize vec (unat len) = Some mem"
  shows "grpc_step host fresh vecSize expected prescale
      \<lparr>gp_asm = asm_init vec tick sts, gp_pkt = pkt, gp_bufLen = length vec\<rparr> (Datagram (re_packet len t v i r (0, c)))
    = (case grpc_store host 0 c s t
             \<lparr>gp_asm = (asm_init mem tick sts)\<lparr>msgLength := len, srcId := i, totalPkts := k\<rparr>,
              gp_pkt = overwrite pkt 0 (re_packet len t v i r (0, c)), gp_bufLen = max (length vec) (unat len)\<rparr> of
         None \<Rightarrow> Trap
       | Some st \<Rightarrow> grpc_count t i expected prescale st)"
proof -
  obtain rest where c: "c = be4 bt @ be4 k @ be4 s @ rest" and len: "RE_HEADER_BYTES + length c \<le> GRPC_PKT_STORAGE"
    using assms(1) by (auto simp: grpc_arrival_def)
  let ?p = "re_packet len t v i r (0, c)"
  have p: "overwrite pkt 0 ?p = re_layout 0 len t v i r @ c @ drop (length ?p) pkt"
    by (simp add: overwrite_def re_packet_def)
  have fields: "parseReHeader host (overwrite pkt 0 ?p) = (v AND 0xf, i, 0, len, t)"
    "parsePacketData host (drop RE_HEADER_BYTES (overwrite pkt 0 ?p)) = (bt, k, s)"
    unfolding p by (simp_all add: byte_simps) (simp add: size_defs c parsePacketData_be4)
  show ?thesis
    using assms(2) len fields
    by (cases "t = UINT_MAX64")
       (auto simp: grpc_step_def Let_def grpc_reserve_def grpc_memory_def asm_init_def startTick_def
         split: if_splits)
qed

text \<open>
  After the packets \<open>xs\<close> of a buffer \<open>D\<close> in \<open>k\<close> packets: the bytes received are in place, except
  in the area of the numbers, which lists the packets' numbers in the order of arrival.
\<close>

definition in_marks :: "nat \<Rightarrow> nat \<Rightarrow> bool" where
  "in_marks k j \<longleftrightarrow> 12 \<le> j \<and> j < 12 + 4 * k"

definition grpc_inv ::
  "byte_order \<Rightarrow> bytes \<Rightarrow> nat \<Rightarrow> u64 \<Rightarrow> u16 \<Rightarrow> packetRecvStats option \<Rightarrow> nat \<Rightarrow> (piece \<times> u32) list \<Rightarrow> asm_state \<Rightarrow> bool" where
  "grpc_inv host D k t i sts n xs a \<longleftrightarrow>
     \<not> veryFirstRead a \<and> \<not> dumpTick a \<and> prevTick a = t \<and> srcId a = i
     \<and> totalBytesRead a = int (total_len (map fst xs)) \<and> pktCount a = of_nat (length xs)
     \<and> discPackets a = 0 \<and> discBytes a = 0 \<and> discBufs a = 0 \<and> stats a = sts
     \<and> length (dataBuf a) = n
     \<and> (\<forall>j < length D. \<not> in_marks k j \<and> covered (map fst xs) j \<longrightarrow> dataBuf a ! j = D ! j)
     \<and> (\<forall>j < length xs. take 4 (drop (12 + 4 * j) (dataBuf a)) = native_bytes host 4 (snd (xs ! j)))"

lemma grpc_inv_store:
  assumes inv: "grpc_inv host D k t i sts n xs a" and asm: "gp_asm st = a\<lparr>msgLength := len, totalPkts := g\<rparr>"
    and p: "piece_of D (off, c)" and room: "length D \<le> n" "12 + 4 * k \<le> n"
    and k: "length xs < k" "4 * k < 2 ^ 32" and off: "xs = [] \<or> 12 + 4 * k \<le> off"
  shows "\<exists>st'. grpc_store host off c s t st = Some st'
    \<and> gp_asm st' = (gp_asm st')\<lparr>msgLength := len, totalPkts := g\<rparr>
    \<and> grpc_inv host D k t i sts n (xs @ [((off, c), s)]) (gp_asm st')"
proof -
  let ?m = "dataBuf a" and ?l = "length xs"
  have bound: "off + length c \<le> length D" using p by (simp add: piece_of_def)
  have len: "length ?m = n" and cnt: "pktCount a = of_nat ?l" using inv by (simp_all add: grpc_inv_def)
  have mark: "unat (4 * pktCount a) = 4 * ?l"
  proof -
    have "4 * pktCount a = of_nat (4 * ?l)" by (simp add: cnt)
    then show ?thesis using k by (simp only: unat_of_nat) simp
  qed
  define m1 where "m1 = overwrite ?m off c"
  define m2 where "m2 = store32 host m1 (12 + 4 * ?l) s"
  have m1: "length m1 = n" using bound room(1) len by (simp add: m1_def)
  have m2: "length m2 = n" using m1 room(2) k(1) by (simp add: m2_def store32_def)
  define st' where "st' = st\<lparr>gp_asm := (storeData off c t (gp_asm st))\<lparr>dataBuf := m2\<rparr>\<rparr>"
  have "grpc_store host off c s t st = Some st'"
    using bound room len k(1) mark
    by (simp add: grpc_store_def asm Let_def st'_def m2_def m1_def storeData_def)
  moreover have "m2 ! j = D ! j" if "j < length D" "\<not> in_marks k j" "covered (map fst xs @ [(off, c)]) j" for j
  proof -
    have "m2 ! j = m1 ! j"
      using that(1,2) m1 room k(1) by (auto simp: m2_def store32_def nth_overwrite in_marks_def)
    also have "\<dots> = D ! j"
      using that inv bound room(1) len piece_nth [OF p, of "j - off"]
      by (auto simp: m1_def nth_overwrite covered_snoc grpc_inv_def)
    finally show ?thesis .
  qed
  moreover have "take 4 (drop (12 + 4 * j) m2) = native_bytes host 4 (snd ((xs @ [((off, c), s)]) ! j))"
    if "j < Suc ?l" for j
  proof (cases "j = ?l")
    case True
    then show ?thesis
      using window_overwrite_same [of "12 + 4 * ?l" "native_bytes host 4 s" m1] m1 room(2) k(1)
      by (simp add: m2_def store32_def)
  next
    case False
    with that have j: "j < ?l" by simp
    have "take 4 (drop (12 + 4 * j) m2) = take 4 (drop (12 + 4 * j) m1)"
      unfolding m2_def store32_def using m1 room(2) k(1) j by (intro window_overwrite) simp_all
    also have "\<dots> = take 4 (drop (12 + 4 * j) ?m)"
      unfolding m1_def using off j k(1) bound room(1) len by (intro window_overwrite) auto
    finally show ?thesis using inv j by (simp add: grpc_inv_def nth_append)
  qed
  ultimately show ?thesis
    using inv m2 by (intro exI [of _ st']) (simp add: st'_def grpc_inv_def storeData_def asm)
qed

text \<open>What the receiver leaves behind once it has counted all packets \<open>xs\<close>.\<close>

definition grpc_complete ::
  "byte_order \<Rightarrow> bytes \<Rightarrow> u64 \<Rightarrow> u16 \<Rightarrow> packetRecvStats option \<Rightarrow> (piece \<times> u32) list \<Rightarrow> asm_state \<Rightarrow> bool" where
  "grpc_complete host D t i sts xs a \<longleftrightarrow>
     (\<forall>j < length D. \<not> in_marks (length xs) j \<longrightarrow> dataBuf a ! j = D ! j)
     \<and> map (\<lambda>j. load32 host (dataBuf a) (12 + 4 * j)) [0..<length xs] = map snd xs
     \<and> outTick a = t \<and> outDataId a = i \<and> stats a = sts"

lemma grpc_finish:
  assumes inv: "grpc_inv host D (length xs) t i sts n xs a" and tl: "tiles D (map fst xs)" and tp: "prescale \<noteq> 0"
  shows "\<exists>a'. finishBuffer t i expected prescale a = Ret (int (length D)) a'
    \<and> grpc_complete host D t i (map_option (completed_stats t expected prescale (length D) (length xs) 0) sts) xs a'"
proof -
  have total: "totalBytesRead a = int (length D)" using inv tl by (simp add: grpc_inv_def tiles_def)
  have marks: "map (\<lambda>j. load32 host (dataBuf a) (12 + 4 * j)) [0..<length xs] = map snd xs"
    using inv by (intro nth_equalityI) (simp_all add: grpc_inv_def load32_def byte_simps)
  have mem: "\<forall>j < length D. \<not> in_marks (length xs) j \<longrightarrow> dataBuf a ! j = D ! j"
    using inv tl by (auto simp: grpc_inv_def tiles_def)
  show ?thesis
    using inv tp total marks mem
    by (cases sts) (auto simp: finishBuffer_def finishStats_def grpc_complete_def grpc_inv_def
        completed_stats_def Let_def)
qed

lemma grpc_count_more:
  assumes "grpc_inv host D k t i sts n xs (gp_asm st)" and "totalPkts (gp_asm st) = of_nat k"
    and "length xs < k" and "4 * k < 2 ^ 32"
  shows "grpc_count t i expected prescale st = Again st"
proof -
  have "unat (of_nat (length xs) :: u32) = length xs" "unat (of_nat k :: u32) = k"
    using assms(3,4) by (simp_all add: unat_of_nat)
  then show ?thesis using assms by (simp add: grpc_count_def grpc_inv_def word_le_nat_alt)
qed

lemma grpc_count_last:
  assumes inv: "grpc_inv host D k t i sts n xs (gp_asm st)" and total: "totalPkts (gp_asm st) = of_nat k"
    and full: "length xs = k" and tl: "tiles D (map fst xs)" and tp: "prescale \<noteq> 0"
  shows "\<exists>st'. grpc_count t i expected prescale st = Ret (int (length D)) st'
    \<and> grpc_complete host D t i (map_option (completed_stats t expected prescale (length D) k 0) sts) xs (gp_asm st')"
proof -
  have "pktCount (gp_asm st) = of_nat k" using inv unfolding grpc_inv_def full by simp
  then have "grpc_count t i expected prescale st
      = map_ctl (\<lambda>a. st\<lparr>gp_asm := a\<rparr>) (finishBuffer t i expected prescale (gp_asm st))"
    by (simp add: grpc_count_def total)
  moreover have "grpc_inv host D (length xs) t i sts n xs (gp_asm st)" using inv full by simp
  note grpc_finish [OF this tl tp, of expected]
  ultimately show ?thesis using full by auto
qed

lemma grpc_loop:
  assumes "grpc_inv host D k t i sts n xs (gp_asm st)" and "length xs + length ys = k" and "ys \<noteq> []"
    and "\<forall>((off, c), s) \<in> set ys. grpc_arrival bt (of_nat k) ((off, c), s) \<and> piece_of D (off, c) \<and> 12 + 4 * k \<le> off"
    and "tiles D (map fst (xs @ ys))" and "length D \<le> n" "12 + 4 * k \<le> n" and k: "4 * k < 2 ^ 32" and tp: "prescale \<noteq> 0"
  shows "\<exists>st'. recv_loop (grpc_step host fresh vecSize expected prescale) st
      (map (\<lambda>(p, s). Datagram (re_packet len t v i r p)) ys @ net) = (Ret (int (length D)) st', net)
    \<and> grpc_complete host D t i (map_option (completed_stats t expected prescale (length D) k 0) sts) (xs @ ys) (gp_asm st')"
  using assms(1-7)
proof (induction ys arbitrary: xs st)
  case (Cons y ys)
  obtain off c s where y: "y = ((off, c), s)" by (metis prod.exhaust_sel)
  let ?st = "st\<lparr>gp_pkt := overwrite (gp_pkt st) 0 (re_packet len t v i r (off, c)),
      gp_asm := (gp_asm st)\<lparr>msgLength := len, totalPkts := of_nat k\<rparr>\<rparr>"
  have own: "\<not> veryFirstRead (gp_asm st)" "\<not> dumpTick (gp_asm st)" "prevTick (gp_asm st) = t" "srcId (gp_asm st) = i"
    using Cons.prems(1) by (simp_all add: grpc_inv_def)
  have arr: "grpc_arrival bt (of_nat k) ((off, c), s)" "piece_of D (off, c)" "12 + 4 * k \<le> off"
    using Cons.prems(4) y by auto
  have less: "length xs < k" using Cons.prems(2) by simp
  obtain st1 where st1: "grpc_store host off c s t ?st = Some st1"
    "gp_asm st1 = (gp_asm st1)\<lparr>msgLength := len, totalPkts := of_nat k\<rparr>"
    "grpc_inv host D k t i sts n (xs @ [y]) (gp_asm st1)"
    using grpc_inv_store [OF Cons.prems(1) _ arr(2) Cons.prems(6,7) less k, where st = ?st and len = len
        and g = "of_nat k" and s = s] arr(3) y by auto
  have total: "totalPkts (gp_asm st1) = of_nat k" by (subst st1(2)) simp
  have step: "grpc_step host fresh vecSize expected prescale st (Datagram (re_packet len t v i r (off, c)))
      = grpc_count t i expected prescale st1"
    by (simp add: grpc_step_own [OF own arr(1)] st1(1))
  show ?case
  proof (cases "ys = []")
    case True
    then have "length (xs @ [y]) = k" "tiles D (map fst (xs @ [y]))" using Cons.prems(2,5) by simp_all
    from grpc_count_last [OF st1(3) total this tp, of expected] show ?thesis using step True y by auto
  next
    case False
    then have "length (xs @ [y]) < k" using Cons.prems(2) by (cases ys) simp_all
    then have "grpc_count t i expected prescale st1 = Again st1"
      by (rule grpc_count_more [OF st1(3) total _ k])
    moreover have "length (xs @ [y]) + length ys = k" "tiles D (map fst ((xs @ [y]) @ ys))"
      "\<forall>((off, c), s) \<in> set ys. grpc_arrival bt (of_nat k) ((off, c), s) \<and> piece_of D (off, c) \<and> 12 + 4 * k \<le> off"
      using Cons.prems(2,4,5) by simp_all
    note Cons.IH [OF st1(3) this(1) False this(3,2) Cons.prems(6,7)]
    ultimately show ?thesis using step y by simp
  qed
qed simp

text \<open>A whole buffer whose first packet arrives first.\<close>

lemma grpc_receives:
  assumes first: "grpc_arrival bt (of_nat k) ((0, c), s)" "piece_of D (0, c)"
    and ys: "\<forall>((off, c), s) \<in> set ys. grpc_arrival bt (of_nat k) ((off, c), s) \<and> piece_of D (off, c) \<and> 12 + 4 * k \<le> off"
    and k: "Suc (length ys) = k" "4 * k < 2 ^ 32" and tl: "tiles D ((0, c) # map fst ys)"
    and mem: "grpc_memory fresh vecSize vec (unat len) = Some m" and room: "length D \<le> length m" "12 + 4 * k \<le> length m"
    and tp: "prescale \<noteq> 0"
  shows "\<exists>st'. getReassembledBuffer host fresh vec vecSize pkt
      (Datagram (re_packet len t v i r (0, c)) # map (\<lambda>(p, s). Datagram (re_packet len t v i r p)) ys @ net) tick sts prescale
      = (Ret (int (length D)) st', net)
    \<and> grpc_complete host D t i (map_option (completed_stats t tick prescale (length D) k 0) sts)
        (((0, c), s) # ys) (gp_asm st')"
proof -
  define a0 where "a0 = (asm_init m tick sts)\<lparr>srcId := i, prevTick := t, veryFirstRead := False\<rparr>"
  let ?st = "\<lparr>gp_asm = a0\<lparr>msgLength := len, totalPkts := of_nat k\<rparr>,
      gp_pkt = overwrite pkt 0 (re_packet len t v i r (0, c)), gp_bufLen = max (length vec) (unat len)\<rparr>"
  have inv0: "grpc_inv host D k t i sts (length m) [] a0"
    by (simp add: grpc_inv_def a0_def asm_init_def covered_def)
  obtain st1 where st1: "grpc_store host 0 c s t ?st = Some st1"
    "gp_asm st1 = (gp_asm st1)\<lparr>msgLength := len, totalPkts := of_nat k\<rparr>"
    "grpc_inv host D k t i sts (length m) [((0, c), s)] (gp_asm st1)"
    using grpc_inv_store [OF inv0 _ first(2) room _ k(2), where st = ?st and len = len and g = "of_nat k" and s = s] k(1)
    by auto
  have same: "grpc_store host 0 c s t \<lparr>gp_asm = (asm_init m tick sts)\<lparr>msgLength := len, srcId := i, totalPkts := of_nat k\<rparr>,
      gp_pkt = overwrite pkt 0 (re_packet len t v i r (0, c)), gp_bufLen = max (length vec) (unat len)\<rparr>
      = grpc_store host 0 c s t ?st"
    by (simp add: grpc_store_def a0_def asm_init_def storeData_def Let_def)
  have total: "totalPkts (gp_asm st1) = of_nat k" by (subst st1(2)) simp
  have step: "grpc_step host fresh vecSize tick prescale \<lparr>gp_asm = asm_init vec tick sts, gp_pkt = pkt, gp_bufLen = length vec\<rparr>
      (Datagram (re_packet len t v i r (0, c))) = grpc_count t i tick prescale st1"
    by (simp add: grpc_step_first [OF first(1) mem] same st1(1))
  show ?thesis
  proof (cases "ys = []")
    case True
    then have "length [((0, c), s)] = k" "tiles D (map fst [((0, c), s)])" using k(1) tl by simp_all
    from grpc_count_last [OF st1(3) total this tp, of tick] show ?thesis
      using step True by (auto simp: getReassembledBuffer_def)
  next
    case False
    then have "length [((0, c), s)] < k" using k(1) by (cases ys) simp_all
    then have again: "grpc_count t i tick prescale st1 = Again st1"
      by (rule grpc_count_more [OF st1(3) total _ k(2)])
    have "length [((0, c), s)] + length ys = k" "tiles D (map fst ([((0, c), s)] @ ys))" using k(1) tl by simp_all
    from grpc_loop [OF st1(3) this(1) False ys this(2) room k(2) tp] show ?thesis
      using step again by (auto simp: getReassembledBuffer_def)
  qed
qed

text \<open>The packets of a buffer: where they lie and what they make up.\<close>

definition grpc_whole :: "grpc_send_args \<Rightarrow> bytes \<Rightarrow> bytes" where
  "grpc_whole a tail = concat (map (grpc_data a tail) [0..<packet_count a])"

lemma length_grpc_data:
  assumes "grpc_sendable a junk" and "tail = drop (HEADER_BYTES + 12) junk"
  shows "length (grpc_data a tail i) = min (payload_size a) (unat (ga_dataLen a) - i * payload_size a)"
proof -
  have "length (be4 x @ be4 y @ be4 z @ tail) = 9964" for x y z
    using assms by (simp add: grpc_sendable_def size_defs GRPC_STORAGE_def)
  then show ?thesis
    unfolding grpc_data_def length_take using assms(1)
    by (simp add: grpc_sendable_def size_defs GRPC_STORAGE_def min_def)
qed

lemma tiles_concat: "\<forall>c \<in> set cs. c \<noteq> [] \<Longrightarrow> tiles (concat cs) (pieces 0 cs)"
  using piece_of_pieces [of cs "concat cs" "[]"] covered_pieces [of 0 _ cs]
  by (auto simp: tiles_def total_pieces)

lemma grpc_pieces:
  assumes ok: "grpc_sendable a junk" and tail: "tail = drop (HEADER_BYTES + 12) junk" and i: "i \<le> packet_count a"
  shows "pieces (i * payload_size a) (map (grpc_data a tail) [i..<packet_count a])
    = map (\<lambda>i. (i * payload_size a, grpc_data a tail i)) [i..<packet_count a]"
  using i
proof (induction "packet_count a - i" arbitrary: i)
  case (Suc k)
  let ?m = "payload_size a"
  have m: "0 < ?m" using ok by (simp add: grpc_sendable_def)
  show ?case
  proof (cases "Suc i < packet_count a")
    case True
    then have "Suc i * ?m < unat (ga_dataLen a)" by (rule packet_count_bounds(2) [OF m])
    then have "length (grpc_data a tail i) = ?m" by (simp add: length_grpc_data [OF ok tail])
    with Suc.hyps(1) [of "Suc i"] Suc.hyps(2) True show ?thesis
      by (simp add: upt_conv_Cons [of i] add.commute)
  next
    case False
    then have "[i..<packet_count a] = [i]" using Suc.hyps(2) Suc.prems by (simp add: upt_conv_Cons)
    then show ?thesis by simp
  qed
qed simp

lemma grpc_tiles:
  assumes ok: "grpc_sendable a junk" and tail: "tail = drop (HEADER_BYTES + 12) junk"
  shows "tiles (grpc_whole a tail) (map (\<lambda>i. (i * payload_size a, grpc_data a tail i)) [0..<packet_count a])"
    and "length (grpc_whole a tail) = unat (ga_dataLen a)"
proof -
  let ?m = "payload_size a" and ?l = "unat (ga_dataLen a)" and ?k = "packet_count a"
  have m: "0 < ?m" using ok by (simp add: grpc_sendable_def)
  have ne: "grpc_data a tail i \<noteq> []" if "i < ?k" for i
    using packet_count_bounds(2) [OF m that] m length_grpc_data [OF ok tail, of i] by force
  show "tiles (grpc_whole a tail) (map (\<lambda>i. (i * ?m, grpc_data a tail i)) [0..<?k])"
    using tiles_concat [of "map (grpc_data a tail) [0..<?k]"] ne grpc_pieces [OF ok tail, of 0]
    by (auto simp: grpc_whole_def)
  have "(\<Sum>i<j. min ?m (?l - i * ?m)) = min ?l (j * ?m)" for j
    by (induction j) (auto simp: min_def)
  then have "(\<Sum>i<?k. length (grpc_data a tail i)) = ?l"
    using packet_count_bounds(1) [OF m] by (simp add: length_grpc_data [OF ok tail])
  then show "length (grpc_whole a tail) = ?l"
    by (simp add: grpc_whole_def length_concat interv_sum_list_conv_sum_set_nat atLeast0LessThan comp_def)
qed

lemma grpc_arrivals:
  assumes ok: "grpc_sendable a junk" and tail: "tail = drop (HEADER_BYTES + 12) junk"
    and fit: "12 + 4 * packet_count a \<le> payload_size a" "payload_size a \<le> GRPC_PKT_STORAGE - RE_HEADER_BYTES"
    and rest: "unat (ga_dataLen a) mod payload_size a = 0 \<or> 12 \<le> unat (ga_dataLen a) mod payload_size a"
    and i: "i < packet_count a"
  shows "grpc_arrival (ga_backendTime a) (of_nat (packet_count a)) ((i * payload_size a, grpc_data a tail i), of_nat (Suc i))"
proof -
  let ?m = "payload_size a" and ?l = "unat (ga_dataLen a)"
  have m: "0 < ?m" using ok by (simp add: grpc_sendable_def)
  have less: "i * ?m < ?l" by (rule packet_count_bounds(2) [OF m i])
  have "12 \<le> min ?m (?l - i * ?m)"
  proof (cases "?m \<le> ?l - i * ?m")
    case False
    have "?l = i * ?m + (?l - i * ?m)" using less by simp
    then have "?l mod ?m = ?l - i * ?m" using False by (metis mod_less mod_mult_self3 not_le)
    then show ?thesis using rest less fit(1) by auto
  qed (use fit in simp)
  then obtain n where n: "min ?m (?l - i * ?m) = 12 + n" using le_Suc_ex by blast
  have "grpc_data a tail i = be4 (ga_backendTime a) @ be4 (of_nat (packet_count a)) @ be4 (of_nat (Suc i)) @ take n tail"
    by (simp add: grpc_data_def n)
  moreover have "i * ?m < 2 ^ 32" using less unsigned_less [of "ga_dataLen a"] by (intro less_trans [OF less]) simp
  moreover have "RE_HEADER_BYTES + length (grpc_data a tail i) \<le> GRPC_PKT_STORAGE"
    using fit(2) by (simp add: length_grpc_data [OF ok tail] size_defs GRPC_PKT_STORAGE_def)
  ultimately show ?thesis by (simp add: grpc_arrival_def)
qed

text \<open>The packets in any order that starts with the first.\<close>

lemma grpc_receives_order:
  assumes ok: "grpc_sendable a junk" and tail: "tail = drop (HEADER_BYTES + 12) junk"
    and fit: "12 + 4 * packet_count a \<le> min (payload_size a) (unat (ga_dataLen a))"
      "payload_size a \<le> GRPC_PKT_STORAGE - RE_HEADER_BYTES"
    and rest: "unat (ga_dataLen a) mod payload_size a = 0 \<or> 12 \<le> unat (ga_dataLen a) mod payload_size a"
    and order: "mset (0 # order) = mset [0..<packet_count a]"
    and heap: "fresh (unat (ga_dataLen a)) = Some f" "length f = unat (ga_dataLen a)" "vecSize \<le> length vec"
    and tp: "prescale \<noteq> 0"
  defines "P \<equiv> \<lambda>i. ((i * payload_size a, grpc_data a tail i), of_nat (Suc i) :: u32)"
  shows "\<exists>st. getReassembledBuffer receiver fresh vec vecSize pkt
        (map (\<lambda>i. Datagram (grpc_packet a r tail i)) (0 # order) @ net) tick sts prescale
      = (Ret (uint (ga_dataLen a)) st, net)
    \<and> grpc_complete receiver (grpc_whole a tail) (ga_tick a) (ga_dataId a)
        (map_option (completed_stats (ga_tick a) tick prescale (unat (ga_dataLen a)) (packet_count a) 0) sts)
        (map P (0 # order)) (gp_asm st)"
proof -
  let ?k = "packet_count a" and ?m = "payload_size a" and ?l = "unat (ga_dataLen a)" and ?D = "grpc_whole a tail"
  have m: "0 < ?m" "?m < 2 ^ 32" using ok by (simp_all add: grpc_sendable_def size_defs GRPC_STORAGE_def)
  have idx: "set (0 # order) = {0..<?k}" using mset_eq_setD [OF order] by simp
  then have k0: "0 < ?k" by auto
  have dist: "distinct (0 # order)" using order by (metis distinct_upt mset_eq_imp_distinct_iff)
  have "mset (map (fst \<circ> P) (0 # order)) = mset (map (fst \<circ> P) [0..<?k])" by (simp only: mset_map order)
  then have tiles: "tiles ?D (map fst (map P (0 # order)))"
    using grpc_tiles(1) [OF ok tail] tiles_perm [of "map (fst \<circ> P) (0 # order)" "map (fst \<circ> P) [0..<?k]" ?D]
    by (simp add: P_def comp_def)
  have lenD: "length ?D = ?l" by (rule grpc_tiles(2) [OF ok tail])
  have arr: "grpc_arrival (ga_backendTime a) (of_nat ?k) (P i)" if "i < ?k" for i
    unfolding P_def using grpc_arrivals [OF ok tail _ fit(2) rest that] fit(1) by simp
  have piece: "piece_of ?D (fst (P i))" if "i \<in> set (0 # order)" for i
    using tiles that by (auto simp: tiles_def)
  have far: "12 + 4 * ?k \<le> i * ?m" if "i \<in> set order" for i
  proof -
    have "0 < i" using dist that by (cases i) auto
    then have "?m \<le> i * ?m" by simp
    then show ?thesis using fit(1) by linarith
  qed
  have less: "i < ?k" if "i \<in> set order" for i using idx that by auto
  have ys: "\<forall>((off, c), s) \<in> set (map P order). grpc_arrival (ga_backendTime a) (of_nat ?k) ((off, c), s)
      \<and> piece_of ?D (off, c) \<and> 12 + 4 * ?k \<le> off"
  proof (clarsimp simp only: set_map P_def prod.inject)
    fix i
    assume i: "i \<in> set order"
    show "grpc_arrival (ga_backendTime a) (of_nat ?k) ((i * ?m, grpc_data a tail i), of_nat (Suc i))
      \<and> piece_of ?D (i * ?m, grpc_data a tail i) \<and> 12 + 4 * ?k \<le> i * ?m"
      using arr [OF less [OF i]] piece [of i] far [OF i] i by (simp add: P_def)
  qed
  obtain mem where mem: "grpc_memory fresh vecSize vec ?l = Some mem" "?l \<le> length mem"
    using heap by (cases "length vec < ?l") (auto simp: grpc_memory_def)
  have k: "Suc (length (map P order)) = ?k" "4 * ?k < 2 ^ 32"
    using order fit(1) m(2) by (simp_all, metis length_Cons size_mset length_upt diff_zero)
  have first: "grpc_arrival (ga_backendTime a) (of_nat ?k) ((0, grpc_data a tail 0), 1)" "piece_of ?D (0, grpc_data a tail 0)"
    using arr [OF k0] piece [of 0] by (simp_all add: P_def)
  have "tiles ?D ((0, grpc_data a tail 0) # map fst (map P order))" using tiles by (simp add: P_def)
  moreover have "length ?D \<le> length mem" "12 + 4 * ?k \<le> length mem" using mem(2) lenD fit(1) by simp_all
  ultimately obtain st where "getReassembledBuffer receiver fresh vec vecSize pkt
      (Datagram (re_packet (ga_dataLen a) (ga_tick a) (ga_version a) (ga_dataId a) r (0, grpc_data a tail 0))
       # map (\<lambda>(p, s). Datagram (re_packet (ga_dataLen a) (ga_tick a) (ga_version a) (ga_dataId a) r p)) (map P order) @ net)
      tick sts prescale = (Ret (int (length ?D)) st, net)"
    and "grpc_complete receiver ?D (ga_tick a) (ga_dataId a)
      (map_option (completed_stats (ga_tick a) tick prescale (length ?D) ?k 0) sts)
      (((0, grpc_data a tail 0), 1) # map P order) (gp_asm st)"
    using grpc_receives [OF first ys k _ mem(1) _ _ tp] by blast
  then show ?thesis
    by (intro exI [of _ st]) (simp add: P_def grpc_packet_def comp_def lenD split_beta)
qed

section \<open>Properties\<close>

text \<open>
  C5: \<open>sendPacketizedBuf\<close> cuts a buffer into the announced number of packets, whose data add
  up to it; when they reach \<open>getReassembledBuffer\<close> without their load balancer header, the
  first one first and the others in any order, it returns the length of the buffer with every
  byte in place except behind the first three words, where it leaves the numbers of the
  packets in the order in which they arrived. The numbers must fit in the first packet and the
  last packet must hold the three words.
\<close>

theorem grpc_roundtrip:
  assumes ok: "grpc_sendable a junk" and acc: "accepts (HEADER_BYTES + payload_size a) sock"
    and fit: "12 + 4 * packet_count a \<le> min (payload_size a) (unat (ga_dataLen a))"
      "payload_size a \<le> GRPC_PKT_STORAGE - RE_HEADER_BYTES"
    and rest: "unat (ga_dataLen a) mod payload_size a = 0 \<or> 12 \<le> unat (ga_dataLen a) mod payload_size a"
    and order: "mset (0 # order) = mset [0..<packet_count a]"
    and heap: "fresh (unat (ga_dataLen a)) = Some f" "length f = unat (ga_dataLen a)" "vecSize \<le> length vec"
    and tp: "prescale \<noteq> 0"
  shows "\<exists>res st. sendPacketizedBuf sender sock a junk dc = Some res \<and> gr_ret res = 0
    \<and> length (gr_wire res) = packet_count a
    \<and> length (concat (map (drop HEADER_BYTES) (gr_wire res))) = unat (ga_dataLen a)
    \<and> getReassembledBuffer receiver fresh vec vecSize pkt
        (map (\<lambda>i. Datagram (drop LB_HEADER_BYTES (gr_wire res ! i))) (0 # order) @ net) tick sts prescale
      = (Ret (uint (ga_dataLen a)) st, net)
    \<and> (\<forall>j < unat (ga_dataLen a). \<not> in_marks (packet_count a) j \<longrightarrow>
         dataBuf (gp_asm st) ! j = concat (map (drop HEADER_BYTES) (gr_wire res)) ! j)
    \<and> map (\<lambda>j. load32 receiver (dataBuf (gp_asm st)) (12 + 4 * j)) [0..<packet_count a]
        = map (\<lambda>i. of_nat (Suc i)) (0 # order)
    \<and> outTick (gp_asm st) = ga_tick a \<and> outDataId (gp_asm st) = ga_dataId a"
proof -
  let ?k = "packet_count a"
  define tail where "tail = drop (HEADER_BYTES + 12) junk"
  define r :: i32 where "r = ucast (junk ! 17)"
  obtain res where res: "sendPacketizedBuf sender sock a junk dc = Some res" "gr_ret res = 0"
    "gr_wire res = map (\<lambda>i. grpc_lb sender a junk @ grpc_packet a r tail i) [0..<?k]"
    using sendPacketizedBuf_sends [OF ok acc, of sender dc] by (auto simp: tail_def r_def)
  have lb: "length (grpc_lb sender a junk) = LB_HEADER_BYTES"
    using grpc_init_frame [OF ok, of sender 0] by (simp add: grpc_frame_def grpc_lb_def)
  have data: "concat (map (drop HEADER_BYTES) (gr_wire res)) = grpc_whole a tail"
    using lb by (simp add: res(3) grpc_whole_def grpc_packet_def re_packet_def size_defs comp_def)
  have idx: "set (0 # order) = {0..<?k}" using mset_eq_setD [OF order] by simp
  have wire: "map (\<lambda>i. Datagram (drop LB_HEADER_BYTES (gr_wire res ! i))) (0 # order)
      = map (\<lambda>i. Datagram (grpc_packet a r tail i)) (0 # order)"
    using idx lb by (intro map_cong) (auto simp: res(3))
  have len: "length (0 # order) = ?k" using order by (metis size_mset length_upt diff_zero)
  obtain st where st: "getReassembledBuffer receiver fresh vec vecSize pkt
        (map (\<lambda>i. Datagram (grpc_packet a r tail i)) (0 # order) @ net) tick sts prescale
      = (Ret (uint (ga_dataLen a)) st, net)"
    "grpc_complete receiver (grpc_whole a tail) (ga_tick a) (ga_dataId a)
        (map_option (completed_stats (ga_tick a) tick prescale (unat (ga_dataLen a)) ?k 0) sts)
        (map (\<lambda>i. ((i * payload_size a, grpc_data a tail i), of_nat (Suc i) :: u32)) (0 # order)) (gp_asm st)"
    using grpc_receives_order [where fresh = fresh, OF ok tail_def fit rest order heap tp] by blast
  note c = st(2) [unfolded grpc_complete_def length_map len grpc_tiles(2) [OF ok tail_def]]
  show ?thesis
  proof (intro exI conjI)
    show "sendPacketizedBuf sender sock a junk dc = Some res" "gr_ret res = 0" by (fact res)+
    show "length (gr_wire res) = ?k" by (simp add: res(3))
    show "length (concat (map (drop HEADER_BYTES) (gr_wire res))) = unat (ga_dataLen a)"
      by (simp only: data grpc_tiles(2) [OF ok tail_def])
    show "getReassembledBuffer receiver fresh vec vecSize pkt
        (map (\<lambda>i. Datagram (drop LB_HEADER_BYTES (gr_wire res ! i))) (0 # order) @ net) tick sts prescale
      = (Ret (uint (ga_dataLen a)) st, net)" by (simp only: wire st(1))
    show "\<forall>j < unat (ga_dataLen a). \<not> in_marks ?k j \<longrightarrow>
         dataBuf (gp_asm st) ! j = concat (map (drop HEADER_BYTES) (gr_wire res)) ! j"
      unfolding data using c by blast
    show "map (\<lambda>j. load32 receiver (dataBuf (gp_asm st)) (12 + 4 * j)) [0..<?k] = map (\<lambda>i. of_nat (Suc i)) (0 # order)"
      using c [THEN conjunct2, THEN conjunct1] by (simp only: map_map comp_def snd_conv)
    show "outTick (gp_asm st) = ga_tick a" "outDataId (gp_asm st) = ga_dataId a" using c by simp_all
  qed
qed

text \<open>Forty bytes in packets of twenty-four, the second packet with sixteen.\<close>

definition grpc_example :: grpc_send_args where
  "grpc_example = \<lparr>ga_dataLen = 40, ga_maxUdpPayload = 24, ga_backendTime = 5, ga_tick = 9, ga_protocol = 1,
     ga_entropy = 0, ga_version = 2, ga_dataId = 3, ga_delay = 0, ga_delayPrescale = 1\<rparr>"

lemma grpc_example_simps [simp]:
  "payload_size grpc_example = 24" "unat (ga_dataLen grpc_example) = 40" "packet_count grpc_example = 2"
  "uint (ga_dataLen grpc_example) = 40"
  by (simp_all add: grpc_example_def packet_count_def)

theorem grpc_roundtrip_witness:
  "\<exists>res st. sendPacketizedBuf ENDIAN_LITTLE (mtu_socket 60) grpc_example (replicate 10000 7) 0 = Some res
    \<and> fst (getReassembledBuffer ENDIAN_LITTLE (\<lambda>n. Some (replicate n 0)) [] 0 (replicate 9100 0)
        (map (\<lambda>i. Datagram (drop LB_HEADER_BYTES (gr_wire res ! i))) [0, 1] @ []) 9 None 1) = Ret 40 st
    \<and> map (\<lambda>j. load32 ENDIAN_LITTLE (dataBuf (gp_asm st)) (12 + 4 * j)) [0..<2] = [1, 2]"
proof -
  have pre: "grpc_sendable grpc_example (replicate 10000 7)" "accepts (HEADER_BYTES + payload_size grpc_example) (mtu_socket 60)"
    "12 + 4 * packet_count grpc_example \<le> min (payload_size grpc_example) (unat (ga_dataLen grpc_example))"
    "payload_size grpc_example \<le> GRPC_PKT_STORAGE - RE_HEADER_BYTES"
    "unat (ga_dataLen grpc_example) mod payload_size grpc_example = 0 \<or> 12 \<le> unat (ga_dataLen grpc_example) mod payload_size grpc_example"
    "mset (0 # [1]) = mset [0..<packet_count grpc_example]"
    by (simp_all add: grpc_sendable_def GRPC_STORAGE_def GRPC_PKT_STORAGE_def size_defs upt_rec)
  obtain res st where "sendPacketizedBuf ENDIAN_LITTLE (mtu_socket 60) grpc_example (replicate 10000 7) 0 = Some res"
    "getReassembledBuffer ENDIAN_LITTLE (\<lambda>n. Some (replicate n 0)) [] 0 (replicate 9100 0)
        (map (\<lambda>i. Datagram (drop LB_HEADER_BYTES (gr_wire res ! i))) (0 # [1]) @ []) 9 None 1 = (Ret 40 st, [])"
    "map (\<lambda>j. load32 ENDIAN_LITTLE (dataBuf (gp_asm st)) (12 + 4 * j)) [0..<2] = map (\<lambda>i. of_nat (Suc i)) (0 # [1])"
    using grpc_roundtrip [where fresh = "\<lambda>n. Some (replicate n 0)" and f = "replicate 40 0" and vecSize = 0 and vec = "[]"
        and prescale = 1 and sender = ENDIAN_LITTLE and receiver = ENDIAN_LITTLE and dc = 0 and pkt = "replicate 9100 0"
        and net = "[]" and tick = 9 and sts = None, OF pre]
    by auto
  then show ?thesis by (intro exI [of _ res] exI [of _ st]) simp
qed

text \<open>
  Memory for a buffer is reserved only before the first packet. When the first packet of
  another tick comes while a buffer is unfinished, its data are copied without a look at their
  length: if they are longer than the memory of the vector, they are written past its end.
\<close>

theorem grpc_longer_tick_overflows:
  assumes "\<not> veryFirstRead (gp_asm st)" and "srcId (gp_asm st) = i" and "prevTick (gp_asm st) \<noteq> t"
    and "RE_HEADER_BYTES + length c \<le> GRPC_PKT_STORAGE" and "length (dataBuf (gp_asm st)) < length c"
  shows "grpc_step host fresh vecSize expected prescale st (Datagram (re_packet len t v i r (0, c))) = Trap"
proof -
  let ?p = "re_packet len t v i r (0, c)"
  have "overwrite (gp_pkt st) 0 ?p = re_layout 0 len t v i r @ c @ drop (length ?p) (gp_pkt st)"
    by (simp add: overwrite_def re_packet_def)
  then have "parseReHeader host (overwrite (gp_pkt st) 0 ?p) = (v AND 0xf, i, 0, len, t)" by (simp add: byte_simps)
  then show ?thesis
    using assms
    by (simp add: grpc_step_def Let_def grpc_reserve_def startTick_def grpc_store_def split: prod.splits)
qed

text \<open>The first packet of the example has arrived; then a tick with 48 bytes begins.\<close>

theorem grpc_longer_tick_overflows_witness:
  "\<exists>st. getReassembledBuffer ENDIAN_LITTLE (\<lambda>n. Some (replicate n 0)) (replicate 40 0) 0 (replicate 9100 0)
      [Datagram (grpc_packet grpc_example 0 (replicate 100 1) 0)] 9 None 1 = (Again st, [])
    \<and> grpc_step ENDIAN_LITTLE (\<lambda>n. Some (replicate n 0)) 0 9 1 st
        (Datagram (re_packet 48 10 2 3 0 (0, replicate 48 1))) = Trap"
proof -
  let ?c = "grpc_data grpc_example (replicate 100 1) 0"
  have c: "?c = be4 5 @ be4 2 @ be4 1 @ replicate 12 1"
    by (simp add: grpc_data_def) (simp add: grpc_example_def)
  have arr: "grpc_arrival 5 2 ((0, ?c), 1)" by (simp add: grpc_arrival_def c size_defs GRPC_PKT_STORAGE_def)
  have mem: "grpc_memory (\<lambda>n. Some (replicate n 0)) 0 (replicate 40 0) (unat (40 :: u32)) = Some (replicate 40 0)"
    by (simp add: grpc_memory_def)
  have pkt: "grpc_packet grpc_example 0 (replicate 100 1) 0 = re_packet 40 9 2 3 0 (0, ?c)"
    by (simp add: grpc_packet_def) (simp add: grpc_example_def)
  have "\<exists>st. getReassembledBuffer ENDIAN_LITTLE (\<lambda>n. Some (replicate n 0)) (replicate 40 0) 0 (replicate 9100 0)
      [Datagram (grpc_packet grpc_example 0 (replicate 100 1) 0)] 9 None 1 = (Again st, [])
    \<and> \<not> veryFirstRead (gp_asm st) \<and> srcId (gp_asm st) = 3 \<and> prevTick (gp_asm st) = 9 \<and> length (dataBuf (gp_asm st)) = 40"
    unfolding pkt getReassembledBuffer_def recv_loop.simps grpc_step_first [OF arr mem]
    by (simp add: c) (simp add: grpc_store_def asm_init_def storeData_def grpc_count_def store32_def Let_def word_le_nat_alt)
  then obtain st where st: "getReassembledBuffer ENDIAN_LITTLE (\<lambda>n. Some (replicate n 0)) (replicate 40 0) 0 (replicate 9100 0)
      [Datagram (grpc_packet grpc_example 0 (replicate 100 1) 0)] 9 None 1 = (Again st, [])"
    "\<not> veryFirstRead (gp_asm st)" "srcId (gp_asm st) = 3" "prevTick (gp_asm st) = 9" "length (dataBuf (gp_asm st)) = 40"
    by blast
  with grpc_longer_tick_overflows [of st 3 10 "replicate 48 1" ENDIAN_LITTLE "\<lambda>n. Some (replicate n 0)" 0 9 1 48 2 0]
  show ?thesis by (auto simp: size_defs GRPC_PKT_STORAGE_def)
qed

text \<open>Also the number of a packet may not fit: a buffer of twelve bytes has no room for it.\<close>

lemma grpc_number_outside:
  assumes "length (dataBuf (gp_asm st)) = 12 + 4 * unat (pktCount (gp_asm st))" and "unat (pktCount (gp_asm st)) < 2 ^ 30"
  shows "grpc_store host off payload s t st = None"
proof -
  have "unat (4 * pktCount (gp_asm st)) = 4 * unat (pktCount (gp_asm st))"
    using assms(2) by (simp add: unat_word_ariths)
  then show ?thesis using assms(1) by (simp add: grpc_store_def Let_def)
qed

definition q_ok :: "'a bqueue \<times> 'a list \<times> 'a list \<Rightarrow> bool" where
  "q_ok = (\<lambda>(q, ins, outs). ins = outs @ q_content q \<and> length (q_content q) \<le> q_capacity q)"

lemma q_do_ok: "q_do c s = Some s' \<Longrightarrow> q_ok s \<Longrightarrow> q_ok s' \<and> q_capacity (fst s') = q_capacity (fst s)"
  by (cases s; cases c) (auto simp: q_ok_def q_push_def q_try_push_def q_pop_def q_try_pop_def Let_def
      split: if_splits list.splits)

lemma q_calls_ok: "q_calls cs s = Some s' \<Longrightarrow> q_ok s \<Longrightarrow> q_ok s' \<and> q_capacity (fst s') = q_capacity (fst s)"
  by (induction cs arbitrary: s) (auto simp: bind_eq_Some_conv dest: q_do_ok)

text \<open>
  C28: through any sequence of calls by any threads the queue hands out exactly the items put
  in, in their order; what is still in it are the latest items, never more than its capacity.
  \<open>push\<close> waits exactly when it is full and \<open>pop\<close> exactly when it is empty.
\<close>

theorem queue_fifo:
  assumes "q_calls cs (q_new capacity, [], []) = Some (q, ins, outs)"
  shows "ins = outs @ q_content q \<and> length (q_content q) \<le> capacity
    \<and> (q_push x q = None \<longleftrightarrow> q_size q = capacity) \<and> (q_pop q = None \<longleftrightarrow> ins = outs)"
  using q_calls_ok [OF assms]
  by (auto simp: q_ok_def q_new_def q_push_def q_pop_def q_size_def split: list.splits)

theorem queue_fifo_witness:
  "\<exists>q. q_calls [Push 1, Push 2, TryPush 3, Pop] (q_new 2, [], []) = Some (q, [1, 2], [1 :: nat])
     \<and> [1, 2] = [1] @ q_content q \<and> length (q_content q) \<le> 2"
proof -
  have "\<exists>q. q_calls [Push 1, Push 2, TryPush 3, Pop] (q_new 2, [], []) = Some (q, [1, 2], [1 :: nat])"
    by (simp add: q_new_def q_push_def q_try_push_def q_pop_def)
  then obtain q where q: "q_calls [Push 1, Push 2, TryPush 3, Pop] (q_new 2, [], []) = Some (q, [1, 2], [1 :: nat])" by blast
  with queue_fifo [OF q] show ?thesis by blast
qed

end
