(* ===== verification/Et_Receiver.thy ===== *)
theory Et_Receiver
  imports Assemble "HOL-Library.Multiset"
begin

text \<open>
  \<open>getBuffers\<close> of \<open>ejfat_assemble_ersap_et.hpp\<close>: packets of many sources and ticks are copied
  into events of an ET system used as a fifo, one entry of events for each tick. The ET library
  is an argument, since only its declarations are in the repository; the locale
  \<open>et_fifo\<close> says what the receiver relies on. Entries, events and data areas are addresses.
\<close>

section \<open>The library the receiver calls\<close>

definition ET_OK :: int where "ET_OK = 0"

text \<open>The number of control words of an event.\<close>

definition ET_STATION_SELECT_INTS :: nat where "ET_STATION_SELECT_INTS = 6"

text \<open>
  The functions of \<open>et_fifo.h\<close> and \<open>et.h\<close> that \<open>getBuffers\<close> calls, on a state \<open>'w\<close> of the ET
  system. \<open>getBufIds\<close> is \<open>None\<close> for an error, \<open>entryCreate\<close> returns \<open>None\<close> for a null pointer.
\<close>

record 'w et_api =
  et_fifo_getBufSize :: nat
  et_fifo_getIdCount :: int
  et_fifo_getBufIds :: "int list option"
  et_fifo_entryCreate :: "'w \<Rightarrow> nat option \<times> 'w"
  et_fifo_newEntry :: "nat \<Rightarrow> 'w \<Rightarrow> int \<times> 'w"
  et_fifo_getBufs :: "'w \<Rightarrow> nat \<Rightarrow> nat \<Rightarrow> nat"
  et_fifo_setHasData :: "nat \<Rightarrow> int \<Rightarrow> 'w \<Rightarrow> 'w"
  et_fifo_allHaveData :: "'w \<Rightarrow> nat \<Rightarrow> bool"
  et_fifo_putEntry :: "nat \<Rightarrow> 'w \<Rightarrow> 'w"
  et_event_getdata :: "'w \<Rightarrow> nat \<Rightarrow> nat"
  et_event_getcontrol :: "'w \<Rightarrow> nat \<Rightarrow> int list"
  et_event_setcontrol :: "nat \<Rightarrow> int list \<Rightarrow> 'w \<Rightarrow> 'w"
  et_event_getlength :: "'w \<Rightarrow> nat \<Rightarrow> nat"
  et_event_setlength :: "nat \<Rightarrow> nat \<Rightarrow> 'w \<Rightarrow> 'w"

text \<open>The orders in which the hash tables of the standard library are traversed.\<close>

record hash_orders =
  ho_free :: "nat list \<Rightarrow> nat list"
  ho_buffers :: "(u64 \<times> nat) list \<Rightarrow> (u64 \<times> nat) list"

section \<open>State and errors\<close>

datatype et_error = NoSources | NoMemory | RecvFailed | WrongIds | EtError int | EventTooSmall u32

text \<open>How a part of a turn ends; \<open>Crash\<close> is undefined behaviour.\<close>

datatype 's et_turn = Reads 's | Throws et_error 's | Crash

fun et_then :: "'s et_turn \<Rightarrow> ('s \<Rightarrow> 't et_turn) \<Rightarrow> ('s \<Rightarrow> 't) \<Rightarrow> 't et_turn" where
  "et_then (Reads s) f g = f s"
| "et_then (Throws e s) f g = Throws e (g s)"
| "et_then Crash f g = Crash"

lemma et_then_Reads: "et_then x f g = Reads t \<longleftrightarrow> (\<exists>s. x = Reads s \<and> f s = Reads t)"
  by (cases x) auto

text \<open>
  The variables that live from packet to packet. \<open>g_mem\<close> are the data areas of the events;
  \<open>g_puts\<close> records the entries put into the ET system with what their events then hold. The
  arrays of the current tick are empty as long as they are not initialised.
\<close>

record 'w et_state =
  g_et :: 'w
  g_mem :: "nat \<Rightarrow> bytes"
  g_pkt :: bytes
  g_prevTick :: u64
  g_biggestTick :: u64
  g_invalidPkts :: nat
  g_buffers :: "(u64 \<times> nat) list"
  g_free :: "nat list"
  g_entry :: nat
  g_event :: nat
  g_events :: "nat list"
  g_bufs :: "nat list"
  g_controls :: "int list list"
  g_packetCnts :: "int list"
  g_bytesWritten :: "nat list"
  g_stats :: "(int \<rightharpoonup> packetRecvStats) option"
  g_puts :: "(nat \<times> (bytes \<times> bool) list) list"

definition UINT64_MAX :: u64 where "UINT64_MAX = - 1"

definition et_pktBufSize :: nat where "et_pktBufSize = 9100"

text \<open>\<open>bufIdReverseMap\<close>: a later index replaces an earlier one of the same id.\<close>

definition bufIdReverseMap :: "int list \<Rightarrow> int \<rightharpoonup> nat" where
  "bufIdReverseMap bufIds = map_of (rev (zip bufIds [0..<length bufIds]))"

section \<open>The parts of a turn\<close>

text \<open>What the events of an entry hold: their bytes and whether they are marked as having data.\<close>

definition et_contents :: "'w et_api \<Rightarrow> nat \<Rightarrow> ('w, 'x) et_state_scheme \<Rightarrow> nat \<Rightarrow> (bytes \<times> bool) list" where
  "et_contents api n st e = map (\<lambda>i. let ev = et_fifo_getBufs api (g_et st) e i in
     (take (et_event_getlength api (g_et st) ev) (g_mem st (et_event_getdata api (g_et st) ev)),
      et_event_getcontrol api (g_et st) ev ! 1 \<noteq> 0)) [0..<n]"

text \<open>\<open>et_fifo_putEntry\<close> followed by the insertion into the set of free entries.\<close>

definition et_put :: "'w et_api \<Rightarrow> nat \<Rightarrow> nat \<Rightarrow> 'w et_state \<Rightarrow> 'w et_state" where
  "et_put api n e st = st\<lparr>g_et := et_fifo_putEntry api e (g_et st), g_free := List.insert e (g_free st),
     g_puts := g_puts st @ [(e, et_contents api n st e)]\<rparr>"

text \<open>The arrays that hold what belongs to the current entry.\<close>

definition et_cache :: "'w et_api \<Rightarrow> nat \<Rightarrow> nat \<Rightarrow> 'w et_state \<Rightarrow> 'w et_state" where
  "et_cache api n e st =
    (let events = map (et_fifo_getBufs api (g_et st) e) [0..<n] in
     st\<lparr>g_entry := e, g_packetCnts := replicate n 0, g_bytesWritten := replicate n 0, g_events := events,
        g_bufs := map (et_event_getdata api (g_et st)) events,
        g_controls := map (et_event_getcontrol api (g_et st)) events\<rparr>)"

text \<open>An entry for a tick that has none: a free one, or else one created for it.\<close>

definition et_takeEntry :: "'w et_api \<Rightarrow> hash_orders \<Rightarrow> 'w et_state \<Rightarrow> nat option \<times> 'w et_state" where
  "et_takeEntry api ho st =
    (case ho_free ho (g_free st) of
       e # _ \<Rightarrow> (Some e, st\<lparr>g_free := removeAll e (g_free st)\<rparr>)
     | [] \<Rightarrow> map_prod id (\<lambda>w. st\<lparr>g_et := w\<rparr>) (et_fifo_entryCreate api (g_et st)))"

definition et_newTick :: "'w et_api \<Rightarrow> hash_orders \<Rightarrow> nat \<Rightarrow> u64 \<Rightarrow> 'w et_state \<Rightarrow> 'w et_state et_turn" where
  "et_newTick api ho n tick st =
    (case et_takeEntry api ho st of
       (None, st) \<Rightarrow> Throws NoMemory st
     | (Some e, st) \<Rightarrow>
        (case et_fifo_newEntry api e (g_et st) of (err, w) \<Rightarrow>
          let st = st\<lparr>g_et := w\<rparr> in
          if err \<noteq> ET_OK then Throws (EtError err) st
          else let st = et_cache api n e (st\<lparr>g_buffers := (tick, e) # g_buffers st\<rparr>)
               in Reads (st\<lparr>g_biggestTick := max tick (g_biggestTick st)\<rparr>)))"

text \<open>The entry of the packet's tick.\<close>

definition et_select :: "'w et_api \<Rightarrow> hash_orders \<Rightarrow> nat \<Rightarrow> u64 \<Rightarrow> 'w et_state \<Rightarrow> 'w et_state et_turn" where
  "et_select api ho n tick st =
    (if tick = g_prevTick st then Reads st
     else case map_of (g_buffers st) tick of
            Some e \<Rightarrow> Reads (et_cache api n e st)
          | None \<Rightarrow> et_newTick api ho n tick st)"

text \<open>
  Copying the data of the packet, with the length and the number of packets recorded in the
  event; the flag tells whether the buffer is complete.
\<close>

definition et_store :: "'w et_api \<Rightarrow> nat \<Rightarrow> u32 \<Rightarrow> nat \<Rightarrow> int \<Rightarrow> 'w et_state \<Rightarrow> ('w et_state \<times> bool) et_turn" where
  "et_store api index bufLen off nBytes st =
    (if index \<ge> length (g_events st) then Crash
     else
      let event = g_events st ! index; buffer = g_bufs st ! index;
          total = g_bytesWritten st ! index + nat nBytes;
          count = g_packetCnts st ! index + 1;
          con = (g_controls st ! index)[5 := count];
          data = take (nat nBytes) (drop RE_HEADER_BYTES (g_pkt st))
      in
       if unat bufLen > et_fifo_getBufSize api then Throws (EventTooSmall bufLen) (st\<lparr>g_event := event\<rparr>, False)
       else if nBytes < 0 \<or> off + nat nBytes > length (g_mem st buffer) then Crash
       else
        Reads (st\<lparr>g_event := event,
           g_mem := (g_mem st)(buffer := overwrite (g_mem st buffer) off data),
           g_et := et_event_setcontrol api event con (et_event_setlength api event total (g_et st)),
           g_packetCnts := (g_packetCnts st)[index := count],
           g_bytesWritten := (g_bytesWritten st)[index := total]\<rparr>,
          total \<ge> unat bufLen))"

text \<open>
  Statistics of the sources \<open>ids\<close>, each from an event of its own; \<open>None\<close> stands for the null
  pointer of a source that is not in the map.
\<close>

fun et_account ::
  "(nat \<Rightarrow> int \<Rightarrow> packetRecvStats \<Rightarrow> packetRecvStats) \<Rightarrow> (int \<times> nat \<times> int) list \<Rightarrow> (int \<rightharpoonup> packetRecvStats)
    \<Rightarrow> (int \<rightharpoonup> packetRecvStats) option" where
  "et_account f [] m = Some m"
| "et_account f ((i, len, packets) # xs) m =
    (case m i of None \<Rightarrow> None | Some s \<Rightarrow> et_account f xs (m(i \<mapsto> f len packets s)))"

definition stats_built :: "nat \<Rightarrow> int \<Rightarrow> packetRecvStats \<Rightarrow> packetRecvStats" where
  "stats_built len packets s = s\<lparr>acceptedBytes := acceptedBytes s + int len,
     builtBuffers := builtBuffers s + 1, acceptedPackets := acceptedPackets s + packets\<rparr>"

definition stats_discarded :: "nat \<Rightarrow> int \<Rightarrow> packetRecvStats \<Rightarrow> packetRecvStats" where
  "stats_discarded len packets s = s\<lparr>discardedBytes := discardedBytes s + int len,
     discardedBuffers := discardedBuffers s + 1, discardedPackets := discardedPackets s + packets\<rparr>"

definition et_keepStats ::
  "'w et_api \<Rightarrow> (nat \<Rightarrow> int \<Rightarrow> packetRecvStats \<Rightarrow> packetRecvStats) \<Rightarrow> (int \<times> nat) list \<Rightarrow> 'w et_state \<Rightarrow> 'w et_state et_turn" where
  "et_keepStats api f evs st =
    (case g_stats st of
       None \<Rightarrow> Reads st
     | Some m \<Rightarrow>
        (case et_account f (map (\<lambda>(i, ev). (i, et_event_getlength api (g_et st) ev, et_event_getcontrol api (g_et st) ev ! 5)) evs) m of
           None \<Rightarrow> Crash
         | Some m \<Rightarrow> Reads (st\<lparr>g_stats := Some m\<rparr>)))"

text \<open>A complete buffer; the entry goes to the ET system when all its buffers are complete.\<close>

definition et_complete :: "'w et_api \<Rightarrow> int list \<Rightarrow> u64 \<Rightarrow> 'w et_state \<Rightarrow> 'w et_state et_turn" where
  "et_complete api bufIds tick st =
    (let n = length bufIds; st = st\<lparr>g_et := et_fifo_setHasData api (g_event st) 1 (g_et st)\<rparr> in
     if et_fifo_allHaveData api (g_et st) (g_entry st)
     then et_then
            (et_keepStats api stats_built
              (zip bufIds (map (et_fifo_getBufs api (g_et st) (g_entry st)) [0..<n])) st)
            (\<lambda>st. Reads (et_put api n (g_entry st) (st\<lparr>g_buffers := filter (\<lambda>(t, e). t \<noteq> tick) (g_buffers st)\<rparr>)))
            (\<lambda>st. st)
     else Reads st)"

text \<open>
  The loop that clears out ticks more than four prescales old. For the statistics it reads
  \<open>event\<close>, that of the packet just read, once for each source. The test \<open>ev != nullptr\<close> before it is
  of the events of the current entry, which \<open>et_fifo_newEntry\<close> has provided; it is left out.
\<close>

definition et_old :: "i32 \<Rightarrow> 'w et_state \<Rightarrow> u64 \<Rightarrow> bool" where
  "et_old tickPrescale st tik \<longleftrightarrow> tik + scast (4 * tickPrescale) < g_biggestTick st"

fun et_clean :: "'w et_api \<Rightarrow> int list \<Rightarrow> i32 \<Rightarrow> (u64 \<times> nat) list \<Rightarrow> 'w et_state \<Rightarrow> 'w et_state et_turn" where
  "et_clean api bufIds tickPrescale [] st = Reads st"
| "et_clean api bufIds tickPrescale ((tik, entrie) # iter) st =
    (if et_old tickPrescale st tik
     then et_then
            (et_keepStats api stats_discarded (map (\<lambda>i. (i, g_event st)) bufIds) st)
            (\<lambda>st. et_clean api bufIds tickPrescale iter
               (et_put api (length bufIds) entrie (st\<lparr>g_buffers := filter (\<lambda>(t, e). t \<noteq> tik) (g_buffers st)\<rparr>)))
            (\<lambda>st. st)
     else et_clean api bufIds tickPrescale iter st)"

section \<open>The receiver\<close>

text \<open>A packet of an expected source, whose data go to the event with the given index.\<close>

definition et_packet ::
  "'w et_api \<Rightarrow> hash_orders \<Rightarrow> int list \<Rightarrow> i32 \<Rightarrow> nat \<Rightarrow> u32 \<Rightarrow> nat \<Rightarrow> int \<Rightarrow> u64 \<Rightarrow> 'w et_state \<Rightarrow> 'w et_state et_turn" where
  "et_packet api ho bufIds tickPrescale index bufLen off nBytes tick st =
    et_then (et_select api ho (length bufIds) tick st)
      (\<lambda>st. et_then (et_store api index bufLen off nBytes (st\<lparr>g_prevTick := tick\<rparr>))
        (\<lambda>(st, packetLast).
          et_then (if packetLast then et_complete api bufIds tick st else Reads st)
            (\<lambda>st. et_clean api bufIds tickPrescale (ho_buffers ho (g_buffers st)) st)
            (\<lambda>st. st))
        fst)
      (\<lambda>st. st)"

definition et_step ::
  "byte_order \<Rightarrow> 'w et_api \<Rightarrow> hash_orders \<Rightarrow> int list \<Rightarrow> i32 \<Rightarrow> 'w et_state \<Rightarrow> recv \<Rightarrow> 'w et_state et_turn" where
  "et_step host api ho bufIds tickPrescale st r =
    (case r of
       RecvFail \<Rightarrow> Throws RecvFailed st
     | Datagram p \<Rightarrow>
        let d = take et_pktBufSize p;
            st = st\<lparr>g_pkt := overwrite (g_pkt st) 0 d\<rparr>;
            nBytes = int (length d) - int RE_HEADER_BYTES;
            (version, dataId, bufOffset, bufLen, tick) = parseReHeader host (g_pkt st)
        in
         (case bufIdReverseMap bufIds (uint dataId) of
            None \<Rightarrow>
              let st = st\<lparr>g_invalidPkts := g_invalidPkts st + 1\<rparr> in
              if g_invalidPkts st > 100 then Throws WrongIds st else Reads st
          | Some index \<Rightarrow> et_packet api ho bufIds tickPrescale index bufLen (unat bufOffset) nBytes tick st))"

text \<open>The loop on the datagrams of a list; \<open>Reads\<close> is the state in which the next one is awaited.\<close>

fun et_loop ::
  "byte_order \<Rightarrow> 'w et_api \<Rightarrow> hash_orders \<Rightarrow> int list \<Rightarrow> i32 \<Rightarrow> recv list \<Rightarrow> 'w et_state \<Rightarrow> 'w et_state et_turn" where
  "et_loop host api ho bufIds tickPrescale [] st = Reads st"
| "et_loop host api ho bufIds tickPrescale (r # net) st =
    et_then (et_step host api ho bufIds tickPrescale st r) (et_loop host api ho bufIds tickPrescale net) (\<lambda>st. st)"

text \<open>The entries for use and reuse.\<close>

fun et_create :: "'w et_api \<Rightarrow> nat \<Rightarrow> 'w et_state \<Rightarrow> 'w et_state et_turn" where
  "et_create api 0 st = Reads st"
| "et_create api (Suc k) st =
    (case et_fifo_entryCreate api (g_et st) of
       (None, w) \<Rightarrow> Throws NoMemory (st\<lparr>g_et := w\<rparr>)
     | (Some e, w) \<Rightarrow> et_create api k (st\<lparr>g_et := w, g_free := List.insert e (g_free st)\<rparr>))"

definition et_init ::
  "'w \<Rightarrow> (nat \<Rightarrow> bytes) \<Rightarrow> bytes \<Rightarrow> (int \<rightharpoonup> packetRecvStats) option \<Rightarrow> 'w et_state" where
  "et_init w mem pkt sts = \<lparr>g_et = w, g_mem = mem, g_pkt = pkt, g_prevTick = UINT64_MAX, g_biggestTick = 0,
     g_invalidPkts = 0, g_buffers = [], g_free = [], g_entry = 0, g_event = 0, g_events = [], g_bufs = [],
     g_controls = [], g_packetCnts = [], g_bytesWritten = [], g_stats = sts, g_puts = []\<rparr>"

definition getBuffers ::
  "byte_order \<Rightarrow> 'w et_api \<Rightarrow> hash_orders \<Rightarrow> 'w \<Rightarrow> (nat \<Rightarrow> bytes) \<Rightarrow> bytes \<Rightarrow> i32
    \<Rightarrow> (int \<rightharpoonup> packetRecvStats) option \<Rightarrow> recv list \<Rightarrow> 'w et_state et_turn" where
  "getBuffers host api ho w mem pkt tickPrescale sts net =
    (let st = et_init w mem pkt sts in
     if et_fifo_getIdCount api < 1 then Throws NoSources st
     else case et_fifo_getBufIds api of
            None \<Rightarrow> Throws NoSources st
          | Some bufIds \<Rightarrow>
              et_then (et_create api 10 st) (et_loop host api ho bufIds tickPrescale net) (\<lambda>st. st))"

section \<open>What the receiver relies on\<close>

text \<open>The part of the structure \<open>et_event\<close> that the receiver sees through the library.\<close>

record et_event =
  pdata :: nat
  ev_length :: nat
  control :: "int list"

text \<open>
  \<open>event w v\<close> is the event at address \<open>v\<close> and \<open>made w\<close> the entries created so far. The setters
  change what they are named after and nothing else. The second control word of an event says
  whether it has data, and in a new entry no event has any; its events and their data areas
  are different. Hash tables are traversed in some order.
\<close>

locale et_fifo =
  fixes api :: "'w et_api" and ho :: hash_orders and event :: "'w \<Rightarrow> nat \<Rightarrow> et_event" and made :: "'w \<Rightarrow> nat set"
    and bufIds :: "int list"
  assumes bufIds: "et_fifo_getBufIds api = Some bufIds" "et_fifo_getIdCount api = int (length bufIds)"
    and getters: "et_event_getdata api w v = pdata (event w v)" "et_event_getlength api w v = ev_length (event w v)"
      "et_event_getcontrol api w v = control (event w v)"
    and setlength: "event (et_event_setlength api v n w) = (event w)(v := (event w v)\<lparr>ev_length := n\<rparr>)"
      "et_fifo_getBufs api (et_event_setlength api v n w) = et_fifo_getBufs api w"
      "made (et_event_setlength api v n w) = made w"
    and setcontrol: "length con = ET_STATION_SELECT_INTS \<Longrightarrow>
        event (et_event_setcontrol api v con w) = (event w)(v := (event w v)\<lparr>control := con\<rparr>)"
      "et_fifo_getBufs api (et_event_setcontrol api v con w) = et_fifo_getBufs api w"
      "made (et_event_setcontrol api v con w) = made w"
    and setHasData: "event (et_fifo_setHasData api v h w) = (event w)(v := (event w v)\<lparr>control := (control (event w v))[1 := h]\<rparr>)"
      "et_fifo_getBufs api (et_fifo_setHasData api v h w) = et_fifo_getBufs api w"
      "made (et_fifo_setHasData api v h w) = made w"
    and allHaveData: "et_fifo_allHaveData api w e \<longleftrightarrow>
        (\<forall>i < length bufIds. control (event w (et_fifo_getBufs api w e i)) ! 1 \<noteq> 0)"
    and newEntry: "et_fifo_newEntry api e w = (ET_OK, w') \<Longrightarrow> i < length bufIds \<Longrightarrow>
        length (control (event w' (et_fifo_getBufs api w' e i))) = ET_STATION_SELECT_INTS
        \<and> control (event w' (et_fifo_getBufs api w' e i)) ! 1 = 0"
      "et_fifo_newEntry api e w = (ET_OK, w') \<Longrightarrow> inj_on (et_fifo_getBufs api w' e) {..<length bufIds}"
      "et_fifo_newEntry api e w = (ET_OK, w') \<Longrightarrow>
        inj_on (\<lambda>i. pdata (event w' (et_fifo_getBufs api w' e i))) {..<length bufIds}"
      "et_fifo_newEntry api e w = (err, w') \<Longrightarrow> made w' = made w"
    and putEntry: "made (et_fifo_putEntry api e w) = made w"
    and entryCreate: "et_fifo_entryCreate api w = (Some e, w') \<Longrightarrow> e \<notin> made w \<and> made w' = insert e (made w)"
    and orders: "mset (ho_free ho es) = mset es" "mset (ho_buffers ho bs) = mset bs"
begin

definition entries_ok :: "nat set \<Rightarrow> 'w et_state \<Rightarrow> bool" where
  "entries_ok m0 st \<longleftrightarrow>
     distinct (g_free st @ map snd (g_buffers st)) \<and> distinct (map fst (g_buffers st))
     \<and> made (g_et st) = m0 \<union> set (g_free st) \<union> snd ` set (g_buffers st)
     \<and> m0 \<inter> (set (g_free st) \<union> snd ` set (g_buffers st)) = {}
     \<and> (g_events st \<noteq> [] \<longrightarrow> (g_prevTick st, g_entry st) \<in> set (g_buffers st)
          \<or> g_prevTick st \<notin> fst ` set (g_buffers st) \<and> g_entry st \<in> set (g_free st))"

lemma entries_ok_cong:
  assumes "entries_ok m0 st" and "g_free st' = g_free st" "g_buffers st' = g_buffers st" "made (g_et st') = made (g_et st)"
    "g_events st' = g_events st" "g_prevTick st' = g_prevTick st" "g_entry st' = g_entry st"
  shows "entries_ok m0 st'"
  using assms by (simp add: entries_ok_def)

lemma keepStats_frame: "et_keepStats api f evs st = Reads st' \<Longrightarrow> \<exists>m. st' = st\<lparr>g_stats := m\<rparr>"
  by (cases "g_stats st") (auto simp: et_keepStats_def split: option.splits intro: exI [of _ "g_stats st"])

lemma entries_ok_remove:
  assumes ok: "entries_ok m0 st" and e: "(tik, e) \<in> set (g_buffers st)"
  shows "entries_ok m0 (et_put api n e (st\<lparr>g_buffers := filter (\<lambda>(t, e). t \<noteq> tik) (g_buffers st)\<rparr>))"
proof -
  have d: "distinct (map fst (g_buffers st))" "distinct (map snd (g_buffers st))" "e \<notin> set (g_free st)"
    using ok imageI [OF e, of snd] by (auto simp: entries_ok_def)
  have uniq: "(tik, x) \<in> set (g_buffers st) \<Longrightarrow> x = e" "(t, e) \<in> set (g_buffers st) \<Longrightarrow> t = tik" for x t
    using inj_onD [of fst "set (g_buffers st)" "(tik, x)" "(tik, e)"] inj_onD [of snd "set (g_buffers st)" "(t, e)" "(tik, e)"] d e
    by (simp_all add: distinct_map)
  have rest: "set (filter (\<lambda>(t, e). t \<noteq> tik) (g_buffers st)) = set (g_buffers st) - {(tik, e)}"
    using e by (auto dest: uniq(1))
  have snds: "snd ` (set (g_buffers st) - {(tik, e)}) = snd ` set (g_buffers st) - {e}"
    using e by (force dest: uniq(2))
  have fsts: "fst ` (set (g_buffers st) - {(tik, e)}) = fst ` set (g_buffers st) - {tik}"
    using e by (force dest: uniq(1))
  have "distinct (map fst (filter (\<lambda>(t, e). t \<noteq> tik) (g_buffers st)))"
    "distinct (map snd (filter (\<lambda>(t, e). t \<noteq> tik) (g_buffers st)))"
    using d by (simp_all add: distinct_map_filter)
  note dist = this
  show ?thesis
    unfolding entries_ok_def
  proof (intro conjI impI)
    let ?st = "et_put api n e (st\<lparr>g_buffers := filter (\<lambda>(t, e). t \<noteq> tik) (g_buffers st)\<rparr>)"
    have bufs: "set (g_buffers ?st) = set (g_buffers st) - {(tik, e)}" and free: "set (g_free ?st) = insert e (set (g_free st))"
      by (simp_all add: et_put_def rest del: set_filter)
    have e': "e \<in> snd ` set (g_buffers st)" using e by force
    show "distinct (map fst (g_buffers ?st))" using dist by (simp add: et_put_def)
    have "snd ` set (g_buffers ?st) \<inter> set (g_free ?st) = {}"
      using ok unfolding bufs free snds by (auto simp: entries_ok_def)
    then show "distinct (g_free ?st @ map snd (g_buffers ?st))"
      using dist ok by (auto simp: et_put_def entries_ok_def)
    show "made (g_et ?st) = m0 \<union> set (g_free ?st) \<union> snd ` set (g_buffers ?st)"
      unfolding bufs free snds using ok e' by (auto simp: et_put_def entries_ok_def putEntry)
    show "m0 \<inter> (set (g_free ?st) \<union> snd ` set (g_buffers ?st)) = {}"
      unfolding bufs free snds using ok e' by (auto simp: entries_ok_def)
    assume "g_events ?st \<noteq> []"
    then have "(g_prevTick st, g_entry st) \<in> set (g_buffers st)
        \<or> g_prevTick st \<notin> fst ` set (g_buffers st) \<and> g_entry st \<in> set (g_free st)"
      using ok by (simp add: et_put_def entries_ok_def)
    then show "(g_prevTick ?st, g_entry ?st) \<in> set (g_buffers ?st)
        \<or> g_prevTick ?st \<notin> fst ` set (g_buffers ?st) \<and> g_entry ?st \<in> set (g_free ?st)"
      unfolding bufs free using uniq(1) [of "g_entry st"] by (auto simp: et_put_def fsts)
  qed
qed

lemma entries_ok_complete:
  assumes ok: "entries_ok m0 st" and run: "et_complete api bufIds (g_prevTick st) st = Reads st'" and "g_events st \<noteq> []"
  shows "entries_ok m0 st' \<and> g_biggestTick st' = g_biggestTick st \<and> g_prevTick st' = g_prevTick st
    \<and> g_events st' = g_events st"
proof -
  let ?st1 = "st\<lparr>g_et := et_fifo_setHasData api (g_event st) 1 (g_et st)\<rparr>"
  have ok1: "entries_ok m0 (?st1\<lparr>g_stats := m\<rparr>)" for m
    using ok by (rule entries_ok_cong) (simp_all add: setHasData)
  show ?thesis
  proof (cases "et_fifo_allHaveData api (g_et ?st1) (g_entry st)")
    case False
    with run ok1 [of "g_stats st"] show ?thesis by (auto simp: et_complete_def Let_def)
  next
    case True
    with run obtain m where st': "st' = et_put api (length bufIds) (g_entry st)
        (?st1\<lparr>g_stats := m, g_buffers := filter (\<lambda>(t, e). t \<noteq> g_prevTick st) (g_buffers st)\<rparr>)"
      by (auto simp: et_complete_def Let_def et_then_Reads dest!: keepStats_frame)
    from ok assms(3) consider "(g_prevTick st, g_entry st) \<in> set (g_buffers st)"
      | "g_prevTick st \<notin> fst ` set (g_buffers st)" "g_entry st \<in> set (g_free st)"
      by (auto simp: entries_ok_def)
    then have "entries_ok m0 st'"
    proof cases
      case 1
      with entries_ok_remove [OF ok1 [of m], of "g_prevTick st" "g_entry st"] show ?thesis by (simp add: st')
    next
      case 2
      then have "filter (\<lambda>(t, e). t \<noteq> g_prevTick st) (g_buffers st) = g_buffers st"
        by (force simp: filter_id_conv)
      with 2 show ?thesis
        by (intro entries_ok_cong [OF ok]) (simp_all add: st' et_put_def putEntry setHasData)
    qed
    then show ?thesis by (simp add: st' et_put_def)
  qed
qed

text \<open>Clearing out: the old ticks are gone, the others are still there.\<close>

lemma et_clean_entries:
  assumes "et_clean api bufIds p iter st = Reads st'" and "entries_ok m0 st"
    and "set iter \<subseteq> set (g_buffers st)" and "distinct (map fst iter)"
  shows "entries_ok m0 st' \<and> g_biggestTick st' = g_biggestTick st
    \<and> set (g_buffers st') = set (g_buffers st) - {x \<in> set iter. et_old p st (fst x)}"
  using assms
proof (induction iter arbitrary: st)
  case Nil
  then show ?case by simp
next
  case (Cons x iter)
  obtain tik e where x: "x = (tik, e)" by fastforce
  show ?case
  proof (cases "et_old p st tik")
    case False
    with Cons show ?thesis by (auto simp: x)
  next
    case True
    with Cons.prems(1) obtain m where run: "et_clean api bufIds p iter (et_put api (length bufIds) e
        (st\<lparr>g_stats := m, g_buffers := filter (\<lambda>(t, e). t \<noteq> tik) (g_buffers st)\<rparr>)) = Reads st'"
      by (auto simp: x et_then_Reads dest!: keepStats_frame)
    let ?st = "st\<lparr>g_stats := m\<rparr>"
    have ok: "entries_ok m0 ?st" using Cons.prems(2) by (rule entries_ok_cong) simp_all
    have e: "(tik, e) \<in> set (g_buffers st)" using Cons.prems(3) by (simp add: x)
    have rest: "set (filter (\<lambda>(t, e). t \<noteq> tik) (g_buffers st)) = set (g_buffers st) - {(tik, e)}"
      using Cons.prems(2) e by (auto simp: entries_ok_def dest: eq_key_imp_eq_value)
    have sub: "set iter \<subseteq> set (g_buffers st) - {(tik, e)}" using Cons.prems(3,4) by (force simp: x)
    let ?put = "et_put api (length bufIds) e (?st\<lparr>g_buffers := filter (\<lambda>(t, e). t \<noteq> tik) (g_buffers st)\<rparr>)"
    have "set (g_buffers ?put) = set (g_buffers st) - {(tik, e)}" "g_biggestTick ?put = g_biggestTick st"
      by (simp_all add: et_put_def rest del: set_filter)
    moreover have "entries_ok m0 ?put" using entries_ok_remove [OF ok, of tik e] e by simp
    ultimately show ?thesis
      using Cons.IH [OF run] sub Cons.prems(4) True by (auto simp: x et_old_def)
  qed
qed

text \<open>Another entry under construction becomes the current one.\<close>

lemma entries_ok_current:
  assumes "entries_ok m0 st" and "(tick, e) \<in> set (g_buffers st)" and "g_free st' = g_free st" "g_buffers st' = g_buffers st"
    "made (g_et st') = made (g_et st)" "g_prevTick st' = tick" "g_entry st' = e"
  shows "entries_ok m0 st'"
  using assms by (simp add: entries_ok_def)

lemma entries_ok_add:
  assumes ok: "entries_ok m0 st" and tick: "tick \<notin> fst ` set (g_buffers st)"
    and e: "e \<in> set (g_free st) \<and> F = removeAll e (g_free st) \<and> M = made (g_et st)
      \<or> e \<notin> made (g_et st) \<and> F = g_free st \<and> M = insert e (made (g_et st))"
    and st': "g_free st' = F" "g_buffers st' = (tick, e) # g_buffers st" "made (g_et st') = M" "g_prevTick st' = tick" "g_entry st' = e"
  shows "entries_ok m0 st'"
proof -
  have d: "distinct (g_free st)" "distinct (map snd (g_buffers st))" "distinct (map fst (g_buffers st))"
    "set (g_free st) \<inter> snd ` set (g_buffers st) = {}"
    "made (g_et st) = m0 \<union> set (g_free st) \<union> snd ` set (g_buffers st)"
    "m0 \<inter> (set (g_free st) \<union> snd ` set (g_buffers st)) = {}"
    using ok by (simp_all add: entries_ok_def)
  from e show ?thesis
  proof
    assume "e \<in> set (g_free st) \<and> F = removeAll e (g_free st) \<and> M = made (g_et st)"
    with d tick show ?thesis unfolding entries_ok_def st' by (auto simp: distinct_removeAll)
  next
    assume "e \<notin> made (g_et st) \<and> F = g_free st \<and> M = insert e (made (g_et st))"
    with d tick show ?thesis unfolding entries_ok_def st' by auto
  qed
qed

lemma et_takeEntry_cases:
  assumes "et_takeEntry api ho st = (Some e, st')"
  shows "(e \<in> set (g_free st) \<and> g_free st' = removeAll e (g_free st) \<and> made (g_et st') = made (g_et st)
      \<or> e \<notin> made (g_et st) \<and> g_free st' = g_free st \<and> made (g_et st') = insert e (made (g_et st)))
    \<and> g_buffers st' = g_buffers st"
proof (cases "ho_free ho (g_free st)")
  case Nil
  with assms show ?thesis by (auto simp: et_takeEntry_def map_prod_def split: prod.splits dest: entryCreate)
next
  case (Cons x xs)
  then have "x \<in> set (g_free st)" using mset_eq_setD [OF orders(1), of "g_free st"] by auto
  with Cons assms show ?thesis by (auto simp: et_takeEntry_def)
qed

lemma et_select_entries:
  assumes run: "et_select api ho (length bufIds) tick st = Reads st1" and ok: "entries_ok m0 st" and n: "bufIds \<noteq> []"
  shows "entries_ok m0 (st1\<lparr>g_prevTick := tick\<rparr>)"
proof (cases "tick = g_prevTick st")
  case True
  with run have "st1\<lparr>g_prevTick := tick\<rparr> = st" by (simp add: et_select_def)
  with ok show ?thesis by simp
next
  case new: False
  show ?thesis
  proof (cases "map_of (g_buffers st) tick")
    case (Some e)
    then have "st1 = et_cache api (length bufIds) e st" using run new by (simp add: et_select_def)
    then show ?thesis
      by (intro entries_ok_current [OF ok map_of_SomeD [OF Some]]) (simp_all add: et_cache_def Let_def)
  next
    case None
    with run new obtain e st0 w where st0: "et_takeEntry api ho st = (Some e, st0)"
        and w: "et_fifo_newEntry api e (g_et st0) = (ET_OK, w)"
        and st1: "st1 = (et_cache api (length bufIds) e (st0\<lparr>g_et := w, g_buffers := (tick, e) # g_buffers st0\<rparr>))
          \<lparr>g_biggestTick := max tick (g_biggestTick st0)\<rparr>"
      by (auto simp: et_select_def et_newTick_def Let_def et_cache_def split: prod.splits option.splits if_splits)
    have "tick \<notin> fst ` set (g_buffers st)" using None by (simp add: map_of_eq_None_iff)
    with et_takeEntry_cases [OF st0] show ?thesis
      by (intro entries_ok_add [OF ok]) (simp_all add: st1 et_cache_def Let_def newEntry(4) [OF w])
  qed
qed

lemma et_store_entries:
  assumes "et_store api index bufLen off nBytes st = Reads (st2, final)" and "entries_ok m0 st"
  shows "entries_ok m0 st2 \<and> g_prevTick st2 = g_prevTick st \<and> g_events st2 \<noteq> []"
proof -
  have "entries_ok m0 st2"
    using assms(1) by (intro entries_ok_cong [OF assms(2)])
      (auto simp: et_store_def Let_def setlength setcontrol split: if_splits)
  then show ?thesis using assms(1) by (auto simp: et_store_def Let_def split: if_splits)
qed

lemma et_packet_entries:
  assumes run: "et_packet api ho bufIds p index bufLen off nBytes tick st = Reads st'" and ok: "entries_ok m0 st"
    and n: "bufIds \<noteq> []"
  shows "entries_ok m0 st' \<and> (\<forall>(t, e) \<in> set (g_buffers st'). \<not> et_old p st' t)"
proof -
  from run obtain st1 st2 final st3 where st1: "et_select api ho (length bufIds) tick st = Reads st1"
      and st2: "et_store api index bufLen off nBytes (st1\<lparr>g_prevTick := tick\<rparr>) = Reads (st2, final)"
      and st3: "(if final then et_complete api bufIds tick st2 else Reads st2) = Reads st3"
      and clean: "et_clean api bufIds p (ho_buffers ho (g_buffers st3)) st3 = Reads st'"
    by (auto simp only: et_packet_def et_then_Reads prod.case)
  have ok2: "entries_ok m0 st2" and p2: "g_prevTick st2 = tick" and ev2: "g_events st2 \<noteq> []"
    using et_store_entries [OF st2 et_select_entries [OF st1 ok n]] by auto
  have ok3: "entries_ok m0 st3"
    using st3 ok2 entries_ok_complete [OF ok2, of st3] p2 ev2 by (auto split: if_splits)
  have "mset (map fst (ho_buffers ho (g_buffers st3))) = mset (map fst (g_buffers st3))" using orders(2) by simp
  then have "distinct (map fst (ho_buffers ho (g_buffers st3)))"
    using ok3 unfolding entries_ok_def by (metis mset_eq_imp_distinct_iff)
  moreover have "set (ho_buffers ho (g_buffers st3)) = set (g_buffers st3)" using orders(2) by (rule mset_eq_setD)
  ultimately show ?thesis using et_clean_entries [OF clean ok3] by (auto simp: et_old_def)
qed

definition receiver_ok :: "nat set \<Rightarrow> i32 \<Rightarrow> 'w et_state \<Rightarrow> bool" where
  "receiver_ok m0 p st \<longleftrightarrow> entries_ok m0 st \<and> (\<forall>(t, e) \<in> set (g_buffers st). \<not> et_old p st t)"

lemma et_step_entries:
  assumes "et_step host api ho bufIds p st r = Reads st'" and ok: "receiver_ok m0 p st" and "bufIds \<noteq> []"
  shows "receiver_ok m0 p st'"
proof -
  from assms(1) obtain d where r: "r = Datagram d" by (cases r) (auto simp: et_step_def)
  obtain v i off len t where h: "parseReHeader host (overwrite (g_pkt st) 0 (take et_pktBufSize d)) = (v, i, off, len, t)"
    using prod_cases5 by blast
  have same: "receiver_ok m0 p (st\<lparr>g_pkt := x, g_invalidPkts := k\<rparr>)" "entries_ok m0 (st\<lparr>g_pkt := x\<rparr>)" for x k
    using ok by (auto simp: receiver_ok_def et_old_def intro: entries_ok_cong)
  show ?thesis
  proof (cases "bufIdReverseMap bufIds (uint i)")
    case None
    with assms(1) same(1) show ?thesis by (auto simp: r et_step_def h Let_def split: if_splits)
  next
    case (Some index)
    with assms(1) et_packet_entries [OF _ same(2) assms(3)] show ?thesis
      by (auto simp: r et_step_def h Let_def receiver_ok_def)
  qed
qed

lemma et_loop_entries:
  "et_loop host api ho bufIds p net st = Reads st' \<Longrightarrow> receiver_ok m0 p st \<Longrightarrow> bufIds \<noteq> [] \<Longrightarrow> receiver_ok m0 p st'"
  by (induction net arbitrary: st) (auto simp: et_then_Reads dest: et_step_entries)

lemma et_create_entries:
  "et_create api k st = Reads st' \<Longrightarrow> entries_ok m0 st \<Longrightarrow> g_buffers st = [] \<Longrightarrow> g_events st = []
    \<Longrightarrow> entries_ok m0 st' \<and> g_buffers st' = []"
proof (induction k arbitrary: st)
  case (Suc k)
  then obtain e w where ew: "et_fifo_entryCreate api (g_et st) = (Some e, w)"
      and run: "et_create api k (st\<lparr>g_et := w, g_free := List.insert e (g_free st)\<rparr>) = Reads st'"
    by (auto split: prod.splits option.splits)
  have "entries_ok m0 (st\<lparr>g_et := w, g_free := List.insert e (g_free st)\<rparr>)"
    using Suc.prems(2-4) entryCreate [OF ew] by (auto simp: entries_ok_def)
  with Suc.IH [OF run] Suc.prems(3,4) show ?case by simp
qed simp

lemma getBuffers_entries:
  assumes "getBuffers host api ho w mem pkt p sts net = Reads st"
  shows "receiver_ok (made w) p st"
proof -
  have n: "bufIds \<noteq> []" using assms bufIds by (auto simp: getBuffers_def Let_def split: if_splits)
  from assms bufIds n obtain st0 where st0: "et_create api 10 (et_init w mem pkt sts) = Reads st0"
      and run: "et_loop host api ho bufIds p net st0 = Reads st"
    by (auto simp: getBuffers_def Let_def et_then_Reads split: if_splits)
  have "entries_ok (made w) (et_init w mem pkt sts)" by (simp add: entries_ok_def et_init_def)
  then have "receiver_ok (made w) p st0"
    using et_create_entries [OF st0] by (simp add: et_init_def receiver_ok_def)
  then show ?thesis using et_loop_entries [OF run] n by blast
qed

lemma et_clean_young:
  assumes "\<forall>(t, e) \<in> set (g_buffers st). \<not> et_old p st t"
  shows "et_clean api bufIds p (ho_buffers ho (g_buffers st)) st = Reads st"
proof -
  have "\<forall>(t, e) \<in> set xs. \<not> et_old p st t \<Longrightarrow> et_clean api bufIds p xs st = Reads st" for xs
    by (induction xs) auto
  then show ?thesis using assms mset_eq_setD [OF orders(2), of "g_buffers st"] by simp
qed

end

text \<open>
  The state of one source's buffer \<open>d\<close> after its packets \<open>ps\<close>: what the event, its data area
  and the count of bytes hold. \<open>has\<close> tells whether the event is marked as having data.
\<close>

definition own_pieces :: "nat \<Rightarrow> (nat \<times> piece) list \<Rightarrow> piece list" where
  "own_pieces i xs = map snd (filter (\<lambda>x. fst x = i) xs)"

definition src_inv :: "bytes \<Rightarrow> piece list \<Rightarrow> bool \<Rightarrow> et_event \<Rightarrow> bytes \<Rightarrow> nat \<Rightarrow> bool" where
  "src_inv d ps has ev area written \<longleftrightarrow> written = total_len ps \<and> (ps \<noteq> [] \<longrightarrow> ev_length ev = total_len ps)
     \<and> length (control ev) = ET_STATION_SELECT_INTS \<and> (control ev ! 1 \<noteq> 0 \<longleftrightarrow> has)
     \<and> (\<forall>j < length d. covered ps j \<longrightarrow> area ! j = d ! j)"

lemma own_pieces_snoc: "own_pieces i (xs @ [(k, p)]) = own_pieces i xs @ (if k = i then [p] else [])"
  by (simp add: own_pieces_def)

lemma src_inv_store:
  assumes "src_inv d ps has ev area written" and p: "piece_of d (off, c)" and "length d \<le> length area"
    and "length con = ET_STATION_SELECT_INTS" and "con ! 1 = 0"
  shows "src_inv d (ps @ [(off, c)]) False (ev\<lparr>ev_length := total_len ps + length c, control := con[5 := k]\<rparr>)
    (overwrite area off c) (total_len ps + length c)"
proof -
  have "off + length c \<le> length d" using p by (simp add: piece_of_def)
  then have "overwrite area off c ! j = d ! j" if "j < length d" and "covered (ps @ [(off, c)]) j" for j
    using that assms(1,3) piece_nth [OF p, of "j - off"] by (auto simp: nth_overwrite covered_snoc src_inv_def)
  then show ?thesis using assms by (simp add: src_inv_def)
qed

lemma et_account_ok: "fst ` set xs \<subseteq> dom m \<Longrightarrow> \<exists>m'. et_account f xs m = Some m' \<and> dom m' = dom m"
proof (induction xs arbitrary: m)
  case (Cons x xs)
  obtain i len packets where x: "x = (i, len, packets)" using prod_cases3 by blast
  with Cons.prems obtain s where s: "m i = Some s" by auto
  then have "dom (m(i \<mapsto> f len packets s)) = dom m" by auto
  moreover have "fst ` set xs \<subseteq> dom m" using Cons.prems by auto
  ultimately show ?case using Cons.IH [of "m(i \<mapsto> f len packets s)"] x s by (simp del: fun_upd_apply)
qed simp

definition stats_ok :: "int list \<Rightarrow> 'w et_state \<Rightarrow> bool" where
  "stats_ok bufIds st \<longleftrightarrow> (\<forall>m. g_stats st = Some m \<longrightarrow> set bufIds \<subseteq> dom m)"

lemma et_keepStats_ok:
  assumes "stats_ok bufIds st" and "map fst evs = bufIds"
  shows "\<exists>m. et_keepStats api f evs st = Reads (st\<lparr>g_stats := m\<rparr>) \<and> stats_ok bufIds (st\<lparr>g_stats := m\<rparr>)"
proof (cases "g_stats st")
  case None
  then show ?thesis by (intro exI [of _ "g_stats st"]) (simp add: et_keepStats_def stats_ok_def)
next
  case (Some m)
  let ?xs = "map (\<lambda>(i, ev). (i, et_event_getlength api (g_et st) ev, et_event_getcontrol api (g_et st) ev ! 5)) evs"
  have "fst ` set ?xs = set bufIds" using assms(2) by (force simp: image_image)
  then have "fst ` set ?xs \<subseteq> dom m" using assms(1) Some by (simp add: stats_ok_def)
  with et_account_ok obtain m' where "et_account f ?xs m = Some m'" "dom m' = dom m" by blast
  with Some assms(1) show ?thesis by (intro exI [of _ "Some m'"]) (simp add: et_keepStats_def stats_ok_def)
qed

lemma src_inv_done:
  assumes "src_inv d ps True ev area written" and "tiles d ps" and "d \<noteq> []" and "length d \<le> length area"
  shows "take (ev_length ev) area = d \<and> control ev ! 1 \<noteq> 0"
proof -
  have "ps \<noteq> []" using assms(2,3) by (auto simp: tiles_def)
  with assms have "ev_length ev = length d" "\<forall>j < length d. area ! j = d ! j" by (simp_all add: src_inv_def tiles_def)
  with assms(4) have "take (ev_length ev) area = d" by (intro nth_equalityI) simp_all
  with assms(1) show ?thesis by (simp add: src_inv_def)
qed

text \<open>The sources whose buffers have arrived completely; all the packets of a tick.\<close>

definition complete :: "bytes list \<Rightarrow> (nat \<times> piece) list \<Rightarrow> nat set" where
  "complete ds xs = {i. i < length ds \<and> total_len (own_pieces i xs) = length (ds ! i)}"

definition tick_packets :: "nat \<Rightarrow> bytes list \<Rightarrow> (nat \<times> piece) list \<Rightarrow> bool" where
  "tick_packets sz ds xs \<longleftrightarrow>
     (\<forall>d \<in> set ds. d \<noteq> [] \<and> length d \<le> sz \<and> length d < 2 ^ 32)
     \<and> (\<forall>i < length ds. tiles (ds ! i) (own_pieces i xs))
     \<and> (\<forall>(i, off, c) \<in> set xs. i < length ds \<and> RE_HEADER_BYTES + length c \<le> et_pktBufSize)"

lemma own_pieces_append [simp]: "own_pieces i (xs @ ys) = own_pieces i xs @ own_pieces i ys"
  by (simp add: own_pieces_def)

lemma own_pieces_Cons [simp]: "own_pieces i ((k, q) # xs) = (if k = i then [q] else []) @ own_pieces i xs"
  by (simp add: own_pieces_def)

lemma own_pieces_Nil [simp]: "own_pieces i [] = []"
  by (simp add: own_pieces_def)

lemma not_complete_yet:
  assumes "tick_packets sz ds (xs @ (i, off, c) # ys)"
  shows "i < length ds" "i \<notin> complete ds xs" "piece_of (ds ! i) (off, c)"
proof -
  show i: "i < length ds" using assms by (simp add: tick_packets_def)
  then have tl: "tiles (ds ! i) (own_pieces i (xs @ (i, off, c) # ys))" using assms by (simp only: tick_packets_def)
  then show p: "piece_of (ds ! i) (off, c)" by (simp add: tiles_def)
  have "total_len (own_pieces i xs) + length c \<le> length (ds ! i)" using tl by (simp add: tiles_def)
  moreover have "c \<noteq> []" using p by (simp add: piece_of_def)
  ultimately show "i \<notin> complete ds xs" by (auto simp: complete_def)
qed

lemma complete_snoc:
  assumes "tick_packets sz ds (xs @ (i, off, c) # ys)"
  shows "complete ds (xs @ [(i, off, c)])
    = (if length (ds ! i) \<le> total_len (own_pieces i (xs @ [(i, off, c)])) then insert i (complete ds xs) else complete ds xs)"
proof -
  have i: "i < length ds" using not_complete_yet [OF assms] by simp
  then have "tiles (ds ! i) (own_pieces i (xs @ (i, off, c) # ys))" using assms by (simp only: tick_packets_def)
  then have "total_len (own_pieces i (xs @ [(i, off, c)])) \<le> length (ds ! i)" by (simp add: tiles_def)
  with i not_complete_yet(2) [OF assms] show ?thesis by (auto simp: complete_def)
qed

lemma all_complete_iff:
  assumes "tick_packets sz ds (xs @ ys)"
  shows "{..<length ds} \<subseteq> complete ds xs \<longleftrightarrow> ys = []"
proof (cases ys)
  case Nil
  with assms show ?thesis by (auto simp: tick_packets_def complete_def tiles_def)
next
  case (Cons y ys')
  obtain i off c where "y = (i, off, c)" using prod_cases3 by blast
  with not_complete_yet [of sz ds xs i off c ys'] assms Cons show ?thesis by auto
qed

text \<open>A datagram of source \<open>i\<close> with a piece of the buffer of that source.\<close>

definition et_datagram :: "int list \<Rightarrow> u64 \<Rightarrow> i32 \<Rightarrow> i32 \<Rightarrow> bytes list \<Rightarrow> nat \<times> piece \<Rightarrow> recv" where
  "et_datagram bufIds t v r ds = (\<lambda>(i, q). Datagram (re_packet (of_nat (length (ds ! i))) t v (of_int (bufIds ! i)) r q))"

lemma bufIdReverseMap_nth: "distinct bufIds \<Longrightarrow> i < length bufIds \<Longrightarrow> bufIdReverseMap bufIds (bufIds ! i) = Some i"
  unfolding bufIdReverseMap_def by (intro map_of_is_SomeI) (auto simp: rev_map [symmetric] set_zip)

lemma et_step_datagram:
  assumes ids: "distinct bufIds" "\<forall>x \<in> set bufIds. 0 \<le> x \<and> x < 2 ^ 16" and i: "i < length bufIds"
    and len: "RE_HEADER_BYTES + length c \<le> et_pktBufSize" and off: "off < 2 ^ 32"
    and pkt_def: "pkt = overwrite (g_pkt st) 0 (re_packet (of_nat (length (ds ! i))) t v (of_int (bufIds ! i)) r (off, c))"
  shows "et_step host api ho bufIds p st (et_datagram bufIds t v r ds (i, off, c))
      = et_packet api ho bufIds p i (of_nat (length (ds ! i))) off (int (length c)) t (st\<lparr>g_pkt := pkt\<rparr>)"
    "take (length c) (drop RE_HEADER_BYTES pkt) = c"
proof -
  let ?d = "re_packet (of_nat (length (ds ! i))) t v (of_int (bufIds ! i)) r (off, c)"
  have pkt: "pkt = re_layout (of_nat off) (of_nat (length (ds ! i))) t v (of_int (bufIds ! i)) r @ c @ drop (length ?d) (g_pkt st)"
    by (simp add: pkt_def overwrite_def re_packet_def)
  then have h: "parseReHeader host pkt = (v AND 0xf, of_int (bufIds ! i), of_nat off, of_nat (length (ds ! i)), t)"
    by (simp add: byte_simps)
  have "uint (of_int (bufIds ! i) :: u16) = bufIds ! i" using ids(2) i by (simp add: uint_word_of_int)
  then have "bufIdReverseMap bufIds (uint (of_int (bufIds ! i) :: u16)) = Some i"
    using ids(1) i by (simp add: bufIdReverseMap_nth)
  then show "et_step host api ho bufIds p st (et_datagram bufIds t v r ds (i, off, c))
      = et_packet api ho bufIds p i (of_nat (length (ds ! i))) off (int (length c)) t (st\<lparr>g_pkt := pkt\<rparr>)"
    using len off by (simp add: et_step_def et_datagram_def Let_def h [unfolded pkt_def] pkt_def unat_of_nat)
  show "take (length c) (drop RE_HEADER_BYTES pkt) = c" unfolding pkt by (simp add: size_defs)
qed
text \<open>Ticks that follow each other: for each its number, its buffers and its packets.\<close>

definition et_stream :: "int list \<Rightarrow> i32 \<Rightarrow> i32 \<Rightarrow> (u64 \<times> bytes list \<times> (nat \<times> piece) list) list \<Rightarrow> recv list" where
  "et_stream bufIds v r bs = concat (map (\<lambda>(t, ds, ys). map (et_datagram bufIds t v r ds) ys) bs)"

definition delivered_buffers :: "(u64 \<times> bytes list \<times> (nat \<times> piece) list) list \<Rightarrow> (bytes \<times> bool) list list" where
  "delivered_buffers bs = map (\<lambda>(t, ds, ys). map (\<lambda>d. (d, True)) ds) bs"

lemma et_loop_append:
  "et_loop host api ho bufIds p (xs @ ys) st
    = et_then (et_loop host api ho bufIds p xs st) (et_loop host api ho bufIds p ys) (\<lambda>st. st)"
proof (induction xs arbitrary: st)
  case (Cons x xs)
  then show ?case by (cases "et_step host api ho bufIds p st x") simp_all
qed simp

locale et_fifo_ready = et_fifo api ho event made bufIds
  for api :: "'w et_api" and ho event made bufIds +
  assumes newEntry_ok: "\<exists>w'. et_fifo_newEntry api e w = (ET_OK, w')"
    and entryCreate_ok: "\<exists>e w'. et_fifo_entryCreate api w = (Some e, w')"
begin

abbreviation ev_at :: "'w et_state \<Rightarrow> nat \<Rightarrow> nat \<Rightarrow> et_event" where
  "ev_at st e i \<equiv> event (g_et st) (et_fifo_getBufs api (g_et st) e i)"

definition tick_inv :: "u64 \<Rightarrow> bytes list \<Rightarrow> nat \<Rightarrow> (nat \<times> piece) list \<Rightarrow> nat set \<Rightarrow> 'w et_state \<Rightarrow> bool" where
  "tick_inv t ds e xs H st \<longleftrightarrow>
     g_prevTick st = t \<and> g_buffers st = [(t, e)] \<and> g_entry st = e
     \<and> g_events st = map (et_fifo_getBufs api (g_et st) e) [0..<length bufIds]
     \<and> g_bufs st = map (\<lambda>v. pdata (event (g_et st) v)) (g_events st)
     \<and> inj_on (et_fifo_getBufs api (g_et st) e) {..<length bufIds}
     \<and> inj_on (\<lambda>i. pdata (ev_at st e i)) {..<length bufIds}
     \<and> length (g_controls st) = length bufIds
     \<and> (\<forall>c \<in> set (g_controls st). length c = ET_STATION_SELECT_INTS \<and> c ! 1 = 0)
     \<and> length (g_packetCnts st) = length bufIds \<and> length (g_bytesWritten st) = length bufIds
     \<and> (\<forall>a. length (g_mem st a) = et_fifo_getBufSize api)
     \<and> (\<forall>i < length bufIds. src_inv (ds ! i) (own_pieces i xs) (i \<in> H) (ev_at st e i)
          (g_mem st (pdata (ev_at st e i))) (g_bytesWritten st ! i))"

lemma tick_inv_src:
  "tick_inv t ds e xs H st \<Longrightarrow> i < length bufIds \<Longrightarrow>
    src_inv (ds ! i) (own_pieces i xs) (i \<in> H) (ev_at st e i) (g_mem st (pdata (ev_at st e i))) (g_bytesWritten st ! i)"
  by (simp add: tick_inv_def)

lemma tick_store:
  assumes inv: "tick_inv t ds e xs H st" and i: "i < length bufIds" "i \<notin> H"
    and p: "piece_of (ds ! i) (off, c)" and len: "length (ds ! i) \<le> et_fifo_getBufSize api" "length (ds ! i) < 2 ^ 32"
    and pkt: "take (length c) (drop RE_HEADER_BYTES (g_pkt st)) = c"
  shows "\<exists>st'. et_store api i (of_nat (length (ds ! i))) off (int (length c)) st
      = Reads (st', length (ds ! i) \<le> total_len (own_pieces i (xs @ [(i, off, c)])))
    \<and> tick_inv t ds e (xs @ [(i, off, c)]) H st' \<and> g_event st' = et_fifo_getBufs api (g_et st') e i
    \<and> g_free st' = g_free st \<and> g_puts st' = g_puts st \<and> g_stats st' = g_stats st \<and> g_biggestTick st' = g_biggestTick st"
proof -
  let ?w = "g_et st" and ?v = "et_fifo_getBufs api (g_et st) e i" and ?n = "length bufIds"
  let ?a = "pdata (event ?w ?v)" and ?ps = "own_pieces i xs"
  let ?con = "(g_controls st ! i)[5 := g_packetCnts st ! i + 1]"
  let ?w' = "et_event_setcontrol api ?v ?con (et_event_setlength api ?v (total_len ?ps + length c) ?w)"
  define st' where "st' = st\<lparr>g_event := ?v, g_mem := (g_mem st)(?a := overwrite (g_mem st ?a) off c), g_et := ?w',
    g_packetCnts := (g_packetCnts st)[i := g_packetCnts st ! i + 1],
    g_bytesWritten := (g_bytesWritten st)[i := total_len ?ps + length c]\<rparr>"
  have con: "length (g_controls st ! i) = ET_STATION_SELECT_INTS" "g_controls st ! i ! 1 = 0"
    using inv i(1) by (simp_all add: tick_inv_def)
  have w': "event ?w' = (event ?w)(?v := (event ?w ?v)\<lparr>ev_length := total_len ?ps + length c, control := ?con\<rparr>)"
      "et_fifo_getBufs api ?w' = et_fifo_getBufs api ?w"
    using con(1) by (simp_all add: setcontrol setlength)
  have src: "src_inv (ds ! k) (own_pieces k xs) (k \<in> H) (ev_at st e k) (g_mem st (pdata (ev_at st e k))) (g_bytesWritten st ! k)"
    if "k < ?n" for k using inv that by (rule tick_inv_src)
  have other: "et_fifo_getBufs api ?w e k \<noteq> ?v" "pdata (ev_at st e k) \<noteq> ?a" if "k < ?n" "k \<noteq> i" for k
    using inv that i(1) by (auto simp: tick_inv_def dest: inj_onD)
  have bytes: "g_bytesWritten st ! i = total_len ?ps" using src [OF i(1)] by (simp add: src_inv_def)
  have area: "length (g_mem st a) = et_fifo_getBufSize api" for a using inv by (simp add: tick_inv_def)
  have bound: "off + length c \<le> length (ds ! i)" using p by (simp add: piece_of_def)
  have at: "g_events st ! i = ?v" "g_bufs st ! i = ?a" "i < length (g_events st)" using inv i(1) by (simp_all add: tick_inv_def)
  have "et_store api i (of_nat (length (ds ! i))) off (int (length c)) st
      = Reads (st', length (ds ! i) \<le> total_len (own_pieces i (xs @ [(i, off, c)])))"
    using at bytes area bound len pkt
    by (simp add: et_store_def Let_def st'_def own_pieces_snoc unat_of_nat_u32)
  moreover have "tick_inv t ds e (xs @ [(i, off, c)]) H st'"
    unfolding tick_inv_def
  proof (intro conjI allI impI)
    have ev: "ev_at st' e k = (if k = i then (event ?w ?v)\<lparr>ev_length := total_len ?ps + length c, control := ?con\<rparr> else ev_at st e k)"
      if "k < ?n" for k using other(1) [OF that] by (auto simp: st'_def w')
    then have data: "pdata (ev_at st' e k) = pdata (ev_at st e k)" if "k < ?n" for k using that by simp
    have same: "g_bufs st' = g_bufs st" "g_events st' = g_events st" "et_fifo_getBufs api (g_et st') = et_fifo_getBufs api ?w"
      by (simp_all add: st'_def w')
    show "g_bufs st' = map (\<lambda>v. pdata (event (g_et st') v)) (g_events st')"
      using inv data unfolding same by (simp add: tick_inv_def)
    show "inj_on (\<lambda>i. pdata (ev_at st' e i)) {..<?n}"
      using inv data by (auto simp: tick_inv_def inj_on_def)
    show "src_inv (ds ! k) (own_pieces k (xs @ [(i, off, c)])) (k \<in> H) (ev_at st' e k)
        (g_mem st' (pdata (ev_at st' e k))) (g_bytesWritten st' ! k)" if k: "k < ?n" for k
    proof (cases "k = i")
      case True
      then show ?thesis
        using src_inv_store [OF src [OF i(1)] p _ con] len(1) area ev [OF k] i inv
        by (simp add: own_pieces_snoc st'_def tick_inv_def del: fun_upd_apply) (simp add: w')
    next
      case False
      then show ?thesis
        using src [OF k] ev [OF k] other(2) [OF k] by (simp add: own_pieces_snoc st'_def del: fun_upd_apply) (simp add: w')
    qed
    show "length (g_mem st' a) = et_fifo_getBufSize api" for a
      using area bound len(1) by (simp add: st'_def)
  qed (use inv in \<open>auto simp: tick_inv_def st'_def w'\<close>)
  ultimately show ?thesis by (intro exI [of _ st']) (simp add: st'_def w')
qed

lemma tick_hasData:
  assumes inv: "tick_inv t ds e xs H st" and i: "i < length bufIds"
  shows "tick_inv t ds e xs (insert i H) (st\<lparr>g_et := et_fifo_setHasData api (et_fifo_getBufs api (g_et st) e i) 1 (g_et st)\<rparr>)"
    (is "tick_inv t ds e xs (insert i H) ?st")
proof -
  let ?v = "et_fifo_getBufs api (g_et st) e i"
  have ev: "ev_at ?st e k = (if k = i then (ev_at st e i)\<lparr>control := (control (ev_at st e i))[1 := 1]\<rparr> else ev_at st e k)"
    if "k < length bufIds" for k
    using inv i that by (auto simp: setHasData tick_inv_def dest: inj_onD)
  then have data: "pdata (ev_at ?st e k) = pdata (ev_at st e k)" if "k < length bufIds" for k using that by simp
  show ?thesis
    unfolding tick_inv_def
  proof (intro conjI allI impI)
    have same: "g_bufs ?st = g_bufs st" "g_events ?st = g_events st" by simp_all
    show "g_bufs ?st = map (\<lambda>v. pdata (event (g_et ?st) v)) (g_events ?st)"
      using inv data unfolding same by (simp add: tick_inv_def setHasData)
    show "inj_on (\<lambda>i. pdata (ev_at ?st e i)) {..<length bufIds}"
      using inv data by (auto simp: tick_inv_def inj_on_def)
    show "src_inv (ds ! k) (own_pieces k xs) (k \<in> insert i H) (ev_at ?st e k) (g_mem ?st (pdata (ev_at ?st e k))) (g_bytesWritten ?st ! k)"
      if "k < length bufIds" for k
    proof -
      have "src_inv (ds ! k) (own_pieces k xs) (k \<in> H) (ev_at st e k) (g_mem st (pdata (ev_at st e k))) (g_bytesWritten st ! k)"
        using inv that by (rule tick_inv_src)
      then show ?thesis
        unfolding ev [OF that] by (cases "k = i") (auto simp: src_inv_def ET_STATION_SELECT_INTS_def)
    qed
  qed (use inv in \<open>auto simp: tick_inv_def setHasData\<close>)
qed

lemma tick_contents:
  assumes inv: "tick_inv t ds e xs H st" and H: "{..<length bufIds} \<subseteq> H" and ds: "length ds = length bufIds"
    and d: "\<forall>d \<in> set ds. d \<noteq> [] \<and> length d \<le> et_fifo_getBufSize api"
    and tl: "\<forall>i < length bufIds. tiles (ds ! i) (own_pieces i xs)"
  shows "et_contents api (length bufIds) st e = map (\<lambda>d. (d, True)) ds"
proof (rule nth_equalityI)
  fix i assume "i < length (et_contents api (length bufIds) st e)"
  then have i: "i < length bufIds" by (simp add: et_contents_def)
  then have "src_inv (ds ! i) (own_pieces i xs) True (ev_at st e i) (g_mem st (pdata (ev_at st e i))) (g_bytesWritten st ! i)"
    using tick_inv_src [OF inv i] H by (simp add: subset_iff)
  from src_inv_done [OF this] inv i tl d ds
  show "et_contents api (length bufIds) st e ! i = map (\<lambda>d. (d, True)) ds ! i"
    by (simp add: et_contents_def getters Let_def tick_inv_def)
qed (simp add: et_contents_def ds)

definition idle :: "'w et_state \<Rightarrow> bool" where
  "idle st \<longleftrightarrow> g_buffers st = [] \<and> (\<forall>a. length (g_mem st a) = et_fifo_getBufSize api) \<and> stats_ok bufIds st"

text \<open>
  The entry of the last tick after it was put: if the ET system leaves its events as they are,
  the receiver still holds all it knew of them.
\<close>

definition put_keeps :: bool where
  "put_keeps \<longleftrightarrow> (\<forall>e w. event (et_fifo_putEntry api e w) = event w \<and> et_fifo_getBufs api (et_fifo_putEntry api e w) = et_fifo_getBufs api w)"

definition handed :: "u64 \<Rightarrow> bytes list \<Rightarrow> nat \<Rightarrow> (nat \<times> piece) list \<Rightarrow> 'w et_state \<Rightarrow> bool" where
  "handed t ds e xs st \<longleftrightarrow> (put_keeps \<longrightarrow> tick_inv t ds e xs {..<length bufIds} (st\<lparr>g_buffers := [(t, e)]\<rparr>))"

lemma handed_put:
  assumes "tick_inv t ds e xs H st" and "{..<length bufIds} \<subseteq> H"
  shows "handed t ds e xs (et_put api n e (st\<lparr>g_stats := m, g_buffers := bs\<rparr>))"
  using assms by (auto simp: handed_def put_keeps_def tick_inv_def et_put_def subset_iff)

lemma tick_complete:
  assumes inv: "tick_inv t ds e xs H st" and i: "i < length bufIds" "g_event st = et_fifo_getBufs api (g_et st) e i"
    and sts: "stats_ok bufIds st" and ds: "length ds = length bufIds"
    and fin: "{..<length bufIds} \<subseteq> insert i H \<Longrightarrow> tick_packets (et_fifo_getBufSize api) ds xs"
  shows "\<exists>st'. et_complete api bufIds t st = Reads st' \<and> stats_ok bufIds st' \<and> g_biggestTick st' = g_biggestTick st
    \<and> g_prevTick st' = t
    \<and> (if {..<length bufIds} \<subseteq> insert i H
       then idle st' \<and> handed t ds e xs st' \<and> g_puts st' = g_puts st @ [(e, map (\<lambda>d. (d, True)) ds)]
       else tick_inv t ds e xs (insert i H) st' \<and> g_puts st' = g_puts st)"
proof -
  define st1 where "st1 = st\<lparr>g_et := et_fifo_setHasData api (et_fifo_getBufs api (g_et st) e i) 1 (g_et st)\<rparr>"
  have inv1: "tick_inv t ds e xs (insert i H) st1" unfolding st1_def using inv i(1) by (rule tick_hasData)
  have ent: "g_entry st1 = e" using inv1 by (simp add: tick_inv_def)
  have all: "et_fifo_allHaveData api (g_et st1) e \<longleftrightarrow> {..<length bufIds} \<subseteq> insert i H"
    using tick_inv_src [OF inv1] by (auto simp: allHaveData src_inv_def)
  have sts1: "stats_ok bufIds st1" using sts by (simp add: st1_def stats_ok_def)
  have unf: "et_complete api bufIds t st = (if et_fifo_allHaveData api (g_et st1) e
     then et_then
            (et_keepStats api stats_built (zip bufIds (map (et_fifo_getBufs api (g_et st1) e) [0..<length bufIds])) st1)
            (\<lambda>st. Reads (et_put api (length bufIds) (g_entry st) (st\<lparr>g_buffers := filter (\<lambda>(t', e). t' \<noteq> t) (g_buffers st)\<rparr>)))
            (\<lambda>st. st)
     else Reads st1)"
    using inv i(2) by (simp add: et_complete_def st1_def tick_inv_def Let_def)
  show ?thesis
  proof (cases "{..<length bufIds} \<subseteq> insert i H")
    case False
    with inv1 sts1 all show ?thesis
      by (intro exI [of _ st1]) (simp add: unf, simp add: st1_def tick_inv_def)
  next
    case True
    obtain m where m: "et_keepStats api stats_built (zip bufIds (map (et_fifo_getBufs api (g_et st1) e) [0..<length bufIds])) st1
        = Reads (st1\<lparr>g_stats := m\<rparr>)" "stats_ok bufIds (st1\<lparr>g_stats := m\<rparr>)"
      using et_keepStats_ok [OF sts1] by (metis length_map length_upt map_fst_zip minus_nat.diff_0)
    define st2 where "st2 = st1\<lparr>g_stats := m, g_buffers := filter (\<lambda>(t', e). t' \<noteq> t) (g_buffers st1)\<rparr>"
    have run: "et_complete api bufIds t st = Reads (et_put api (length bufIds) e st2)"
      using True all by (simp add: unf m(1) st2_def ent)
    have "et_contents api (length bufIds) st2 e = et_contents api (length bufIds) st1 e"
      by (simp add: et_contents_def st2_def)
    also have "\<dots> = map (\<lambda>d. (d, True)) ds"
      using fin [OF True] ds by (intro tick_contents [OF inv1 True ds]) (auto simp: tick_packets_def)
    finally have c: "et_contents api (length bufIds) st2 e = map (\<lambda>d. (d, True)) ds" .
    have "idle (et_put api (length bufIds) e st2)"
      using inv1 m(2) by (simp add: idle_def et_put_def st2_def tick_inv_def stats_ok_def)
    moreover have "handed t ds e xs (et_put api (length bufIds) e st2)"
      unfolding st2_def using inv1 True by (rule handed_put)
    moreover have "g_puts st1 = g_puts st" "g_biggestTick st1 = g_biggestTick st" "g_prevTick st1 = t"
      using inv by (simp_all add: st1_def tick_inv_def)
    then have "g_puts (et_put api (length bufIds) e st2) = g_puts st @ [(e, map (\<lambda>d. (d, True)) ds)]"
      "stats_ok bufIds (et_put api (length bufIds) e st2)" "g_biggestTick (et_put api (length bufIds) e st2) = g_biggestTick st"
      "g_prevTick (et_put api (length bufIds) e st2) = t"
      using c m(2) by (simp_all add: et_put_def stats_ok_def, simp_all add: st2_def)
    ultimately show ?thesis using True run by simp
  qed
qed

lemma tick_packet:
  assumes inv: "tick_inv t ds e xs (complete ds xs) st" and ds: "length ds = length bufIds"
    and all: "tick_packets (et_fifo_getBufSize api) ds (xs @ (i, off, c) # ys)"
    and old: "\<not> et_old p st t" and sts: "stats_ok bufIds st"
    and pkt: "take (length c) (drop RE_HEADER_BYTES (g_pkt st)) = c"
  shows "\<exists>st'. et_packet api ho bufIds p i (of_nat (length (ds ! i))) off (int (length c)) t st = Reads st'
    \<and> g_biggestTick st' = g_biggestTick st \<and> g_prevTick st' = t \<and> stats_ok bufIds st'
    \<and> (if ys = [] then idle st' \<and> handed t ds e (xs @ [(i, off, c)]) st' \<and> g_puts st' = g_puts st @ [(e, map (\<lambda>d. (d, True)) ds)]
       else tick_inv t ds e (xs @ [(i, off, c)]) (complete ds (xs @ [(i, off, c)])) st' \<and> g_puts st' = g_puts st)"
proof -
  let ?xs = "xs @ [(i, off, c)]"
  note new = not_complete_yet [OF all]
  have i: "i < length bufIds" and len: "length (ds ! i) \<le> et_fifo_getBufSize api" "length (ds ! i) < 2 ^ 32"
    using new(1) ds all by (auto simp: tick_packets_def)
  obtain st2 where st2: "et_store api i (of_nat (length (ds ! i))) off (int (length c)) st
        = Reads (st2, length (ds ! i) \<le> total_len (own_pieces i ?xs))"
      "tick_inv t ds e ?xs (complete ds xs) st2" "g_event st2 = et_fifo_getBufs api (g_et st2) e i"
      "g_puts st2 = g_puts st" "g_stats st2 = g_stats st" "g_biggestTick st2 = g_biggestTick st"
    using tick_store [OF inv i new(2,3) len pkt] by blast
  have sel: "et_select api ho (length bufIds) t st = Reads st" "st\<lparr>g_prevTick := t\<rparr> = st"
    using inv by (auto simp: et_select_def tick_inv_def)
  have iff: "{..<length bufIds} \<subseteq> complete ds ?xs \<longleftrightarrow> ys = []"
    using all_complete_iff [of _ ds ?xs ys] all ds by simp
  have sts2: "stats_ok bufIds st2" using sts st2(5) by (simp add: stats_ok_def)
  have "\<exists>st3. (if length (ds ! i) \<le> total_len (own_pieces i ?xs) then et_complete api bufIds t st2 else Reads st2) = Reads st3
    \<and> g_biggestTick st3 = g_biggestTick st \<and> g_prevTick st3 = t \<and> stats_ok bufIds st3
    \<and> (if ys = [] then idle st3 \<and> handed t ds e ?xs st3 \<and> g_puts st3 = g_puts st @ [(e, map (\<lambda>d. (d, True)) ds)]
       else tick_inv t ds e ?xs (complete ds ?xs) st3 \<and> g_puts st3 = g_puts st)"
  proof (cases "length (ds ! i) \<le> total_len (own_pieces i ?xs)")
    case True
    then have H: "insert i (complete ds xs) = complete ds ?xs" using complete_snoc [OF all] by simp
    have "tick_packets (et_fifo_getBufSize api) ds ?xs" if "{..<length bufIds} \<subseteq> complete ds ?xs"
      using all that iff by simp
    with tick_complete [OF st2(2) i st2(3) sts2 ds] show ?thesis
      unfolding H iff using True st2(4,6) by (cases "ys = []") auto
  next
    case False
    then have H: "complete ds ?xs = complete ds xs" using complete_snoc [OF all] by simp
    have "ys \<noteq> []" using iff new(2) i unfolding H by auto
    with False st2 sts2 show ?thesis unfolding H by (simp add: tick_inv_def)
  qed
  then obtain st3 where st3: "(if length (ds ! i) \<le> total_len (own_pieces i ?xs) then et_complete api bufIds t st2 else Reads st2) = Reads st3"
    and r: "g_biggestTick st3 = g_biggestTick st" "g_prevTick st3 = t" "stats_ok bufIds st3"
      "if ys = [] then idle st3 \<and> handed t ds e ?xs st3 \<and> g_puts st3 = g_puts st @ [(e, map (\<lambda>d. (d, True)) ds)]
       else tick_inv t ds e ?xs (complete ds ?xs) st3 \<and> g_puts st3 = g_puts st" by blast
  have "\<forall>(t', e') \<in> set (g_buffers st3). \<not> et_old p st3 t'"
    using r(1,4) old by (auto simp: idle_def tick_inv_def et_old_def split: if_splits)
  then have "et_packet api ho bufIds p i (of_nat (length (ds ! i))) off (int (length c)) t st = Reads st3"
    unfolding et_packet_def sel et_then.simps st2(1) prod.case st3 by (rule et_clean_young)
  with r show ?thesis by blast
qed

lemma tick_loop:
  assumes ids: "distinct bufIds" "\<forall>x \<in> set bufIds. 0 \<le> x \<and> x < 2 ^ 16" and ds: "length ds = length bufIds"
    and "tick_packets (et_fifo_getBufSize api) ds (xs @ ys)" and "ys \<noteq> []"
    and "tick_inv t ds e xs (complete ds xs) st" and "\<not> et_old p st t" and "stats_ok bufIds st"
  shows "\<exists>st'. et_loop host api ho bufIds p (map (et_datagram bufIds t v r ds) ys) st = Reads st'
    \<and> g_biggestTick st' = g_biggestTick st \<and> g_prevTick st' = t
    \<and> idle st' \<and> handed t ds e (xs @ ys) st' \<and> g_puts st' = g_puts st @ [(e, map (\<lambda>d. (d, True)) ds)]"
  using assms(4-)
proof (induction ys arbitrary: xs st)
  case Nil
  then show ?case by simp
next
  case (Cons y ys)
  obtain i off c where y: "y = (i, off, c)" using prod_cases3 by blast
  have all: "tick_packets (et_fifo_getBufSize api) ds (xs @ (i, off, c) # ys)" using Cons.prems(1) y by simp
  note new = not_complete_yet [OF all]
  have len: "RE_HEADER_BYTES + length c \<le> et_pktBufSize" using all by (simp add: tick_packets_def)
  have "length (ds ! i) < 2 ^ 32" using new(1) all by (simp add: tick_packets_def)
  moreover have "off \<le> length (ds ! i)" using new(3) by (simp add: piece_of_def)
  ultimately have "off < 2 ^ 32" by (rule le_less_trans [rotated])
  then obtain pkt where pkt: "et_step host api ho bufIds p st (et_datagram bufIds t v r ds y)
      = et_packet api ho bufIds p i (of_nat (length (ds ! i))) off (int (length c)) t (st\<lparr>g_pkt := pkt\<rparr>)"
      "take (length c) (drop RE_HEADER_BYTES pkt) = c"
    using et_step_datagram [OF ids _ len _ refl, of i off] new(1) ds y by metis
  have inv: "tick_inv t ds e xs (complete ds xs) (st\<lparr>g_pkt := pkt\<rparr>)" "\<not> et_old p (st\<lparr>g_pkt := pkt\<rparr>) t"
      "stats_ok bufIds (st\<lparr>g_pkt := pkt\<rparr>)"
    using Cons.prems by (simp_all add: tick_inv_def et_old_def stats_ok_def)
  obtain st1 where st1: "et_packet api ho bufIds p i (of_nat (length (ds ! i))) off (int (length c)) t (st\<lparr>g_pkt := pkt\<rparr>) = Reads st1"
      "g_biggestTick st1 = g_biggestTick st" "g_prevTick st1 = t" "stats_ok bufIds st1"
      "if ys = [] then idle st1 \<and> handed t ds e (xs @ [(i, off, c)]) st1 \<and> g_puts st1 = g_puts st @ [(e, map (\<lambda>d. (d, True)) ds)]
       else tick_inv t ds e (xs @ [(i, off, c)]) (complete ds (xs @ [(i, off, c)])) st1 \<and> g_puts st1 = g_puts st"
    using tick_packet [OF inv(1) ds all inv(2,3)] pkt(2) by auto
  show ?case
  proof (cases "ys = []")
    case True
    with st1 pkt(1) show ?thesis by (simp add: y)
  next
    case False
    with Cons.IH [of "xs @ [y]" st1] Cons.prems(1,4) st1 pkt(1) show ?thesis by (simp add: y et_old_def)
  qed
qed

lemma tick_start:
  assumes idle: "idle st" and t: "t \<noteq> g_prevTick st" and ds: "length ds = length bufIds"
    and d: "\<forall>d \<in> set ds. d \<noteq> []"
  shows "\<exists>st1 e. et_select api ho (length bufIds) t st = Reads st1 \<and> tick_inv t ds e [] (complete ds []) (st1\<lparr>g_prevTick := t\<rparr>)
    \<and> g_puts st1 = g_puts st \<and> g_stats st1 = g_stats st \<and> g_pkt st1 = g_pkt st \<and> g_biggestTick st1 = max t (g_biggestTick st)"
proof -
  obtain e st0 where st0: "et_takeEntry api ho st = (Some e, st0)"
    using entryCreate_ok [of "g_et st"] by (fastforce simp: et_takeEntry_def split: list.splits)
  obtain w where w: "et_fifo_newEntry api e (g_et st0) = (ET_OK, w)" using newEntry_ok by blast
  have same: "g_buffers st0 = []" "g_mem st0 = g_mem st" "g_puts st0 = g_puts st" "g_stats st0 = g_stats st" "g_pkt st0 = g_pkt st"
      "g_biggestTick st0 = g_biggestTick st"
    using st0 idle by (auto simp: et_takeEntry_def idle_def map_prod_def split: list.splits prod.splits)
  define st1 where "st1 = (et_cache api (length bufIds) e (st0\<lparr>g_et := w, g_buffers := (t, e) # g_buffers st0\<rparr>))
    \<lparr>g_biggestTick := max t (g_biggestTick st0)\<rparr>"
  have "et_select api ho (length bufIds) t st = Reads st1"
    using t idle by (simp add: et_select_def idle_def et_newTick_def st0 w Let_def st1_def) (simp add: et_cache_def Let_def)
  moreover have "complete ds [] = {}" using d by (auto simp: complete_def)
  then have "tick_inv t ds e [] (complete ds []) (st1\<lparr>g_prevTick := t\<rparr>)"
    using newEntry [OF w] idle
    by (auto simp: tick_inv_def st1_def et_cache_def Let_def same getters idle_def src_inv_def covered_def)
  ultimately show ?thesis
    using same by (intro exI [of _ st1] exI [of _ e]) (simp add: st1_def et_cache_def Let_def)
qed

lemma tick_run:
  assumes ids: "distinct bufIds" "\<forall>x \<in> set bufIds. 0 \<le> x \<and> x < 2 ^ 16" and ds: "length ds = length bufIds" "bufIds \<noteq> []"
    and all: "tick_packets (et_fifo_getBufSize api) ds ys" and idle: "idle st" and t: "t \<noteq> g_prevTick st"
    and young: "\<not> t + scast (4 * p) < max t (g_biggestTick st)"
  shows "\<exists>st' e. et_loop host api ho bufIds p (map (et_datagram bufIds t v r ds) ys) st = Reads st'
    \<and> g_biggestTick st' = max t (g_biggestTick st) \<and> g_prevTick st' = t \<and> idle st' \<and> handed t ds e ys st'
    \<and> g_puts st' = g_puts st @ [(e, map (\<lambda>d. (d, True)) ds)]"
proof -
  have "ys \<noteq> []"
  proof
    assume "ys = []"
    then have "ds ! 0 = []" using all ds by (simp add: tick_packets_def tiles_def)
    then show False using all ds nth_mem [of 0 ds] by (auto simp: tick_packets_def)
  qed
  then obtain i off c zs where ys: "ys = (i, off, c) # zs" using neq_Nil_conv [of ys] by auto
  have all': "tick_packets (et_fifo_getBufSize api) ds ([] @ (i, off, c) # zs)" using all ys by simp
  note new = not_complete_yet [OF all']
  have i: "i < length bufIds" using new(1) ds by simp
  have len: "RE_HEADER_BYTES + length c \<le> et_pktBufSize" using all' by (simp add: tick_packets_def)
  have "length (ds ! i) < 2 ^ 32" using new(1) all by (simp add: tick_packets_def)
  moreover have "off \<le> length (ds ! i)" using new(3) by (simp add: piece_of_def)
  ultimately have off: "off < 2 ^ 32" by (rule le_less_trans [rotated])
  define pkt where "pkt = overwrite (g_pkt st) 0 (re_packet (of_nat (length (ds ! i))) t v (of_int (bufIds ! i)) r (off, c))"
  have "idle (st\<lparr>g_pkt := pkt\<rparr>)" using idle by (simp add: idle_def stats_ok_def)
  then obtain st1 e where st1: "et_select api ho (length bufIds) t (st\<lparr>g_pkt := pkt\<rparr>) = Reads st1"
      and inv: "tick_inv t ds e [] (complete ds []) (st1\<lparr>g_prevTick := t\<rparr>)"
      and same: "g_puts st1 = g_puts st" "g_stats st1 = g_stats st" "g_pkt st1 = pkt" "g_biggestTick st1 = max t (g_biggestTick st)"
    using tick_start [of "st\<lparr>g_pkt := pkt\<rparr>" t ds] t ds(1) all by (auto simp: tick_packets_def)
  let ?st1 = "st1\<lparr>g_prevTick := t\<rparr>" and ?args = "\<lambda>st. et_packet api ho bufIds p i (of_nat (length (ds ! i))) off (int (length c)) t st"
  have "?args (st\<lparr>g_pkt := pkt\<rparr>) = ?args ?st1" 
    unfolding et_packet_def st1 by (simp add: et_select_def)
  moreover have "et_step host api ho bufIds p st (et_datagram bufIds t v r ds (i, off, c)) = ?args (st\<lparr>g_pkt := pkt\<rparr>)"
    using pkt_def by (rule et_step_datagram(1) [OF ids i len off])
  moreover have "pkt = overwrite (g_pkt ?st1) 0 (re_packet (of_nat (length (ds ! i))) t v (of_int (bufIds ! i)) r (off, c))"
    by (simp add: same pkt_def overwrite_def)
  then have "et_step host api ho bufIds p ?st1 (et_datagram bufIds t v r ds (i, off, c)) = ?args (?st1\<lparr>g_pkt := pkt\<rparr>)"
    by (rule et_step_datagram(1) [OF ids i len off])
  moreover have "?st1\<lparr>g_pkt := pkt\<rparr> = ?st1" using same(3) by simp
  ultimately have "et_loop host api ho bufIds p (map (et_datagram bufIds t v r ds) ys) st
      = et_loop host api ho bufIds p (map (et_datagram bufIds t v r ds) ys) ?st1" by (simp add: ys)
  with tick_loop [OF ids ds(1) _ \<open>ys \<noteq> []\<close> inv, of p host v r] all idle young same show ?thesis
    by (fastforce simp: et_old_def stats_ok_def idle_def)
qed

definition last_handed :: "u64 \<times> bytes list \<times> (nat \<times> piece) list \<Rightarrow> 'w et_state \<Rightarrow> bool" where
  "last_handed b st \<longleftrightarrow> (case b of (t, ds, ys) \<Rightarrow>
     g_puts st \<noteq> [] \<and> handed t ds (fst (last (g_puts st))) ys st \<and> g_biggestTick st = t)"

lemma ticks_run:
  assumes ids: "distinct bufIds" "\<forall>x \<in> set bufIds. 0 \<le> x \<and> x < 2 ^ 16" "bufIds \<noteq> []"
    and "idle st" and "sorted_wrt (<) (map fst bs)"
    and "\<forall>(t, ds, ys) \<in> set bs. length ds = length bufIds \<and> tick_packets (et_fifo_getBufSize api) ds ys
      \<and> t \<le> t + scast (4 * p) \<and> g_biggestTick st \<le> t \<and> t \<noteq> g_prevTick st"
  shows "\<exists>st'. et_loop host api ho bufIds p (et_stream bufIds v r bs) st = Reads st' \<and> idle st'
    \<and> map snd (g_puts st') = map snd (g_puts st) @ delivered_buffers bs
    \<and> (bs \<noteq> [] \<longrightarrow> last_handed (last bs) st')"
  using assms(4-)
proof (induction bs arbitrary: st)
  case Nil
  then show ?case by (simp add: et_stream_def delivered_buffers_def)
next
  case (Cons b bs)
  obtain t ds ys where b: "b = (t, ds, ys)" using prod_cases3 by blast
  have young: "\<not> t + scast (4 * p) < max t (g_biggestTick st)" "max t (g_biggestTick st) = t"
    using Cons.prems(3) b by (auto simp: max_def not_less)
  have ds: "length ds = length bufIds" "tick_packets (et_fifo_getBufSize api) ds ys" "t \<noteq> g_prevTick st"
    using Cons.prems(3) b by auto
  obtain st1 e where st1: "et_loop host api ho bufIds p (map (et_datagram bufIds t v r ds) ys) st = Reads st1"
      "g_biggestTick st1 = t" "g_prevTick st1 = t" "idle st1" "handed t ds e ys st1" "g_puts st1 = g_puts st @ [(e, map (\<lambda>d. (d, True)) ds)]"
    using tick_run [OF ids(1,2) ds(1) ids(3) ds(2) Cons.prems(1) ds(3) young(1)] young(2) by metis
  have later: "t < t'" if "(t', ds', ys') \<in> set bs" for t' ds' ys'
    using Cons.prems(2) b imageI [OF that, of fst] by (auto simp del: image_eqI)
  have "\<forall>(t', ds, ys) \<in> set bs. length ds = length bufIds \<and> tick_packets (et_fifo_getBufSize api) ds ys
      \<and> t' \<le> t' + scast (4 * p) \<and> g_biggestTick st1 \<le> t' \<and> t' \<noteq> g_prevTick st1"
    using Cons.prems(3) later st1(2,3) by (fastforce simp: less_imp_le)
  then obtain st' where "et_loop host api ho bufIds p (et_stream bufIds v r bs) st1 = Reads st'" "idle st'"
      "map snd (g_puts st') = map snd (g_puts st1) @ delivered_buffers bs" "bs \<noteq> [] \<longrightarrow> last_handed (last bs) st'"
    using Cons.IH [OF st1(4)] Cons.prems(2) by auto
  moreover have "last_handed b st'" if "bs = []"
    using that st1(2,5,6) \<open>et_loop host api ho bufIds p (et_stream bufIds v r bs) st1 = Reads st'\<close>
    by (simp add: b last_handed_def et_stream_def)
  ultimately show ?case using st1(1,6)
    by (intro exI [of _ st']) (simp add: et_stream_def delivered_buffers_def b et_loop_append)
qed

lemma et_create_ready:
  "\<exists>w F. et_create api k st = Reads (st\<lparr>g_et := w, g_free := F\<rparr>)"
proof (induction k arbitrary: st)
  case 0
  then show ?case by (intro exI [of _ "g_et st"] exI [of _ "g_free st"]) simp
next
  case (Suc k)
  obtain e w where ew: "et_fifo_entryCreate api (g_et st) = (Some e, w)" using entryCreate_ok by blast
  show ?case using Suc.IH [of "st\<lparr>g_et := w, g_free := List.insert e (g_free st)\<rparr>"] by (auto simp: ew)
qed

lemma getBuffers_run:
  assumes ids: "distinct bufIds" "\<forall>x \<in> set bufIds. 0 \<le> x \<and> x < 2 ^ 16" "bufIds \<noteq> []"
    and mem: "\<forall>a. length (mem a) = et_fifo_getBufSize api" and sts: "\<forall>m. sts = Some m \<longrightarrow> set bufIds \<subseteq> dom m"
    and bs: "sorted_wrt (<) (map fst bs)"
      "\<forall>(t, ds, ys) \<in> set bs. length ds = length bufIds \<and> tick_packets (et_fifo_getBufSize api) ds ys
        \<and> t \<le> t + scast (4 * p) \<and> t \<noteq> UINT64_MAX"
  shows "\<exists>st. getBuffers host api ho w mem pkt p sts (et_stream bufIds v r bs) = Reads st
    \<and> map snd (g_puts st) = delivered_buffers bs \<and> idle st \<and> (bs \<noteq> [] \<longrightarrow> last_handed (last bs) st)"
proof -
  obtain w' F where st0: "et_create api 10 (et_init w mem pkt sts) = Reads ((et_init w mem pkt sts)\<lparr>g_et := w', g_free := F\<rparr>)"
    using et_create_ready by blast
  let ?st0 = "(et_init w mem pkt sts)\<lparr>g_et := w', g_free := F\<rparr>"
  have idle: "idle ?st0" using mem sts by (simp add: idle_def et_init_def stats_ok_def)
  have "et_fifo_getIdCount api \<ge> 1" using bufIds(2) ids(3) by (cases bufIds) auto
  then have "getBuffers host api ho w mem pkt p sts net = et_loop host api ho bufIds p net ?st0" for net
    using bufIds(1) st0 by (simp add: getBuffers_def Let_def)
  moreover have "\<forall>(t, ds, ys) \<in> set bs. length ds = length bufIds \<and> tick_packets (et_fifo_getBufSize api) ds ys
      \<and> t \<le> t + scast (4 * p) \<and> g_biggestTick ?st0 \<le> t \<and> t \<noteq> g_prevTick ?st0"
    using bs(2) by (auto simp: et_init_def)
  ultimately show ?thesis
    using ticks_run [OF ids idle bs(1), of p host v r] by (auto simp: et_init_def)
qed

lemma getBuffers_delivers:
  assumes "distinct bufIds" and "\<forall>x \<in> set bufIds. 0 \<le> x \<and> x < 2 ^ 16" and "bufIds \<noteq> []"
    and "\<forall>a. length (mem a) = et_fifo_getBufSize api" and "\<forall>m. sts = Some m \<longrightarrow> set bufIds \<subseteq> dom m"
    and "sorted_wrt (<) (map fst bs)"
      "\<forall>(t, ds, ys) \<in> set bs. length ds = length bufIds \<and> tick_packets (et_fifo_getBufSize api) ds ys
        \<and> t \<le> t + scast (4 * p) \<and> t \<noteq> UINT64_MAX"
  shows "\<exists>st. getBuffers host api ho w mem pkt p sts (et_stream bufIds v r bs) = Reads st
    \<and> map snd (g_puts st) = delivered_buffers bs \<and> g_buffers st = []"
  using getBuffers_run [OF assms, of host w pkt v r] by (auto simp: idle_def)

end

section \<open>A plain ET system\<close>

text \<open>
  An ET system with events to spare: every entry is created anew, and a new entry gets events
  no one else has, without data. It meets what the receiver relies on.
\<close>

record et_sys =
  es_made :: nat
  es_events :: nat
  es_bufs :: "nat \<Rightarrow> nat \<Rightarrow> nat"
  es_event :: "nat \<Rightarrow> et_event"

definition plain_new :: "int list \<Rightarrow> nat \<Rightarrow> et_sys \<Rightarrow> et_sys" where
  "plain_new ids e s = s\<lparr>es_events := es_events s + length ids, es_bufs := (es_bufs s)(e := \<lambda>i. es_events s + i),
     es_event := \<lambda>v. if v < es_events s then es_event s v else \<lparr>pdata = v, ev_length = 0, control = [0, 0, 0, 0, 0, 0]\<rparr>\<rparr>"

definition plain_set :: "(et_event \<Rightarrow> et_event) \<Rightarrow> nat \<Rightarrow> et_sys \<Rightarrow> et_sys" where
  "plain_set f v s = s\<lparr>es_event := (es_event s)(v := f (es_event s v))\<rparr>"

definition plain_et :: "int list \<Rightarrow> nat \<Rightarrow> et_sys et_api" where
  "plain_et ids sz = \<lparr>et_fifo_getBufSize = sz, et_fifo_getIdCount = int (length ids), et_fifo_getBufIds = Some ids,
     et_fifo_entryCreate = (\<lambda>s. (Some (es_made s), s\<lparr>es_made := es_made s + 1\<rparr>)),
     et_fifo_newEntry = (\<lambda>e s. (ET_OK, plain_new ids e s)),
     et_fifo_getBufs = es_bufs,
     et_fifo_setHasData = (\<lambda>v h. plain_set (\<lambda>x. x\<lparr>control := (control x)[1 := h]\<rparr>) v),
     et_fifo_allHaveData = (\<lambda>s e. list_all (\<lambda>i. control (es_event s (es_bufs s e i)) ! 1 \<noteq> 0) [0..<length ids]),
     et_fifo_putEntry = (\<lambda>e s. s),
     et_event_getdata = (\<lambda>s v. pdata (es_event s v)),
     et_event_getcontrol = (\<lambda>s v. control (es_event s v)),
     et_event_setcontrol = (\<lambda>v con. plain_set (\<lambda>x. x\<lparr>control := con\<rparr>) v),
     et_event_getlength = (\<lambda>s v. ev_length (es_event s v)),
     et_event_setlength = (\<lambda>v n. plain_set (\<lambda>x. x\<lparr>ev_length := n\<rparr>) v)\<rparr>"

definition plain_orders :: hash_orders where
  "plain_orders = \<lparr>ho_free = (\<lambda>xs. xs), ho_buffers = (\<lambda>xs. xs)\<rparr>"

definition plain_start :: et_sys where
  "plain_start = \<lparr>es_made = 0, es_events = 0, es_bufs = (\<lambda>_ _. 0),
     es_event = (\<lambda>_. \<lparr>pdata = 0, ev_length = 0, control = []\<rparr>)\<rparr>"

lemmas plain_defs = plain_et_def plain_new_def plain_set_def plain_orders_def ET_OK_def ET_STATION_SELECT_INTS_def

interpretation plain: et_fifo_ready "plain_et ids sz" plain_orders es_event "\<lambda>s. {..<es_made s}" ids
  by unfold_locales (auto simp: plain_defs list_all_iff inj_on_def fun_eq_iff)

section \<open>Properties\<close>

text \<open>
  C7: the receiver loses no entry and uses none twice. Whatever datagrams arrive, when the next is
  awaited every entry that was created is either free or belongs to exactly one tick, and no
  tick is kept that is more than four prescales older than the newest.
\<close>

theorem et_entries_accounted:
  assumes "et_fifo api ho event made bufIds" and "getBuffers host api ho w mem pkt p sts net = Reads st"
  shows "distinct (g_free st @ map snd (g_buffers st)) \<and> distinct (map fst (g_buffers st))
    \<and> made (g_et st) - made w = set (g_free st) \<union> snd ` set (g_buffers st)
    \<and> list_all (\<lambda>(t, e). g_biggestTick st \<le> t + scast (4 * p)) (g_buffers st)"
proof -
  have "et_fifo.receiver_ok made (made w) p st"
    using et_fifo.getBuffers_entries [OF assms] .
  then show ?thesis
    by (auto simp: et_fifo.receiver_ok_def [OF assms(1)] et_fifo.entries_ok_def [OF assms(1)] list_all_iff et_old_def not_less)
qed

text \<open>Two sources and a tick whose packets come in mixed order.\<close>

definition et_example :: "(u64 \<times> bytes list \<times> (nat \<times> piece) list) list" where
  "et_example = [(5, [[1, 2, 3], [4, 5]], [(1, 1, [5]), (0, 0, [1, 2]), (1, 0, [4]), (0, 2, [3])])]"

lemma et_example_ok:
  "tick_packets 4 [[1, 2, 3], [4, 5]] [(1, 1, [5]), (0, 0, [1, 2]), (1, 0, [4]), (0, 2, [3])]"
proof -
  have "tiles [1, 2, 3] [(0, [1, 2]), (2, [3])]" "tiles [4, 5] [(1, [5]), (0, [4])]"
    by (auto simp: tiles_def piece_of_def covered_def)
  then show ?thesis by (auto simp: tick_packets_def less_Suc_eq size_defs et_pktBufSize_def)
qed

lemma et_example_run:
  "\<exists>st. getBuffers ENDIAN_LITTLE (plain_et [7, 9] 4) plain_orders plain_start (\<lambda>_. replicate 4 0) [] 1 None
      (et_stream [7, 9] 2 0 et_example) = Reads st
    \<and> map snd (g_puts st) = delivered_buffers et_example \<and> g_buffers st = []"
  by (rule plain.getBuffers_delivers)
     (use et_example_ok in \<open>simp_all add: et_example_def UINT64_MAX_def plain_et_def word_le_nat_alt\<close>)

theorem et_entries_accounted_witness:
  "\<exists>st. getBuffers ENDIAN_LITTLE (plain_et [7, 9] 4) plain_orders plain_start (\<lambda>_. replicate 4 0) [] 1 None
      (et_stream [7, 9] 2 0 et_example) = Reads st
    \<and> {..<es_made (g_et st)} = set (g_free st)"
proof -
  obtain st where st: "getBuffers ENDIAN_LITTLE (plain_et [7, 9] 4) plain_orders plain_start (\<lambda>_. replicate 4 0) [] 1 None
      (et_stream [7, 9] 2 0 et_example) = Reads st" "g_buffers st = []"
    using et_example_run by blast
  with et_entries_accounted [OF plain.et_fifo_axioms st(1)] show ?thesis
    by (intro exI [of _ st]) (simp add: plain_start_def)
qed

text \<open>
  C6: ticks that arrive one after the other are delivered. When every tick brings the packets of all sources
  in any order, each entry put into the ET system holds exactly the buffers of
  one tick, every event marked as having data, in the order of the ticks; and the receiver
  is back with no entry under construction.
\<close>

theorem et_ticks_delivered:
  assumes "et_fifo_ready api ho event made bufIds"
    and "distinct bufIds" and "\<forall>x \<in> set bufIds. 0 \<le> x \<and> x < 2 ^ 16" and "bufIds \<noteq> []"
    and "\<forall>a. length (mem a) = et_fifo_getBufSize api" and "\<forall>m. sts = Some m \<longrightarrow> set bufIds \<subseteq> dom m"
    and "sorted_wrt (<) (map fst bs)"
    and "\<forall>(t, ds, ys) \<in> set bs. length ds = length bufIds \<and> tick_packets (et_fifo_getBufSize api) ds ys
      \<and> t \<le> t + scast (4 * p) \<and> t \<noteq> UINT64_MAX"
  shows "\<exists>st. getBuffers host api ho w mem pkt p sts (et_stream bufIds v r bs) = Reads st
    \<and> map snd (g_puts st) = delivered_buffers bs \<and> g_buffers st = []"
  by (rule et_fifo_ready.getBuffers_delivers [OF assms])

theorem et_ticks_delivered_witness:
  "\<exists>st. getBuffers ENDIAN_BIG (plain_et [7, 9] 4) plain_orders plain_start (\<lambda>_. replicate 4 0) [] 1 None
      (et_stream [7, 9] 2 0 et_example) = Reads st
    \<and> map snd (g_puts st) = [[([1, 2, 3], True), ([4, 5], True)]] \<and> g_buffers st = []"
proof -
  have "\<exists>st. getBuffers ENDIAN_BIG (plain_et [7, 9] 4) plain_orders plain_start (\<lambda>_. replicate 4 0) [] 1 None
      (et_stream [7, 9] 2 0 et_example) = Reads st
    \<and> map snd (g_puts st) = delivered_buffers et_example \<and> g_buffers st = []"
    by (rule et_ticks_delivered [OF plain.et_fifo_ready_axioms])
       (use et_example_ok in \<open>simp_all add: et_example_def UINT64_MAX_def plain_et_def word_le_nat_alt\<close>)
  then show ?thesis by (simp add: delivered_buffers_def et_example_def)
qed

section \<open>Where it goes wrong\<close>

context et_fifo
begin

text \<open>
  Packets \<open>xs\<close> of tick \<open>t\<close> since the receiver has returned to it: the event of source \<open>i\<close> is not
  marked, and only the bytes of \<open>xs\<close> are counted for it.
\<close>

definition stint :: "u64 \<Rightarrow> nat \<Rightarrow> nat \<Rightarrow> (nat \<times> piece) list \<Rightarrow> 'w et_state \<Rightarrow> bool" where
  "stint t e i xs st \<longleftrightarrow> g_prevTick st = t \<and> g_entry st = e
     \<and> g_events st = map (et_fifo_getBufs api (g_et st) e) [0..<length bufIds] \<and> length (g_bufs st) = length bufIds
     \<and> inj_on (et_fifo_getBufs api (g_et st) e) {..<length bufIds}
     \<and> length (g_controls st) = length bufIds \<and> (\<forall>c \<in> set (g_controls st). length c = ET_STATION_SELECT_INTS)
     \<and> g_controls st ! i ! 1 = 0 \<and> control (event (g_et st) (et_fifo_getBufs api (g_et st) e i)) ! 1 = 0
     \<and> length (g_packetCnts st) = length bufIds \<and> length (g_bytesWritten st) = length bufIds
     \<and> g_bytesWritten st ! i = total_len (own_pieces i xs)
     \<and> (\<forall>a. length (g_mem st a) = et_fifo_getBufSize api)"

lemma stint_store:
  assumes inv: "stint t e i xs st" and i: "i < length bufIds" and k: "k < length bufIds"
    and room: "off + length c \<le> et_fifo_getBufSize api" and len: "length d \<le> et_fifo_getBufSize api" "length d < 2 ^ 32"
    and pkt: "take (length c) (drop RE_HEADER_BYTES (g_pkt st)) = c"
  shows "\<exists>st' full. et_store api k (of_nat (length d)) off (int (length c)) st = Reads (st', full)
    \<and> stint t e i (xs @ [(k, off, c)]) st' \<and> (k = i \<longrightarrow> full = (length d \<le> total_len (own_pieces i (xs @ [(k, off, c)]))))
    \<and> g_event st' = et_fifo_getBufs api (g_et st') e k
    \<and> g_buffers st' = g_buffers st \<and> g_puts st' = g_puts st \<and> g_biggestTick st' = g_biggestTick st"
proof -
  let ?w = "g_et st" and ?v = "et_fifo_getBufs api (g_et st) e k" and ?a = "g_bufs st ! k"
  let ?con = "(g_controls st ! k)[5 := g_packetCnts st ! k + 1]" and ?total = "g_bytesWritten st ! k + length c"
  define st' where "st' = st\<lparr>g_event := ?v, g_mem := (g_mem st)(?a := overwrite (g_mem st ?a) off c),
    g_et := et_event_setcontrol api ?v ?con (et_event_setlength api ?v ?total ?w),
    g_packetCnts := (g_packetCnts st)[k := g_packetCnts st ! k + 1], g_bytesWritten := (g_bytesWritten st)[k := ?total]\<rparr>"
  have con: "length (g_controls st ! k) = ET_STATION_SELECT_INTS" using inv k by (simp add: stint_def)
  have at: "g_events st ! k = ?v" "k < length (g_events st)" "length (g_mem st ?a) = et_fifo_getBufSize api"
    using inv k by (simp_all add: stint_def)
  have "et_store api k (of_nat (length d)) off (int (length c)) st = Reads (st', length d \<le> ?total)"
    using at room len pkt by (simp add: et_store_def Let_def st'_def unat_of_nat_u32)
  moreover have "et_fifo_getBufs api ?w e i = ?v \<longleftrightarrow> i = k" using inv i k by (auto simp: stint_def dest: inj_onD)
  then have "stint t e i (xs @ [(k, off, c)]) st'"
    using inv i k con room
    by (auto simp: stint_def st'_def setcontrol setlength own_pieces_snoc nth_list_update ET_STATION_SELECT_INTS_def)
  moreover have "k = i \<longrightarrow> ?total = total_len (own_pieces i (xs @ [(k, off, c)]))"
    using inv by (simp add: stint_def own_pieces_snoc)
  ultimately show ?thesis
    by (intro exI [of _ st'] exI [of _ "length d \<le> ?total"]) (simp add: st'_def con setcontrol setlength)
qed

text \<open>Another source may become complete, which changes nothing but its own mark.\<close>

lemma stint_complete:
  assumes inv: "stint t e i xs st" and i: "i < length bufIds" "k < length bufIds" "k \<noteq> i"
    and ev: "g_event st = et_fifo_getBufs api (g_et st) e k"
  shows "\<exists>st'. et_complete api bufIds t st = Reads st' \<and> stint t e i xs st'
    \<and> g_buffers st' = g_buffers st \<and> g_puts st' = g_puts st \<and> g_biggestTick st' = g_biggestTick st"
proof -
  define st' where "st' = st\<lparr>g_et := et_fifo_setHasData api (g_event st) 1 (g_et st)\<rparr>"
  have "et_fifo_getBufs api (g_et st) e i \<noteq> g_event st" using inv i ev by (auto simp: stint_def dest: inj_onD)
  then have inv': "stint t e i xs st'" using inv by (simp add: stint_def st'_def setHasData)
  then have "\<not> et_fifo_allHaveData api (g_et st') (g_entry st')" using i(1) by (auto simp: allHaveData stint_def)
  then have "et_complete api bufIds t st = Reads st'" by (simp add: et_complete_def st'_def Let_def)
  with inv' show ?thesis by (intro exI [of _ st']) (simp add: st'_def)
qed

definition fits :: "bytes list \<Rightarrow> nat \<times> piece \<Rightarrow> bool" where
  "fits ds x \<longleftrightarrow> (case x of (k, off, c) \<Rightarrow> k < length bufIds \<and> off + length c \<le> et_fifo_getBufSize api \<and> off < 2 ^ 32
     \<and> RE_HEADER_BYTES + length c \<le> et_pktBufSize \<and> length (ds ! k) \<le> et_fifo_getBufSize api \<and> length (ds ! k) < 2 ^ 32)"

lemma stint_packet:
  assumes inv: "stint t e i xs st" and i: "i < length bufIds" and x: "fits ds (k, off, c)"
    and few: "total_len (own_pieces i (xs @ [(k, off, c)])) < length (ds ! i)"
    and young: "\<forall>(t', e') \<in> set (g_buffers st). \<not> et_old p st t'"
    and pkt: "take (length c) (drop RE_HEADER_BYTES (g_pkt st)) = c"
  shows "\<exists>st'. et_packet api ho bufIds p k (of_nat (length (ds ! k))) off (int (length c)) t st = Reads st'
    \<and> stint t e i (xs @ [(k, off, c)]) st'
    \<and> g_buffers st' = g_buffers st \<and> g_puts st' = g_puts st \<and> g_biggestTick st' = g_biggestTick st"
proof -
  have k: "k < length bufIds" and room: "off + length c \<le> et_fifo_getBufSize api"
      and len: "length (ds ! k) \<le> et_fifo_getBufSize api" "length (ds ! k) < 2 ^ 32"
    using x by (simp_all add: fits_def)
  have sel: "et_select api ho (length bufIds) t st = Reads st" "st\<lparr>g_prevTick := t\<rparr> = st"
    using inv by (auto simp: et_select_def stint_def)
  obtain st2 full where st2: "et_store api k (of_nat (length (ds ! k))) off (int (length c)) st = Reads (st2, full)"
      "stint t e i (xs @ [(k, off, c)]) st2"
      "k = i \<longrightarrow> full = (length (ds ! k) \<le> total_len (own_pieces i (xs @ [(k, off, c)])))" "g_event st2 = et_fifo_getBufs api (g_et st2) e k"
      "g_buffers st2 = g_buffers st" "g_puts st2 = g_puts st" "g_biggestTick st2 = g_biggestTick st"
    using stint_store [OF inv i k room len pkt] by blast
  then have other: "full \<Longrightarrow> k \<noteq> i" using few by auto
  obtain st3 where st3: "(if full then et_complete api bufIds t st2 else Reads st2) = Reads st3"
      "stint t e i (xs @ [(k, off, c)]) st3" "g_buffers st3 = g_buffers st" "g_puts st3 = g_puts st"
      "g_biggestTick st3 = g_biggestTick st"
    using stint_complete [OF st2(2) i k other st2(4)] st2 by (cases full) auto
  have "\<forall>(t', e') \<in> set (g_buffers st3). \<not> et_old p st3 t'" using young st3(3,5) by (simp add: et_old_def)
  then have "et_packet api ho bufIds p k (of_nat (length (ds ! k))) off (int (length c)) t st = Reads st3"
    unfolding et_packet_def sel et_then.simps st2(1) prod.case st3(1) by (rule et_clean_young)
  with st3 show ?thesis by blast
qed

lemma stint_loop:
  assumes ids: "distinct bufIds" "\<forall>x \<in> set bufIds. 0 \<le> x \<and> x < 2 ^ 16" and i: "i < length bufIds"
    and "stint t e i xs st" and "\<forall>y \<in> set ys. fits ds y" and "total_len (own_pieces i (xs @ ys)) < length (ds ! i)"
    and "\<forall>(t', e') \<in> set (g_buffers st). \<not> et_old p st t'"
  shows "\<exists>st'. et_loop host api ho bufIds p (map (et_datagram bufIds t v r ds) ys) st = Reads st'
    \<and> stint t e i (xs @ ys) st' \<and> g_buffers st' = g_buffers st \<and> g_puts st' = g_puts st"
  using assms(4-)
proof (induction ys arbitrary: xs st)
  case Nil
  then show ?case by simp
next
  case (Cons y ys)
  obtain k off c where y: "y = (k, off, c)" using prod_cases3 by blast
  have x: "fits ds (k, off, c)" using Cons.prems(2) y by simp
  then have "k < length bufIds" "RE_HEADER_BYTES + length c \<le> et_pktBufSize" "off < 2 ^ 32" by (simp_all add: fits_def)
  note step = et_step_datagram [OF ids this]
  define pkt where "pkt = overwrite (g_pkt st) 0 (re_packet (of_nat (length (ds ! k))) t v (of_int (bufIds ! k)) r (off, c))"
  have pkt: "et_step host api ho bufIds p st (et_datagram bufIds t v r ds y)
      = et_packet api ho bufIds p k (of_nat (length (ds ! k))) off (int (length c)) t (st\<lparr>g_pkt := pkt\<rparr>)"
      "take (length c) (drop RE_HEADER_BYTES pkt) = c"
    unfolding y by (rule step [OF pkt_def])+
  have "stint t e i xs (st\<lparr>g_pkt := pkt\<rparr>)" using Cons.prems(1) by (simp add: stint_def)
  moreover have "total_len (own_pieces i (xs @ [(k, off, c)])) < length (ds ! i)" using Cons.prems(3) by (simp add: y)
  ultimately obtain st1 where st1: "et_packet api ho bufIds p k (of_nat (length (ds ! k))) off (int (length c)) t (st\<lparr>g_pkt := pkt\<rparr>) = Reads st1"
      "stint t e i (xs @ [(k, off, c)]) st1" "g_buffers st1 = g_buffers st" "g_puts st1 = g_puts st" "g_biggestTick st1 = g_biggestTick st"
    using stint_packet [OF _ i x, of t e xs "st\<lparr>g_pkt := pkt\<rparr>" p] pkt(2) Cons.prems(4) by (auto simp: et_old_def)
  with Cons.IH [of "xs @ [(k, off, c)]" st1] Cons.prems(2-4) pkt(1) show ?case by (simp add: y et_old_def)
qed

lemma return_to_tick:
  assumes ids: "distinct bufIds" "\<forall>x \<in> set bufIds. 0 \<le> x \<and> x < 2 ^ 16" and i: "i < length bufIds"
    and t: "t \<noteq> g_prevTick st" "map_of (g_buffers st) t = Some e"
    and young: "\<forall>(t', e') \<in> set (g_buffers st). \<not> et_old p st t'"
    and con: "\<forall>k < length bufIds. length (control (event (g_et st) (et_fifo_getBufs api (g_et st) e k))) = ET_STATION_SELECT_INTS"
    and inj: "inj_on (et_fifo_getBufs api (g_et st) e) {..<length bufIds}"
    and unmarked: "control (event (g_et st) (et_fifo_getBufs api (g_et st) e i)) ! 1 = 0"
    and mem: "\<forall>a. length (g_mem st a) = et_fifo_getBufSize api"
    and ys: "\<forall>y \<in> set ys. fits ds y" "total_len (own_pieces i ys) < length (ds ! i)"
  shows "\<exists>st'. et_loop host api ho bufIds p (map (et_datagram bufIds t v r ds) ys) st = Reads st'
    \<and> g_puts st' = g_puts st \<and> g_buffers st' = g_buffers st
    \<and> control (event (g_et st') (et_fifo_getBufs api (g_et st') e i)) ! 1 = 0"
proof (cases ys)
  case Nil
  with unmarked show ?thesis by simp
next
  case (Cons y zs)
  obtain k off c where y: "y = (k, off, c)" using prod_cases3 by blast
  define st1 where "st1 = (et_cache api (length bufIds) e st)\<lparr>g_prevTick := t\<rparr>"
  define pkt where "pkt = overwrite (g_pkt st) 0 (re_packet (of_nat (length (ds ! k))) t v (of_int (bufIds ! k)) r (off, c))"
  let ?args = "et_packet api ho bufIds p k (of_nat (length (ds ! k))) off (int (length c)) t"
  have x: "k < length bufIds" "RE_HEADER_BYTES + length c \<le> et_pktBufSize" "off < 2 ^ 32"
    using ys(1) Cons y by (simp_all add: fits_def)
  have stint: "stint t e i [] st1"
    using con inj unmarked mem i by (auto simp: stint_def st1_def et_cache_def Let_def getters)
  have "et_select api ho (length bufIds) t (st\<lparr>g_pkt := pkt\<rparr>) = Reads (et_cache api (length bufIds) e (st\<lparr>g_pkt := pkt\<rparr>))"
    using t by (simp add: et_select_def)
  moreover have "(et_cache api (length bufIds) e (st\<lparr>g_pkt := pkt\<rparr>))\<lparr>g_prevTick := t\<rparr> = st1\<lparr>g_pkt := pkt\<rparr>"
    by (simp add: st1_def et_cache_def Let_def)
  moreover have "et_select api ho (length bufIds) t (st1\<lparr>g_pkt := pkt\<rparr>) = Reads (st1\<lparr>g_pkt := pkt\<rparr>)"
    "(st1\<lparr>g_pkt := pkt\<rparr>)\<lparr>g_prevTick := t\<rparr> = st1\<lparr>g_pkt := pkt\<rparr>"
    by (simp_all add: et_select_def st1_def)
  ultimately have "?args (st\<lparr>g_pkt := pkt\<rparr>) = ?args (st1\<lparr>g_pkt := pkt\<rparr>)" unfolding et_packet_def by simp
  moreover have "g_pkt st1 = g_pkt st" by (simp add: st1_def et_cache_def Let_def)
  ultimately have "et_step host api ho bufIds p st (et_datagram bufIds t v r ds y)
      = et_step host api ho bufIds p st1 (et_datagram bufIds t v r ds y)"
    using et_step_datagram(1) [OF ids x pkt_def] et_step_datagram(1) [OF ids x, of pkt st1] by (simp add: y pkt_def)
  then have "et_loop host api ho bufIds p (map (et_datagram bufIds t v r ds) ys) st
      = et_loop host api ho bufIds p (map (et_datagram bufIds t v r ds) ys) st1" by (simp add: Cons)
  moreover have "g_buffers st1 = g_buffers st" "g_puts st1 = g_puts st" "g_biggestTick st1 = g_biggestTick st"
    by (simp_all add: st1_def et_cache_def Let_def)
  ultimately show ?thesis
    using stint_loop [OF ids i stint ys(1), of p host v r] ys(2) young by (fastforce simp: et_old_def stint_def)
qed

end

lemma et_create_plain:
  "\<forall>e \<in> set (g_free st). e < es_made (g_et st) \<Longrightarrow>
    et_create (plain_et ids sz) k st
    = Reads (st\<lparr>g_et := (g_et st)\<lparr>es_made := es_made (g_et st) + k\<rparr>,
        g_free := rev [es_made (g_et st)..<es_made (g_et st) + k] @ g_free st\<rparr>)"
proof (induction k arbitrary: st)
  case (Suc k)
  let ?m = "es_made (g_et st)"
  let ?st = "st\<lparr>g_et := (g_et st)\<lparr>es_made := ?m + 1\<rparr>, g_free := ?m # g_free st\<rparr>"
  have "?m \<notin> set (g_free st)" using Suc.prems by blast
  then have "et_create (plain_et ids sz) (Suc k) st = et_create (plain_et ids sz) k ?st"
    by (simp add: plain_et_def)
  also have "\<dots> = Reads (?st\<lparr>g_et := (g_et ?st)\<lparr>es_made := ?m + 1 + k\<rparr>, g_free := rev [?m + 1..<?m + 1 + k] @ g_free ?st\<rparr>)"
    using Suc.IH [of ?st] Suc.prems by (simp add: less_Suc_eq)
  finally show ?case by (simp add: upt_conv_Cons)
qed simp

lemma plain_simps:
  "et_fifo_getBufSize (plain_et ids sz) = sz" "et_fifo_newEntry (plain_et ids sz) e s = (ET_OK, plain_new ids e s)"
  "et_fifo_getBufs (plain_et ids sz) = es_bufs" "et_fifo_putEntry (plain_et ids sz) e s = s"
  "et_fifo_setHasData (plain_et ids sz) v h = plain_set (\<lambda>x. x\<lparr>control := (control x)[1 := h]\<rparr>) v"
  "et_fifo_allHaveData (plain_et ids sz) s e = list_all (\<lambda>i. control (es_event s (es_bufs s e i)) ! 1 \<noteq> 0) [0..<length ids]"
  "et_event_getdata (plain_et ids sz) s v = pdata (es_event s v)" "et_event_getcontrol (plain_et ids sz) s v = control (es_event s v)"
  "et_event_setcontrol (plain_et ids sz) v con = plain_set (\<lambda>x. x\<lparr>control := con\<rparr>) v"
  "et_event_getlength (plain_et ids sz) s v = ev_length (es_event s v)"
  "et_event_setlength (plain_et ids sz) v n = plain_set (\<lambda>x. x\<lparr>ev_length := n\<rparr>) v"
  by (simp_all add: plain_et_def)

lemmas et_run_defs = et_packet_def et_select_def et_newTick_def et_takeEntry_def et_cache_def et_store_def et_complete_def
  et_keepStats_def et_put_def et_contents_def et_old_def Let_def plain_simps plain_new_def plain_set_def plain_orders_def
  ET_OK_def UINT64_MAX_def plain_start_def et_init_def

lemma et_step_single:
  assumes "length c \<le> 8000" and "off < 2 ^ 32"
  shows "et_step host api ho [7] p st (et_datagram [7] t v r [d] (0, off, c))
      = et_packet api ho [7] p 0 (of_nat (length d)) off (int (length c)) t
          (st\<lparr>g_pkt := overwrite (g_pkt st) 0 (re_packet (of_nat (length d)) t v 7 r (off, c))\<rparr>)"
  using et_step_datagram(1) [where bufIds = "[7]" and i = 0 and ds = "[d]" and c = c and off = off, OF _ _ _ _ _ refl] assms
  by (simp add: size_defs et_pktBufSize_def)

lemma et_data_single:
  "n = length c \<Longrightarrow> take n (drop RE_HEADER_BYTES (overwrite m 0 (re_packet l t v i r (off, c)))) = c"
  by (simp add: overwrite_def re_packet_def size_defs)

lemma et_example_start:
  "getBuffers ENDIAN_LITTLE (plain_et [7] 4) plain_orders plain_start (\<lambda>_. replicate 4 0) [] 1 None net
    = et_loop ENDIAN_LITTLE (plain_et [7] 4) plain_orders [7] 1 net ((et_init plain_start (\<lambda>_. replicate 4 0) [] None)
        \<lparr>g_et := plain_start\<lparr>es_made := 10\<rparr>, g_free := [9, 8, 7, 6, 5, 4, 3, 2, 1, 0]\<rparr>)"
proof -
  let ?init = "et_init plain_start (\<lambda>_. replicate 4 0) [] None"
  have "et_create (plain_et [7] 4) 10 ?init
      = Reads (?init\<lparr>g_et := plain_start\<lparr>es_made := 10\<rparr>, g_free := [9, 8, 7, 6, 5, 4, 3, 2, 1, 0]\<rparr>)"
    using et_create_plain [of ?init "[7]" 4 10] by (simp add: et_init_def plain_start_def upt_rec)
  then show ?thesis by (simp add: getBuffers_def Let_def plain.bufIds)
qed

lemma et_example_interleaved:
  "\<exists>st. getBuffers ENDIAN_LITTLE (plain_et [7] 4) plain_orders plain_start (\<lambda>_. replicate 4 0) [] 1 None
      [et_datagram [7] 5 2 0 [[1, 2, 3]] (0, 0, [1, 2]), et_datagram [7] 6 2 0 [[4, 5, 6]] (0, 0, [4])] = Reads st
    \<and> g_prevTick st = 6 \<and> g_buffers st = [(6, 8), (5, 9)] \<and> g_biggestTick st = 6 \<and> g_puts st = []
    \<and> es_bufs (g_et st) 9 0 = 0 \<and> length (control (es_event (g_et st) 0)) = 6 \<and> control (es_event (g_et st) 0) ! 1 = 0
    \<and> (\<forall>a. length (g_mem st a) = 4)"
  unfolding et_example_start by (simp add: et_step_single et_data_single et_run_defs)

text \<open>
  C30: bytes that arrived before a packet of another tick do not count. When the receiver
  returns to tick \<open>t\<close>, whose entry is under construction, and the event of source \<open>i\<close> is not yet
  marked, then any packets of that tick, of all sources and in any number, leave the event
  unmarked and put nothing into the ET system, as long as they alone do not bring
  all the bytes of the buffer of \<open>i\<close>, however many of them had arrived before.
\<close>

theorem et_return_loses_count:
  assumes "et_fifo api ho event made bufIds"
    and "distinct bufIds" and "\<forall>x \<in> set bufIds. 0 \<le> x \<and> x < 2 ^ 16" and "i < length bufIds"
    and "t \<noteq> g_prevTick st" and "map_of (g_buffers st) t = Some e"
    and "\<forall>(t', e') \<in> set (g_buffers st). \<not> et_old p st t'"
    and "\<forall>k < length bufIds. length (control (event (g_et st) (et_fifo_getBufs api (g_et st) e k))) = ET_STATION_SELECT_INTS"
    and "inj_on (et_fifo_getBufs api (g_et st) e) {..<length bufIds}"
    and "control (event (g_et st) (et_fifo_getBufs api (g_et st) e i)) ! 1 = 0"
    and "\<forall>a. length (g_mem st a) = et_fifo_getBufSize api"
    and "\<forall>(k, off, c) \<in> set ys. k < length bufIds \<and> off + length c \<le> et_fifo_getBufSize api \<and> off < 2 ^ 32
      \<and> RE_HEADER_BYTES + length c \<le> et_pktBufSize \<and> length (ds ! k) \<le> et_fifo_getBufSize api \<and> length (ds ! k) < 2 ^ 32"
    and "total_len (own_pieces i ys) < length (ds ! i)"
  shows "\<exists>st'. et_loop host api ho bufIds p (map (et_datagram bufIds t v r ds) ys) st = Reads st'
    \<and> g_puts st' = g_puts st \<and> g_buffers st' = g_buffers st
    \<and> control (event (g_et st') (et_fifo_getBufs api (g_et st') e i)) ! 1 = 0"
proof -
  have "\<forall>y \<in> set ys. et_fifo.fits api bufIds ds y" using assms(12) by (simp add: et_fifo.fits_def [OF assms(1)])
  then show ?thesis by (rule et_fifo.return_to_tick [OF assms(1-11) _ assms(13)])
qed

text \<open>The last byte of tick 5 arrives after the first packet of tick 6: tick 5 is complete but not delivered.\<close>

theorem et_return_loses_count_witness:
  "\<exists>st st'. getBuffers ENDIAN_LITTLE (plain_et [7] 4) plain_orders plain_start (\<lambda>_. replicate 4 0) [] 1 None
      [et_datagram [7] 5 2 0 [[1, 2, 3]] (0, 0, [1, 2]), et_datagram [7] 6 2 0 [[4, 5, 6]] (0, 0, [4])] = Reads st
    \<and> et_loop ENDIAN_LITTLE (plain_et [7] 4) plain_orders [7] 1 [et_datagram [7] 5 2 0 [[1, 2, 3]] (0, 2, [3])] st = Reads st'
    \<and> g_puts st' = [] \<and> (5, 9) \<in> set (g_buffers st')"
proof -
  obtain st where st: "getBuffers ENDIAN_LITTLE (plain_et [7] 4) plain_orders plain_start (\<lambda>_. replicate 4 0) [] 1 None
      [et_datagram [7] 5 2 0 [[1, 2, 3]] (0, 0, [1, 2]), et_datagram [7] 6 2 0 [[4, 5, 6]] (0, 0, [4])] = Reads st"
    "g_prevTick st = 6" "g_buffers st = [(6, 8), (5, 9)]" "g_biggestTick st = 6" "g_puts st = []"
    "es_bufs (g_et st) 9 0 = 0" "length (control (es_event (g_et st) 0)) = 6" "control (es_event (g_et st) 0) ! 1 = 0"
    "\<forall>a. length (g_mem st a) = 4"
    using et_example_interleaved by blast
  have "\<exists>st'. et_loop ENDIAN_LITTLE (plain_et [7] 4) plain_orders [7] 1 (map (et_datagram [7] 5 2 0 [[1, 2, 3]]) [(0, 2, [3])]) st = Reads st'
    \<and> g_puts st' = g_puts st \<and> g_buffers st' = g_buffers st
    \<and> control (es_event (g_et st') (et_fifo_getBufs (plain_et [7] 4) (g_et st') 9 0)) ! 1 = 0"
    by (rule et_return_loses_count [OF plain.et_fifo_axioms])
       (simp_all add: st plain_simps et_old_def ET_STATION_SELECT_INTS_def size_defs et_pktBufSize_def word_less_nat_alt
          lessThan_Suc del: One_nat_def)
  then obtain st' where "et_loop ENDIAN_LITTLE (plain_et [7] 4) plain_orders [7] 1 [et_datagram [7] 5 2 0 [[1, 2, 3]] (0, 2, [3])] st = Reads st'"
    "g_puts st' = []" "(5, 9) \<in> set (g_buffers st')"
    using st(3,5) by auto
  with st(1) show ?thesis by (intro exI [of _ st] exI [of _ st'] conjI)
qed

context et_fifo
begin

lemma late_packet:
  assumes ids: "distinct bufIds" "\<forall>x \<in> set bufIds. 0 \<le> x \<and> x < 2 ^ 16" and i: "i < length bufIds"
    and t: "g_prevTick st = t" "g_entry st = e" and ev: "i < length (g_events st)" "g_events st ! i = et_fifo_getBufs api (g_et st) e i"
    and con: "length (g_controls st ! i) = ET_STATION_SELECT_INTS"
    and marked: "\<forall>k < length bufIds. k \<noteq> i \<longrightarrow> et_fifo_getBufs api (g_et st) e k \<noteq> et_fifo_getBufs api (g_et st) e i
      \<and> control (event (g_et st) (et_fifo_getBufs api (g_et st) e k)) ! 1 \<noteq> 0"
    and young: "list_all (\<lambda>(t', e'). \<not> et_old p st t') (g_buffers st)" and sts: "\<forall>m. g_stats st = Some m \<longrightarrow> set bufIds \<subseteq> dom m"
    and room: "off + length c \<le> length (g_mem st (g_bufs st ! i))" and full: "length (ds ! i) \<le> g_bytesWritten st ! i + length c"
    and len: "length (ds ! i) \<le> et_fifo_getBufSize api" "length (ds ! i) < 2 ^ 32" "off < 2 ^ 32" "RE_HEADER_BYTES + length c \<le> et_pktBufSize"
  shows "\<exists>st'. et_step host api ho bufIds p st (et_datagram bufIds t v r ds (i, off, c)) = Reads st'
    \<and> g_mem st' (g_bufs st ! i) = overwrite (g_mem st (g_bufs st ! i)) off c
    \<and> map fst (g_puts st') = map fst (g_puts st) @ [e]"
proof -
  define pkt where "pkt = overwrite (g_pkt st) 0 (re_packet (of_nat (length (ds ! i))) t v (of_int (bufIds ! i)) r (off, c))"
  note step = et_step_datagram [OF ids i len(4,3) pkt_def]
  let ?v = "et_fifo_getBufs api (g_et st) e i" and ?total = "g_bytesWritten st ! i + length c" and ?count = "g_packetCnts st ! i + 1"
  define con' where "con' = (g_controls st ! i)[5 := ?count]"
  define st2 where "st2 = st\<lparr>g_pkt := pkt, g_event := ?v, g_mem := (g_mem st)(g_bufs st ! i := overwrite (g_mem st (g_bufs st ! i)) off c),
     g_et := et_event_setcontrol api ?v con' (et_event_setlength api ?v ?total (g_et st)),
     g_packetCnts := (g_packetCnts st)[i := ?count], g_bytesWritten := (g_bytesWritten st)[i := ?total]\<rparr>"
  have sel: "et_select api ho (length bufIds) t (st\<lparr>g_pkt := pkt\<rparr>) = Reads (st\<lparr>g_pkt := pkt\<rparr>)" "st\<lparr>g_pkt := pkt, g_prevTick := t\<rparr> = st\<lparr>g_pkt := pkt\<rparr>"
    using t(1) by (auto simp: et_select_def)
  have store: "et_store api i (of_nat (length (ds ! i))) off (int (length c)) (st\<lparr>g_pkt := pkt\<rparr>) = Reads (st2, True)"
    using ev room full len step(2) by (simp add: et_store_def Let_def st2_def unat_of_nat_u32 con'_def)
  define st3 where "st3 = st2\<lparr>g_et := et_fifo_setHasData api ?v 1 (g_et st2)\<rparr>"
  have con6: "length con' = ET_STATION_SELECT_INTS" using con by (simp add: con'_def)
  have all: "et_fifo_allHaveData api (g_et st3) e"
    using marked con6 by (auto simp: allHaveData st3_def st2_def setHasData setcontrol setlength ET_STATION_SELECT_INTS_def)
  have "stats_ok bufIds st3" using sts by (simp add: stats_ok_def st3_def st2_def)
  then obtain m where m: "et_keepStats api stats_built (zip bufIds (map (et_fifo_getBufs api (g_et st3) e) [0..<length bufIds])) st3
      = Reads (st3\<lparr>g_stats := m\<rparr>)"
    using et_keepStats_ok by (metis length_map length_upt map_fst_zip minus_nat.diff_0)
  define st4 where "st4 = et_put api (length bufIds) e (st3\<lparr>g_stats := m, g_buffers := filter (\<lambda>(t', e). t' \<noteq> t) (g_buffers st)\<rparr>)"
  have complete: "et_complete api bufIds t st2 = Reads st4"
    using all m t(2) by (simp add: et_complete_def Let_def st4_def) (simp add: st3_def st2_def)
  have "et_clean api bufIds p (ho_buffers ho (g_buffers st4)) st4 = Reads st4"
    using young by (intro et_clean_young) (auto simp: list_all_iff et_old_def st4_def et_put_def st3_def st2_def)
  then have "et_step host api ho bufIds p st (et_datagram bufIds t v r ds (i, off, c)) = Reads st4"
    unfolding step(1) et_packet_def sel et_then.simps store by (simp add: complete)
  then show ?thesis by (simp add: st4_def et_put_def st3_def st2_def)
qed

end

context et_fifo_ready
begin

text \<open>After the last of some ticks, the receiver still takes its entry for the current one.\<close>

lemma handed_late_packet:
  assumes ids: "distinct bufIds" "\<forall>x \<in> set bufIds. 0 \<le> x \<and> x < 2 ^ 16" and i: "i < length bufIds"
    and keeps: "put_keeps" and st: "idle st" "handed t ds e ys st" and ds: "length ds = length bufIds"
    and all: "tick_packets (et_fifo_getBufSize api) ds ys"
    and len: "off + length c \<le> et_fifo_getBufSize api" "off < 2 ^ 32" "RE_HEADER_BYTES + length c \<le> et_pktBufSize"
  defines "a \<equiv> et_event_getdata api (g_et st) (et_fifo_getBufs api (g_et st) e i)"
  shows "\<exists>st'. et_step host api ho bufIds p st (et_datagram bufIds t v r ds (i, off, c)) = Reads st'
    \<and> take (length (ds ! i)) (g_mem st a) = ds ! i
    \<and> g_mem st' a = overwrite (g_mem st a) off c \<and> map fst (g_puts st') = map fst (g_puts st) @ [e]"
proof -
  let ?st = "st\<lparr>g_buffers := [(t, e)]\<rparr>"
  have inv: "tick_inv t ds e ys {..<length bufIds} ?st" using keeps st(2) by (simp add: handed_def)
  have src: "src_inv (ds ! k) (own_pieces k ys) True (ev_at st e k) (g_mem st (pdata (ev_at st e k))) (g_bytesWritten st ! k)"
    if "k < length bufIds" for k using tick_inv_src [OF inv that] that by simp
  have d: "ds ! i \<noteq> []" "length (ds ! i) \<le> et_fifo_getBufSize api" "length (ds ! i) < 2 ^ 32" "tiles (ds ! i) (own_pieces i ys)"
    using all i ds by (auto simp: tick_packets_def)
  have buf: "g_bufs st ! i = a" using inv i by (simp add: tick_inv_def a_def getters)
  have mem: "length (g_mem st b) = et_fifo_getBufSize api" for b using st(1) by (simp add: idle_def)
  have "own_pieces i ys \<noteq> []" using d(1,4) by (auto simp: tiles_def)
  then have "ev_length (ev_at st e i) = length (ds ! i)" using src [OF i] d(4) by (simp add: src_inv_def tiles_def)
  then have bytes: "take (length (ds ! i)) (g_mem st a) = ds ! i"
    using src_inv_done [OF src [OF i] d(4,1)] d(2) mem by (simp add: a_def getters)
  have "\<exists>st'. et_step host api ho bufIds p st (et_datagram bufIds t v r ds (i, off, c)) = Reads st'
    \<and> g_mem st' (g_bufs st ! i) = overwrite (g_mem st (g_bufs st ! i)) off c
    \<and> map fst (g_puts st') = map fst (g_puts st) @ [e]"
  proof (rule late_packet [OF ids i])
    show "\<forall>k < length bufIds. k \<noteq> i \<longrightarrow> et_fifo_getBufs api (g_et st) e k \<noteq> et_fifo_getBufs api (g_et st) e i
        \<and> control (ev_at st e k) ! 1 \<noteq> 0"
      using inv i src by (auto simp: tick_inv_def src_inv_def dest: inj_onD)
    show "length (ds ! i) \<le> g_bytesWritten st ! i + length c"
      using src [OF i] d(4) by (simp add: src_inv_def tiles_def)
  qed (use inv i st(1) mem len d in \<open>simp_all add: tick_inv_def idle_def stats_ok_def\<close>)
  then show ?thesis using bytes buf by simp
qed

lemma getBuffers_then_late:
  assumes ids: "distinct bufIds" "\<forall>x \<in> set bufIds. 0 \<le> x \<and> x < 2 ^ 16" "bufIds \<noteq> []"
    and mem: "\<forall>a. length (mem a) = et_fifo_getBufSize api" and sts: "\<forall>m. sts = Some m \<longrightarrow> set bufIds \<subseteq> dom m"
    and bs: "sorted_wrt (<) (map fst bs)"
      "\<forall>(t, ds, ys) \<in> set bs. length ds = length bufIds \<and> tick_packets (et_fifo_getBufSize api) ds ys
        \<and> t \<le> t + scast (4 * p) \<and> t \<noteq> UINT64_MAX"
    and keeps: "put_keeps" and last: "bs \<noteq> []" "last bs = (t, ds, ys)" and i: "i < length bufIds"
    and len: "off + length c \<le> et_fifo_getBufSize api" "off < 2 ^ 32" "RE_HEADER_BYTES + length c \<le> et_pktBufSize"
  shows "\<exists>st st' e a. getBuffers host api ho w mem pkt p sts (et_stream bufIds v r bs) = Reads st
    \<and> getBuffers host api ho w mem pkt p sts (et_stream bufIds v r bs @ [et_datagram bufIds t v r ds (i, off, c)]) = Reads st'
    \<and> g_puts st \<noteq> [] \<and> e = fst (last (g_puts st))
    \<and> a = et_event_getdata api (g_et st) (et_fifo_getBufs api (g_et st) e i)
    \<and> take (length (ds ! i)) (g_mem st a) = ds ! i
    \<and> g_mem st' a = overwrite (g_mem st a) off c \<and> map fst (g_puts st') = map fst (g_puts st) @ [e]"
proof -
  obtain st where st: "getBuffers host api ho w mem pkt p sts (et_stream bufIds v r bs) = Reads st" "idle st" "last_handed (last bs) st"
    using getBuffers_run [OF ids mem sts bs, of host w pkt v r] last(1) by blast
  have b: "length ds = length bufIds" "tick_packets (et_fifo_getBufSize api) ds ys"
    using bs(2) last last_in_set [OF last(1)] by auto
  let ?e = "fst (last (g_puts st))"
  have handed: "handed t ds ?e ys st" "g_puts st \<noteq> []" using st(3) last(2) by (simp_all add: last_handed_def)
  obtain w' F where "et_create api 10 (et_init w mem pkt sts) = Reads ((et_init w mem pkt sts)\<lparr>g_et := w', g_free := F\<rparr>)"
    using et_create_ready by blast
  moreover have "et_fifo_getIdCount api \<ge> 1" using bufIds(2) ids(3) by (cases bufIds) auto
  ultimately obtain st0 where run: "getBuffers host api ho w mem pkt p sts net = et_loop host api ho bufIds p net st0" for net
    using bufIds(1) by (simp add: getBuffers_def Let_def)
  have "getBuffers host api ho w mem pkt p sts (et_stream bufIds v r bs @ [x])
      = et_then (et_step host api ho bufIds p st x) Reads (\<lambda>st. st)" for x
  proof -
    have "et_loop host api ho bufIds p [] = Reads" by (rule ext) simp
    then show ?thesis using st(1) unfolding run et_loop_append by simp
  qed
  with handed_late_packet [OF ids(1,2) i keeps st(2) handed(1) b len, of host p v r] st(1) handed(2)
  show ?thesis by auto
qed

end

text \<open>
  C31: an entry that was put into the ET system, and so belongs to its consumers, is still
  written. After complete ticks that were delivered one after the other, a further datagram of the
  last of them, no other tick in between, is taken for one of the current entry: its bytes go
  into the data area of the event that was handed over and holds the buffer of the source, and the same
  entry is put a second time. This is for an ET system that leaves the events of the entry as
  they were put, as long as no consumer has changed them.
\<close>

theorem et_late_packet_overwrites:
  assumes "et_fifo_ready api ho event made bufIds"
    and "\<forall>e w. event (et_fifo_putEntry api e w) = event w \<and> et_fifo_getBufs api (et_fifo_putEntry api e w) = et_fifo_getBufs api w"
    and "distinct bufIds" and "\<forall>x \<in> set bufIds. 0 \<le> x \<and> x < 2 ^ 16" and "bufIds \<noteq> []"
    and "\<forall>a. length (mem a) = et_fifo_getBufSize api" and "\<forall>m. sts = Some m \<longrightarrow> set bufIds \<subseteq> dom m"
    and "sorted_wrt (<) (map fst bs)"
    and "\<forall>(t, ds, ys) \<in> set bs. length ds = length bufIds \<and> tick_packets (et_fifo_getBufSize api) ds ys
      \<and> t \<le> t + scast (4 * p) \<and> t \<noteq> UINT64_MAX"
    and "bs \<noteq> []" and "last bs = (t, ds, ys)" and "i < length bufIds"
    and "off + length c \<le> et_fifo_getBufSize api" and "off < 2 ^ 32" and "RE_HEADER_BYTES + length c \<le> et_pktBufSize"
  shows "\<exists>st st' e a. getBuffers host api ho w mem pkt p sts (et_stream bufIds v r bs) = Reads st
    \<and> getBuffers host api ho w mem pkt p sts (et_stream bufIds v r bs @ [et_datagram bufIds t v r ds (i, off, c)]) = Reads st'
    \<and> g_puts st \<noteq> [] \<and> e = fst (last (g_puts st))
    \<and> a = et_event_getdata api (g_et st) (et_fifo_getBufs api (g_et st) e i)
    \<and> take (length (ds ! i)) (g_mem st a) = ds ! i
    \<and> g_mem st' a = overwrite (g_mem st a) off c \<and> map fst (g_puts st') = map fst (g_puts st) @ [e]"
proof -
  have keeps: "et_fifo_ready.put_keeps api event" using assms(2) by (simp add: et_fifo_ready.put_keeps_def [OF assms(1)])
  show ?thesis by (rule et_fifo_ready.getBuffers_then_late [OF assms(1,3-9) keeps assms(10-15)])
qed

text \<open>The example tick, and then a byte of source 7 once more, with another value.\<close>

theorem et_late_packet_overwrites_witness:
  "\<exists>st st' a. getBuffers ENDIAN_BIG (plain_et [7, 9] 4) plain_orders plain_start (\<lambda>_. replicate 4 0) [] 1 None
      (et_stream [7, 9] 2 0 et_example) = Reads st
    \<and> getBuffers ENDIAN_BIG (plain_et [7, 9] 4) plain_orders plain_start (\<lambda>_. replicate 4 0) [] 1 None
      (et_stream [7, 9] 2 0 et_example @ [et_datagram [7, 9] 5 2 0 [[1, 2, 3], [4, 5]] (0, 0, [8])]) = Reads st'
    \<and> take 3 (g_mem st a) = [1, 2, 3] \<and> take 3 (g_mem st' a) = [8, 2, 3]
    \<and> map fst (g_puts st') = map fst (g_puts st) @ [fst (last (g_puts st))]"
proof -
  have "\<exists>st st' e a. getBuffers ENDIAN_BIG (plain_et [7, 9] 4) plain_orders plain_start (\<lambda>_. replicate 4 0) [] 1 None
      (et_stream [7, 9] 2 0 et_example) = Reads st
    \<and> getBuffers ENDIAN_BIG (plain_et [7, 9] 4) plain_orders plain_start (\<lambda>_. replicate 4 0) [] 1 None
      (et_stream [7, 9] 2 0 et_example @ [et_datagram [7, 9] 5 2 0 [[1, 2, 3], [4, 5]] (0, 0, [8])]) = Reads st'
    \<and> g_puts st \<noteq> [] \<and> e = fst (last (g_puts st))
    \<and> a = et_event_getdata (plain_et [7, 9] 4) (g_et st) (et_fifo_getBufs (plain_et [7, 9] 4) (g_et st) e 0)
    \<and> take (length (([[1, 2, 3], [4, 5]] :: bytes list) ! 0)) (g_mem st a) = [[1, 2, 3], [4, 5]] ! 0
    \<and> g_mem st' a = overwrite (g_mem st a) 0 [8] \<and> map fst (g_puts st') = map fst (g_puts st) @ [e]"
    by (rule et_late_packet_overwrites [OF plain.et_fifo_ready_axioms])
       (use et_example_ok in \<open>simp_all add: et_example_def UINT64_MAX_def plain_et_def word_le_nat_alt size_defs et_pktBufSize_def\<close>)
  then obtain st st' a where "getBuffers ENDIAN_BIG (plain_et [7, 9] 4) plain_orders plain_start (\<lambda>_. replicate 4 0) [] 1 None
      (et_stream [7, 9] 2 0 et_example) = Reads st"
    "getBuffers ENDIAN_BIG (plain_et [7, 9] 4) plain_orders plain_start (\<lambda>_. replicate 4 0) [] 1 None
      (et_stream [7, 9] 2 0 et_example @ [et_datagram [7, 9] 5 2 0 [[1, 2, 3], [4, 5]] (0, 0, [8])]) = Reads st'"
    "take 3 (g_mem st a) = [1, 2, 3]" "g_mem st' a = overwrite (g_mem st a) 0 [8]"
    "map fst (g_puts st') = map fst (g_puts st) @ [fst (last (g_puts st))]"
    by (auto simp: numeral_3_eq_3)
  moreover from this(3) have "take 3 (overwrite (g_mem st a) 0 [8]) = [8, 2, 3]"
    by (cases "g_mem st a") (auto simp: overwrite_def numeral_3_eq_3)
  ultimately show ?thesis by (intro exI [of _ st] exI [of _ st'] exI [of _ a]) simp
qed

end
