(* ===== verification/Byte_Buffer.thy ===== *)
theory Byte_Buffer
  imports Byte_Order
begin

text \<open>
  The class \<open>ByteBuffer\<close> of the evio library: position, limit, offset and the shared
  array, with the templated reads and writes whose bodies the header holds. Positions are
  \<open>size_t\<close> and wrap at 64 bits. An access outside the array, which C++ leaves undefined,
  is the value \<open>OutOfBounds\<close>; \<open>Underflow\<close> and \<open>Overflow\<close> are the exceptions the class
  throws. The locale \<open>int_sink\<close> is what writers of headers rely on.
\<close>

section \<open>State\<close>

datatype bb_error = Underflow | Overflow | OutOfBounds

record byte_buffer =
  bb_pos :: u64
  bb_lim :: u64
  bb_mrk :: u64
  bb_off :: u64
  bb_cap :: u64
  bb_totalSize :: u64
  bb_buf :: bytes
  bb_byteOrder :: byte_order
  bb_isHostEndian :: bool
  bb_isLittleEndian :: bool
  bb_isMappedMemory :: bool

text \<open>The memory access at index \<open>i\<close> of a value of \<open>s\<close> bytes.\<close>

definition bb_load :: "byte_order \<Rightarrow> nat \<Rightarrow> byte_buffer \<Rightarrow> u64 \<Rightarrow> bb_error + 'a::len word" where
  "bb_load host s bb i =
    (let a = unat (i + bb_off bb) in
     if a + s \<le> length (bb_buf bb) then Inr (native_word host (take s (drop a (bb_buf bb))))
     else Inl OutOfBounds)"

definition bb_store ::
  "byte_order \<Rightarrow> nat \<Rightarrow> byte_buffer \<Rightarrow> u64 \<Rightarrow> 'a::len word \<Rightarrow> bb_error + byte_buffer" where
  "bb_store host s bb i w =
    (let a = unat (i + bb_off bb) in
     if a + s \<le> length (bb_buf bb)
     then Inr (bb\<lparr>bb_buf := overwrite (bb_buf bb) a (native_bytes host s w)\<rparr>)
     else Inl OutOfBounds)"

section \<open>The templates\<close>

text \<open>\<open>s\<close> is \<open>sizeof(T)\<close>.\<close>

definition bb_read_at :: "byte_order \<Rightarrow> nat \<Rightarrow> byte_buffer \<Rightarrow> u64 \<Rightarrow> bb_error + 'a::len word" where
  "bb_read_at host s bb index =
    (if index + of_nat s \<le> bb_lim bb then bb_load host s bb index else Inl Underflow)"

definition bb_read :: "byte_order \<Rightarrow> nat \<Rightarrow> byte_buffer \<Rightarrow> bb_error + ('a::len word \<times> byte_buffer)" where
  "bb_read host s bb =
    (case bb_read_at host s bb (bb_pos bb) of
       Inl e \<Rightarrow> Inl e
     | Inr w \<Rightarrow> Inr (w, bb\<lparr>bb_pos := bb_pos bb + of_nat s\<rparr>))"

definition bb_write ::
  "byte_order \<Rightarrow> nat \<Rightarrow> byte_buffer \<Rightarrow> 'a::len word \<Rightarrow> bb_error + byte_buffer" where
  "bb_write host s bb w =
    (if bb_lim bb < bb_pos bb + of_nat s then Inl Overflow
     else case bb_store host s bb (bb_pos bb) w of
            Inl e \<Rightarrow> Inl e
          | Inr bb' \<Rightarrow> Inr (bb'\<lparr>bb_pos := bb_pos bb + of_nat s\<rparr>))"

definition bb_write_at ::
  "byte_order \<Rightarrow> nat \<Rightarrow> byte_buffer \<Rightarrow> 'a::len word \<Rightarrow> u64 \<Rightarrow> bb_error + byte_buffer" where
  "bb_write_at host s bb w index =
    (if index + of_nat s > bb_lim bb then Inl Overflow else bb_store host s bb index w)"

section \<open>The one-byte variants\<close>

definition bb_write1 :: "byte_order \<Rightarrow> byte_buffer \<Rightarrow> u8 \<Rightarrow> bb_error + byte_buffer" where
  "bb_write1 host bb w =
    (if bb_lim bb < bb_pos bb + 1 then Inl Overflow
     else case bb_store host 1 bb (bb_pos bb) w of
            Inl e \<Rightarrow> Inl e
          | Inr bb' \<Rightarrow> Inr (bb'\<lparr>bb_pos := bb_pos bb + 1\<rparr>))"

definition bb_write1_at :: "byte_order \<Rightarrow> byte_buffer \<Rightarrow> u8 \<Rightarrow> u64 \<Rightarrow> bb_error + byte_buffer" where
  "bb_write1_at host bb w index =
    (if index + 1 > bb_lim bb then Inl Overflow else bb_store host 1 bb index w)"

text \<open>The one-byte relative read leaves the position where it is.\<close>

definition bb_read1 :: "byte_order \<Rightarrow> byte_buffer \<Rightarrow> bb_error + (u8 \<times> byte_buffer)" where
  "bb_read1 host bb =
    (if bb_pos bb + 1 \<le> bb_lim bb
     then (case bb_load host 1 bb (bb_pos bb) of Inl e \<Rightarrow> Inl e | Inr w \<Rightarrow> Inr (w, bb))
     else Inl Underflow)"

definition bb_read1_at :: "byte_order \<Rightarrow> byte_buffer \<Rightarrow> u64 \<Rightarrow> bb_error + u8" where
  "bb_read1_at host bb index =
    (if index + 1 \<le> bb_lim bb then bb_load host 1 bb index else Inl Underflow)"

section \<open>Well-formed buffers\<close>

text \<open>
  What the constructors establish: position, limit and capacity in order, the slice inside
  the array, and an array that exists (so shorter than half the address space).
\<close>

definition bb_wf :: "byte_buffer \<Rightarrow> bool" where
  "bb_wf bb \<longleftrightarrow> bb_pos bb \<le> bb_lim bb \<and> bb_lim bb \<le> bb_cap bb
     \<and> unat (bb_off bb) + unat (bb_cap bb) \<le> length (bb_buf bb)
     \<and> unat (bb_totalSize bb) = length (bb_buf bb) \<and> length (bb_buf bb) < 2 ^ 63"

lemma unat_add_small: "unat x + unat y < 2 ^ 64 \<Longrightarrow> unat (x + y :: u64) = unat x + unat y"
  by (simp add: unat_word_ariths)

lemma unat_of_nat_64: "s < 2 ^ 64 \<Longrightarrow> unat (of_nat s :: u64) = s"
  by (simp add: unat_of_nat)

text \<open>The limit test decides, as long as the sum does not wrap.\<close>

lemma limit_test:
  assumes "unat index + s < 2 ^ 64"
  shows "index + of_nat s \<le> bb_lim bb \<longleftrightarrow> unat index + s \<le> unat (bb_lim bb)"
  using assms by (simp add: word_le_nat_alt unat_add_small unat_of_nat_64)

lemma address_in_array:
  assumes "bb_wf bb" and "unat index + s \<le> unat (bb_lim bb)"
  shows "unat (index + bb_off bb) = unat index + unat (bb_off bb)"
    and "unat (index + bb_off bb) + s \<le> length (bb_buf bb)"
proof -
  have le: "unat index + s + unat (bb_off bb) \<le> length (bb_buf bb)"
    using assms unfolding bb_wf_def word_le_nat_alt by linarith
  then have "unat index + unat (bb_off bb) < 2 ^ 64"
    using assms(1) by (simp add: bb_wf_def)
  then show eq: "unat (index + bb_off bb) = unat index + unat (bb_off bb)"
    by (rule unat_add_small)
  show "unat (index + bb_off bb) + s \<le> length (bb_buf bb)" using le eq by linarith
qed

lemma pos_small: "bb_wf bb \<Longrightarrow> s < 2 ^ 32 \<Longrightarrow> unat (bb_pos bb) + s < 2 ^ 64"
  by (simp add: bb_wf_def word_le_nat_alt)

lemma bb_store_ok:
  assumes "bb_wf bb" and "unat index + s \<le> unat (bb_lim bb)"
  shows "bb_store host s bb index w = Inr (bb\<lparr>bb_buf := overwrite (bb_buf bb)
    (unat index + unat (bb_off bb)) (native_bytes host s w)\<rparr>)"
  using address_in_array [OF assms] by (simp add: bb_store_def Let_def)

lemma bb_load_ok:
  assumes "bb_wf bb" and "unat index + s \<le> unat (bb_lim bb)"
  shows "bb_load host s bb index
    = Inr (native_word host (take s (drop (unat index + unat (bb_off bb)) (bb_buf bb))))"
  using address_in_array [OF assms] by (simp add: bb_load_def Let_def)

lemma bb_wf_store: "bb_wf bb \<Longrightarrow> bb_store host s bb i w = Inr bb' \<Longrightarrow> bb_wf bb' \<and> bb_pos bb' = bb_pos bb"
  by (auto simp: bb_store_def bb_wf_def Let_def split: if_splits)

lemma bb_write_ok:
  assumes wf: "bb_wf bb" and room: "unat (bb_pos bb) + s \<le> unat (bb_lim bb)" and s: "s < 2 ^ 32"
  shows "bb_write host s bb w = Inr (bb\<lparr>bb_buf := overwrite (bb_buf bb)
      (unat (bb_pos bb) + unat (bb_off bb)) (native_bytes host s w), bb_pos := bb_pos bb + of_nat s\<rparr>)"
proof -
  have "\<not> bb_lim bb < bb_pos bb + of_nat s"
    using limit_test [OF pos_small [OF wf s], of bb] room by simp
  then show ?thesis by (simp add: bb_write_def bb_store_ok [OF wf room])
qed

lemma bb_write_full:
  assumes "bb_wf bb" and "unat (bb_lim bb) < unat (bb_pos bb) + s" and "s < 2 ^ 32"
  shows "bb_write host s bb w = Inl Overflow"
  using limit_test [OF pos_small [OF assms(1,3)], of bb] assms(2)
  by (simp add: bb_write_def not_le [symmetric] del: not_le)

lemma bb_wf_write:
  assumes wf: "bb_wf bb" and ok: "bb_write host s bb w = Inr bb'" and s: "s < 2 ^ 32"
  shows "bb_wf bb'"
proof -
  have room: "unat (bb_pos bb) + s \<le> unat (bb_lim bb)"
    using bb_write_full [OF wf _ s, of host w] ok by (cases "unat (bb_lim bb) < unat (bb_pos bb) + s") auto
  have "bb_pos bb + of_nat s \<le> bb_lim bb"
    using limit_test [OF pos_small [OF wf s], of bb] room by simp
  then show ?thesis
    using wf ok address_in_array [OF wf room]
    unfolding bb_write_ok [OF wf room s] by (auto simp: bb_wf_def)
qed

lemma unat_pos_write:
  assumes "bb_wf bb" and "unat (bb_pos bb) + s \<le> unat (bb_lim bb)" and "s < 2 ^ 32"
  shows "unat (bb_pos bb + of_nat s) = unat (bb_pos bb) + s"
  using pos_small [OF assms(1,3)] assms(3) by (simp add: unat_add_small unat_of_nat_64)

section \<open>What a writer of integers relies on\<close>

text \<open>
  \<open>putInt\<close> appends the four bytes \<open>enc w\<close> to the content while room remains. \<open>putInts\<close>
  is a sequence of calls, ended by the first exception.
\<close>

fun putInts :: "('b \<Rightarrow> u32 \<Rightarrow> 'e + 'b) \<Rightarrow> 'b \<Rightarrow> u32 list \<Rightarrow> 'e + 'b" where
  "putInts put b [] = Inr b"
| "putInts put b (w # ws) = (case put b w of Inl e \<Rightarrow> Inl e | Inr b' \<Rightarrow> putInts put b' ws)"

locale int_sink =
  fixes inv :: "'b \<Rightarrow> bool"
    and remaining :: "'b \<Rightarrow> nat"
    and putInt :: "'b \<Rightarrow> u32 \<Rightarrow> 'e + 'b"
    and content :: "'b \<Rightarrow> bytes"
    and enc :: "u32 \<Rightarrow> bytes"
  assumes put: "inv b \<Longrightarrow> 4 \<le> remaining b \<Longrightarrow>
    \<exists>b'. putInt b w = Inr b' \<and> inv b' \<and> remaining b' = remaining b - 4
       \<and> content b' = content b @ enc w"
begin

lemma puts:
  assumes "inv b" and "4 * length ws \<le> remaining b"
  shows "\<exists>b'. putInts putInt b ws = Inr b' \<and> inv b' \<and> remaining b' = remaining b - 4 * length ws
     \<and> content b' = content b @ concat (map enc ws)"
  using assms
proof (induction ws arbitrary: b)
  case Nil
  then show ?case by simp
next
  case (Cons w ws)
  obtain b1 where b1: "putInt b w = Inr b1" "inv b1" "remaining b1 = remaining b - 4"
      "content b1 = content b @ enc w"
    using put [of b w] Cons.prems by auto
  then show ?case using Cons.IH [of b1] Cons.prems by auto
qed

end

text \<open>The four-byte template write is such an operation.\<close>

definition bb_content :: "byte_buffer \<Rightarrow> bytes" where
  "bb_content bb = take (unat (bb_pos bb)) (drop (unat (bb_off bb)) (bb_buf bb))"

definition bb_room :: "byte_buffer \<Rightarrow> nat" where
  "bb_room bb = unat (bb_lim bb) - unat (bb_pos bb)"

lemma take_drop_overwrite:
  assumes "o' + p + length bs \<le> length m"
  shows "take (p + length bs) (drop o' (overwrite m (p + o') bs)) = take p (drop o' m) @ bs"
  using assms by (simp add: overwrite_def take_drop add.commute add.left_commute)

lemma bb_write_sink:
  assumes wf: "bb_wf bb" and room: "4 \<le> bb_room bb"
  shows "\<exists>bb'. bb_write host 4 bb w = Inr bb' \<and> bb_wf bb' \<and> bb_room bb' = bb_room bb - 4
    \<and> bb_content bb' = bb_content bb @ native_bytes host 4 w"
proof -
  have le: "unat (bb_pos bb) + 4 \<le> unat (bb_lim bb)" using room by (simp add: bb_room_def)
  note ok = bb_write_ok [OF wf le, of host w] and pos = unat_pos_write [OF wf le]
  have "unat (bb_off bb) + unat (bb_pos bb) + 4 \<le> length (bb_buf bb)"
    using address_in_array [OF wf le] by simp
  then have "take (unat (bb_pos bb) + 4) (drop (unat (bb_off bb)) (overwrite (bb_buf bb)
      (unat (bb_pos bb) + unat (bb_off bb)) (native_bytes host 4 w)))
    = bb_content bb @ native_bytes host 4 w"
    using take_drop_overwrite [of "unat (bb_off bb)" "unat (bb_pos bb)" "native_bytes host 4 w"]
    by (simp add: bb_content_def)
  then show ?thesis
    using bb_wf_write [OF wf ok] ok pos by (simp add: bb_content_def bb_room_def)
qed

interpretation bb_sink: int_sink bb_wf bb_room "bb_write host 4" bb_content "native_bytes host 4"
  for host
  by unfold_locales (rule bb_write_sink)

section \<open>Absolute accesses\<close>

lemma bb_read_at_ok:
  assumes "bb_wf bb" and "unat index + s < 2 ^ 64"
  shows "bb_read_at host s bb index
      = (if unat index + s \<le> unat (bb_lim bb)
         then Inr (native_word host (take s (drop (unat index + unat (bb_off bb)) (bb_buf bb))))
         else Inl Underflow)"
  by (simp add: bb_read_at_def limit_test [OF assms(2)] bb_load_ok [OF assms(1)])

lemma bb_write_at_ok:
  assumes "bb_wf bb" and "unat index + s < 2 ^ 64"
  shows "bb_write_at host s bb w index
      = (if unat index + s \<le> unat (bb_lim bb)
         then Inr (bb\<lparr>bb_buf := overwrite (bb_buf bb) (unat index + unat (bb_off bb)) (native_bytes host s w)\<rparr>)
         else Inl Overflow)"
proof -
  have "index + of_nat s > bb_lim bb \<longleftrightarrow> \<not> unat index + s \<le> unat (bb_lim bb)"
    using limit_test [OF assms(2), of bb] by (simp flip: not_le)
  then show ?thesis by (auto simp: bb_write_at_def bb_store_ok [OF assms(1)])
qed

lemma bb_wf_write_at:
  "bb_wf bb \<Longrightarrow> bb_write_at host s bb w index = Inr bb' \<Longrightarrow> bb_wf bb'"
  using bb_wf_store [of bb host s index w bb'] by (simp add: bb_write_at_def split: if_splits)

definition example_buffer :: byte_buffer where
  "example_buffer = \<lparr>bb_pos = 0, bb_lim = 4, bb_mrk = - 1, bb_off = 0, bb_cap = 4, bb_totalSize = 4,
     bb_buf = [1, 2, 3, 4], bb_byteOrder = ENDIAN_LITTLE, bb_isHostEndian = True,
     bb_isLittleEndian = True, bb_isMappedMemory = False\<rparr>"

lemma example_buffer_wf: "bb_wf example_buffer"
  by (simp add: bb_wf_def example_buffer_def)

section \<open>Properties\<close>

text \<open>
  On a well-formed buffer no templated access leaves the array, as long as the index
  plus the size of the value does not wrap at 64 bits: an access that ends at or before
  the limit reads or replaces exactly the bytes at its index, any other throws the
  exception of its kind, and the buffer stays well-formed.
\<close>

theorem bb_access_guarded:
  fixes w :: "'a::len word"
  assumes "bb_wf bb" and "unat index + s < 2 ^ 64"
  shows "(bb_read_at host s bb index :: bb_error + 'a word)
      = (if unat index + s \<le> unat (bb_lim bb)
         then Inr (native_word host (take s (drop (unat index + unat (bb_off bb)) (bb_buf bb))))
         else Inl Underflow)
    \<and> bb_write_at host s bb w index
      = (if unat index + s \<le> unat (bb_lim bb)
         then Inr (bb\<lparr>bb_buf := overwrite (bb_buf bb) (unat index + unat (bb_off bb)) (native_bytes host s w)\<rparr>)
         else Inl Overflow)
    \<and> (\<forall>bb'. bb_write_at host s bb w index = Inr bb' \<longrightarrow> bb_wf bb')"
  using bb_read_at_ok [OF assms] bb_write_at_ok [OF assms] bb_wf_write_at [OF assms(1)] by blast

theorem bb_access_guarded_witness:
  "bb_wf example_buffer
   \<and> (bb_read_at ENDIAN_LITTLE 4 example_buffer 1 :: bb_error + u32) = Inl Underflow
   \<and> (\<exists>bb'. bb_write_at ENDIAN_LITTLE 2 example_buffer (0x0102 :: u16) 2 = Inr bb' \<and> bb_wf bb')"
proof -
  have lim: "unat (bb_lim example_buffer) = 4" by (simp add: example_buffer_def)
  from bb_access_guarded [OF example_buffer_wf, of 1 4 ENDIAN_LITTLE "0 :: u32"]
  have "(bb_read_at ENDIAN_LITTLE 4 example_buffer 1 :: bb_error + u32) = Inl Underflow"
    by (simp add: lim)
  moreover from bb_access_guarded [OF example_buffer_wf, of 2 2 ENDIAN_LITTLE "0x0102 :: u16"]
  have "\<exists>bb'. bb_write_at ENDIAN_LITTLE 2 example_buffer (0x0102 :: u16) 2 = Inr bb' \<and> bb_wf bb'"
    by (simp add: lim)
  ultimately show ?thesis using example_buffer_wf by simp
qed

text \<open>
  What a templated write stores, a templated read of the same type at the same index
  returns, and a read that does not overlap it is not affected.
\<close>

theorem bb_write_read:
  fixes w :: "'a::len word"
  assumes "bb_wf bb" and "unat i + s < 2 ^ 64" and "LENGTH('a) = 8 * s"
    and "bb_write_at host s bb w i = Inr bb'"
  shows "bb_read_at host s bb' i = Inr w
    \<and> (\<forall>j n. unat j + n < 2 ^ 64 \<and> (unat j + n \<le> unat i \<or> unat i + s \<le> unat j) \<longrightarrow>
         (bb_read_at host n bb' j :: bb_error + 'a word) = bb_read_at host n bb j)"
proof -
  have room: "unat i + s \<le> unat (bb_lim bb)"
    and bb': "bb' = bb\<lparr>bb_buf := overwrite (bb_buf bb) (unat i + unat (bb_off bb)) (native_bytes host s w)\<rparr>"
    using assms(4) unfolding bb_write_at_ok [OF assms(1,2)] by (auto split: if_splits)
  have wf': "bb_wf bb'" by (rule bb_wf_write_at [OF assms(1,4)])
  have mem: "unat i + unat (bb_off bb) + s \<le> length (bb_buf bb)"
    using address_in_array [OF assms(1) room] by simp
  have frame: "bb_lim bb' = bb_lim bb" "bb_off bb' = bb_off bb" by (simp_all add: bb')
  have same: "take n (drop (unat j + unat (bb_off bb)) (bb_buf bb'))
      = take n (drop (unat j + unat (bb_off bb)) (bb_buf bb))"
    if "unat j + n \<le> unat i \<or> unat i + s \<le> unat j" for j :: u64 and n
    using that mem unfolding bb' by (simp, intro window_overwrite) auto
  have "take s (drop (unat i + unat (bb_off bb)) (bb_buf bb')) = native_bytes host s w"
    using mem by (simp add: bb' overwrite_def)
  then have "bb_read_at host s bb' i = Inr w"
    using room assms(3) by (simp add: bb_read_at_ok [OF wf' assms(2)]) (simp add: bb' native_word_bytes)
  moreover have "(bb_read_at host n bb' j :: bb_error + 'a word) = bb_read_at host n bb j"
    if "unat j + n < 2 ^ 64" and "unat j + n \<le> unat i \<or> unat i + s \<le> unat j" for j n
    unfolding bb_read_at_ok [OF wf' that(1)] bb_read_at_ok [OF assms(1) that(1)] frame same [OF that(2)]
    by (rule refl)
  ultimately show ?thesis by blast
qed

theorem bb_write_read_witness:
  "\<exists>bb'. bb_write_at ENDIAN_BIG 2 example_buffer (0x0102 :: u16) 2 = Inr bb'
    \<and> bb_read_at ENDIAN_BIG 2 bb' 2 = Inr (0x0102 :: u16)
    \<and> (bb_read_at ENDIAN_BIG 2 bb' 0 :: bb_error + u16) = bb_read_at ENDIAN_BIG 2 example_buffer 0"
proof -
  obtain bb' where bb': "bb_write_at ENDIAN_BIG 2 example_buffer (0x0102 :: u16) 2 = Inr bb'"
    by (simp add: example_buffer_def bb_write_at_def bb_store_def)
  have "\<forall>j n. unat j + n < 2 ^ 64 \<and> (unat j + n \<le> unat (2 :: u64) \<or> unat (2 :: u64) + 2 \<le> unat j) \<longrightarrow>
      (bb_read_at ENDIAN_BIG n bb' j :: bb_error + u16) = bb_read_at ENDIAN_BIG n example_buffer j"
    using bb_write_read [OF example_buffer_wf _ _ bb'] by simp
  from this [rule_format, of 0 2] bb_write_read [OF example_buffer_wf _ _ bb'] bb' show ?thesis
    by simp
qed

text \<open>
  The guard of the absolute read adds before it compares, so an index within four of
  the largest \<open>size_t\<close> passes it and the load is outside the array.
\<close>

theorem bb_index_wraps:
  assumes "bb_wf bb" and "bb_off bb = 0"
  shows "bb_read_at host 4 bb (- 4) = Inl OutOfBounds"
proof -
  have "(- 4 :: u64) = 0xfffffffffffffffc" by simp
  then show ?thesis using assms by (simp add: bb_read_at_def bb_load_def bb_wf_def)
qed

theorem bb_index_wraps_witness:
  "bb_wf example_buffer \<and> (bb_read_at ENDIAN_LITTLE 4 example_buffer (- 4) :: bb_error + u32) = Inl OutOfBounds"
  using bb_index_wraps [OF example_buffer_wf] example_buffer_wf by (simp add: example_buffer_def)

end
