(* ===== verification/Block_Header.thy ===== *)
theory Block_Header
  imports Byte_Buffer
begin

text \<open>
  The block headers of the evio library: \<open>BlockHeaderV4\<close> and \<open>BlockHeaderV2\<close>, both
  behind the interface \<open>IBlockHeader\<close>. A header is a record of its fields, the getters
  are the record's selectors, a setter that checks its argument returns an exception or
  the new header. \<open>std::bitset<24>\<close> is a 24-bit word. \<open>ByteBuffer::putInt\<close> and
  \<open>ByteBuffer::remaining\<close> are not in the headers and are arguments of the writers.
\<close>

section \<open>The interface\<close>

definition MAGIC_NUMBER :: u32 where "MAGIC_NUMBER = 0xc0da0100"
definition MAGIC_OFFSET :: nat where "MAGIC_OFFSET = 28"
definition BIT_INFO_OFFSET :: nat where "BIT_INFO_OFFSET = 20"
definition VERSION_MASK :: u32 where "VERSION_MASK = 0xff"

datatype evio_error = BadSize u32 | BadStart u32 | BadEnd u32 | BadEventCount u32
  | BadHeaderLength u32 | BadMagic u32 | BelowStart | BeyondEnd | NoRoom | PutFailed bb_error

section \<open>Version 4: state and setters\<close>

definition HEADER_SIZE :: u32 where "HEADER_SIZE = 8"
definition EV_DICTIONARY_MASK :: u32 where "EV_DICTIONARY_MASK = 0x100"
definition EV_LASTBLOCK_MASK :: u32 where "EV_LASTBLOCK_MASK = 0x200"
definition EV_EVENTTYPE_MASK :: u32 where "EV_EVENTTYPE_MASK = 0x3C00"
definition EV_FIRSTEVENT_MASK :: u32 where "EV_FIRSTEVENT_MASK = 0x4000"

lemmas evio_masks = EV_DICTIONARY_MASK_def EV_LASTBLOCK_MASK_def EV_EVENTTYPE_MASK_def
  EV_FIRSTEVENT_MASK_def VERSION_MASK_def

record blockHeaderV4 =
  v4_size :: u32
  v4_number :: u32
  v4_headerLength :: u32
  v4_eventCount :: u32
  v4_version :: u32
  v4_reserved1 :: u32
  v4_reserved2 :: u32
  v4_bitInfo :: "24 word"
  v4_magicNumber :: u32
  v4_byteOrder :: byte_order
  v4_bufferStartingPosition :: u64

definition BlockHeaderV4_default :: "byte_order \<Rightarrow> blockHeaderV4" where
  "BlockHeaderV4_default host = \<lparr>v4_size = 0, v4_number = 1, v4_headerLength = 8,
     v4_eventCount = 0, v4_version = 4, v4_reserved1 = 0, v4_reserved2 = 0, v4_bitInfo = 0,
     v4_magicNumber = MAGIC_NUMBER, v4_byteOrder = getLocalByteOrder host,
     v4_bufferStartingPosition = 0\<rparr>"

definition BlockHeaderV4 :: "byte_order \<Rightarrow> u32 \<Rightarrow> u32 \<Rightarrow> blockHeaderV4" where
  "BlockHeaderV4 host sz num = (BlockHeaderV4_default host)\<lparr>v4_size := sz, v4_number := num\<rparr>"

definition v4_copy :: "blockHeaderV4 \<Rightarrow> blockHeaderV4 \<Rightarrow> blockHeaderV4" where
  "v4_copy this other = this\<lparr>v4_size := v4_size other, v4_number := v4_number other,
     v4_headerLength := v4_headerLength other, v4_version := v4_version other,
     v4_eventCount := v4_eventCount other, v4_reserved1 := v4_reserved1 other,
     v4_reserved2 := v4_reserved2 other, v4_byteOrder := v4_byteOrder other,
     v4_magicNumber := v4_magicNumber other, v4_bitInfo := v4_bitInfo other,
     v4_bufferStartingPosition := v4_bufferStartingPosition other\<rparr>"

definition v4_setSize :: "blockHeaderV4 \<Rightarrow> u32 \<Rightarrow> evio_error + blockHeaderV4" where
  "v4_setSize h sz = (if sz < 8 then Inl (BadSize sz) else Inr (h\<lparr>v4_size := sz\<rparr>))"

text \<open>The check \<open>count < 0\<close> compares an unsigned value.\<close>

definition v4_setEventCount :: "blockHeaderV4 \<Rightarrow> u32 \<Rightarrow> evio_error + blockHeaderV4" where
  "v4_setEventCount h count =
     (if count < 0 then Inl (BadEventCount count) else Inr (h\<lparr>v4_eventCount := count\<rparr>))"

definition v4_setNumber :: "blockHeaderV4 \<Rightarrow> u32 \<Rightarrow> blockHeaderV4" where
  "v4_setNumber h num = h\<lparr>v4_number := num\<rparr>"

text \<open>Another length than 8 is accepted; the code prints a warning.\<close>

definition v4_setHeaderLength :: "blockHeaderV4 \<Rightarrow> u32 \<Rightarrow> blockHeaderV4" where
  "v4_setHeaderLength h len = h\<lparr>v4_headerLength := len\<rparr>"

definition v4_setVersion :: "blockHeaderV4 \<Rightarrow> u32 \<Rightarrow> blockHeaderV4" where
  "v4_setVersion h ver = h\<lparr>v4_version := ver\<rparr>"

definition v4_setReserved1 :: "blockHeaderV4 \<Rightarrow> u32 \<Rightarrow> blockHeaderV4" where
  "v4_setReserved1 h r1 = h\<lparr>v4_reserved1 := r1\<rparr>"

definition v4_setReserved2 :: "blockHeaderV4 \<Rightarrow> u32 \<Rightarrow> blockHeaderV4" where
  "v4_setReserved2 h r2 = h\<lparr>v4_reserved2 := r2\<rparr>"

definition v4_setMagicNumber :: "blockHeaderV4 \<Rightarrow> u32 \<Rightarrow> evio_error + blockHeaderV4" where
  "v4_setMagicNumber h magicNum =
     (if magicNum \<noteq> MAGIC_NUMBER then Inl (BadMagic magicNum)
      else Inr (h\<lparr>v4_magicNumber := MAGIC_NUMBER\<rparr>))"

definition v4_setByteOrder :: "blockHeaderV4 \<Rightarrow> byte_order \<Rightarrow> blockHeaderV4" where
  "v4_setByteOrder h order = h\<lparr>v4_byteOrder := order\<rparr>"

definition v4_setBufferStartingPosition :: "blockHeaderV4 \<Rightarrow> u64 \<Rightarrow> blockHeaderV4" where
  "v4_setBufferStartingPosition h pos = h\<lparr>v4_bufferStartingPosition := pos\<rparr>"

section \<open>Version 4: the bit info\<close>

text \<open>\<open>std::bitset<24>\<close> element access.\<close>

definition bitset_put :: "24 word \<Rightarrow> nat \<Rightarrow> bool \<Rightarrow> 24 word" where
  "bitset_put bs i b = (if b then set_bit i bs else unset_bit i bs)"

definition v4_hasFirstEvent :: "blockHeaderV4 \<Rightarrow> bool" where
  "v4_hasFirstEvent h = bit (v4_bitInfo h) 6"

definition v4_hasDictionary :: "blockHeaderV4 \<Rightarrow> bool" where
  "v4_hasDictionary h = bit (v4_bitInfo h) 0"

definition v4_isLastBlock :: "blockHeaderV4 \<Rightarrow> bool" where
  "v4_isLastBlock h = bit (v4_bitInfo h) 1"

definition hasDictionary_word :: "u32 \<Rightarrow> bool" where
  "hasDictionary_word i = ((i AND EV_DICTIONARY_MASK) > 0)"

definition isLastBlock_word :: "u32 \<Rightarrow> bool" where
  "isLastBlock_word i = ((i AND EV_LASTBLOCK_MASK) > 0)"

definition setLastBlockBit :: "u32 \<Rightarrow> u32" where
  "setLastBlockBit i = i OR EV_LASTBLOCK_MASK"

definition clearLastBlockBit :: "u32 \<Rightarrow> u32" where
  "clearLastBlockBit i = i AND NOT EV_LASTBLOCK_MASK"

definition hasFirstEvent_word :: "u32 \<Rightarrow> bool" where
  "hasFirstEvent_word i = ((i AND EV_FIRSTEVENT_MASK) > 0)"

definition setFirstEventBit :: "u32 \<Rightarrow> u32" where
  "setFirstEventBit i = i OR EV_FIRSTEVENT_MASK"

definition clearFirstEventBit :: "u32 \<Rightarrow> u32" where
  "clearFirstEventBit i = i AND NOT EV_FIRSTEVENT_MASK"

definition v4_getEventType :: "blockHeaderV4 \<Rightarrow> u32" where
  "v4_getEventType h =
     fold (\<lambda>i type. if bit (v4_bitInfo h) (i + 2) then type OR push_bit i 1 else type) [0..<4] 0"

definition setFirstEvent :: "24 word \<Rightarrow> 24 word" where
  "setFirstEvent bSet = bitset_put bSet 6 True"

definition unsetFirstEvent :: "24 word \<Rightarrow> 24 word" where
  "unsetFirstEvent bSet = bitset_put bSet 6 False"

definition v4_getBitInfo :: "blockHeaderV4 \<Rightarrow> u32 \<Rightarrow> bool" where
  "v4_getBitInfo h bitIndex = (if bitIndex > 23 then False else bit (v4_bitInfo h) (unat bitIndex))"

definition v4_setBit :: "blockHeaderV4 \<Rightarrow> u32 \<Rightarrow> bool \<Rightarrow> blockHeaderV4" where
  "v4_setBit h bitIndex value =
     (if bitIndex > 23 then h
      else h\<lparr>v4_bitInfo := bitset_put (v4_bitInfo h) (unat bitIndex) value\<rparr>)"

definition setEventType :: "24 word \<Rightarrow> u32 \<Rightarrow> 24 word" where
  "setEventType bSet type =
    (let type = (if type < 0 then 0 else if type > 15 then 15 else type)
     in fold (\<lambda>i bs. bitset_put bs i ((drop_bit (i - 2) type AND 1) > 0)) [2..<6] bSet)"

text \<open>The loop that every computation of the sixth word runs over the bit info.\<close>

definition orBitInfo :: "24 word \<Rightarrow> u32 \<Rightarrow> u32" where
  "orBitInfo bs v0 = fold (\<lambda>i v. if bit bs i then v OR push_bit (8 + i) 1 else v) [0..<24] v0"

definition v4_getSixthWord :: "blockHeaderV4 \<Rightarrow> u32" where
  "v4_getSixthWord h = orBitInfo (v4_bitInfo h) (v4_version h AND 0xff)"

definition generateSixthWord_set :: "24 word \<Rightarrow> u32" where
  "generateSixthWord_set bSet = orBitInfo bSet 4"

definition generateSixthWord_flags :: "24 word \<Rightarrow> bool \<Rightarrow> bool \<Rightarrow> u32" where
  "generateSixthWord_flags bSet hasDictionary isEnd =
    (let v = orBitInfo bSet 4;
         v = (if hasDictionary then v OR 0x100 else v)
     in if isEnd then v OR 0x200 else v)"

definition generateSixthWord_version :: "u32 \<Rightarrow> bool \<Rightarrow> bool \<Rightarrow> u32 \<Rightarrow> u32" where
  "generateSixthWord_version version hasDictionary isEnd eventType =
    (let v = version;
         v = (if hasDictionary then v OR 0x100 else v);
         v = (if isEnd then v OR 0x200 else v)
     in v OR push_bit 10 (eventType AND 0xf))"

definition generateSixthWord :: "24 word \<Rightarrow> u32 \<Rightarrow> bool \<Rightarrow> bool \<Rightarrow> u32 \<Rightarrow> u32" where
  "generateSixthWord bSet version hasDictionary isEnd eventType =
    (let v = orBitInfo bSet version;
         v = (if hasDictionary then v OR 0x100 else v);
         v = (if isEnd then v OR 0x200 else v)
     in v OR push_bit 10 (eventType AND 0xf))"

definition v4_parseToBitInfo :: "blockHeaderV4 \<Rightarrow> u32 \<Rightarrow> blockHeaderV4" where
  "v4_parseToBitInfo h word =
     h\<lparr>v4_bitInfo := fold (\<lambda>i bs. bitset_put bs i ((drop_bit (8 + i) word AND 1) > 0)) [0..<24] (v4_bitInfo h)\<rparr>"

section \<open>Version 4: positions and output\<close>

text \<open>\<open>4*size\<close> is a 32-bit product.\<close>

definition v4_getBufferEndingPosition :: "blockHeaderV4 \<Rightarrow> u64" where
  "v4_getBufferEndingPosition h = v4_bufferStartingPosition h + ucast (4 * v4_size h)"

definition v4_nextBufferStartingPosition :: "blockHeaderV4 \<Rightarrow> u64" where
  "v4_nextBufferStartingPosition h = v4_getBufferEndingPosition h"

definition v4_firstEventStartingPosition :: "blockHeaderV4 \<Rightarrow> u64" where
  "v4_firstEventStartingPosition h = v4_bufferStartingPosition h + ucast (4 * v4_headerLength h)"

definition v4_bytesRemaining :: "blockHeaderV4 \<Rightarrow> u64 \<Rightarrow> evio_error + u64" where
  "v4_bytesRemaining h position =
    (if position < v4_bufferStartingPosition h then Inl BelowStart
     else if position > v4_nextBufferStartingPosition h then Inl BeyondEnd
     else Inr (v4_nextBufferStartingPosition h - position))"

definition v4_write ::
  "('b \<Rightarrow> nat) \<Rightarrow> ('b \<Rightarrow> u32 \<Rightarrow> evio_error + 'b) \<Rightarrow> blockHeaderV4 \<Rightarrow> 'b \<Rightarrow> evio_error + ('b \<times> u64)" where
  "v4_write remaining putInt h byteBuffer =
    (if remaining byteBuffer < 32 then Inl NoRoom
     else case putInts putInt byteBuffer
            [v4_size h, v4_number h, v4_headerLength h, v4_eventCount h, 0,
             v4_getSixthWord h, 0, v4_magicNumber h] of
            Inl e \<Rightarrow> Inl e
          | Inr b \<Rightarrow> Inr (b, 32))"

section \<open>Versions 1 to 3\<close>

definition MAX_BLOCK_SIZE :: u32 where "MAX_BLOCK_SIZE = 32768"

record blockHeaderV2 =
  v2_size :: u32
  v2_number :: u32
  v2_headerLength :: u32
  v2_start :: u32
  v2_end :: u32
  v2_version :: u32
  v2_reserved1 :: u32
  v2_magicNumber :: u32
  v2_byteOrder :: byte_order
  v2_bufferStartingPosition :: u64

definition BlockHeaderV2_default :: "byte_order \<Rightarrow> blockHeaderV2" where
  "BlockHeaderV2_default host = \<lparr>v2_size = 0, v2_number = 1, v2_headerLength = 8, v2_start = 8,
     v2_end = 0, v2_version = 2, v2_reserved1 = 0, v2_magicNumber = MAGIC_NUMBER,
     v2_byteOrder = getLocalByteOrder host, v2_bufferStartingPosition = 0\<rparr>"

definition BlockHeaderV2 :: "byte_order \<Rightarrow> u32 \<Rightarrow> u32 \<Rightarrow> blockHeaderV2" where
  "BlockHeaderV2 host sz num =
     (BlockHeaderV2_default host)\<lparr>v2_size := sz, v2_number := num, v2_end := sz\<rparr>"

definition v2_copy :: "blockHeaderV2 \<Rightarrow> blockHeaderV2 \<Rightarrow> blockHeaderV2" where
  "v2_copy this other = this\<lparr>v2_size := v2_size other, v2_number := v2_number other,
     v2_headerLength := v2_headerLength other, v2_version := v2_version other,
     v2_end := v2_end other, v2_start := v2_start other, v2_reserved1 := v2_reserved1 other,
     v2_byteOrder := v2_byteOrder other, v2_magicNumber := v2_magicNumber other,
     v2_bufferStartingPosition := v2_bufferStartingPosition other\<rparr>"

definition v2_setSize :: "blockHeaderV2 \<Rightarrow> u32 \<Rightarrow> evio_error + blockHeaderV2" where
  "v2_setSize h sz =
     (if sz < 8 \<or> sz > MAX_BLOCK_SIZE then Inl (BadSize sz) else Inr (h\<lparr>v2_size := sz\<rparr>))"

definition v2_setStart :: "blockHeaderV2 \<Rightarrow> u32 \<Rightarrow> evio_error + blockHeaderV2" where
  "v2_setStart h strt =
     (if strt < 0 \<or> strt > MAX_BLOCK_SIZE then Inl (BadStart strt) else Inr (h\<lparr>v2_start := strt\<rparr>))"

definition v2_setEnd :: "blockHeaderV2 \<Rightarrow> u32 \<Rightarrow> evio_error + blockHeaderV2" where
  "v2_setEnd h endd =
     (if endd < 8 \<or> endd > MAX_BLOCK_SIZE then Inl (BadEnd endd) else Inr (h\<lparr>v2_end := endd\<rparr>))"

definition v2_setNumber :: "blockHeaderV2 \<Rightarrow> u32 \<Rightarrow> blockHeaderV2" where
  "v2_setNumber h num = h\<lparr>v2_number := num\<rparr>"

definition v2_setHeaderLength :: "blockHeaderV2 \<Rightarrow> u32 \<Rightarrow> evio_error + blockHeaderV2" where
  "v2_setHeaderLength h len =
     (if len \<noteq> 8 then Inl (BadHeaderLength len) else Inr (h\<lparr>v2_headerLength := len\<rparr>))"

definition v2_setVersion :: "blockHeaderV2 \<Rightarrow> u32 \<Rightarrow> blockHeaderV2" where
  "v2_setVersion h ver = h\<lparr>v2_version := ver\<rparr>"

definition v2_setReserved1 :: "blockHeaderV2 \<Rightarrow> u32 \<Rightarrow> blockHeaderV2" where
  "v2_setReserved1 h r1 = h\<lparr>v2_reserved1 := r1\<rparr>"

definition v2_setMagicNumber :: "blockHeaderV2 \<Rightarrow> u32 \<Rightarrow> evio_error + blockHeaderV2" where
  "v2_setMagicNumber h magicNum =
     (if magicNum \<noteq> MAGIC_NUMBER then Inl (BadMagic magicNum)
      else Inr (h\<lparr>v2_magicNumber := MAGIC_NUMBER\<rparr>))"

definition v2_setByteOrder :: "blockHeaderV2 \<Rightarrow> byte_order \<Rightarrow> blockHeaderV2" where
  "v2_setByteOrder h order = h\<lparr>v2_byteOrder := order\<rparr>"

definition v2_setBufferStartingPosition :: "blockHeaderV2 \<Rightarrow> u64 \<Rightarrow> blockHeaderV2" where
  "v2_setBufferStartingPosition h pos = h\<lparr>v2_bufferStartingPosition := pos\<rparr>"

definition v2_getBufferEndingPosition :: "blockHeaderV2 \<Rightarrow> u64" where
  "v2_getBufferEndingPosition h = v2_bufferStartingPosition h + ucast (4 * v2_end h)"

definition v2_nextBufferStartingPosition :: "blockHeaderV2 \<Rightarrow> u64" where
  "v2_nextBufferStartingPosition h = v2_bufferStartingPosition h + ucast (4 * v2_size h)"

definition v2_firstEventStartingPosition :: "blockHeaderV2 \<Rightarrow> u64" where
  "v2_firstEventStartingPosition h =
     (if v2_start h = 0 then 0 else v2_bufferStartingPosition h + ucast (4 * v2_start h))"

definition v2_bytesRemaining :: "blockHeaderV2 \<Rightarrow> u64 \<Rightarrow> evio_error + u64" where
  "v2_bytesRemaining h position =
    (if position < v2_bufferStartingPosition h then Inl BelowStart
     else if position > v2_nextBufferStartingPosition h then Inl BeyondEnd
     else Inr (v2_nextBufferStartingPosition h - position))"

definition v2_write ::
  "('b \<Rightarrow> nat) \<Rightarrow> ('b \<Rightarrow> u32 \<Rightarrow> evio_error + 'b) \<Rightarrow> blockHeaderV2 \<Rightarrow> 'b \<Rightarrow> evio_error + ('b \<times> u64)" where
  "v2_write remaining putInt h byteBuffer =
    (if remaining byteBuffer < 32 then Inl NoRoom
     else case putInts putInt byteBuffer
            [v2_size h, v2_number h, v2_headerLength h, v2_start h, v2_end h,
             v2_version h, v2_reserved1 h, v2_magicNumber h] of
            Inl e \<Rightarrow> Inl e
          | Inr b \<Rightarrow> Inr (b, 32))"

section \<open>Laws of the bit info\<close>

lemma low_bit: "(drop_bit k w AND 1) > (0 :: u32) \<longleftrightarrow> bit w k"
  by (simp add: word_neq_0_conv [symmetric] and_one_eq bit_iff_odd_drop_bit odd_iff_mod_2_eq_one)

lemma bit_bitset_put: "bit (bitset_put bs i b) j \<longleftrightarrow> (if j = i \<and> i < 24 then b else bit bs j)"
  by (auto simp: bitset_put_def bit_simps dest: bit_imp_le_length)

lemma bit_or_one: "bit (v OR push_bit k 1 :: u32) j \<longleftrightarrow> bit v j \<or> j = k \<and> k < 32"
  by (auto simp: bit_simps)

lemma bit_or_fold:
  "bit (fold (\<lambda>i v. if P i then v OR push_bit (k + i) 1 else v) [0..<n] (v0 :: u32)) j
     \<longleftrightarrow> bit v0 j \<or> k \<le> j \<and> j < k + n \<and> j < 32 \<and> P (j - k)"
proof (induction n)
  case 0
  then show ?case by auto
next
  case (Suc n)
  have "k \<le> j \<and> j < k + Suc n \<longleftrightarrow> k \<le> j \<and> j < k + n \<or> j = k + n" by auto
  then show ?case using Suc by (cases "P n") (auto simp: bit_or_one simp del: push_bit_of_1)
qed

lemma bit_orBitInfo:
  "bit (orBitInfo bs v) j \<longleftrightarrow> bit v j \<or> 8 \<le> j \<and> j < 32 \<and> bit bs (j - 8)"
  unfolding orBitInfo_def bit_or_fold by auto

lemma bit_parse_fold:
  "n \<le> 24 \<Longrightarrow> bit (fold (\<lambda>i bs. bitset_put bs i ((drop_bit (8 + i) word AND 1) > 0)) [0..<n] bs0) j
     \<longleftrightarrow> (if j < n then bit (word :: u32) (8 + j) else bit bs0 j)"
  by (induction n) (auto simp: bit_bitset_put low_bit less_Suc_eq)

lemma v4_parseToBitInfo_eq: "v4_parseToBitInfo h word = h\<lparr>v4_bitInfo := ucast (drop_bit 8 word)\<rparr>"
proof -
  have "fold (\<lambda>i bs. bitset_put bs i ((drop_bit (8 + i) word AND 1) > 0)) [0..<24] (v4_bitInfo h)
      = ucast (drop_bit 8 word)"
    by (rule bit_word_eqI) (simp add: bit_parse_fold bit_simps)
  then show ?thesis by (simp add: v4_parseToBitInfo_def)
qed

lemma bit_getEventType: "bit (v4_getEventType h) j \<longleftrightarrow> j < 4 \<and> bit (v4_bitInfo h) (j + 2)"
  unfolding v4_getEventType_def
  by (subst bit_or_fold [of "\<lambda>i. bit (v4_bitInfo h) (i + 2)" 0, unfolded add_0]) auto

lemma bit_setEventType:
  "bit (setEventType bs t) j \<longleftrightarrow>
     (if 2 \<le> j \<and> j < 6 then bit (min t 15) (j - 2) else bit bs j)"
proof -
  have "(if t < 0 then 0 else if t > 15 then 15 else t) = min t (15 :: u32)"
    by (auto simp: min_def)
  moreover have "[2..<6 :: nat] = [2, 3, 4, 5]" by (simp add: upt_rec)
  ultimately show ?thesis
    by (auto simp: setEventType_def bit_bitset_put low_bit Let_def numeral_eq_Suc le_Suc_eq less_Suc_eq)
qed

lemma and_single_bit: "(w AND push_bit k 1) > (0 :: u32) \<longleftrightarrow> bit w k"
proof -
  have "w AND push_bit k 1 = 0 \<longleftrightarrow> \<not> bit w k"
    unfolding push_bit_of_1 and_exp_eq_0_iff_not_bit ..
  then show ?thesis by (simp add: word_neq_0_conv [symmetric])
qed

lemma word_tests:
  "hasDictionary_word w \<longleftrightarrow> bit w 8"
  "isLastBlock_word w \<longleftrightarrow> bit w 9"
  "hasFirstEvent_word w \<longleftrightarrow> bit w 14"
  using and_single_bit [of w 8] and_single_bit [of w 9] and_single_bit [of w 14]
  by (simp_all add: hasDictionary_word_def isLastBlock_word_def hasFirstEvent_word_def evio_masks)

lemma bit_version_byte: "bit (v AND 0xff :: u32) j \<longleftrightarrow> j < 8 \<and> bit v j"
  by (auto simp: mask_simps bit_simps)

section \<open>The interface as a contract\<close>

text \<open>
  What a reader of blocks relies on, whatever the version: a block reaches from its start
  four bytes per word of its size, and \<open>bytesRemaining\<close> measures the rest of it.
\<close>

locale block_header =
  fixes getSize :: "'h \<Rightarrow> u32"
    and startPos :: "'h \<Rightarrow> u64"
    and setStartPos :: "'h \<Rightarrow> u64 \<Rightarrow> 'h"
    and nextPos :: "'h \<Rightarrow> u64"
    and remainingAt :: "'h \<Rightarrow> u64 \<Rightarrow> evio_error + u64"
  assumes next_pos: "nextPos h = startPos h + ucast (4 * getSize h)"
    and set_start: "startPos (setStartPos h p) = p" "getSize (setStartPos h p) = getSize h"
    and remaining_at: "remainingAt h p =
      (if p < startPos h then Inl BelowStart else if p > nextPos h then Inl BeyondEnd
       else Inr (nextPos h - p))"
begin

definition in_range :: "'h \<Rightarrow> bool" where
  "in_range h \<longleftrightarrow> unat (getSize h) < 2 ^ 30 \<and> unat (startPos h) + 4 * unat (getSize h) < 2 ^ 64"

lemma unat_next: "in_range h \<Longrightarrow> unat (nextPos h) = unat (startPos h) + 4 * unat (getSize h)"
  by (simp add: in_range_def next_pos unat_word_ariths unat_ucast_up)

lemma remaining_exact:
  assumes "in_range h"
  shows "remainingAt h p =
    (if unat p < unat (startPos h) then Inl BelowStart
     else if unat p > unat (startPos h) + 4 * unat (getSize h) then Inl BeyondEnd
     else Inr (of_nat (unat (startPos h) + 4 * unat (getSize h) - unat p)))"
proof -
  note nx = unat_next [OF assms]
  have "nextPos h - p = of_nat (unat (nextPos h) - unat p)" if "p \<le> nextPos h"
    using that by (simp add: unat_sub [symmetric])
  then show ?thesis
    using nx by (auto simp: remaining_at word_less_nat_alt not_less word_le_nat_alt)
qed

text \<open>The block placed where its predecessor ends begins where no byte of that one remains.\<close>

lemma remaining_at_next: "remainingAt h (nextPos h) = Inr 0" if "in_range h"
  using that unat_next [OF that] by (simp add: remaining_at word_less_nat_alt)

end

interpretation v4_block: block_header v4_size v4_bufferStartingPosition v4_setBufferStartingPosition
  v4_nextBufferStartingPosition v4_bytesRemaining
  by unfold_locales
     (simp_all add: v4_nextBufferStartingPosition_def v4_getBufferEndingPosition_def
        v4_setBufferStartingPosition_def v4_bytesRemaining_def)

interpretation v2_block: block_header v2_size v2_bufferStartingPosition v2_setBufferStartingPosition
  v2_nextBufferStartingPosition v2_bytesRemaining
  by unfold_locales
     (simp_all add: v2_nextBufferStartingPosition_def v2_setBufferStartingPosition_def
        v2_bytesRemaining_def)

text \<open>The header words in the order they are written.\<close>

definition v4_words :: "blockHeaderV4 \<Rightarrow> u32 list" where
  "v4_words h = [v4_size h, v4_number h, v4_headerLength h, v4_eventCount h, 0,
     v4_getSixthWord h, 0, v4_magicNumber h]"

definition v2_words :: "blockHeaderV2 \<Rightarrow> u32 list" where
  "v2_words h = [v2_size h, v2_number h, v2_headerLength h, v2_start h, v2_end h,
     v2_version h, v2_reserved1 h, v2_magicNumber h]"

text \<open>The template write of \<open>ByteBuffer\<close> as the integer output of a block header.\<close>

definition bb_putInt :: "byte_order \<Rightarrow> byte_buffer \<Rightarrow> u32 \<Rightarrow> evio_error + byte_buffer" where
  "bb_putInt host bb w = map_sum PutFailed id (bb_write host 4 bb w)"

interpretation header_sink: int_sink bb_wf bb_room "bb_putInt host" bb_content "native_bytes host 4"
  for host
proof
  show "\<exists>b'. bb_putInt host b w = Inr b' \<and> bb_wf b' \<and> bb_room b' = bb_room b - 4
      \<and> bb_content b' = bb_content b @ native_bytes host 4 w"
    if "bb_wf b" and "4 \<le> bb_room b" for b w
    using bb_write_sink [OF that, of host w] by (auto simp: bb_putInt_def)
qed

section \<open>Properties\<close>

text \<open>
  The sixth word of a version 4 header holds the version in its low byte and the bit
  info above it: parsing it gives the bit info back, and the tests on the word agree with
  the tests on the header.
\<close>

theorem sixth_word_roundtrip:
  "v4_parseToBitInfo h' (v4_getSixthWord h) = h'\<lparr>v4_bitInfo := v4_bitInfo h\<rparr>
   \<and> v4_getSixthWord h AND VERSION_MASK = v4_version h AND 0xff
   \<and> hasDictionary_word (v4_getSixthWord h) = v4_hasDictionary h
   \<and> isLastBlock_word (v4_getSixthWord h) = v4_isLastBlock h
   \<and> hasFirstEvent_word (v4_getSixthWord h) = v4_hasFirstEvent h"
proof -
  have bits: "bit (v4_getSixthWord h) j \<longleftrightarrow>
      j < 8 \<and> bit (v4_version h) j \<or> 8 \<le> j \<and> j < 32 \<and> bit (v4_bitInfo h) (j - 8)" for j
    by (simp add: v4_getSixthWord_def bit_orBitInfo bit_version_byte)
  have "ucast (drop_bit 8 (v4_getSixthWord h)) = v4_bitInfo h"
    by (rule bit_word_eqI) (simp add: bit_simps bits)
  moreover have "v4_getSixthWord h AND VERSION_MASK = v4_version h AND 0xff"
    by (rule bit_word_eqI) (auto simp: VERSION_MASK_def mask_simps bit_simps bits)
  ultimately show ?thesis
    by (simp add: v4_parseToBitInfo_eq word_tests bits v4_hasDictionary_def v4_isLastBlock_def
        v4_hasFirstEvent_def)
qed

text \<open>
  \<open>setEventType\<close> stores the event type, capped at 15, where \<open>getEventType\<close> reads it,
  and changes no other bit.
\<close>

theorem event_type_roundtrip:
  "v4_getEventType (h\<lparr>v4_bitInfo := setEventType bs t\<rparr>) = min t 15
   \<and> setEventType bs t AND NOT 0x3C = bs AND NOT 0x3C"
proof
  have "unat (min t 15) < 2 ^ 4" by (auto simp: min_def word_le_nat_alt)
  then have "bit (min t 15) j \<Longrightarrow> j < 4" for j by (rule bit_small)
  then show "v4_getEventType (h\<lparr>v4_bitInfo := setEventType bs t\<rparr>) = min t 15"
    by (intro bit_word_eqI) (auto simp: bit_getEventType bit_setEventType)
  have mask: "(0x3C :: 24 word) = push_bit 2 (mask 4)" by (simp add: mask_eq_exp_minus_1)
  show "setEventType bs t AND NOT 0x3C = bs AND NOT 0x3C"
    unfolding mask by (rule bit_word_eqI) (auto simp: bit_simps bit_setEventType)
qed

lemma bit_generateSixthWord:
  "bit (generateSixthWord bSet version dict end' eventType) j \<longleftrightarrow>
     bit version j \<or> 8 \<le> j \<and> j < 32 \<and> bit bSet (j - 8) \<or> dict \<and> j = 8 \<or> end' \<and> j = 9
     \<or> 10 \<le> j \<and> j < 14 \<and> bit eventType (j - 10)"
proof -
  have flag: "bit (if b then v OR push_bit k 1 else v) j \<longleftrightarrow> bit v j \<or> b \<and> j = k"
    if "k < 32" for b k and v :: u32
    using that by (cases b) (auto simp: bit_or_one simp del: push_bit_of_1)
  have flags: "(0x100 :: u32) = push_bit 8 1" "(0x200 :: u32) = push_bit 9 1" by simp_all
  have "bit (push_bit 10 (take_bit 4 eventType)) j \<longleftrightarrow> 10 \<le> j \<and> j < 14 \<and> bit eventType (j - 10)"
    by (auto simp: bit_simps)
  moreover have "(8 :: nat) < 32" "(9 :: nat) < 32" by simp_all
  ultimately show ?thesis
    unfolding generateSixthWord_def Let_def flags mask_simps bit_or_iff [of _ "push_bit 10 _"]
    by (simp only: flag bit_orBitInfo) blast
qed

text \<open>
  \<open>generateSixthWord\<close> computes the sixth word of the header that has the given
  version, bit info, flags and event type, when the version fits a byte and the bit info
  leaves the event type open.
\<close>

theorem generateSixthWord_header:
  assumes "version < 256" and "eventType \<le> 15" and "bSet AND 0x3C = 0"
  shows "generateSixthWord bSet version dict end' eventType
    = v4_getSixthWord (h\<lparr>v4_version := version,
        v4_bitInfo := setEventType bSet eventType OR of_bool dict OR push_bit 1 (of_bool end')\<rparr>)"
proof (rule bit_word_eqI)
  fix j
  have v: "bit version i \<Longrightarrow> i < 8" and t: "bit eventType i \<Longrightarrow> i < 4" for i
    using assms(1,2) by (auto intro: bit_small [of version 8] bit_small [of eventType 4]
        simp: word_less_nat_alt word_le_nat_alt)
  have m: "min eventType 15 = eventType" using assms(2) by (simp add: min_def)
  have mask: "(0x3C :: 24 word) = push_bit 2 (mask 4)" by (simp add: mask_eq_exp_minus_1)
  have free: "\<not> bit bSet i" if "2 \<le> i" "i < 6" for i
  proof -
    have "\<not> bit (bSet AND push_bit 2 (mask 4)) i" using assms(3) mask by simp
    moreover have "i - 2 < 24" "i - 2 < 4" using that by linarith+
    ultimately show ?thesis using that by (simp add: bit_simps)
  qed
  define bs where "bs = setEventType bSet eventType OR of_bool dict OR push_bit 1 (of_bool end')"
  have info: "bit bs i \<longleftrightarrow>
      (if 2 \<le> i \<and> i < 6 then bit eventType (i - 2) else bit bSet i) \<or> dict \<and> i = 0 \<or> end' \<and> i = 1" for i
    unfolding bs_def bit_or_iff bit_setEventType m bit_push_bit_iff bit_of_bool_iff by auto
  show "bit (generateSixthWord bSet version dict end' eventType) j
      = bit (v4_getSixthWord (h\<lparr>v4_version := version,
        v4_bitInfo := setEventType bSet eventType OR of_bool dict OR push_bit 1 (of_bool end')\<rparr>)) j"
    if "j < LENGTH(32)"
  proof (cases "j < 8")
    case True
    then show ?thesis unfolding bs_def [symmetric]
      by (auto simp: bit_generateSixthWord v4_getSixthWord_def bit_orBitInfo bit_version_byte)
  next
    case False
    then obtain i where i: "j = i + 8" by (metis add.commute le_Suc_ex not_less)
    then show ?thesis
      using that v [of j] free [of i] t [of "i - 2"]
      unfolding bs_def [symmetric]
      by (auto simp: bit_generateSixthWord v4_getSixthWord_def bit_orBitInfo bit_version_byte info)
  qed
qed

theorem generateSixthWord_header_witness:
  "(4 :: u32) < 256 \<and> (3 :: u32) \<le> 15 \<and>
   generateSixthWord 0x40 4 True False 3
    = v4_getSixthWord ((BlockHeaderV4 ENDIAN_LITTLE 100 1)\<lparr>v4_version := 4,
        v4_bitInfo := setEventType 0x40 3 OR of_bool True OR push_bit 1 (of_bool False)\<rparr>)"
  using generateSixthWord_header [of 4 3 "0x40" True False "BlockHeaderV4 ENDIAN_LITTLE 100 1"]
  by simp

text \<open>
  The header writers of both versions check for 32 bytes of room and otherwise throw;
  with room they append exactly the eight header words to the buffer and return 32, for
  any \<open>putInt\<close> that appends an encoded word while there is room.
\<close>

theorem block_header_write:
  assumes "int_sink ok remaining putInt content enc" and "ok b"
  shows "(if remaining b < 32
          then v4_write remaining putInt h4 b = Inl NoRoom \<and> v2_write remaining putInt h2 b = Inl NoRoom
          else (\<exists>b'. v4_write remaining putInt h4 b = Inr (b', 32) \<and> ok b'
                  \<and> remaining b' = remaining b - 32
                  \<and> content b' = content b @ concat (map enc (v4_words h4)))
             \<and> (\<exists>b'. v2_write remaining putInt h2 b = Inr (b', 32) \<and> ok b'
                  \<and> remaining b' = remaining b - 32
                  \<and> content b' = content b @ concat (map enc (v2_words h2))))"
  using int_sink.puts [OF assms(1,2), of "v4_words h4"] int_sink.puts [OF assms(1,2), of "v2_words h2"]
  by (auto simp: v4_write_def v2_write_def v4_words_def v2_words_def)

text \<open>A version 4 header written on a little-endian host with the template write.\<close>

theorem block_header_write_witness:
  "\<exists>b'. v4_write bb_room (bb_putInt ENDIAN_LITTLE) (BlockHeaderV4 ENDIAN_LITTLE 100 1)
        (example_buffer\<lparr>bb_lim := 40, bb_cap := 40, bb_totalSize := 40, bb_buf := replicate 40 0\<rparr>)
      = Inr (b', 32)
    \<and> bb_content b' = concat (map (native_bytes ENDIAN_LITTLE 4)
        (v4_words (BlockHeaderV4 ENDIAN_LITTLE 100 1)))"
proof -
  let ?b = "example_buffer\<lparr>bb_lim := 40, bb_cap := 40, bb_totalSize := 40, bb_buf := replicate 40 0\<rparr>"
  have "bb_wf ?b" "bb_room ?b = 40" "bb_content ?b = []"
    by (simp_all add: bb_wf_def bb_room_def bb_content_def example_buffer_def)
  then show ?thesis
    using block_header_write [OF header_sink.int_sink_axioms, of ?b ENDIAN_LITTLE
        "BlockHeaderV4 ENDIAN_LITTLE 100 1"]
    by auto
qed

text \<open>
  As long as a block is shorter than 4 GiB and ends below the largest position,
  \<open>bytesRemaining\<close> of both header versions returns the distance from the position to
  the end of the block, and throws outside the block.
\<close>

theorem block_bytes_remaining:
  assumes "unat (v4_size h4) < 2 ^ 30"
    and "unat (v4_bufferStartingPosition h4) + 4 * unat (v4_size h4) < 2 ^ 64"
    and "unat (v2_size h2) < 2 ^ 30"
    and "unat (v2_bufferStartingPosition h2) + 4 * unat (v2_size h2) < 2 ^ 64"
  shows "v4_bytesRemaining h4 p =
      (let s = unat (v4_bufferStartingPosition h4); e = s + 4 * unat (v4_size h4)
       in if unat p < s then Inl BelowStart else if unat p > e then Inl BeyondEnd
          else Inr (of_nat (e - unat p)))
    \<and> v2_bytesRemaining h2 p =
      (let s = unat (v2_bufferStartingPosition h2); e = s + 4 * unat (v2_size h2)
       in if unat p < s then Inl BelowStart else if unat p > e then Inl BeyondEnd
          else Inr (of_nat (e - unat p)))"
  using v4_block.remaining_exact [of h4 p] v2_block.remaining_exact [of h2 p] assms
  by (simp add: v4_block.in_range_def v2_block.in_range_def Let_def)

theorem block_bytes_remaining_witness:
  "v4_bytesRemaining ((BlockHeaderV4 ENDIAN_BIG 10 1)\<lparr>v4_bufferStartingPosition := 100\<rparr>) 120 = Inr 20
   \<and> v2_bytesRemaining (BlockHeaderV2 ENDIAN_BIG 8192 1) 32769 = Inl BeyondEnd"
  using block_bytes_remaining [of "(BlockHeaderV4 ENDIAN_BIG 10 1)\<lparr>v4_bufferStartingPosition := 100\<rparr>"
      "BlockHeaderV2 ENDIAN_BIG 8192 1" 120]
    block_bytes_remaining [of "BlockHeaderV4 ENDIAN_BIG 10 1" "BlockHeaderV2 ENDIAN_BIG 8192 1" 32769]
  by (simp add: BlockHeaderV4_def BlockHeaderV4_default_def BlockHeaderV2_def BlockHeaderV2_default_def)

text \<open>
  The distance \<open>4*size\<close> is a 32-bit product, so a block of \<open>2^30\<close> words is taken
  to end where it starts.
\<close>

theorem block_size_wraps:
  assumes "v4_size h = 0x40000000"
  shows "v4_nextBufferStartingPosition h = v4_bufferStartingPosition h
    \<and> v4_bytesRemaining h (v4_bufferStartingPosition h) = Inr 0"
  using assms by (simp add: v4_nextBufferStartingPosition_def v4_getBufferEndingPosition_def
      v4_bytesRemaining_def)

theorem block_size_wraps_witness:
  "v4_size (BlockHeaderV4 ENDIAN_BIG 0x40000000 1) = 0x40000000
   \<and> v4_bytesRemaining (BlockHeaderV4 ENDIAN_BIG 0x40000000 1) 0 = Inr 0"
  using block_size_wraps [of "BlockHeaderV4 ENDIAN_BIG 0x40000000 1"]
  by (simp add: BlockHeaderV4_def BlockHeaderV4_default_def)

end
