(* ===== verification/Evio_Swap.thy ===== *)
theory Evio_Swap
  imports Byte_Order
begin

text \<open>
  Swapping EVIO events between byte orders (\<open>EvioSwap.h\<close>). An event is a bank: a header of
  two words that gives its length and the type of its contents, which may be banks, segments
  or tagsegments in turn. The routines work on an array of words, in place or into a second
  array; the swaps of \<open>ByteOrder\<close> and \<open>CompositeData\<close> they call have no body in the repository
  and are an argument with the laws of a change of byte order. Shown: an event whose lengths
  and types fit together is swapped without leaving its words, and swapped back to itself.
\<close>

section \<open>Memory and the routines called\<close>

text \<open>The source array and, unless the swap is in place, the destination array.\<close>

record swap_mem =
  sm_src :: "u32 list"
  sm_dst :: "u32 list option"

definition target :: "swap_mem \<Rightarrow> u32 list" where
  "target mem = (case sm_dst mem of None \<Rightarrow> sm_src mem | Some d \<Rightarrow> d)"

text \<open>Storing words: into the destination, or over the source when there is none.\<close>

definition put :: "swap_mem \<Rightarrow> nat \<Rightarrow> u32 list \<Rightarrow> swap_mem" where
  "put mem i ws =
    (case sm_dst mem of
       None \<Rightarrow> mem\<lparr>sm_src := overwrite (sm_src mem) i ws\<rparr>
     | Some d \<Rightarrow> mem\<lparr>sm_dst := Some (overwrite d i ws)\<rparr>)"

text \<open>
  The array swaps of \<open>ByteOrder\<close>, as functions of the words they are given, and
  \<open>CompositeData::swapAll\<close>, which is told whether the source is in local order.
\<close>

record swap_env =
  se_swap32 :: "u32 list \<Rightarrow> u32 list"
  se_swap16 :: "u32 list \<Rightarrow> u32 list"
  se_swap64 :: "u32 list \<Rightarrow> u32 list"
  se_composite :: "bool \<Rightarrow> u32 list \<Rightarrow> u32 list"

datatype swap_res = Swapped swap_mem | OutOfRange | NoFuel

text \<open>A call of one of them on \<open>n\<close> words from \<open>i\<close> on.\<close>

definition swap_range :: "(u32 list \<Rightarrow> u32 list) \<Rightarrow> swap_mem \<Rightarrow> nat \<Rightarrow> nat \<Rightarrow> swap_mem option" where
  "swap_range f mem i n =
    (if i + n \<le> length (sm_src mem) \<and> i + n \<le> length (target mem)
     then Some (put mem i (f (take n (drop i (sm_src mem))))) else None)"

definition swapped_range :: "(u32 list \<Rightarrow> u32 list) \<Rightarrow> swap_mem \<Rightarrow> nat \<Rightarrow> nat \<Rightarrow> swap_res" where
  "swapped_range f mem i n = (case swap_range f mem i n of Some mem' \<Rightarrow> Swapped mem' | None \<Rightarrow> OutOfRange)"

section \<open>Structures\<close>

datatype evio_kind = Bank | Segment | Tagsegment

fun headerWords :: "evio_kind \<Rightarrow> nat" where
  "headerWords Bank = 2" | "headerWords Segment = 1" | "headerWords Tagsegment = 1"

fun dataLength :: "evio_kind \<Rightarrow> u32 list \<Rightarrow> u32" where
  "dataLength Bank p = p ! 0 - 1"
| "dataLength Segment p = p ! 0 AND 0xffff"
| "dataLength Tagsegment p = p ! 0 AND 0xffff"

fun dataType :: "evio_kind \<Rightarrow> u32 list \<Rightarrow> u32" where
  "dataType Bank p = drop_bit 8 (p ! 1) AND 0x3f"
| "dataType Segment p = drop_bit 16 (p ! 0) AND 0x3f"
| "dataType Tagsegment p = drop_bit 16 (p ! 0) AND 0xf"

text \<open>The length of a structure with its header, from its first word.\<close>

fun fragLength :: "evio_kind \<Rightarrow> u32 \<Rightarrow> u32" where
  "fragLength Bank w = w + 1"
| "fragLength Segment w = (w AND 0xffff) + 1"
| "fragLength Tagsegment w = (w AND 0xffff) + 1"

definition containedIn :: "u32 \<Rightarrow> evio_kind option" where
  "containedIn t =
    (if t = 0xe \<or> t = 0x10 then Some Bank
     else if t = 0xd \<or> t = 0x20 then Some Segment
     else if t = 0xc then Some Tagsegment else None)"

section \<open>Swapping\<close>

text \<open>The types that hold no structures; an unknown type is copied.\<close>

definition swapLeaf :: "swap_env \<Rightarrow> swap_mem \<Rightarrow> nat \<Rightarrow> u32 \<Rightarrow> u32 \<Rightarrow> bool \<Rightarrow> swap_res" where
  "swapLeaf env mem i type len toLocal =
    (if type = 0x1 \<or> type = 0x2 \<or> type = 0xb then swapped_range (se_swap32 env) mem i (unat len)
     else if type = 0x0 \<or> type = 0x3 \<or> type = 0x6 \<or> type = 0x7 then swapped_range id mem i (unat len)
     else if type = 0x4 \<or> type = 0x5 then swapped_range (se_swap16 env) mem i (unat len)
     else if type = 0x8 \<or> type = 0x9 \<or> type = 0xa then swapped_range (se_swap64 env) mem i (2 * (unat len div 2))
     else if type = 0xf then swapped_range (se_composite env (\<not> toLocal)) mem i (unat len)
     else swapped_range id mem i (unat len))"

text \<open>
  The three routines for structures differ in how the header is read. Its words are read
  before they are swapped when the source is in local order, and after otherwise. Every call
  and every turn of the loop over contained structures takes one unit of fuel.
\<close>

function (sequential) swapStructure :: "swap_env \<Rightarrow> evio_kind \<Rightarrow> nat \<Rightarrow> swap_mem \<Rightarrow> nat \<Rightarrow> bool \<Rightarrow> swap_res"
  and swapData :: "swap_env \<Rightarrow> nat \<Rightarrow> swap_mem \<Rightarrow> nat \<Rightarrow> u32 \<Rightarrow> u32 \<Rightarrow> bool \<Rightarrow> swap_res"
  and swapContained :: "swap_env \<Rightarrow> evio_kind \<Rightarrow> nat \<Rightarrow> swap_mem \<Rightarrow> nat \<Rightarrow> u32 \<Rightarrow> u32 \<Rightarrow> bool \<Rightarrow> swap_res"
where
  "swapStructure env k 0 mem i toLocal = NoFuel"
| "swapStructure env k (Suc fuel) mem i toLocal =
    (case swap_range (se_swap32 env) mem i (headerWords k) of
       None \<Rightarrow> OutOfRange
     | Some mem' \<Rightarrow>
         let p = drop i (if toLocal then target mem' else sm_src mem)
         in swapData env fuel mem' (i + headerWords k) (dataType k p) (dataLength k p) toLocal)"
| "swapData env 0 mem i type len toLocal = NoFuel"
| "swapData env (Suc fuel) mem i type len toLocal =
    (case containedIn type of
       Some k \<Rightarrow> swapContained env k fuel mem i 0 len toLocal
     | None \<Rightarrow> swapLeaf env mem i type len toLocal)"
| "swapContained env k 0 mem i l len toLocal = NoFuel"
| "swapContained env k (Suc fuel) mem i l len toLocal =
    (if l < len then
       (case swapStructure env k fuel mem (i + unat l) toLocal of
          Swapped mem' \<Rightarrow>
            let w = (if toLocal then target mem' else sm_src mem) ! (i + unat l)
            in swapContained env k fuel mem' i (l + fragLength k w) len toLocal
        | r \<Rightarrow> r)
     else Swapped mem)"

  by pat_completeness auto
termination
  by (relation "measure (\<lambda>x. case x of Inl (_, _, f, _) \<Rightarrow> f | Inr (Inl (_, f, _)) \<Rightarrow> f | Inr (Inr (_, _, f, _)) \<Rightarrow> f)")
     simp_all

definition swapBank :: "swap_env \<Rightarrow> nat \<Rightarrow> swap_mem \<Rightarrow> nat \<Rightarrow> bool \<Rightarrow> swap_res" where
  "swapBank env = swapStructure env Bank"

definition swapSegment :: "swap_env \<Rightarrow> nat \<Rightarrow> swap_mem \<Rightarrow> nat \<Rightarrow> bool \<Rightarrow> swap_res" where
  "swapSegment env = swapStructure env Segment"

definition swapTagsegment :: "swap_env \<Rightarrow> nat \<Rightarrow> swap_mem \<Rightarrow> nat \<Rightarrow> bool \<Rightarrow> swap_res" where
  "swapTagsegment env = swapStructure env Tagsegment"

definition swapEvent :: "swap_env \<Rightarrow> nat \<Rightarrow> swap_mem \<Rightarrow> nat \<Rightarrow> bool \<Rightarrow> swap_res" where
  "swapEvent env = swapBank env"

section \<open>Well-formed events\<close>

text \<open>
  In local order: the header's length is that of the data, and the data is what the header's
  type says, a sequence of well-formed structures for a type of structures, an even number
  of words for a 64-bit type. Composite data is well-formed when \<open>CompositeData::swapAll\<close>
  swaps it and back.
\<close>

definition composite_ok :: "swap_env \<Rightarrow> u32 list \<Rightarrow> bool" where
  "composite_ok env ws \<longleftrightarrow> length (se_composite env True ws) = length ws
     \<and> se_composite env False (se_composite env True ws) = ws"

inductive evio_structure :: "swap_env \<Rightarrow> evio_kind \<Rightarrow> u32 list \<Rightarrow> bool"
  and evio_data :: "swap_env \<Rightarrow> u32 \<Rightarrow> u32 list \<Rightarrow> bool" for env where
  whole: "length h = headerWords k \<Longrightarrow> unat (dataLength k h) = length ws \<Longrightarrow> evio_data env (dataType k h) ws
    \<Longrightarrow> evio_structure env k (h @ ws)"
| leaf: "containedIn t = None \<Longrightarrow> t \<noteq> 0xf \<Longrightarrow> (t \<in> {0x8, 0x9, 0xa} \<longrightarrow> even (length ws)) \<Longrightarrow> evio_data env t ws"
| composite: "composite_ok env ws \<Longrightarrow> evio_data env 0xf ws"
| contained: "containedIn t = Some k \<Longrightarrow> \<forall>b \<in> set bs. evio_structure env k b \<Longrightarrow> evio_data env t (concat bs)"

text \<open>The laws of a change of byte order.\<close>

locale byte_swapper =
  fixes env :: swap_env
  assumes swap32: "length (se_swap32 env ws) = length ws" "se_swap32 env (se_swap32 env ws) = ws"
    and swap16: "length (se_swap16 env ws) = length ws" "se_swap16 env (se_swap16 env ws) = ws"
    and swap64: "even (length ws) \<Longrightarrow> length (se_swap64 env ws) = length ws"
      "even (length ws) \<Longrightarrow> se_swap64 env (se_swap64 env ws) = ws"

section \<open>Places in memory\<close>

definition placed :: "u32 list \<Rightarrow> swap_mem \<Rightarrow> nat \<Rightarrow> bool" where
  "placed ws mem i \<longleftrightarrow> i + length ws \<le> length (sm_src mem) \<and> i + length ws \<le> length (target mem)
     \<and> take (length ws) (drop i (sm_src mem)) = ws"

lemma placed_append:
  "placed (xs @ ys) mem i \<longleftrightarrow> placed xs mem i \<and> placed ys mem (i + length xs)"
  by (auto simp: placed_def take_add add.commute dest: append_eq_append_conv [THEN iffD1, rotated])

lemma target_put:
  "i \<le> length (target mem) \<Longrightarrow> target (put mem i ws) = overwrite (target mem) i ws"
  by (auto simp: target_def put_def split: option.splits)

lemma placed_put:
  assumes "placed xs mem i" and "placed ys mem (i + length xs)" and "length xs' = length xs"
  shows "placed ys (put mem i xs') (i + length xs)"
  using assms by (auto simp: placed_def put_def target_def drop_overwrite split: option.splits)

lemma put_put:
  assumes "placed xs mem i" and "length xs' = length xs"
  shows "put (put mem i xs') (i + length xs) ys = put mem i (xs' @ ys)"
  using assms by (auto simp: placed_def put_def target_def overwrite_adjacent split: option.splits)

lemma put_Nil [simp]: "put mem i [] = mem"
  by (auto simp: put_def split: option.splits)

lemma swap_range_placed:
  "placed ws mem i \<Longrightarrow> swap_range f mem i (length ws) = Some (put mem i (f ws))"
  by (simp add: swap_range_def placed_def)


section \<open>Swapping there and back\<close>

text \<open>
  \<open>S\<close> turns the words \<open>ws\<close> in local order into \<open>ws'\<close> and \<open>ws'\<close> back into \<open>ws\<close>, wherever they
  are, in place or not, and touches nothing else.
\<close>

definition swaps_to ::
  "(nat \<Rightarrow> swap_mem \<Rightarrow> nat \<Rightarrow> bool \<Rightarrow> swap_res) \<Rightarrow> nat \<Rightarrow> u32 list \<Rightarrow> u32 list \<Rightarrow> bool" where
  "swaps_to S F ws ws' \<longleftrightarrow> length ws' = length ws \<and> (\<forall>f \<ge> F. \<forall>mem i.
     (placed ws mem i \<longrightarrow> S f mem i False = Swapped (put mem i ws'))
     \<and> (placed ws' mem i \<longrightarrow> S f mem i True = Swapped (put mem i ws)))"

lemma swaps_toD:
  assumes "swaps_to S F ws ws'" and "F \<le> f"
  shows "length ws' = length ws" and "placed ws mem i \<Longrightarrow> S f mem i False = Swapped (put mem i ws')"
    and "placed ws' mem i \<Longrightarrow> S f mem i True = Swapped (put mem i ws)"
  using assms by (simp_all add: swaps_to_def)

lemma swaps_to_mono: "swaps_to S F ws ws' \<Longrightarrow> F \<le> F' \<Longrightarrow> swaps_to S F' ws ws'"
  by (auto simp: swaps_to_def)

lemma swaps_to_cong:
  "(\<And>f mem i b. F \<le> f \<Longrightarrow> S f mem i b = S' f mem i b) \<Longrightarrow> swaps_to S F ws ws' = swaps_to S' F ws ws'"
  by (auto simp: swaps_to_def)

text \<open>The header words at a place.\<close>

lemma header_at:
  assumes "take (headerWords k) p = h"
  shows "dataType k p = dataType k h" and "dataLength k p = dataLength k h"
  using assms by (cases k; cases p; cases "tl p"; auto)+

lemma take_target_put:
  assumes "placed xs mem i" and "length ys = length xs"
  shows "take (length xs) (drop i (target (put mem i ys))) = ys"
  using assms by (auto simp: placed_def target_put overwrite_def)

lemma nth_placed: "placed ws mem i \<Longrightarrow> ws \<noteq> [] \<Longrightarrow> sm_src mem ! i = ws ! 0"
  by (auto simp: placed_def) (metis length_greater_0_conv nth_take nth_drop add.right_neutral add_leD1)

lemma nth_target_put:
  "placed xs mem i \<Longrightarrow> length ys = length xs \<Longrightarrow> ys \<noteq> [] \<Longrightarrow> target (put mem i ys) ! i = ys ! 0"
  using take_target_put [of xs mem i ys]
  by (auto simp: placed_def target_put) (metis length_greater_0_conv nth_take nth_drop add.right_neutral add_leD1 length_overwrite_inside)

lemma leaf_swaps:
  assumes "length (g ws) = length ws" and "length (g' ws) = length ws" and "g' (g ws) = ws"
  shows "swaps_to (\<lambda>f mem i b. swapped_range (if b then g' else g) mem i (length ws)) F ws (g ws)"
  using assms swap_range_placed [of ws _ _ g] swap_range_placed [of "g ws" _ _ g']
  by (simp add: swaps_to_def swapped_range_def)

lemma structure_frag:
  assumes "evio_structure env k b"
  shows "fragLength k (b ! 0) = of_nat (length b)" and "0 < length b"
  using assms
proof (atomize (full), cases)
  case (whole h ws)
  have "of_nat (unat (dataLength k h)) = dataLength k h" by simp
  then have w: "dataLength k h = of_nat (length ws)" by (simp only: whole(3))
  have "b ! 0 = h ! 0" using whole(1,2) by (cases k) (auto simp: nth_append)
  with w whole show "fragLength k (b ! 0) = of_nat (length b) \<and> 0 < length b"
    by (cases k) (auto simp: algebra_simps)
qed


lemma swaps_to_contained:
  fixes len :: u32
  assumes "list_all2 (swaps_to (swapStructure env k) F) bs bs'" and "\<forall>b \<in> set bs. evio_structure env k b"
  shows "length (concat bs') = length (concat bs) \<and> (\<forall>f mem l. F + length bs < f \<and> unat l + length (concat bs) = unat len \<longrightarrow>
      (placed (concat bs) mem (i + unat l)
        \<longrightarrow> swapContained env k f mem i l len False = Swapped (put mem (i + unat l) (concat bs')))
      \<and> (placed (concat bs') mem (i + unat l)
        \<longrightarrow> swapContained env k f mem i l len True = Swapped (put mem (i + unat l) (concat bs))))"
  using assms
proof (induction rule: list_all2_induct)
  case Nil
  show ?case
  proof (intro conjI allI impI)
    fix f mem and l :: u32
    assume "F + length [] < f \<and> unat l + length (concat []) = unat len"
    then obtain f' where "f = Suc f'" "\<not> l < len" by (cases f) (auto simp: word_less_nat_alt)
    then show "swapContained env k f mem i l len False = Swapped (put mem (i + unat l) (concat []))"
      and "swapContained env k f mem i l len True = Swapped (put mem (i + unat l) (concat []))" by simp_all
  qed simp
next
  case (Cons b bs b' bs')
  note frag = structure_frag [of env k b]
  have b: "evio_structure env k b" using Cons.prems by simp
  have bs: "\<forall>b \<in> set bs. evio_structure env k b" using Cons.prems by simp
  have lens: "length b' = length b" "length (concat bs') = length (concat bs)"
    using Cons.hyps(1) Cons.IH [OF bs] by (simp_all add: swaps_to_def)
  have ih: "placed (concat bs) mem (i + unat l) \<Longrightarrow> swapContained env k f mem i l len False = Swapped (put mem (i + unat l) (concat bs'))"
      "placed (concat bs') mem (i + unat l) \<Longrightarrow> swapContained env k f mem i l len True = Swapped (put mem (i + unat l) (concat bs))"
    if "F + length bs < f" "unat l + length (concat bs) = unat len" for f mem and l :: u32
    using Cons.IH [OF bs] that by blast+
  have loop: "F < f' + 1 \<and> unat (l + fragLength k (b ! 0)) = unat l + length b \<and> l < len
      \<and> unat (l + fragLength k (b ! 0)) + length (concat bs) = unat len"
    if "F + length (b # bs) < Suc f'" "unat l + length (concat (b # bs)) = unat len" for f' and l :: u32
  proof -
    have "unat len < 2 ^ LENGTH(32)" by (rule unsigned_less)
    then have "unat l + length b < 2 ^ 32" using that(2) by simp
    then have "unat (l + of_nat (length b)) = unat l + length b" by (simp add: unat_word_ariths unat_of_nat)
    moreover have "unat l < unat len" using that(2) frag(2) [OF b] unfolding concat.simps length_append by linarith
    ultimately show ?thesis using that frag(1) [OF b] by (simp add: word_less_nat_alt)
  qed
  have step: "swapContained env k f mem i l len tl = Swapped (put mem (i + unat l) (concat (ys # yss)))"
    if f: "F + length (b # bs) < f" "unat l + length (concat (b # bs)) = unat len"
      and pl: "placed (concat (xs # xss)) mem (i + unat l)" and ys: "length ys = length xs"
      and one: "\<And>f' mem. F \<le> f' \<Longrightarrow> placed xs mem (i + unat l) \<Longrightarrow>
        swapStructure env k f' mem (i + unat l) tl = Swapped (put mem (i + unat l) ys)"
      and w: "(if tl then target (put mem (i + unat l) ys) else sm_src mem) ! (i + unat l) = b ! 0"
      and more: "\<And>f' mem l. F + length bs < f' \<Longrightarrow> unat l + length (concat bs) = unat len \<Longrightarrow>
        placed (concat xss) mem (i + unat l) \<Longrightarrow>
        swapContained env k f' mem i l len tl = Swapped (put mem (i + unat l) (concat yss))"
      and xs: "length xs = length b"
    for f mem l tl xs xss ys yss
  proof -
    obtain f' where f': "f = Suc f'" using f(1) by (cases f) auto
    note lp = loop [OF f(1) [unfolded f'] f(2)]
    have px: "placed xs mem (i + unat l)" "placed (concat xss) mem (i + unat l + length xs)"
      using pl by (simp_all add: placed_append)
    have s: "swapStructure env k f' mem (i + unat l) tl = Swapped (put mem (i + unat l) ys)"
      using one px(1) lp by simp
    have "placed (concat xss) (put mem (i + unat l) ys) (i + unat l + length xs)"
      by (rule placed_put [OF px ys])
    then have "swapContained env k f' (put mem (i + unat l) ys) i (l + fragLength k (b ! 0)) len tl
        = Swapped (put (put mem (i + unat l) ys) (i + unat l + length xs) (concat yss))"
      using more [of f' "l + fragLength k (b ! 0)" "put mem (i + unat l) ys"] f f' lp xs by (simp add: add.assoc)
    then show ?thesis
      using lp s w put_put [OF px(1) ys, of "concat yss"] by (simp add: f')
  qed
  show ?case
  proof (intro conjI allI impI)
    show "length (concat (b' # bs')) = length (concat (b # bs))" using lens by simp
    fix f mem and l :: u32
    assume f: "F + length (b # bs) < f \<and> unat l + length (concat (b # bs)) = unat len"
    show "swapContained env k f mem i l len False = Swapped (put mem (i + unat l) (concat (b' # bs')))"
      if "placed (concat (b # bs)) mem (i + unat l)"
    proof (rule step [OF _ _ that lens(1)])
      show "(if False then target (put mem (i + unat l) b') else sm_src mem) ! (i + unat l) = b ! 0"
        using that frag(2) [OF b] by (simp add: placed_append nth_placed)
    qed (use f ih(1) swaps_toD(2) [OF Cons.hyps(1)] in auto)
    show "swapContained env k f mem i l len True = Swapped (put mem (i + unat l) (concat (b # bs)))"
      if "placed (concat (b' # bs')) mem (i + unat l)"
    proof (rule step [OF _ _ that lens(1) [symmetric]])
      show "(if True then target (put mem (i + unat l) b) else sm_src mem) ! (i + unat l) = b ! 0"
        using that frag(2) [OF b] lens(1) by (simp add: placed_append nth_target_put [of b'])
    qed (use f ih(2) swaps_toD(3) [OF Cons.hyps(1)] lens(1) in auto)
  qed
qed


lemma common_fuel:
  assumes "\<forall>b \<in> set bs. \<exists>b' F. swaps_to S F b b'"
  shows "\<exists>bs' F. list_all2 (swaps_to S F) bs bs'"
  using assms
proof (induction bs)
  case Nil
  then show ?case by simp
next
  case (Cons b bs)
  then obtain b' F bs' F' where "swaps_to S F b b'" "list_all2 (swaps_to S F') bs bs'" by auto
  moreover from this(2) have "list_all2 (swaps_to S (max F F')) bs bs'"
    by (rule list_all2_mono) (auto intro: swaps_to_mono)
  ultimately have "list_all2 (swaps_to S (max F F')) (b # bs) (b' # bs')"
    by (auto intro: swaps_to_mono)
  then show ?case by blast
qed

context byte_swapper
begin

lemma swapData_leaf:
  assumes "containedIn t = None" and "t \<noteq> 0xf" and "t \<in> {0x8, 0x9, 0xa} \<longrightarrow> even (length ws)" and "unat len = length ws"
  shows "\<exists>ws'. swaps_to (\<lambda>f mem i b. swapData env f mem i t len b) 1 ws ws'"
proof -
  define g where "g = (if t = 0x1 \<or> t = 0x2 \<or> t = 0xb then se_swap32 env
      else if t = 0x4 \<or> t = 0x5 then se_swap16 env
      else if t = 0x8 \<or> t = 0x9 \<or> t = 0xa then se_swap64 env else id)"
  have g: "length (g ws) = length ws" "g (g ws) = ws"
    using assms(3) swap32 swap16 swap64 by (auto simp: g_def)
  have body: "swapData env f mem i t len b = swapped_range g mem i (length ws)" if f: "1 \<le> f" for f mem i b
  proof -
    obtain f' where "f = Suc f'" using f by (cases f) auto
    then show ?thesis using assms by (auto simp: g_def swapLeaf_def)
  qed
  have "swaps_to (\<lambda>f mem i b. swapped_range (if b then g else g) mem i (length ws)) 1 ws (g ws)"
    by (rule leaf_swaps) (use g in auto)
  then have "swaps_to (\<lambda>f mem i b. swapData env f mem i t len b) 1 ws (g ws)"
    using body by (subst swaps_to_cong [where S' = "\<lambda>f mem i b. swapped_range g mem i (length ws)"]) simp_all
  then show ?thesis by blast
qed

lemma swapData_composite:
  assumes "composite_ok env ws" and "unat len = length ws"
  shows "swaps_to (\<lambda>f mem i b. swapData env f mem i 0xf len b) 1 ws (se_composite env True ws)"
proof -
  have body: "swapData env f mem i 0xf len b = swapped_range (if b then se_composite env False else se_composite env True)
      mem i (length ws)" if f: "1 \<le> f" for f mem i b
  proof -
    obtain f' where "f = Suc f'" using f by (cases f) auto
    then show ?thesis using assms(2) by (simp add: containedIn_def swapLeaf_def)
  qed
  have "swaps_to (\<lambda>f mem i b. swapped_range (if b then se_composite env False else se_composite env True) mem i (length ws))
      1 ws (se_composite env True ws)"
    using assms(1) swap_range_placed [of ws _ _ "se_composite env True"]
      swap_range_placed [of "se_composite env True ws" _ _ "se_composite env False"]
    by (simp add: swaps_to_def swapped_range_def composite_ok_def)
  then show ?thesis using body by (subst swaps_to_cong) auto
qed

lemma swapData_contained:
  assumes t: "containedIn t = Some k" and bs: "\<forall>b \<in> set bs. evio_structure env k b"
    and ih: "\<forall>b \<in> set bs. \<exists>b' F. swaps_to (swapStructure env k) F b b'" and len: "unat len = length (concat bs)"
  shows "\<exists>ws' F. swaps_to (\<lambda>f mem i b. swapData env f mem i t len b) F (concat bs) ws'"
proof -
  obtain bs' F where bs': "list_all2 (swaps_to (swapStructure env k) F) bs bs'" using common_fuel [OF ih] by blast
  note loop = swaps_to_contained [OF bs' bs, of len]
  have body: "swapData env f mem i t len b = swapContained env k (f - 1) mem i 0 len b" if f: "1 \<le> f" for f mem i b
  proof -
    obtain f' where "f = Suc f'" using f by (cases f) auto
    then show ?thesis using t by simp
  qed
  have "swaps_to (\<lambda>f mem i b. swapData env f mem i t len b) (F + length bs + 2) (concat bs) (concat bs')"
    unfolding swaps_to_def using loop [THEN conjunct1] loop [THEN conjunct2, rule_format, where l = 0] len
    by (auto simp: body)
  then show ?thesis by blast
qed

lemma swapStructure_whole:
  assumes h: "length h = headerWords k" and len: "unat (dataLength k h) = length ws"
    and ih: "swaps_to (\<lambda>f mem i b. swapData env f mem i (dataType k h) (dataLength k h) b) F ws ws'"
  shows "swaps_to (swapStructure env k) (Suc F) (h @ ws) (se_swap32 env h @ ws')"
  unfolding swaps_to_def
proof (intro conjI allI impI)
  let ?h = "se_swap32 env h"
  have lens: "length ?h = length h" "length ws' = length ws" using swap32(1) ih by (simp_all add: swaps_to_def)
  then show "length (?h @ ws') = length (h @ ws)" by simp
  fix f mem i
  assume "Suc F \<le> f"
  then obtain f' where f: "f = Suc f'" "F \<le> f'" by (cases f) auto
  show "swapStructure env k f mem i False = Swapped (put mem i (?h @ ws'))" if "placed (h @ ws) mem i"
  proof -
    have pl: "placed h mem i" "placed ws mem (i + length h)" using that by (simp_all add: placed_append)
    have "take (headerWords k) (drop i (sm_src mem)) = h" using pl(1) h by (simp add: placed_def)
    note hd = header_at [OF this]
    have "placed ws (put mem i ?h) (i + length h)" by (rule placed_put [OF pl lens(1)])
    from swaps_toD(2) [OF ih f(2) this] show ?thesis
      using swap_range_placed [OF pl(1), of "se_swap32 env"] put_put [OF pl(1) lens(1), of ws'] hd h by (simp add: f(1))
  qed
  show "swapStructure env k f mem i True = Swapped (put mem i (h @ ws))" if "placed (?h @ ws') mem i"
  proof -
    have pl: "placed ?h mem i" "placed ws' mem (i + length ?h)" using that by (simp_all add: placed_append)
    have "take (headerWords k) (drop i (target (put mem i h))) = h"
      using take_target_put [OF pl(1), of h] lens(1) h by simp
    note hd = header_at [OF this]
    have "placed ws' (put mem i h) (i + length ?h)" by (rule placed_put [OF pl]) (simp add: lens(1))
    from swaps_toD(3) [OF ih f(2) this] show ?thesis
      using swap_range_placed [OF pl(1), of "se_swap32 env"] put_put [OF pl(1), of h ws] hd h lens swap32(2)
      by (simp add: f(1))
  qed
qed

lemma evio_swaps:
  "evio_structure env k b \<Longrightarrow> \<exists>b' F. swaps_to (swapStructure env k) F b b'"
  "evio_data env t ws \<Longrightarrow> \<forall>len. unat len = length ws \<longrightarrow>
     (\<exists>ws' F. swaps_to (\<lambda>f mem i b. swapData env f mem i t len b) F ws ws')"
proof (induction rule: evio_structure_evio_data.inducts)
  case (whole h k ws)
  then show ?case using swapStructure_whole by blast
next
  case (leaf t ws)
  then show ?case using swapData_leaf by blast
next
  case (composite ws)
  then show ?case using swapData_composite by blast
next
  case (contained t k bs)
  then show ?case using swapData_contained [of t k bs] by blast
qed

end

section \<open>The swaps of ByteOrder.h\<close>

text \<open>
  The macros of \<open>ByteOrder.h\<close> applied to arrays of words: a 64-bit value is two words, which
  change places.
\<close>

definition swap_halves :: "u32 \<Rightarrow> u32" where
  "swap_halves w = push_bit 16 (ucast (SWAP_16 (ucast (drop_bit 16 w)))) OR ucast (SWAP_16 (ucast w))"

fun swap_pairs :: "u32 list \<Rightarrow> u32 list" where
  "swap_pairs (a # b # ws) = SWAP_32 b # SWAP_32 a # swap_pairs ws"
| "swap_pairs ws = ws"

definition macro_swaps :: swap_env where
  "macro_swaps = \<lparr>se_swap32 = map SWAP_32, se_swap16 = map swap_halves, se_swap64 = swap_pairs,
     se_composite = \<lambda>_ ws. ws\<rparr>"

lemma join_halves:
  fixes x y :: u16
  shows "ucast (drop_bit 16 (push_bit 16 (ucast x) OR ucast y :: u32)) = x"
    and "ucast (push_bit 16 (ucast x) OR ucast y :: u32) = y"
  by (rule bit_word_eqI, auto simp: bit_simps dest: bit_imp_le_length)+

lemma split_halves: "push_bit 16 (ucast (ucast (drop_bit 16 w) :: u16)) OR ucast (ucast w :: u16) = (w :: u32)"
  by (rule bit_word_eqI) (auto simp: bit_simps)

lemma swap_halves_twice: "swap_halves (swap_halves w) = w"
  unfolding swap_halves_def join_halves SWAP_16_eq bswap_16_bswap_16 by (rule split_halves)

interpretation macros: byte_swapper macro_swaps
proof
  show "length (se_swap64 macro_swaps ws) = length ws" if "even (length ws)" for ws
    by (induction ws rule: swap_pairs.induct) (simp_all add: macro_swaps_def)
  show "se_swap64 macro_swaps (se_swap64 macro_swaps ws) = ws" if "even (length ws)" for ws
    by (induction ws rule: swap_pairs.induct) (simp_all add: macro_swaps_def SWAP_32_eq)
qed (simp_all add: macro_swaps_def SWAP_32_eq swap_halves_twice o_def)

section \<open>Property\<close>

text \<open>
  C32: an event whose header lengths and types fit together is swapped by \<open>swapEvent\<close> in place
  or into another array, with enough fuel for its structures: the routine ends, stays inside
  the event's words and leaves the others alone; and the event in the other byte order is
  swapped back to the well-formed event it was. The swaps called are any that change the byte
  order of an array and back.
\<close>

theorem swap_event_sound:
  assumes "byte_swapper env" and "evio_structure env Bank ev"
  shows "\<exists>ev' F. length ev' = length ev \<and> (\<forall>f \<ge> F. \<forall>mem i.
    (placed ev mem i \<longrightarrow> swapEvent env f mem i False = Swapped (put mem i ev'))
    \<and> (placed ev' mem i \<longrightarrow> swapEvent env f mem i True = Swapped (put mem i ev)))"
  using byte_swapper.evio_swaps(1) [OF assms] unfolding swaps_to_def swapEvent_def swapBank_def by blast

text \<open>A bank of two segments, one with two 32-bit words and one with three characters.\<close>

definition example_event :: "u32 list" where
  "example_event = [6, 0x00012001, 0x05010002, 10, 20, 0x06470001, 0x41424300]"


lemma example_event_ok: "evio_structure macro_swaps Bank example_event"
proof -
  have seg1: "evio_structure macro_swaps Segment ([0x05010002] @ [10, 20])"
    by (rule whole) (auto intro!: leaf simp: containedIn_def)
  have seg2: "evio_structure macro_swaps Segment ([0x06470001] @ [0x41424300])"
    by (rule whole) (auto intro!: leaf simp: containedIn_def)
  have "evio_data macro_swaps 0x20 (concat [[0x05010002] @ [10, 20], [0x06470001] @ [0x41424300]])"
    by (rule contained [where k = Segment]) (use seg1 seg2 in \<open>simp_all add: containedIn_def\<close>)
  then have "evio_structure macro_swaps Bank
      ([6, 0x00012001] @ concat [[0x05010002] @ [10, 20], [0x06470001] @ [0x41424300]])"
    by (intro whole) simp_all
  then show ?thesis by (simp add: example_event_def)
qed

theorem swap_event_sound_witness:
  "byte_swapper macro_swaps \<and> evio_structure macro_swaps Bank example_event
   \<and> (\<exists>ev' F. swapEvent macro_swaps F \<lparr>sm_src = example_event, sm_dst = None\<rparr> 0 False
         = Swapped \<lparr>sm_src = ev', sm_dst = None\<rparr>
       \<and> swapEvent macro_swaps F \<lparr>sm_src = ev', sm_dst = Some (replicate 7 0)\<rparr> 0 True
         = Swapped \<lparr>sm_src = ev', sm_dst = Some example_event\<rparr>)"
proof -
  obtain ev' F where "length ev' = length example_event"
      "placed example_event \<lparr>sm_src = example_event, sm_dst = None\<rparr> 0 \<longrightarrow>
        swapEvent macro_swaps F \<lparr>sm_src = example_event, sm_dst = None\<rparr> 0 False
         = Swapped (put \<lparr>sm_src = example_event, sm_dst = None\<rparr> 0 ev')"
      "placed ev' \<lparr>sm_src = ev', sm_dst = Some (replicate 7 0)\<rparr> 0 \<longrightarrow>
        swapEvent macro_swaps F \<lparr>sm_src = ev', sm_dst = Some (replicate 7 0)\<rparr> 0 True
         = Swapped (put \<lparr>sm_src = ev', sm_dst = Some (replicate 7 0)\<rparr> 0 example_event)"
    using swap_event_sound [OF macros.byte_swapper_axioms example_event_ok] by blast
  then show ?thesis
    using macros.byte_swapper_axioms example_event_ok
    by (auto simp: placed_def target_def put_def overwrite_def example_event_def)
qed

end
