(* ===== verification/Sequencer.thy ===== *)
theory Sequencer
  imports Dift_Prelude
begin

text \<open>
  The sequencers of the Disruptor ring: \<open>Sequencer.h\<close> and \<open>SingleProducerSequencer.h\<close>.
  A sequence number is an \<open>int64_t\<close> that starts at -1 and only grows, so it is modelled as
  an integer; the values of the gating sequences, which the consumers move concurrently, are
  part of the state. The functions of \<open>Util\<close> have no body in the repository and are
  arguments; the locale \<open>min_sequence\<close> holds what their documentation promises. A call
  that spins until the consumers make room is given what it reads on successive turns.
\<close>

section \<open>The functions of Util\<close>

locale min_sequence =
  fixes minSeq :: "int list \<Rightarrow> int \<Rightarrow> int"
  assumes min_le_default: "minSeq gs m \<le> m"
    and min_le: "g \<in> set gs \<Longrightarrow> minSeq gs m \<le> g"
    and min_attained: "minSeq gs m = m \<or> minSeq gs m \<in> set gs"
begin

lemma min_ge_iff: "w \<le> minSeq gs m \<longleftrightarrow> w \<le> m \<and> (\<forall>g \<in> set gs. w \<le> g)"
  using min_le_default [of gs m] min_le [of _ gs m] min_attained [of gs m] by fastforce

end

text \<open>The minimum by folding, as an instance of what the documentation says.\<close>

definition fold_min :: "int list \<Rightarrow> int \<Rightarrow> int" where
  "fold_min gs m = fold min gs m"

lemma fold_min_le: "fold min gs m \<le> m" "g \<in> set gs \<Longrightarrow> fold min gs m \<le> g"
    "fold min gs m = m \<or> fold min gs m \<in> set gs" for m :: int
proof (induction gs arbitrary: m)
  case (Cons a gs)
  {
    case 1
    then show ?case using Cons(1) [of "min a m"] by simp
  next
    case 2
    then show ?case using Cons(1,2) [of "min a m"] by fastforce
  next
    case 3
    then show ?case using Cons(3) [of "min a m"] by (auto simp: min_def split: if_splits)
  }
qed simp_all

interpretation folding: min_sequence fold_min
  by unfold_locales (auto simp: fold_min_def fold_min_le)

datatype seq_error = ArgumentException | InsufficientCapacityException

section \<open>State\<close>

definition InitialCursorValue :: int where "InitialCursorValue = -1"

record single_seq =
  ss_nextValue :: int
  ss_cachedValue :: int
  ss_cursor :: int
  ss_gating :: "int list"
  ss_bufferSize :: int

definition ss_new :: "(int \<Rightarrow> bool) \<Rightarrow> int \<Rightarrow> seq_error + single_seq" where
  "ss_new isPowerOf2 bufferSize =
    (if bufferSize < 1 then Inl ArgumentException
     else if \<not> isPowerOf2 bufferSize then Inl ArgumentException
     else Inr \<lparr>ss_nextValue = InitialCursorValue, ss_cachedValue = InitialCursorValue,
               ss_cursor = InitialCursorValue, ss_gating = [], ss_bufferSize = bufferSize\<rparr>)"

section \<open>Operations of the base class\<close>

text \<open>\<open>addSequences\<close> stands for \<open>SequenceGroups::addSequences\<close>.\<close>

definition ss_addGatingSequences ::
  "(int list \<Rightarrow> int \<Rightarrow> int list \<Rightarrow> int list) \<Rightarrow> single_seq \<Rightarrow> int list \<Rightarrow> single_seq" where
  "ss_addGatingSequences addSequences s gs =
     s\<lparr>ss_gating := addSequences (ss_gating s) (ss_cursor s) gs\<rparr>"

definition ss_getMinimumSequence :: "(int list \<Rightarrow> int \<Rightarrow> int) \<Rightarrow> single_seq \<Rightarrow> int" where
  "ss_getMinimumSequence minSeq s = minSeq (ss_gating s) (ss_cursor s)"

section \<open>Claiming\<close>

definition ss_hasAvailableCapacity ::
  "(int list \<Rightarrow> int \<Rightarrow> int) \<Rightarrow> single_seq \<Rightarrow> int \<Rightarrow> bool \<times> single_seq" where
  "ss_hasAvailableCapacity minSeq s requiredCapacity =
    (let nextValue = ss_nextValue s;
         wrapPoint = (nextValue + requiredCapacity) - ss_bufferSize s;
         cachedGatingSequence = ss_cachedValue s
     in if wrapPoint > cachedGatingSequence \<or> cachedGatingSequence > nextValue
        then let minSequence = minSeq (ss_gating s) nextValue
             in (\<not> wrapPoint > minSequence, s\<lparr>ss_cachedValue := minSequence\<rparr>)
        else (True, s))"

text \<open>The outcome of a call that may spin: \<open>Waiting\<close> when what it was given to read ran out.\<close>

datatype 's claim = Claimed int 's | Waiting 's | Rejected seq_error

text \<open>The loop \<open>while (wrapPoint > (minSequence = getMinimumSequence(...)))\<close>.\<close>

fun ss_spin ::
  "(int list \<Rightarrow> int \<Rightarrow> int) \<Rightarrow> int \<Rightarrow> int \<Rightarrow> int list list \<Rightarrow> single_seq \<Rightarrow> (int \<times> single_seq) option \<times> single_seq"
  where
  "ss_spin minSeq wrapPoint nextValue [] s = (None, s)"
| "ss_spin minSeq wrapPoint nextValue (g # gs) s =
     (let s = s\<lparr>ss_gating := g\<rparr>; minSequence = minSeq g nextValue
      in if wrapPoint > minSequence then ss_spin minSeq wrapPoint nextValue gs s
         else (Some (minSequence, s), s))"

definition ss_next ::
  "(int list \<Rightarrow> int \<Rightarrow> int) \<Rightarrow> int list list \<Rightarrow> single_seq \<Rightarrow> int \<Rightarrow> single_seq claim" where
  "ss_next minSeq reads s n =
    (if n < 1 \<or> n > ss_bufferSize s then Rejected ArgumentException
     else
      let nextValue = ss_nextValue s;
          nextSequence = nextValue + n;
          wrapPoint = nextSequence - ss_bufferSize s;
          cachedGatingSequence = ss_cachedValue s
      in
       if wrapPoint > cachedGatingSequence \<or> cachedGatingSequence > nextValue
       then (case ss_spin minSeq wrapPoint nextValue reads (s\<lparr>ss_cursor := nextValue\<rparr>) of
               (None, s') \<Rightarrow> Waiting s'
             | (Some (minSequence, s'), _) \<Rightarrow>
                 Claimed nextSequence
                   (s'\<lparr>ss_cachedValue := minSequence, ss_nextValue := nextSequence\<rparr>))
       else Claimed nextSequence (s\<lparr>ss_nextValue := nextSequence\<rparr>))"

definition ss_tryNext ::
  "(int list \<Rightarrow> int \<Rightarrow> int) \<Rightarrow> single_seq \<Rightarrow> int \<Rightarrow> (seq_error + int) \<times> single_seq" where
  "ss_tryNext minSeq s n =
    (if n < 1 then (Inl ArgumentException, s)
     else
      let (ok, s) = ss_hasAvailableCapacity minSeq s n in
      if \<not> ok then (Inl InsufficientCapacityException, s)
      else
       let nextSequence = ss_nextValue s + n
       in (Inr nextSequence, s\<lparr>ss_nextValue := nextSequence\<rparr>))"

definition ss_getRemainingCapacity :: "(int list \<Rightarrow> int \<Rightarrow> int) \<Rightarrow> single_seq \<Rightarrow> int" where
  "ss_getRemainingCapacity minSeq s =
    (let nextValue = ss_nextValue s;
         consumed = minSeq (ss_gating s) nextValue;
         produced = nextValue
     in ss_bufferSize s - (produced - consumed))"

definition ss_claim :: "single_seq \<Rightarrow> int \<Rightarrow> single_seq" where
  "ss_claim s sequence = s\<lparr>ss_nextValue := sequence\<rparr>"

section \<open>Publishing\<close>

definition ss_publish :: "single_seq \<Rightarrow> int \<Rightarrow> single_seq" where
  "ss_publish s sequence = s\<lparr>ss_cursor := sequence\<rparr>"

definition ss_publish_range :: "single_seq \<Rightarrow> int \<Rightarrow> int \<Rightarrow> single_seq" where
  "ss_publish_range s lo hi = ss_publish s hi"

definition ss_isAvailable :: "single_seq \<Rightarrow> int \<Rightarrow> bool" where
  "ss_isAvailable s sequence = (sequence \<le> ss_cursor s)"

definition ss_getHighestPublishedSequence :: "single_seq \<Rightarrow> int \<Rightarrow> int \<Rightarrow> int" where
  "ss_getHighestPublishedSequence s nextSequence availableSequence = availableSequence"

section \<open>The invariant\<close>

text \<open>
  What the producer relies on when it reuses a slot: every consumer has passed the sequence
  that occupied it. The cached value is a lower bound of what the consumers have reached.
\<close>

definition ss_inv :: "single_seq \<Rightarrow> bool" where
  "ss_inv s \<longleftrightarrow> 1 \<le> ss_bufferSize s \<and> ss_cursor s \<le> ss_nextValue s \<and> ss_cachedValue s \<le> ss_nextValue s
     \<and> (\<forall>g \<in> set (ss_gating s). ss_cachedValue s \<le> g \<and> ss_nextValue s - ss_bufferSize s \<le> g
          \<and> g \<le> ss_nextValue s)"

text \<open>The consumers move on, never past what has been claimed.\<close>

definition consumers_advance :: "int \<Rightarrow> int list \<Rightarrow> int list \<Rightarrow> bool" where
  "consumers_advance m gs gs' \<longleftrightarrow> list_all2 (\<le>) gs gs' \<and> (\<forall>g \<in> set gs'. g \<le> m)"

fun successive_reads :: "int \<Rightarrow> int list \<Rightarrow> int list list \<Rightarrow> bool" where
  "successive_reads m gs [] = True"
| "successive_reads m gs (g # rest) = (consumers_advance m gs g \<and> successive_reads m g rest)"

lemma list_all2_le_set: "list_all2 (\<le>) gs gs' \<Longrightarrow> \<forall>g \<in> set gs. w \<le> g \<Longrightarrow> \<forall>g \<in> set gs'. w \<le> (g :: int)"
  by (induction rule: list_all2_induct) (auto intro: order_trans)

lemma ss_inv_advance:
  assumes "ss_inv s" and "consumers_advance (ss_nextValue s) (ss_gating s) gs'"
  shows "ss_inv (s\<lparr>ss_gating := gs'\<rparr>)"
proof -
  have "\<forall>g \<in> set gs'. ss_cachedValue s \<le> g" "\<forall>g \<in> set gs'. ss_nextValue s - ss_bufferSize s \<le> g"
    using assms list_all2_le_set [of "ss_gating s" gs'] by (auto simp: ss_inv_def consumers_advance_def)
  then show ?thesis using assms by (auto simp: ss_inv_def consumers_advance_def)
qed

lemma ss_spin_None:
  "ss_inv s \<Longrightarrow> successive_reads (ss_nextValue s) (ss_gating s) reads \<Longrightarrow>
   ss_spin minSeq w (ss_nextValue s) reads s = (None, s') \<Longrightarrow>
   ss_inv s' \<and> s' = s\<lparr>ss_gating := ss_gating s'\<rparr>"
proof (induction reads arbitrary: s)
  case Nil
  then show ?case by simp
next
  case (Cons g reads)
  let ?s = "s\<lparr>ss_gating := g\<rparr>"
  have "ss_inv ?s" using ss_inv_advance Cons.prems by simp
  then show ?case
    using Cons.IH [of ?s] Cons.prems by (auto simp: Let_def split: if_splits)
qed

lemma ss_spin_Some:
  "ss_inv s \<Longrightarrow> successive_reads (ss_nextValue s) (ss_gating s) reads \<Longrightarrow>
   ss_spin minSeq w (ss_nextValue s) reads s = (Some (m, s'), s'') \<Longrightarrow>
   ss_inv s' \<and> s' = s\<lparr>ss_gating := ss_gating s'\<rparr> \<and> m = minSeq (ss_gating s') (ss_nextValue s) \<and> w \<le> m"
proof (induction reads arbitrary: s)
  case Nil
  then show ?case by simp
next
  case (Cons g reads)
  let ?s = "s\<lparr>ss_gating := g\<rparr>"
  have "ss_inv ?s" using ss_inv_advance Cons.prems by simp
  then show ?case
    using Cons.IH [of ?s] Cons.prems by (auto simp: Let_def split: if_splits)
qed


section \<open>What a sequencer promises\<close>

text \<open>
  \<open>produced\<close> is the highest claimed sequence. A successful claim of \<open>n\<close> sequences gives
  the next \<open>n\<close>, and every consumer has passed what the claimed slots held before.
\<close>

locale sequencer =
  fixes inv :: "'s \<Rightarrow> bool"
    and produced :: "'s \<Rightarrow> int"
    and gating :: "'s \<Rightarrow> int list"
    and size :: "'s \<Rightarrow> int"
    and tryClaim :: "'s \<Rightarrow> int \<Rightarrow> (seq_error + int) \<times> 's"
  assumes size_pos: "inv s \<Longrightarrow> 1 \<le> size s"
    and no_overrun: "inv s \<Longrightarrow> g \<in> set (gating s) \<Longrightarrow> produced s - size s \<le> g"
    and claim_ok: "inv s \<Longrightarrow> tryClaim s n = (Inr hi, s') \<Longrightarrow>
      inv s' \<and> hi = produced s + n \<and> produced s' = hi \<and> gating s' = gating s \<and> size s' = size s \<and> 1 \<le> n"
    and claim_fails: "inv s \<Longrightarrow> tryClaim s n = (Inl e, s') \<Longrightarrow>
      inv s' \<and> produced s' = produced s \<and> gating s' = gating s \<and> size s' = size s
      \<and> (if n < 1 then e = ArgumentException
         else e = InsufficientCapacityException
           \<and> (n > size s \<or> (\<exists>g \<in> set (gating s). g < produced s + n - size s)))"
begin

text \<open>Two claimed sequences that some consumer has not passed lie in different slots.\<close>

lemma slots_distinct:
  assumes "inv s" and "g \<in> set (gating s)" and "g < x" "x < y" "y \<le> produced s"
  shows "x mod size s \<noteq> y mod size s"
proof
  assume "x mod size s = y mod size s"
  then obtain k where k: "y - x = size s * k" by (metis mod_eq_dvd_iff dvd_def)
  have "0 < size s" using size_pos [OF assms(1)] by simp
  moreover have "0 < size s * k" using k assms(4) by simp
  ultimately have "1 \<le> k" by (simp add: zero_less_mult_iff)
  then have "size s \<le> y - x" using k \<open>0 < size s\<close> by (simp add: mult_le_cancel_left1)
  then show False using no_overrun [OF assms(1,2)] assms(3-5) by linarith
qed

text \<open>A claim finds the slots it gives out free: every consumer has passed their last use.\<close>

lemma claimed_slots_free:
  assumes "inv s" and "tryClaim s n = (Inr hi, s')" and "g \<in> set (gating s)"
    and "produced s < x" and "x \<le> hi"
  shows "x - size s \<le> g"
  using claim_ok [OF assms(1,2)] no_overrun [of s' g] assms(3-5) by auto

end

context min_sequence
begin

lemma ss_capacity:
  assumes "ss_inv s" and "ss_hasAvailableCapacity minSeq s n = (ok, s')"
  shows "ss_inv s' \<and> ss_nextValue s' = ss_nextValue s \<and> ss_gating s' = ss_gating s
     \<and> ss_bufferSize s' = ss_bufferSize s \<and> ss_cursor s' = ss_cursor s
     \<and> (ok \<longleftrightarrow> n \<le> ss_bufferSize s \<and> (\<forall>g \<in> set (ss_gating s). ss_nextValue s + n - ss_bufferSize s \<le> g))"
proof -
  let ?m = "minSeq (ss_gating s) (ss_nextValue s)"
  have "ss_inv (s\<lparr>ss_cachedValue := ?m\<rparr>)"
    using assms(1) min_le_default min_le by (auto simp: ss_inv_def)
  moreover have "ss_nextValue s + n - ss_bufferSize s \<le> ?m \<longleftrightarrow>
      n \<le> ss_bufferSize s \<and> (\<forall>g \<in> set (ss_gating s). ss_nextValue s + n - ss_bufferSize s \<le> g)"
    by (auto simp: min_ge_iff)
  moreover have "ss_nextValue s + n - ss_bufferSize s \<le> ss_cachedValue s \<Longrightarrow>
      n \<le> ss_bufferSize s \<and> (\<forall>g \<in> set (ss_gating s). ss_nextValue s + n - ss_bufferSize s \<le> g)"
    using assms(1) by (force simp: ss_inv_def)
  ultimately show ?thesis
    using assms by (auto simp: ss_hasAvailableCapacity_def Let_def not_less split: if_splits)
qed

lemma ss_tryNext_ok:
  assumes "ss_inv s" and "ss_tryNext minSeq s n = (Inr hi, s')"
  shows "ss_inv s' \<and> hi = ss_nextValue s + n \<and> ss_nextValue s' = hi \<and> ss_gating s' = ss_gating s
     \<and> ss_bufferSize s' = ss_bufferSize s \<and> 1 \<le> n"
proof -
  obtain ok s1 where cap: "ss_hasAvailableCapacity minSeq s n = (ok, s1)" by fastforce
  then have "n \<ge> 1" "ok" "hi = ss_nextValue s1 + n" "s' = s1\<lparr>ss_nextValue := hi\<rparr>"
    using assms(2) by (auto simp: ss_tryNext_def Let_def split: if_splits)
  with ss_capacity [OF assms(1) cap] show ?thesis by (force simp: ss_inv_def)
qed

lemma ss_tryNext_fails:
  assumes "ss_inv s" and "ss_tryNext minSeq s n = (Inl e, s')"
  shows "ss_inv s' \<and> ss_nextValue s' = ss_nextValue s \<and> ss_gating s' = ss_gating s
     \<and> ss_bufferSize s' = ss_bufferSize s
     \<and> (if n < 1 then e = ArgumentException
        else e = InsufficientCapacityException
          \<and> (n > ss_bufferSize s \<or> (\<exists>g \<in> set (ss_gating s). g < ss_nextValue s + n - ss_bufferSize s)))"
proof -
  obtain ok s1 where cap: "ss_hasAvailableCapacity minSeq s n = (ok, s1)" by fastforce
  with ss_capacity [OF assms(1) cap] assms show ?thesis
    by (auto simp: ss_tryNext_def not_le Let_def split: if_splits)
qed

text \<open>A completed \<open>next\<close> keeps the invariant and gives the next \<open>n\<close> sequences.\<close>

lemma ss_next_Claimed:
  assumes "ss_inv s" and "successive_reads (ss_nextValue s) (ss_gating s) reads"
    and "ss_next minSeq reads s n = Claimed hi s'"
  shows "ss_inv s' \<and> hi = ss_nextValue s + n \<and> ss_nextValue s' = hi \<and> ss_bufferSize s' = ss_bufferSize s"
proof -
  let ?c = "s\<lparr>ss_cursor := ss_nextValue s\<rparr>"
  let ?w = "ss_nextValue s + n - ss_bufferSize s"
  have n: "1 \<le> n" "n \<le> ss_bufferSize s" using assms(3) by (auto simp: ss_next_def split: if_splits)
  have c: "ss_inv ?c" using assms(1) by (simp add: ss_inv_def)
  show ?thesis
  proof (cases "?w > ss_cachedValue s \<or> ss_cachedValue s > ss_nextValue s")
    case True
    obtain m t t' where spin: "ss_spin minSeq ?w (ss_nextValue s) reads ?c = (Some (m, t), t')"
      and s': "hi = ss_nextValue s + n"
        "s' = t\<lparr>ss_cachedValue := m, ss_nextValue := ss_nextValue s + n\<rparr>"
      using assms(3) n True by (auto simp: ss_next_def Let_def split: prod.splits option.splits)
    have t: "ss_inv t" "t = ?c\<lparr>ss_gating := ss_gating t\<rparr>" "m = minSeq (ss_gating t) (ss_nextValue s)" "?w \<le> m"
      using ss_spin_Some [OF c, of reads minSeq ?w m t t'] assms(2) spin by simp_all
    have eqs: "ss_nextValue t = ss_nextValue s" "ss_cursor t = ss_nextValue s"
        "ss_bufferSize t = ss_bufferSize s"
      using t(2) by (metis single_seq.select_convs single_seq.surjective single_seq.update_convs)+
    show ?thesis
      using t eqs s' n min_le [of _ "ss_gating t" "ss_nextValue s"] min_le_default [of "ss_gating t" "ss_nextValue s"]
      by (fastforce simp: ss_inv_def)
  next
    case False
    then have "hi = ss_nextValue s + n" "s' = s\<lparr>ss_nextValue := ss_nextValue s + n\<rparr>"
      using assms(3) n by (auto simp: ss_next_def Let_def)
    then show ?thesis using assms(1) n False by (force simp: ss_inv_def)
  qed
qed

end

text \<open>For every minimum that keeps its documentation the sequencer keeps its contract.\<close>

context min_sequence
begin

lemma ss_sequencer: "sequencer ss_inv ss_nextValue ss_gating ss_bufferSize (ss_tryNext minSeq)"
proof
  show "ss_inv s \<Longrightarrow> 1 \<le> ss_bufferSize s" for s by (simp add: ss_inv_def)
  show "ss_inv s \<Longrightarrow> g \<in> set (ss_gating s) \<Longrightarrow> ss_nextValue s - ss_bufferSize s \<le> g" for s g
    by (simp add: ss_inv_def)
qed (use ss_tryNext_ok ss_tryNext_fails in blast)+

end

sublocale min_sequence \<subseteq> single: sequencer ss_inv ss_nextValue ss_gating ss_bufferSize "ss_tryNext minSeq"
  by (rule ss_sequencer)

section \<open>Producer and consumers\<close>

text \<open>
  The ring in operation: the producer claims by \<open>next\<close> or \<open>tryNext\<close>, also in vain, and
  publishes what it has claimed; between and during its calls the consumers move on.
\<close>

inductive ss_step :: "(int list \<Rightarrow> int \<Rightarrow> int) \<Rightarrow> single_seq \<Rightarrow> single_seq \<Rightarrow> bool" for minSeq where
  Next: "successive_reads (ss_nextValue s) (ss_gating s) reads \<Longrightarrow>
    ss_next minSeq reads s n = Claimed hi s' \<Longrightarrow> ss_step minSeq s s'"
| Spinning: "successive_reads (ss_nextValue s) (ss_gating s) reads \<Longrightarrow>
    ss_next minSeq reads s n = Waiting s' \<Longrightarrow> ss_step minSeq s s'"
| Try: "ss_tryNext minSeq s n = (r, s') \<Longrightarrow> ss_step minSeq s s'"
| Publish: "ss_cursor s \<le> x \<Longrightarrow> x \<le> ss_nextValue s \<Longrightarrow> ss_step minSeq s (ss_publish s x)"
| Consume: "consumers_advance (ss_nextValue s) (ss_gating s) gs \<Longrightarrow> ss_step minSeq s (s\<lparr>ss_gating := gs\<rparr>)"

definition ss_start :: "single_seq \<Rightarrow> bool" where
  "ss_start s \<longleftrightarrow> 1 \<le> ss_bufferSize s \<and> ss_nextValue s = -1 \<and> ss_cachedValue s = -1 \<and> ss_cursor s = -1
     \<and> (\<forall>g \<in> set (ss_gating s). g = -1)"

lemma ss_start_inv: "ss_start s \<Longrightarrow> ss_inv s"
  by (simp add: ss_start_def ss_inv_def)

lemma ss_next_Waiting:
  assumes "ss_inv s" and "successive_reads (ss_nextValue s) (ss_gating s) reads"
    and "ss_next minSeq reads s n = Waiting s'"
  shows "ss_inv s'"
proof -
  let ?c = "s\<lparr>ss_cursor := ss_nextValue s\<rparr>"
  have c: "ss_inv ?c" using assms(1) by (simp add: ss_inv_def)
  have "\<exists>w. ss_spin minSeq w (ss_nextValue s) reads ?c = (None, s')"
    using assms(3) by (auto simp: ss_next_def Let_def split: if_splits prod.splits option.splits)
  then show ?thesis using ss_spin_None [OF c, of reads] assms(2) by auto
qed

lemma ss_step_inv:
  assumes "min_sequence minSeq" and "ss_step minSeq s s'" and "ss_inv s"
  shows "ss_inv s'"
  using assms(2,3)
proof cases
  case (Next reads n hi)
  then show ?thesis using min_sequence.ss_next_Claimed [OF assms(1,3)] by blast
next
  case (Spinning reads n)
  then show ?thesis using ss_next_Waiting [OF assms(3)] by blast
next
  case (Try n r)
  then show ?thesis
    using min_sequence.ss_tryNext_ok [OF assms(1,3)] min_sequence.ss_tryNext_fails [OF assms(1,3)]
    by (cases r) blast+
next
  case (Publish x)
  then show ?thesis using assms(3) by (simp add: ss_publish_def ss_inv_def)
next
  case (Consume gs)
  then show ?thesis using ss_inv_advance [OF assms(3)] by simp
qed

lemma ss_reachable_inv:
  assumes "min_sequence minSeq" and "(ss_step minSeq)\<^sup>*\<^sup>* s0 s" and "ss_start s0"
  shows "ss_inv s"
  using assms(2,3) by (induction rule: rtranclp_induct) (auto intro: ss_start_inv ss_step_inv [OF assms(1)])

section \<open>Properties\<close>

text \<open>
  C24: in every state the ring can reach, however claims, publications and the consumers'
  progress interleave, the producer is at most one ring ahead of every consumer, the cursor
  never passes what has been claimed, and the claimed sequences that a consumer has not
  passed occupy pairwise different slots, so nothing unread is overwritten.
\<close>

theorem single_ring_safe:
  assumes "min_sequence minSeq" and "ss_start s0" and "(ss_step minSeq)\<^sup>*\<^sup>* s0 s"
  shows "ss_cursor s \<le> ss_nextValue s
    \<and> (\<forall>g \<in> set (ss_gating s). ss_nextValue s - ss_bufferSize s \<le> g \<and> g \<le> ss_nextValue s
         \<and> (\<forall>x y. g < x \<and> x < y \<and> y \<le> ss_nextValue s \<longrightarrow> x mod ss_bufferSize s \<noteq> y mod ss_bufferSize s))"
proof -
  have inv: "ss_inv s" by (rule ss_reachable_inv [OF assms(1,3,2)])
  then show ?thesis
    using sequencer.slots_distinct [OF min_sequence.ss_sequencer [OF assms(1)] inv] by (auto simp: ss_inv_def)
qed

theorem single_ring_safe_witness:
  "\<exists>s. (ss_step fold_min)\<^sup>*\<^sup>* \<lparr>ss_nextValue = -1, ss_cachedValue = -1, ss_cursor = -1,
        ss_gating = [-1], ss_bufferSize = 2\<rparr> s
     \<and> ss_nextValue s = 1 \<and> ss_gating s = [-1]
     \<and> (\<forall>x y. -1 < x \<and> x < y \<and> y \<le> ss_nextValue s \<longrightarrow> x mod ss_bufferSize s \<noteq> y mod ss_bufferSize s)"
proof -
  let ?init = "\<lparr>ss_nextValue = -1, ss_cachedValue = -1, ss_cursor = -1, ss_gating = [-1], ss_bufferSize = 2\<rparr>"
  let ?s = "\<lparr>ss_nextValue = 1, ss_cachedValue = -1, ss_cursor = -1, ss_gating = [-1], ss_bufferSize = 2\<rparr>"
  have start: "ss_start ?init" by (simp add: ss_start_def)
  have "ss_tryNext fold_min ?init 2 = (Inr 1, ?s)"
    by (simp add: ss_tryNext_def ss_hasAvailableCapacity_def Let_def)
  then have reach: "(ss_step fold_min)\<^sup>*\<^sup>* ?init ?s" by (blast intro: ss_step.Try)
  show ?thesis
    using reach single_ring_safe [OF folding.min_sequence_axioms start reach]
    by (intro exI [of _ ?s]) simp
qed

text \<open>
  \<open>tryNext\<close> succeeds exactly when at least one and at most
  \<open>getRemainingCapacity\<close> sequences are asked for; it then returns the highest of the
  next \<open>n\<close> sequences, and otherwise the exception of its cause.
\<close>

theorem tryNext_iff_capacity:
  assumes "min_sequence minSeq" and "ss_inv s"
  shows "fst (ss_tryNext minSeq s n) =
    (if n < 1 then Inl ArgumentException
     else if n \<le> ss_getRemainingCapacity minSeq s then Inr (ss_nextValue s + n)
     else Inl InsufficientCapacityException)"
proof -
  obtain ok s1 where cap: "ss_hasAvailableCapacity minSeq s n = (ok, s1)" by fastforce
  note c = min_sequence.ss_capacity [OF assms cap]
  have "ok \<longleftrightarrow> ss_nextValue s + n - ss_bufferSize s \<le> minSeq (ss_gating s) (ss_nextValue s)"
    using c by (auto simp: min_sequence.min_ge_iff [OF assms(1)])
  then have "ok \<longleftrightarrow> n \<le> ss_getRemainingCapacity minSeq s"
    by (auto simp: ss_getRemainingCapacity_def Let_def)
  then show ?thesis using c by (auto simp: ss_tryNext_def cap Let_def)
qed

theorem tryNext_iff_capacity_witness:
  "fst (ss_tryNext fold_min \<lparr>ss_nextValue = 6, ss_cachedValue = -1, ss_cursor = 6,
      ss_gating = [4, 3], ss_bufferSize = 4\<rparr> 2) = Inl InsufficientCapacityException
   \<and> fst (ss_tryNext fold_min \<lparr>ss_nextValue = 6, ss_cachedValue = -1, ss_cursor = 6,
      ss_gating = [4, 3], ss_bufferSize = 4\<rparr> 1) = Inr 7"
proof -
  let ?s = "\<lparr>ss_nextValue = 6, ss_cachedValue = -1, ss_cursor = 6, ss_gating = [4, 3], ss_bufferSize = 4\<rparr>"
  have "ss_inv ?s" by (simp add: ss_inv_def)
  then show ?thesis
    using tryNext_iff_capacity [OF folding.min_sequence_axioms, of ?s]
    by (simp add: ss_getRemainingCapacity_def fold_min_def)
qed



end
