(* ===== verification/Multi_Sequencer.thy ===== *)
theory Multi_Sequencer
  imports Sequencer
begin

text \<open>
  \<open>MultiProducerSequencer.h\<close>: several producer threads claim sequences by compare-and-set
  on the cursor and mark each published sequence in an array of flags. A thread is a program
  counter with its locals, one constructor per point between two accesses to shared memory;
  \<open>ms_thread\<close> is the next such access. The threads and the consumers interleave freely in
  the relation \<open>ms_step\<close>, and the theorems hold for every interleaving.
\<close>

section \<open>Shared state\<close>

record multi_seq =
  ms_cursor :: int
  ms_cache :: int
  ms_gating :: "int list"
  ms_available :: "i32 list"
  ms_indexMask :: i32
  ms_indexShift :: nat
  ms_bufferSize :: int

definition setAvailableBufferValue :: "multi_seq \<Rightarrow> nat \<Rightarrow> i32 \<Rightarrow> multi_seq" where
  "setAvailableBufferValue s index flag = s\<lparr>ms_available := (ms_available s)[index := flag]\<rparr>"

definition initializeAvailableBuffer :: "multi_seq \<Rightarrow> multi_seq" where
  "initializeAvailableBuffer s =
     setAvailableBufferValue
       (fold (\<lambda>i s. setAvailableBufferValue s i (-1)) (rev [1..<nat (ms_bufferSize s)]) s) 0 (-1)"

text \<open>\<open>raw\<close> is what the fresh array holds before it is initialised.\<close>

definition ms_new ::
  "(int \<Rightarrow> bool) \<Rightarrow> (int \<Rightarrow> nat) \<Rightarrow> i32 list \<Rightarrow> int \<Rightarrow> seq_error + multi_seq" where
  "ms_new isPowerOf2 log2 raw bufferSize =
    (if bufferSize < 1 then Inl ArgumentException
     else if \<not> isPowerOf2 bufferSize then Inl ArgumentException
     else Inr (initializeAvailableBuffer
       \<lparr>ms_cursor = InitialCursorValue, ms_cache = InitialCursorValue, ms_gating = [],
        ms_available = raw, ms_indexMask = word_of_int (bufferSize - 1),
        ms_indexShift = log2 bufferSize, ms_bufferSize = bufferSize\<rparr>))"

definition calculateAvailabilityFlag :: "multi_seq \<Rightarrow> int \<Rightarrow> i32" where
  "calculateAvailabilityFlag s sequence =
     ucast (drop_bit (ms_indexShift s) (word_of_int sequence :: u64))"

definition calculateIndex :: "multi_seq \<Rightarrow> int \<Rightarrow> nat" where
  "calculateIndex s sequence = unat ((word_of_int sequence :: i32) AND ms_indexMask s)"

definition setAvailable :: "multi_seq \<Rightarrow> int \<Rightarrow> multi_seq" where
  "setAvailable s sequence =
     setAvailableBufferValue s (calculateIndex s sequence) (calculateAvailabilityFlag s sequence)"

section \<open>Operations\<close>

definition ms_isAvailable :: "multi_seq \<Rightarrow> int \<Rightarrow> bool" where
  "ms_isAvailable s sequence =
     (ms_available s ! calculateIndex s sequence = calculateAvailabilityFlag s sequence)"

definition ms_publish :: "multi_seq \<Rightarrow> int \<Rightarrow> multi_seq" where
  "ms_publish s sequence = setAvailable s sequence"

definition ms_publish_range :: "multi_seq \<Rightarrow> int \<Rightarrow> int \<Rightarrow> multi_seq" where
  "ms_publish_range s lo hi = fold (\<lambda>l s. setAvailable s l) [lo..hi] s"

function ms_getHighestPublishedSequence :: "multi_seq \<Rightarrow> int \<Rightarrow> int \<Rightarrow> int" where
  "ms_getHighestPublishedSequence s sequence availableSequence =
    (if sequence \<le> availableSequence
     then if \<not> ms_isAvailable s sequence then sequence - 1
          else ms_getHighestPublishedSequence s (sequence + 1) availableSequence
     else availableSequence)"
  by pat_completeness auto
termination
  by (relation "measure (\<lambda>(s, x, a). nat (a + 1 - x))") auto

declare ms_getHighestPublishedSequence.simps [simp del]

definition ms_claim :: "multi_seq \<Rightarrow> int \<Rightarrow> multi_seq" where
  "ms_claim s sequence = s\<lparr>ms_cursor := sequence\<rparr>"

definition ms_hasAvailableCapacity ::
  "(int list \<Rightarrow> int \<Rightarrow> int) \<Rightarrow> multi_seq \<Rightarrow> int \<Rightarrow> int \<Rightarrow> bool \<times> multi_seq" where
  "ms_hasAvailableCapacity minSeq s requiredCapacity cursorValue =
    (let wrapPoint = (cursorValue + requiredCapacity) - ms_bufferSize s;
         cachedGatingSequence = ms_cache s
     in if wrapPoint > cachedGatingSequence \<or> cachedGatingSequence > cursorValue
        then let minSequence = minSeq (ms_gating s) cursorValue
             in (\<not> wrapPoint > minSequence, s\<lparr>ms_cache := minSequence\<rparr>)
        else (True, s))"

definition ms_getRemainingCapacity :: "(int list \<Rightarrow> int \<Rightarrow> int) \<Rightarrow> multi_seq \<Rightarrow> int" where
  "ms_getRemainingCapacity minSeq s =
    (let consumed = minSeq (ms_gating s) (ms_cursor s); produced = ms_cursor s
     in ms_bufferSize s - (produced - consumed))"

text \<open>\<open>Sequence::compareAndSet\<close> on the cursor.\<close>

definition compareAndSet :: "multi_seq \<Rightarrow> int \<Rightarrow> int \<Rightarrow> bool \<times> multi_seq" where
  "compareAndSet s expected nextSequence =
     (if ms_cursor s = expected then (True, s\<lparr>ms_cursor := nextSequence\<rparr>) else (False, s))"

text \<open>\<open>tryNext\<close> of a thread that no other disturbs: its compare-and-set succeeds.\<close>

definition ms_tryNext ::
  "(int list \<Rightarrow> int \<Rightarrow> int) \<Rightarrow> multi_seq \<Rightarrow> int \<Rightarrow> (seq_error + int) \<times> multi_seq" where
  "ms_tryNext minSeq s n =
    (if n < 1 then (Inl ArgumentException, s)
     else
      let current = ms_cursor s;
          next = current + n;
          (ok, s) = ms_hasAvailableCapacity minSeq s n current
      in if \<not> ok then (Inl InsufficientCapacityException, s)
         else (Inr next, snd (compareAndSet s current next)))"

section \<open>Threads\<close>

text \<open>
  \<open>NextCall n\<close> and \<open>TryCall n\<close> are the entries of \<open>next(n)\<close> and \<open>tryNext(n)\<close>;
  \<open>Holding lo hi\<close> is a thread that has claimed \<open>lo\<close> to \<open>hi\<close>; \<open>PublishRange l hi\<close> is
  the loop of \<open>publish(lo, hi)\<close> at \<open>l\<close>.
\<close>

datatype ms_pc = Idle | NextCall int | NextTop int | NextHaveCur int int | NextNeedMin int int
  | NextSetCache int int int | NextCas int int
  | TryCall int | TryTop int | TryHaveCur int int | TryNeedMin int int | TrySetCache int int int
  | TryCas int int | Failed seq_error | Holding int int | PublishRange int int

text \<open>The next access of a thread; \<open>gs\<close> is what \<open>getMinimumSequence\<close> reads, if it reads.\<close>

fun ms_thread ::
  "(int list \<Rightarrow> int \<Rightarrow> int) \<Rightarrow> int list \<Rightarrow> multi_seq \<Rightarrow> ms_pc \<Rightarrow> multi_seq \<times> ms_pc" where
  "ms_thread minSeq gs s (NextCall n) = (s, if n < 1 then Failed ArgumentException else NextTop n)"
| "ms_thread minSeq gs s (NextTop n) = (s, NextHaveCur n (ms_cursor s))"
| "ms_thread minSeq gs s (NextHaveCur n cur) =
    (s, if cur + n - ms_bufferSize s > ms_cache s \<or> ms_cache s > cur then NextNeedMin n cur
        else NextCas n cur)"
| "ms_thread minSeq gs s (NextNeedMin n cur) =
    (s, if cur + n - ms_bufferSize s > minSeq gs cur then NextTop n
        else NextSetCache n cur (minSeq gs cur))"
| "ms_thread minSeq gs s (NextSetCache n cur g) = (s\<lparr>ms_cache := g\<rparr>, NextTop n)"
| "ms_thread minSeq gs s (NextCas n cur) =
    (let (ok, s') = compareAndSet s cur (cur + n)
     in (s', if ok then Holding (cur + 1) (cur + n) else NextTop n))"
| "ms_thread minSeq gs s (TryCall n) = (s, if n < 1 then Failed ArgumentException else TryTop n)"
| "ms_thread minSeq gs s (TryTop n) = (s, TryHaveCur n (ms_cursor s))"
| "ms_thread minSeq gs s (TryHaveCur n cur) =
    (s, if cur + n - ms_bufferSize s > ms_cache s \<or> ms_cache s > cur then TryNeedMin n cur
        else TryCas n cur)"
| "ms_thread minSeq gs s (TryNeedMin n cur) = (s, TrySetCache n cur (minSeq gs cur))"
| "ms_thread minSeq gs s (TrySetCache n cur g) =
    (s\<lparr>ms_cache := g\<rparr>,
     if cur + n - ms_bufferSize s > g then Failed InsufficientCapacityException else TryCas n cur)"
| "ms_thread minSeq gs s (TryCas n cur) =
    (let (ok, s') = compareAndSet s cur (cur + n)
     in (s', if ok then Holding (cur + 1) (cur + n) else TryTop n))"
| "ms_thread minSeq gs s (PublishRange l hi) =
    (if l \<le> hi then (setAvailable s l, PublishRange (l + 1) hi) else (s, Idle))"
| "ms_thread minSeq gs s Idle = (s, Idle)"
| "ms_thread minSeq gs s (Failed e) = (s, Idle)"
| "ms_thread minSeq gs s (Holding lo hi) = (s, PublishRange lo hi)"

text \<open>
  The whole system. Two fields only record history: the claims in the order of their
  compare-and-sets and the set of published sequences, to which everything before the
  first belongs.
\<close>

record ms_system =
  shared :: multi_seq
  pcs :: "nat \<Rightarrow> ms_pc"
  claims :: "(int \<times> int) list"
  published :: "int set"

fun new_claim :: "ms_pc \<Rightarrow> ms_pc \<Rightarrow> (int \<times> int) list" where
  "new_claim (NextCas _ _) (Holding lo hi) = [(lo, hi)]"
| "new_claim (TryCas _ _) (Holding lo hi) = [(lo, hi)]"
| "new_claim _ _ = []"

fun new_published :: "ms_pc \<Rightarrow> int set" where
  "new_published (PublishRange l hi) = (if l \<le> hi then {l} else {})"
| "new_published _ = {}"

text \<open>
  A thread enters a claim when idle; it takes its next access, reading gating sequences that
  may already be older than the current ones; a consumer moves its sequence up to what
  \<open>getHighestPublishedSequence\<close> says it may read. Sequences stay within 63 bits.
\<close>

inductive ms_step :: "(int list \<Rightarrow> int \<Rightarrow> int) \<Rightarrow> ms_system \<Rightarrow> ms_system \<Rightarrow> bool" for minSeq where
  Call: "pcs S t = Idle \<Longrightarrow> pc \<in> {NextCall n, TryCall n} \<Longrightarrow>
    ms_step minSeq S (S\<lparr>pcs := (pcs S)(t := pc)\<rparr>)"
| Access: "list_all2 (\<le>) gs (ms_gating (shared S)) \<Longrightarrow>
    ms_thread minSeq gs (shared S) (pcs S t) = (s', pc') \<Longrightarrow> ms_cursor s' < 2 ^ 63 \<Longrightarrow>
    ms_step minSeq S (S\<lparr>shared := s', pcs := (pcs S)(t := pc'),
      claims := claims S @ new_claim (pcs S t) pc',
      published := published S \<union> new_published (pcs S t)\<rparr>)"
| Consume: "i < length (ms_gating (shared S)) \<Longrightarrow> g = ms_gating (shared S) ! i \<Longrightarrow>
    a \<le> ms_cursor (shared S) \<Longrightarrow> g \<le> v \<Longrightarrow> v \<le> ms_getHighestPublishedSequence (shared S) (g + 1) a \<Longrightarrow>
    ms_step minSeq S (S\<lparr>shared := (shared S)\<lparr>ms_gating := (ms_gating (shared S))[i := v]\<rparr>\<rparr>)"

section \<open>Slots and flags\<close>

definition ms_wf :: "multi_seq \<Rightarrow> bool" where
  "ms_wf s \<longleftrightarrow> ms_bufferSize s = 2 ^ ms_indexShift s \<and> ms_indexShift s \<le> 30
     \<and> ms_indexMask s = word_of_int (ms_bufferSize s - 1)
     \<and> length (ms_available s) = nat (ms_bufferSize s)"

lemma ms_size_pos: "ms_wf s \<Longrightarrow> 0 < ms_bufferSize s"
  by (simp add: ms_wf_def)

text \<open>The flag that lap \<open>x div size\<close> of the ring leaves in its slot.\<close>

definition lap_flag :: "multi_seq \<Rightarrow> int \<Rightarrow> i32" where
  "lap_flag s x = word_of_int (x div ms_bufferSize s)"

lemma calculateIndex_eq:
  assumes "ms_wf s"
  shows "calculateIndex s x = nat (x mod ms_bufferSize s)"
proof -
  let ?k = "ms_indexShift s"
  have k: "?k \<le> 30" and size: "ms_bufferSize s = 2 ^ ?k" using assms by (simp_all add: ms_wf_def)
  have "ms_indexMask s = mask ?k"
    using assms by (simp add: ms_wf_def mask_eq_exp_minus_1)
  then have "calculateIndex s x = unat (take_bit ?k (word_of_int x :: i32))"
    by (simp add: calculateIndex_def take_bit_eq_mask)
  also have "\<dots> = nat (uint (take_bit ?k (word_of_int x :: i32)))" by (simp only: unat_eq_nat_uint)
  also have "uint (take_bit ?k (word_of_int x :: i32)) = take_bit ?k (take_bit 32 x)"
    by (simp add: unsigned_take_bit_eq unsigned_of_int)
  also have "\<dots> = take_bit ?k x" using k by simp
  finally show ?thesis by (simp add: size take_bit_eq_mod)
qed

lemma calculateIndex_less: "ms_wf s \<Longrightarrow> calculateIndex s x < length (ms_available s)"
  using pos_mod_bound [of "ms_bufferSize s" x] ms_size_pos [of s]
  by (simp add: calculateIndex_eq ms_wf_def nat_less_iff)

lemma calculateAvailabilityFlag_eq:
  assumes "ms_wf s" and "0 \<le> x" and "x < 2 ^ 63"
  shows "calculateAvailabilityFlag s x = lap_flag s x"
proof -
  let ?k = "ms_indexShift s"
  have size: "ms_bufferSize s = 2 ^ ?k" using assms(1) by (simp add: ms_wf_def)
  have "take_bit 64 x = x" using assms(2,3) by (simp add: take_bit_int_eq_self)
  then have "uint (drop_bit ?k (word_of_int x :: u64)) = drop_bit ?k x"
    using assms(2) by (simp add: unsigned_drop_bit_eq unsigned_of_int)
  then have "uint (drop_bit ?k (word_of_int x :: u64)) = x div 2 ^ ?k"
    by (simp only: drop_bit_eq_div)
  then show ?thesis
    unfolding calculateAvailabilityFlag_def lap_flag_def size
    by (metis ucast_eq)
qed

lemma same_slot:
  assumes "ms_wf s" and "calculateIndex s x = calculateIndex s y" and "\<bar>x - y\<bar> < ms_bufferSize s"
  shows "x = y"
proof -
  have pos: "0 < ms_bufferSize s" using assms(1) by (rule ms_size_pos)
  have "x mod ms_bufferSize s = y mod ms_bufferSize s"
    using assms(2) pos by (simp add: calculateIndex_eq [OF assms(1)] nat_eq_iff)
  then have "ms_bufferSize s dvd x - y" by (simp add: mod_eq_dvd_iff)
  then show ?thesis using assms(3) zdvd_not_zless [of "\<bar>x - y\<bar>" "ms_bufferSize s"] by force
qed

lemma index_previous_lap: "ms_wf s \<Longrightarrow> calculateIndex s (x - ms_bufferSize s) = calculateIndex s x"
  by (simp add: calculateIndex_eq minus_mod_self2)

lemma lap_flag_previous: "ms_wf s \<Longrightarrow> lap_flag s (x - ms_bufferSize s) \<noteq> lap_flag s x"
proof -
  assume "ms_wf s"
  then have "(x - ms_bufferSize s) div ms_bufferSize s = x div ms_bufferSize s - 1"
    using ms_size_pos [of s] div_add_self1 [of "ms_bufferSize s" "x - ms_bufferSize s"] by simp
  then show ?thesis by (simp add: lap_flag_def)
qed

lemma initializeAvailableBuffer_eq:
  assumes "length (ms_available s) = nat (ms_bufferSize s)"
  shows "initializeAvailableBuffer s = s\<lparr>ms_available := replicate (nat (ms_bufferSize s)) (-1)\<rparr>"
proof -
  let ?n = "nat (ms_bufferSize s)"
  have fold: "fold (\<lambda>i s. setAvailableBufferValue s i (-1)) is s
      = s\<lparr>ms_available := fold (\<lambda>i xs. xs[i := -1]) is (ms_available s)\<rparr>" for "is"
    by (induction "is" arbitrary: s) (simp_all add: setAvailableBufferValue_def)
  have upd: "fold (\<lambda>i xs. xs[i := -1]) is xs ! j = (if j \<in> set is then -1 else xs ! j)"
    if "j < length xs" for "is" and xs :: "i32 list" and j
    using that by (induction "is" arbitrary: xs) (auto simp: nth_list_update)
  have len: "length (fold (\<lambda>i xs. xs[i := -1]) is xs) = length xs" for "is" and xs :: "i32 list"
    by (induction "is" arbitrary: xs) simp_all
  have "(fold (\<lambda>i xs. xs[i := -1]) (rev [1..<?n]) (ms_available s))[0 := -1] = replicate ?n (-1)"
    using assms by (intro nth_equalityI) (auto simp: len upd nth_list_update)
  then show ?thesis unfolding initializeAvailableBuffer_def fold by (simp add: setAvailableBufferValue_def)
qed

section \<open>The ring under concurrent producers\<close>

text \<open>
  \<open>P\<close> is the set of published sequences. Every consumer is within one ring of the cursor
  and has read only published sequences; a slot of the current window holds the flag of its
  sequence once that is published, and the flag of the previous lap until then.
\<close>

definition gate_ok :: "multi_seq \<Rightarrow> int set \<Rightarrow> int \<Rightarrow> bool" where
  "gate_ok s P g \<longleftrightarrow> -1 \<le> g \<and> g \<le> ms_cursor s \<and> ms_cursor s - ms_bufferSize s \<le> g
     \<and> ms_cache s \<le> g \<and> {..g} \<subseteq> P"

definition ring_ok :: "multi_seq \<Rightarrow> int set \<Rightarrow> bool" where
  "ring_ok s P \<longleftrightarrow> ms_wf s \<and> ms_gating s \<noteq> [] \<and> ms_cursor s < 2 ^ 63
     \<and> (\<forall>g \<in> set (ms_gating s). gate_ok s P g)
     \<and> P \<subseteq> {..ms_cursor s}
     \<and> (\<forall>x. ms_cursor s - ms_bufferSize s < x \<and> x \<le> ms_cursor s \<longrightarrow>
          ms_available s ! calculateIndex s x
            = lap_flag s (if x \<in> P then x else x - ms_bufferSize s))"

lemma ms_frames [simp]:
  "calculateIndex (s\<lparr>ms_cursor := c\<rparr>) x = calculateIndex s x"
  "calculateIndex (s\<lparr>ms_cache := c\<rparr>) x = calculateIndex s x"
  "calculateIndex (s\<lparr>ms_gating := gs\<rparr>) x = calculateIndex s x"
  "calculateIndex (s\<lparr>ms_available := xs\<rparr>) x = calculateIndex s x"
  "lap_flag (s\<lparr>ms_cursor := c\<rparr>) x = lap_flag s x"
  "lap_flag (s\<lparr>ms_cache := c\<rparr>) x = lap_flag s x"
  "lap_flag (s\<lparr>ms_gating := gs\<rparr>) x = lap_flag s x"
  "lap_flag (s\<lparr>ms_available := xs\<rparr>) x = lap_flag s x"
  "ms_wf (s\<lparr>ms_cursor := c\<rparr>) = ms_wf s"
  "ms_wf (s\<lparr>ms_cache := c\<rparr>) = ms_wf s"
  "ms_wf (s\<lparr>ms_gating := gs\<rparr>) = ms_wf s"
  by (simp_all add: calculateIndex_def lap_flag_def ms_wf_def)

lemma ring_ok_gating: "ring_ok s P \<Longrightarrow> \<exists>g. g \<in> set (ms_gating s)"
  by (cases "ms_gating s") (simp add: ring_ok_def, metis list.set_intros(1))

lemma ring_ok_unpublished:
  assumes "ring_ok s P" and "x \<notin> P"
  shows "0 \<le> x" and "ms_cursor s - ms_bufferSize s < x"
proof -
  obtain g where g: "g \<in> set (ms_gating s)" using ring_ok_gating [OF assms(1)] by blast
  then have gate: "gate_ok s P g" using assms(1) by (simp add: ring_ok_def)
  then have "g < x" using assms(2) by (auto simp: gate_ok_def not_le [symmetric])
  then show "0 \<le> x" "ms_cursor s - ms_bufferSize s < x"
    using gate by (simp_all add: gate_ok_def)
qed

lemma ring_ok_cache:
  "ring_ok s P \<Longrightarrow> \<forall>x \<in> set (ms_gating s). g \<le> x \<Longrightarrow> ring_ok (s\<lparr>ms_cache := g\<rparr>) P"
  by (simp add: ring_ok_def gate_ok_def)

lemma ring_ok_claim:
  assumes ok: "ring_ok s P" and n: "1 \<le> n" and room: "\<forall>g \<in> set (ms_gating s). ms_cursor s + n - ms_bufferSize s \<le> g"
    and bound: "ms_cursor s + n < 2 ^ 63"
  shows "ring_ok (s\<lparr>ms_cursor := ms_cursor s + n\<rparr>) P"
proof -
  obtain g where g: "g \<in> set (ms_gating s)" using ring_ok_gating [OF ok] by blast
  have gP: "{..g} \<subseteq> P" "g \<le> ms_cursor s" and PC: "P \<subseteq> {..ms_cursor s}" and wf: "ms_wf s"
    using ok g by (auto simp: ring_ok_def gate_ok_def)
  have slots: "ms_available s ! calculateIndex s x = lap_flag s (if x \<in> P then x else x - ms_bufferSize s)"
    if "ms_cursor s + n - ms_bufferSize s < x" and "x \<le> ms_cursor s + n" for x
  proof (cases "x \<le> ms_cursor s")
    case True
    then show ?thesis using ok that(1) n by (simp add: ring_ok_def)
  next
    case False
    have "x - ms_bufferSize s \<le> g" using room g that(2) by force
    then have "x - ms_bufferSize s \<in> P" "x - ms_bufferSize s \<le> ms_cursor s" using gP by auto
    moreover have "ms_cursor s - ms_bufferSize s < x - ms_bufferSize s" using False by simp
    ultimately have "ms_available s ! calculateIndex s (x - ms_bufferSize s) = lap_flag s (x - ms_bufferSize s)"
      using ok by (simp add: ring_ok_def)
    moreover have "x \<notin> P" using False PC by auto
    ultimately show ?thesis by (simp add: index_previous_lap [OF wf])
  qed
  have "P \<subseteq> {..ms_cursor s + n}" using PC n by (auto intro: order_trans)
  moreover have "\<forall>h \<in> set (ms_gating s). gate_ok (s\<lparr>ms_cursor := ms_cursor s + n\<rparr>) P h"
    using ok n room by (force simp: ring_ok_def gate_ok_def)
  ultimately show ?thesis using ok bound slots by (simp add: ring_ok_def)
qed

lemma setAvailable_simps [simp]:
  "ms_cursor (setAvailable s x) = ms_cursor s" "ms_cache (setAvailable s x) = ms_cache s"
  "ms_gating (setAvailable s x) = ms_gating s" "ms_bufferSize (setAvailable s x) = ms_bufferSize s"
  "ms_indexShift (setAvailable s x) = ms_indexShift s" "ms_indexMask (setAvailable s x) = ms_indexMask s"
  "calculateIndex (setAvailable s x) y = calculateIndex s y" "lap_flag (setAvailable s x) y = lap_flag s y"
  "ms_wf (setAvailable s x) = ms_wf s"
  by (simp_all add: setAvailable_def setAvailableBufferValue_def ms_wf_def)

lemma ring_ok_publish:
  assumes ok: "ring_ok s P" and x: "x \<le> ms_cursor s" "x \<notin> P"
  shows "ring_ok (setAvailable s x) (insert x P)"
proof -
  have wf: "ms_wf s" and bound: "x < 2 ^ 63" using ok x(1) by (auto simp: ring_ok_def)
  note lo = ring_ok_unpublished [OF ok x(2)]
  have slots: "ms_available (setAvailable s x) ! calculateIndex s y
      = lap_flag s (if y \<in> insert x P then y else y - ms_bufferSize s)"
    if "ms_cursor s - ms_bufferSize s < y" and "y \<le> ms_cursor s" for y
  proof (cases "y = x")
    case True
    then show ?thesis
      using calculateIndex_less [OF wf] calculateAvailabilityFlag_eq [OF wf lo(1) bound]
      by (simp add: setAvailable_def setAvailableBufferValue_def)
  next
    case False
    have "\<bar>y - x\<bar> < ms_bufferSize s" using that lo(2) x(1) by linarith
    then have "calculateIndex s y \<noteq> calculateIndex s x" using same_slot [OF wf] False by blast
    then show ?thesis
      using ok that False by (simp add: ring_ok_def setAvailable_def setAvailableBufferValue_def)
  qed
  moreover have "\<forall>g \<in> set (ms_gating s). gate_ok (setAvailable s x) (insert x P) g"
    using ok by (auto simp: ring_ok_def gate_ok_def)
  ultimately show ?thesis using ok x by (simp add: ring_ok_def)
qed

lemma highest_published_le: "ms_getHighestPublishedSequence s x a \<le> a"
  by (induction s x a rule: ms_getHighestPublishedSequence.induct)
     (subst ms_getHighestPublishedSequence.simps, auto)

lemma highest_published_available:
  "x \<le> y \<Longrightarrow> y \<le> ms_getHighestPublishedSequence s x a \<Longrightarrow> ms_isAvailable s y"
proof (induction s x a rule: ms_getHighestPublishedSequence.induct)
  case (1 s x a)
  show ?case
  proof (cases "x \<le> a \<and> ms_isAvailable s x")
    case True
    then have "ms_getHighestPublishedSequence s x a = ms_getHighestPublishedSequence s (x + 1) a"
      by (subst ms_getHighestPublishedSequence.simps) simp
    then show ?thesis using 1 True by (cases "x = y") auto
  next
    case False
    then have "ms_getHighestPublishedSequence s x a < x"
      by (subst ms_getHighestPublishedSequence.simps) auto
    then show ?thesis using "1.prems" by simp
  qed
qed

lemma available_published:
  assumes ok: "ring_ok s P" and "ms_cursor s - ms_bufferSize s < x" and "x \<le> ms_cursor s"
    and "0 \<le> x"
  shows "ms_isAvailable s x \<longleftrightarrow> x \<in> P"
proof -
  have wf: "ms_wf s" and b: "x < 2 ^ 63" using ok assms(3) by (auto simp: ring_ok_def)
  show ?thesis
    using ok assms lap_flag_previous [OF wf, of x]
    by (simp add: ring_ok_def ms_isAvailable_def calculateAvailabilityFlag_eq [OF wf assms(4) b])
qed

lemma ring_ok_consume:
  assumes ok: "ring_ok s P" and i: "i < length (ms_gating s)" and a: "a \<le> ms_cursor s"
    and v: "ms_gating s ! i \<le> v" "v \<le> ms_getHighestPublishedSequence s (ms_gating s ! i + 1) a"
  shows "ring_ok (s\<lparr>ms_gating := (ms_gating s)[i := v]\<rparr>) P"
proof -
  let ?g = "ms_gating s ! i"
  have "gate_ok s P ?g" using ok nth_mem [OF i] by (simp add: ring_ok_def)
  then have g: "-1 \<le> ?g" "ms_cursor s - ms_bufferSize s \<le> ?g" "ms_cache s \<le> ?g" "{..?g} \<subseteq> P"
    by (simp_all add: gate_ok_def)
  have "v \<le> ms_cursor s" using v(2) a highest_published_le [of s "?g + 1" a] by linarith
  moreover have "{..v} \<subseteq> P"
  proof
    fix x assume x: "x \<in> {..v}"
    show "x \<in> P"
    proof (cases "x \<le> ?g")
      case True
      then show ?thesis using g(4) by auto
    next
      case False
      then have "ms_isAvailable s x" using highest_published_available [of "?g + 1" x s a] x v(2) by simp
      then show ?thesis using available_published [OF ok, of x] False g x \<open>v \<le> ms_cursor s\<close> by simp
    qed
  qed
  ultimately have "gate_ok s P v" using g v(1) by (simp add: gate_ok_def)
  then have "\<forall>h \<in> set ((ms_gating s)[i := v]). gate_ok s P h"
    using ok set_update_subset_insert [of "ms_gating s" i v] by (auto simp: ring_ok_def)
  then have "\<forall>h \<in> set ((ms_gating s)[i := v]). gate_ok (s\<lparr>ms_gating := (ms_gating s)[i := v]\<rparr>) P h"
    by (simp add: gate_ok_def)
  then show ?thesis using ok by (simp add: ring_ok_def)
qed

section \<open>The threads\<close>

text \<open>What a thread knows at each point: a value it will write back or a claim it will make
  is covered by what the consumers had reached when it read them.\<close>

fun safe_pc :: "multi_seq \<Rightarrow> ms_pc \<Rightarrow> bool" where
  "safe_pc s (NextTop n) = (1 \<le> n)"
| "safe_pc s (NextHaveCur n cur) = (1 \<le> n)"
| "safe_pc s (NextNeedMin n cur) = (1 \<le> n)"
| "safe_pc s (NextSetCache n cur g) = (1 \<le> n \<and> (\<forall>x \<in> set (ms_gating s). g \<le> x))"
| "safe_pc s (NextCas n cur) = (1 \<le> n \<and> (\<forall>x \<in> set (ms_gating s). cur + n - ms_bufferSize s \<le> x))"
| "safe_pc s (TryTop n) = (1 \<le> n)"
| "safe_pc s (TryHaveCur n cur) = (1 \<le> n)"
| "safe_pc s (TryNeedMin n cur) = (1 \<le> n)"
| "safe_pc s (TrySetCache n cur g) = (1 \<le> n \<and> (\<forall>x \<in> set (ms_gating s). g \<le> x))"
| "safe_pc s (TryCas n cur) = (1 \<le> n \<and> (\<forall>x \<in> set (ms_gating s). cur + n - ms_bufferSize s \<le> x))"
| "safe_pc s _ = True"

text \<open>The sequences a thread has claimed and not yet published.\<close>

fun owned :: "ms_pc \<Rightarrow> int set" where
  "owned (Holding lo hi) = {lo..hi}"
| "owned (PublishRange l hi) = {l..hi}"
| "owned _ = {}"

definition ms_inv :: "ms_system \<Rightarrow> bool" where
  "ms_inv S \<longleftrightarrow> ring_ok (shared S) (published S)
     \<and> (\<forall>t. safe_pc (shared S) (pcs S t))
     \<and> (\<forall>t u. t \<noteq> u \<longrightarrow> owned (pcs S t) \<inter> owned (pcs S u) = {})
     \<and> (\<Union>t. owned (pcs S t)) = {..ms_cursor (shared S)} - published S
     \<and> concat (map (\<lambda>(lo, hi). [lo..hi]) (claims S)) = [0..ms_cursor (shared S)]"

lemma safe_pc_frame:
  assumes "safe_pc s pc" and "ms_bufferSize s' = ms_bufferSize s"
    and "\<And>w. \<forall>x \<in> set (ms_gating s). w \<le> x \<Longrightarrow> \<forall>x \<in> set (ms_gating s'). w \<le> x"
  shows "safe_pc s' pc"
  using assms by (cases pc) auto

text \<open>An access that changes neither the ring nor what the thread owns.\<close>

lemma ms_inv_local:
  assumes "ms_inv S" and "safe_pc (shared S) pc'" and "owned pc' = owned (pcs S t)"
  shows "ms_inv (S\<lparr>pcs := (pcs S)(t := pc')\<rparr>)"
proof -
  have "owned (((pcs S)(t := pc')) u) = owned (pcs S u)" for u using assms(3) by simp
  then show ?thesis using assms(1,2) by (simp add: ms_inv_def)
qed

lemma ms_inv_cache:
  assumes "ms_inv S" and "\<forall>x \<in> set (ms_gating (shared S)). g \<le> x"
  shows "ms_inv (S\<lparr>shared := (shared S)\<lparr>ms_cache := g\<rparr>\<rparr>)"
  using assms ring_ok_cache [of "shared S" "published S" g]
    safe_pc_frame [of "shared S" _ "(shared S)\<lparr>ms_cache := g\<rparr>"]
  by (simp add: ms_inv_def)

lemma ms_inv_cas:
  assumes inv: "ms_inv S" and n: "1 \<le> n"
    and room: "\<forall>g \<in> set (ms_gating (shared S)). ms_cursor (shared S) + n - ms_bufferSize (shared S) \<le> g"
    and own: "owned (pcs S t) = {}" and bound: "ms_cursor (shared S) + n < 2 ^ 63"
  defines "c \<equiv> ms_cursor (shared S)"
  shows "ms_inv (S\<lparr>shared := (shared S)\<lparr>ms_cursor := c + n\<rparr>, pcs := (pcs S)(t := Holding (c + 1) (c + n)),
     claims := claims S @ [(c + 1, c + n)]\<rparr>)"
proof -
  let ?s = "(shared S)\<lparr>ms_cursor := c + n\<rparr>"
  have ring: "ring_ok ?s (published S)"
    using ring_ok_claim [of "shared S" "published S" n] inv n room bound by (simp add: ms_inv_def c_def)
  have safe: "safe_pc ?s (pcs S u)" for u
    using inv safe_pc_frame [of "shared S" "pcs S u" ?s] by (simp add: ms_inv_def)
  have P: "published S \<subseteq> {..c}" and all: "(\<Union>u. owned (pcs S u)) = {..c} - published S"
    using inv by (simp_all add: ms_inv_def ring_ok_def c_def)
  have "owned (pcs S u) \<subseteq> {..c}" for u using all by blast
  then have "owned (pcs S u) \<inter> {c + 1..c + n} = {}" for u by fastforce
  then have disj: "\<forall>a b. a \<noteq> b \<longrightarrow> owned (((pcs S)(t := Holding (c + 1) (c + n))) a)
      \<inter> owned (((pcs S)(t := Holding (c + 1) (c + n))) b) = {}"
    using inv by (auto simp: ms_inv_def Int_commute)
  have union: "(\<Union>u. owned (((pcs S)(t := Holding (c + 1) (c + n))) u)) = (\<Union>u. owned (pcs S u)) \<union> {c + 1..c + n}"
    using own by (auto split: if_splits) (metis empty_iff)
  have "(\<Union>u. owned (((pcs S)(t := Holding (c + 1) (c + n))) u)) = {..c + n} - published S"
    unfolding union all using P n by auto
  moreover have "-1 \<le> c"
    using ring_ok_gating [of "shared S" "published S"] inv by (force simp: ms_inv_def ring_ok_def gate_ok_def c_def)
  then have "[0..c + n] = [0..c] @ [c + 1..c + n]" using n upto_split2 [of 0 "c" "c + n"] by (cases "c = -1") simp_all
  ultimately show ?thesis
    using inv ring safe disj by (simp add: ms_inv_def c_def)
qed

lemma ms_inv_publish:
  assumes inv: "ms_inv S" and pc: "pcs S t = PublishRange l hi" and l: "l \<le> hi"
  shows "ms_inv (S\<lparr>shared := setAvailable (shared S) l, pcs := (pcs S)(t := PublishRange (l + 1) hi),
     published := published S \<union> {l}\<rparr>)"
proof -
  have all: "(\<Union>u. owned (pcs S u)) = {..ms_cursor (shared S)} - published S"
    using inv by (simp add: ms_inv_def)
  have mem: "l \<in> owned (pcs S t)" using pc l by simp
  then have free: "l \<le> ms_cursor (shared S)" "l \<notin> published S" using all by blast+
  have ring: "ring_ok (setAvailable (shared S) l) (insert l (published S))"
    using ring_ok_publish free inv by (simp add: ms_inv_def)
  have safe: "safe_pc (setAvailable (shared S) l) (pcs S u)" for u
    using inv safe_pc_frame [of "shared S" "pcs S u" "setAvailable (shared S) l"] by (simp add: ms_inv_def)
  have others: "l \<notin> owned (pcs S u)" if "u \<noteq> t" for u
    using inv mem that unfolding ms_inv_def by blast
  have own: "owned (((pcs S)(t := PublishRange (l + 1) hi)) u) = owned (pcs S u) - {l}" for u
    using pc others [of u] by (cases "u = t") auto
  then have "(\<Union>u. owned (((pcs S)(t := PublishRange (l + 1) hi)) u)) = {..ms_cursor (shared S)} - (insert l (published S))"
    using all by auto
  then show ?thesis using inv ring safe own unfolding ms_inv_def by (simp, blast)
qed

text \<open>Every access is of one of four kinds.\<close>

lemma ms_thread_cases:
  assumes minSeq: "min_sequence minSeq" and inv: "ms_inv S"
    and gs: "list_all2 (\<le>) gs (ms_gating (shared S))"
    and step: "ms_thread minSeq gs (shared S) (pcs S t) = (s', pc')"
  obtains (Local) "s' = shared S" "new_claim (pcs S t) pc' = []" "new_published (pcs S t) = {}"
      "safe_pc (shared S) pc'" "owned pc' = owned (pcs S t)"
  | (Cache) g where "s' = (shared S)\<lparr>ms_cache := g\<rparr>" "\<forall>x \<in> set (ms_gating (shared S)). g \<le> x"
      "new_claim (pcs S t) pc' = []" "new_published (pcs S t) = {}"
      "safe_pc (shared S) pc'" "owned pc' = owned (pcs S t)"
  | (Cas) n where "1 \<le> n"
      "\<forall>x \<in> set (ms_gating (shared S)). ms_cursor (shared S) + n - ms_bufferSize (shared S) \<le> x"
      "owned (pcs S t) = {}" "s' = (shared S)\<lparr>ms_cursor := ms_cursor (shared S) + n\<rparr>"
      "pc' = Holding (ms_cursor (shared S) + 1) (ms_cursor (shared S) + n)"
      "new_claim (pcs S t) pc' = [(ms_cursor (shared S) + 1, ms_cursor (shared S) + n)]"
      "new_published (pcs S t) = {}"
  | (Publish) l hi where "pcs S t = PublishRange l hi" "l \<le> hi" "s' = setAvailable (shared S) l"
      "pc' = PublishRange (l + 1) hi"
proof -
  have safe: "safe_pc (shared S) (pcs S t)" using inv by (simp add: ms_inv_def)
  have min_le: "\<forall>x \<in> set (ms_gating (shared S)). minSeq gs cur \<le> x" for cur
    using list_all2_le_set [OF gs] min_sequence.min_le [OF minSeq] by blast
  have cache: "w \<le> ms_cache (shared S) \<Longrightarrow> \<forall>x \<in> set (ms_gating (shared S)). w \<le> x" for w
    using inv by (force simp: ms_inv_def ring_ok_def gate_ok_def)
  show thesis
  proof (cases "pcs S t")
    case (NextCas n cur)
    show thesis
    proof (cases "ms_cursor (shared S) = cur")
      case True
      then show thesis using step safe NextCas by (intro Cas [of n]) (auto simp: compareAndSet_def)
    next
      case False
      then show thesis using step safe NextCas by (intro Local) (auto simp: compareAndSet_def)
    qed
  next
    case (TryCas n cur)
    show thesis
    proof (cases "ms_cursor (shared S) = cur")
      case True
      then show thesis using step safe TryCas by (intro Cas [of n]) (auto simp: compareAndSet_def)
    next
      case False
      then show thesis using step safe TryCas by (intro Local) (auto simp: compareAndSet_def)
    qed
  next
    case (NextSetCache n cur g)
    then show thesis using step safe Cache [of g] by auto
  next
    case (TrySetCache n cur g)
    then have "w \<le> g \<Longrightarrow> \<forall>x \<in> set (ms_gating (shared S)). w \<le> x" for w using safe by fastforce
    with TrySetCache show thesis using step safe Cache [of g] by (auto split: if_splits)
  next
    case (PublishRange l hi)
    then show thesis using step Local Publish [of l hi] by (auto split: if_splits)
  next
    case (NextHaveCur n cur)
    then show thesis using step safe Local cache by (auto split: if_splits)
  next
    case (TryHaveCur n cur)
    then show thesis using step safe Local cache by (auto split: if_splits)
  next
    case (NextNeedMin n cur)
    then show thesis using step safe Local min_le by (auto split: if_splits)
  next
    case (TryNeedMin n cur)
    then show thesis using step safe Local min_le by auto
  qed (use step safe Local in \<open>auto split: if_splits\<close>)
qed

lemma ms_inv_access:
  assumes "min_sequence minSeq" and inv: "ms_inv S"
    and "list_all2 (\<le>) gs (ms_gating (shared S))"
    and "ms_thread minSeq gs (shared S) (pcs S t) = (s', pc')" and bound: "ms_cursor s' < 2 ^ 63"
  shows "ms_inv (S\<lparr>shared := s', pcs := (pcs S)(t := pc'), claims := claims S @ new_claim (pcs S t) pc',
      published := published S \<union> new_published (pcs S t)\<rparr>)"
  using assms(1-4)
proof (cases rule: ms_thread_cases)
  case Local
  then show ?thesis using ms_inv_local [OF inv] by simp
next
  case (Cache g)
  have "safe_pc ((shared S)\<lparr>ms_cache := g\<rparr>) pc'"
    using Cache(5) safe_pc_frame [of "shared S" pc' "(shared S)\<lparr>ms_cache := g\<rparr>"] by simp
  then show ?thesis
    using Cache ms_inv_local [OF ms_inv_cache [OF inv Cache(2)], of pc' t] by simp
next
  case (Cas n)
  then show ?thesis using ms_inv_cas [OF inv Cas(1-3)] bound by simp
next
  case (Publish l hi)
  then show ?thesis using ms_inv_publish [OF inv Publish(1,2)] by simp
qed

lemma ms_step_inv:
  assumes "min_sequence minSeq" and "ms_step minSeq S S'" and inv: "ms_inv S"
  shows "ms_inv S'"
  using assms(2)
proof cases
  case (Call t pc n)
  then show ?thesis using ms_inv_local [OF inv, of pc t] by auto
next
  case (Access gs t s' pc')
  then show ?thesis using ms_inv_access [OF assms(1) inv] by simp
next
  case (Consume i g a v)
  let ?s = "(shared S)\<lparr>ms_gating := (ms_gating (shared S))[i := v]\<rparr>"
  have "ring_ok ?s (published S)"
    using ring_ok_consume [of "shared S" "published S" i a v] inv Consume by (simp add: ms_inv_def)
  moreover have "safe_pc ?s (pcs S t)" for t
  proof (rule safe_pc_frame)
    show "\<forall>x \<in> set (ms_gating ?s). w \<le> x" if "\<forall>x \<in> set (ms_gating (shared S)). w \<le> x" for w
    proof -
      have "w \<le> g" using that Consume(3) nth_mem [OF Consume(2)] by simp
      then have "w \<le> v" using Consume(5) by simp
      then show ?thesis using that set_update_subset_insert [of "ms_gating (shared S)" i v] by auto
    qed
  qed (use inv in \<open>simp_all add: ms_inv_def\<close>)
  ultimately show ?thesis using inv Consume(1) by (simp add: ms_inv_def)
qed

text \<open>The state the constructor leaves once the consumers' sequences have been added.\<close>

definition ms_start :: "ms_system \<Rightarrow> bool" where
  "ms_start S \<longleftrightarrow> ms_wf (shared S) \<and> ms_cursor (shared S) = -1 \<and> ms_cache (shared S) = -1
     \<and> ms_gating (shared S) \<noteq> [] \<and> (\<forall>g \<in> set (ms_gating (shared S)). g = -1)
     \<and> ms_available (shared S) = replicate (nat (ms_bufferSize (shared S))) (-1)
     \<and> (\<forall>t. pcs S t = Idle) \<and> claims S = [] \<and> published S = {..-1}"

lemma ms_start_inv:
  assumes "ms_start S"
  shows "ms_inv S"
proof -
  let ?s = "shared S"
  have wf: "ms_wf ?s" using assms by (simp add: ms_start_def)
  have "ms_available ?s ! calculateIndex ?s x = lap_flag ?s x"
    if "- 1 - ms_bufferSize ?s < x" and "x \<le> -1" for x
  proof -
    have "x div ms_bufferSize ?s = -1"
      using that ms_size_pos [OF wf] by (intro int_div_pos_eq [of _ _ _ "x + ms_bufferSize ?s"]) auto
    then show ?thesis
      using assms calculateIndex_less [OF wf, of x] by (simp add: ms_start_def lap_flag_def)
  qed
  then have "ring_ok ?s (published S)"
    using assms ms_size_pos [OF wf] by (auto simp: ring_ok_def gate_ok_def ms_start_def)
  then show ?thesis using assms by (simp add: ms_inv_def ms_start_def)
qed

lemma ms_reachable_inv:
  assumes "min_sequence minSeq" and "(ms_step minSeq)\<^sup>*\<^sup>* S0 S" and "ms_start S0"
  shows "ms_inv S"
  using assms(2,3) by (induction rule: rtranclp_induct) (auto intro: ms_start_inv ms_step_inv [OF assms(1)])

section \<open>One thread alone\<close>

text \<open>An access of thread \<open>t\<close> that reads the current gating sequences.\<close>

definition ms_access :: "(int list \<Rightarrow> int \<Rightarrow> int) \<Rightarrow> nat \<Rightarrow> ms_system \<Rightarrow> ms_system" where
  "ms_access minSeq t S =
    (let (s', pc') = ms_thread minSeq (ms_gating (shared S)) (shared S) (pcs S t)
     in S\<lparr>shared := s', pcs := (pcs S)(t := pc'), claims := claims S @ new_claim (pcs S t) pc',
          published := published S \<union> new_published (pcs S t)\<rparr>)"

lemma ms_access_step:
  "ms_cursor (shared (ms_access minSeq t S)) < 2 ^ 63 \<Longrightarrow> ms_step minSeq S (ms_access minSeq t S)"
  using ms_step.Access [of "ms_gating (shared S)" S minSeq t]
  by (cases "ms_thread minSeq (ms_gating (shared S)) (shared S) (pcs S t)")
     (simp add: ms_access_def list_all2_refl)

fun ms_alone :: "(int list \<Rightarrow> int \<Rightarrow> int) \<Rightarrow> nat \<Rightarrow> multi_seq \<Rightarrow> ms_pc \<Rightarrow> multi_seq \<times> ms_pc" where
  "ms_alone minSeq 0 s pc = (s, pc)"
| "ms_alone minSeq (Suc k) s pc =
    (case pc of Holding lo hi \<Rightarrow> (s, pc) | Failed e \<Rightarrow> (s, pc)
     | _ \<Rightarrow> (let (s', pc') = ms_thread minSeq (ms_gating s) s pc in ms_alone minSeq k s' pc'))"

text \<open>Six accesses suffice an undisturbed \<open>tryNext\<close>, and they compute \<open>ms_tryNext\<close>.\<close>

lemma ms_alone_tryNext:
  "ms_alone minSeq 6 s (TryCall n) =
    (case ms_tryNext minSeq s n of
       (Inl e, s') \<Rightarrow> (s', Failed e)
     | (Inr hi, s') \<Rightarrow> (s', Holding (ms_cursor s + 1) hi))"
  by (simp add: ms_tryNext_def ms_hasAvailableCapacity_def compareAndSet_def Let_def eval_nat_numeral)

definition ms_quiet :: "multi_seq \<Rightarrow> bool" where
  "ms_quiet s \<longleftrightarrow> ms_wf s \<and> (\<forall>g \<in> set (ms_gating s). ms_cache s \<le> g
     \<and> ms_cursor s - ms_bufferSize s \<le> g)"

context min_sequence
begin

lemma ms_capacity:
  assumes "ms_quiet s" and "ms_hasAvailableCapacity minSeq s n (ms_cursor s) = (ok, s')"
  shows "ms_quiet s' \<and> ms_cursor s' = ms_cursor s \<and> ms_gating s' = ms_gating s
     \<and> ms_bufferSize s' = ms_bufferSize s
     \<and> (ok \<longleftrightarrow> n \<le> ms_bufferSize s \<and> (\<forall>g \<in> set (ms_gating s). ms_cursor s + n - ms_bufferSize s \<le> g))"
proof -
  let ?m = "minSeq (ms_gating s) (ms_cursor s)"
  have "ms_quiet (s\<lparr>ms_cache := ?m\<rparr>)" using assms(1) min_le by (auto simp: ms_quiet_def)
  moreover have "ms_cursor s + n - ms_bufferSize s \<le> ?m \<longleftrightarrow>
      n \<le> ms_bufferSize s \<and> (\<forall>g \<in> set (ms_gating s). ms_cursor s + n - ms_bufferSize s \<le> g)"
    by (auto simp: min_ge_iff)
  moreover have "ms_cursor s + n - ms_bufferSize s \<le> ms_cache s \<and> ms_cache s \<le> ms_cursor s \<Longrightarrow>
      n \<le> ms_bufferSize s \<and> (\<forall>g \<in> set (ms_gating s). ms_cursor s + n - ms_bufferSize s \<le> g)"
    using assms(1) by (force simp: ms_quiet_def)
  ultimately show ?thesis
    using assms by (auto simp: ms_hasAvailableCapacity_def Let_def not_less split: if_splits)
qed

lemma ms_sequencer: "sequencer ms_quiet ms_cursor ms_gating ms_bufferSize (ms_tryNext minSeq)"
proof
  show "1 \<le> ms_bufferSize s" if "ms_quiet s" for s
    using that ms_size_pos [of s] by (simp add: ms_quiet_def)
  show "ms_cursor s - ms_bufferSize s \<le> g" if "ms_quiet s" and "g \<in> set (ms_gating s)" for s g
    using that by (simp add: ms_quiet_def)
next
  fix s n hi s'
  assume s: "ms_quiet s" and next': "ms_tryNext minSeq s n = (Inr hi, s')"
  obtain ok s1 where cap: "ms_hasAvailableCapacity minSeq s n (ms_cursor s) = (ok, s1)" by fastforce
  show "ms_quiet s' \<and> hi = ms_cursor s + n \<and> ms_cursor s' = hi \<and> ms_gating s' = ms_gating s
      \<and> ms_bufferSize s' = ms_bufferSize s \<and> 1 \<le> n"
    using ms_capacity [OF s cap] next' cap
    by (auto simp: ms_tryNext_def Let_def compareAndSet_def ms_quiet_def split: if_splits)
next
  fix s n e s'
  assume s: "ms_quiet s" and next': "ms_tryNext minSeq s n = (Inl e, s')"
  obtain ok s1 where cap: "ms_hasAvailableCapacity minSeq s n (ms_cursor s) = (ok, s1)" by fastforce
  show "ms_quiet s' \<and> ms_cursor s' = ms_cursor s \<and> ms_gating s' = ms_gating s
      \<and> ms_bufferSize s' = ms_bufferSize s
      \<and> (if n < 1 then e = ArgumentException
         else e = InsufficientCapacityException
           \<and> (ms_bufferSize s < n \<or> (\<exists>g \<in> set (ms_gating s). g < ms_cursor s + n - ms_bufferSize s)))"
    using ms_capacity [OF s cap] next' cap s
    by (auto simp: ms_tryNext_def Let_def not_le split: if_splits)
qed

end

text \<open>The multi-producer sequencer, used by one thread, keeps the contract too.\<close>

sublocale min_sequence \<subseteq> multi: sequencer ms_quiet ms_cursor ms_gating ms_bufferSize "ms_tryNext minSeq"
  by (rule ms_sequencer)

section \<open>A demand larger than the ring\<close>

definition spinning :: "int \<Rightarrow> ms_pc \<Rightarrow> bool" where
  "spinning n pc \<longleftrightarrow> pc = NextCall n \<or> pc = NextTop n \<or> (\<exists>cur. pc = NextHaveCur n cur \<or> pc = NextNeedMin n cur)"

lemma ms_thread_size: "ms_thread minSeq gs s pc = (s', pc') \<Longrightarrow> ms_bufferSize s' = ms_bufferSize s"
  by (cases pc) (auto simp: compareAndSet_def split: if_splits)

lemma spinning_step:
  assumes "min_sequence minSeq" and "ms_step minSeq S S'" and "spinning n (pcs S t)"
    and "1 \<le> n" and "ms_bufferSize (shared S) < n"
  shows "spinning n (pcs S' t) \<and> ms_bufferSize (shared S') < n"
  using assms(2)
proof cases
  case (Call u pc m)
  then show ?thesis using assms(3,5) by (auto simp: spinning_def)
next
  case (Access gs u s' pc')
  have "minSeq gs cur < cur + n - ms_bufferSize (shared S)" for cur
    using min_sequence.min_le_default [OF assms(1), of gs cur] assms(5) by linarith
  then have "spinning n pc'" if "u = t"
    using Access(3) assms(3-5) that by (auto simp: spinning_def split: if_splits)
  then show ?thesis using Access ms_thread_size [OF Access(3)] assms(3,5) by auto
next
  case (Consume i g a v)
  then show ?thesis using assms(3,5) by simp
qed

section \<open>Properties\<close>

text \<open>
  C18: whatever the interleaving of producers and consumers, the claims made so far are
  consecutive and together are exactly the sequences from 0 to the cursor, each once, so no
  two producers ever hold the same sequence; and no producer is more than one ring ahead of
  any consumer.
\<close>

theorem multi_claims_exact:
  assumes "min_sequence minSeq" and "ms_start S0" and "(ms_step minSeq)\<^sup>*\<^sup>* S0 S"
  shows "concat (map (\<lambda>(lo, hi). [lo..hi]) (claims S)) = [0..ms_cursor (shared S)]
    \<and> (\<forall>g \<in> set (ms_gating (shared S)). g \<le> ms_cursor (shared S)
         \<and> ms_cursor (shared S) \<le> g + ms_bufferSize (shared S))"
  using ms_reachable_inv [OF assms(1,3,2)] by (auto simp: ms_inv_def ring_ok_def gate_ok_def)

text \<open>Two producers and a consumer on a ring of two; the second producer claims sequence 0.\<close>

definition example_ring :: ms_system where
  "example_ring = \<lparr>shared = \<lparr>ms_cursor = -1, ms_cache = -1, ms_gating = [-1], ms_available = [-1, -1],
      ms_indexMask = 1, ms_indexShift = 1, ms_bufferSize = 2\<rparr>,
     pcs = (\<lambda>_. Idle), claims = [], published = {..-1}\<rparr>"

lemma example_ring_start: "ms_start example_ring"
  by (simp add: example_ring_def ms_start_def ms_wf_def numeral_2_eq_2)

definition example_run :: ms_system where
  "example_run = (ms_access fold_min 1 ^^ 6) (example_ring\<lparr>pcs := (pcs example_ring)(1 := TryCall 1)\<rparr>)"

lemma example_run_reached: "(ms_step fold_min)\<^sup>*\<^sup>* example_ring example_run"
proof -
  define c where "c = example_ring\<lparr>pcs := (pcs example_ring)(1 := TryCall 1)\<rparr>"
  have call: "ms_step fold_min example_ring c"
    unfolding c_def by (rule ms_step.Call [where n = 1]) (simp_all add: example_ring_def)
  have acc: "ms_cursor (shared ((ms_access fold_min 1 ^^ k) c)) < 2 ^ 63" if "k \<le> 6" for k
    using that
    by (auto simp: c_def le_Suc_eq numeral_eq_Suc ms_access_def example_ring_def compareAndSet_def setAvailable_def
        setAvailableBufferValue_def)
  have "k \<le> 6 \<Longrightarrow> (ms_step fold_min)\<^sup>*\<^sup>* c ((ms_access fold_min 1 ^^ k) c)" for k
  proof (induction k)
    case (Suc k)
    have "ms_step fold_min ((ms_access fold_min 1 ^^ k) c) ((ms_access fold_min 1 ^^ Suc k) c)"
      using ms_access_step [of fold_min 1 "(ms_access fold_min 1 ^^ k) c"] acc [OF Suc.prems] by simp
    with Suc show ?case by (meson Suc_leD rtranclp.rtrancl_into_rtrancl)
  qed simp
  from converse_rtranclp_into_rtranclp [OF call this [OF order_refl]]
  show ?thesis unfolding example_run_def c_def .
qed

lemma example_run_state:
  "claims example_run = [(0, 0)]" "ms_cursor (shared example_run) = 0" "0 \<in> published example_run"
  "ms_bufferSize (shared example_run) = 2" "ms_gating (shared example_run) = [-1]"
  by (simp_all add: example_run_def numeral_eq_Suc ms_access_def example_ring_def compareAndSet_def setAvailable_def
        setAvailableBufferValue_def)

theorem multi_claims_exact_witness:
  "\<exists>S. (ms_step fold_min)\<^sup>*\<^sup>* example_ring S \<and> claims S = [(0, 0)]
    \<and> concat (map (\<lambda>(lo, hi). [lo..hi]) (claims S)) = [0..ms_cursor (shared S)]"
  using multi_claims_exact [OF folding.min_sequence_axioms example_ring_start example_run_reached]
    example_run_reached example_run_state(1) by blast

text \<open>
  C29: in every state that producers can reach, however they interleave, \<open>isAvailable\<close> answers, for every sequence of the current ring
  window, exactly whether it has been published; and what \<open>getHighestPublishedSequence\<close>
  tells a consumer to read, starting after its own sequence, has been published.
\<close>

theorem multi_available_iff_published:
  assumes "min_sequence minSeq" and "ms_start S0" and "(ms_step minSeq)\<^sup>*\<^sup>* S0 S"
  shows "(\<forall>x. 0 \<le> x \<and> ms_cursor (shared S) - ms_bufferSize (shared S) < x \<and> x \<le> ms_cursor (shared S)
         \<longrightarrow> ms_isAvailable (shared S) x = (x \<in> published S))
    \<and> (\<forall>g \<in> set (ms_gating (shared S)). \<forall>x.
         g < x \<and> x \<le> ms_getHighestPublishedSequence (shared S) (g + 1) (ms_cursor (shared S))
         \<longrightarrow> x \<in> published S)"
proof (intro conjI allI ballI impI)
  have ring: "ring_ok (shared S) (published S)"
    using ms_reachable_inv [OF assms(1,3,2)] by (simp add: ms_inv_def)
  show "ms_isAvailable (shared S) x = (x \<in> published S)"
    if "0 \<le> x \<and> ms_cursor (shared S) - ms_bufferSize (shared S) < x \<and> x \<le> ms_cursor (shared S)" for x
    using available_published [OF ring] that by blast
  show "x \<in> published S"
    if "g \<in> set (ms_gating (shared S))"
      and x: "g < x \<and> x \<le> ms_getHighestPublishedSequence (shared S) (g + 1) (ms_cursor (shared S))" for g x
  proof -
    have "gate_ok (shared S) (published S) g" using ring that(1) by (simp add: ring_ok_def)
    moreover have "x \<le> ms_cursor (shared S)"
      using x highest_published_le [of "shared S" "g + 1" "ms_cursor (shared S)"] by linarith
    moreover have "ms_isAvailable (shared S) x"
      using highest_published_available [of "g + 1" x "shared S" "ms_cursor (shared S)"] x by simp
    ultimately show ?thesis
      using available_published [OF ring, of x] x by (simp add: gate_ok_def)
  qed
qed

theorem multi_available_iff_published_witness:
  "\<exists>S. (ms_step fold_min)\<^sup>*\<^sup>* example_ring S \<and> 0 \<in> published S \<and> ms_isAvailable (shared S) 0"
  using multi_available_iff_published [OF folding.min_sequence_axioms example_ring_start example_run_reached]
    example_run_reached example_run_state by auto

text \<open>
  \<open>next(n)\<close> of the multi-producer sequencer does not reject a demand larger than the
  ring, as the single-producer one does: the thread spins for ever, whatever the others do.
\<close>

theorem multi_next_oversized_spins:
  assumes "min_sequence minSeq" and "pcs S t = NextCall n" and "1 \<le> n"
    and "ms_bufferSize (shared S) < n" and "(ms_step minSeq)\<^sup>*\<^sup>* S S'"
  shows "pcs S' t \<noteq> Holding lo hi \<and> pcs S' t \<noteq> Failed e \<and> pcs S' t \<noteq> Idle"
proof -
  have "spinning n (pcs S' t) \<and> ms_bufferSize (shared S') < n"
    using assms(5)
  proof (induction rule: rtranclp_induct)
    case base
    then show ?case using assms(2,4) by (simp add: spinning_def)
  next
    case (step S1 S2)
    then show ?case using spinning_step [OF assms(1) step.hyps(2) _ assms(3)] by blast
  qed
  then show ?thesis by (auto simp: spinning_def)
qed

theorem multi_next_oversized_spins_witness:
  "pcs (example_ring\<lparr>pcs := (pcs example_ring)(0 := NextCall 3)\<rparr>) 0 \<noteq> Holding 0 2"
  using multi_next_oversized_spins [OF folding.min_sequence_axioms,
      of "example_ring\<lparr>pcs := (pcs example_ring)(0 := NextCall 3)\<rparr>" 0 3]
  by (simp add: example_ring_def)

end
