(* ===== verification/Ring_Buffer.thy ===== *)
theory Ring_Buffer
  imports Multi_Sequencer
begin

text \<open>
  \<open>RingBuffer.h\<close>: the entries of the ring and the operations that publish events. The
  sequencer behind the interface \<open>ISequencer\<close> is a table of operations on a state of
  its own, so that the ring works with either sequencer as in the code. An event translator
  is an argument: it maps the entry and the sequence to the entry it leaves and tells
  whether it threw, since the ring publishes in both cases.
\<close>

section \<open>The interface ISequencer\<close>

record 's seq_ops =
  op_bufferSize :: "'s \<Rightarrow> int"
  op_hasAvailableCapacity :: "'s \<Rightarrow> int \<Rightarrow> bool \<times> 's"
  op_next :: "int list list \<Rightarrow> 's \<Rightarrow> int \<Rightarrow> 's claim"
  op_tryNext :: "'s \<Rightarrow> int \<Rightarrow> (seq_error + int) \<times> 's"
  op_getRemainingCapacity :: "'s \<Rightarrow> int"
  op_claim :: "'s \<Rightarrow> int \<Rightarrow> 's"
  op_publish :: "'s \<Rightarrow> int \<Rightarrow> 's"
  op_publish_range :: "'s \<Rightarrow> int \<Rightarrow> int \<Rightarrow> 's"
  op_isAvailable :: "'s \<Rightarrow> int \<Rightarrow> bool"
  op_cursor :: "'s \<Rightarrow> int"
  op_getMinimumSequence :: "'s \<Rightarrow> int"

definition single_ops :: "(int list \<Rightarrow> int \<Rightarrow> int) \<Rightarrow> single_seq seq_ops" where
  "single_ops minSeq =
    \<lparr>op_bufferSize = ss_bufferSize, op_hasAvailableCapacity = ss_hasAvailableCapacity minSeq,
     op_next = ss_next minSeq, op_tryNext = ss_tryNext minSeq,
     op_getRemainingCapacity = ss_getRemainingCapacity minSeq, op_claim = ss_claim,
     op_publish = ss_publish, op_publish_range = ss_publish_range,
     op_isAvailable = ss_isAvailable, op_cursor = ss_cursor,
     op_getMinimumSequence = ss_getMinimumSequence minSeq\<rparr>"

text \<open>\<open>next\<close> of the multi-producer sequencer for a thread that no other producer disturbs.\<close>

function ms_next ::
  "(int list \<Rightarrow> int \<Rightarrow> int) \<Rightarrow> int list list \<Rightarrow> multi_seq \<Rightarrow> int \<Rightarrow> multi_seq claim" where
  "ms_next minSeq reads s n =
    (if n < 1 then Rejected ArgumentException
     else
      let current = ms_cursor s;
          next = current + n;
          wrapPoint = next - ms_bufferSize s;
          cachedGatingSequence = ms_cache s
      in
       if wrapPoint > cachedGatingSequence \<or> cachedGatingSequence > current
       then (case reads of
               [] \<Rightarrow> Waiting s
             | g # rest \<Rightarrow>
                 let gatingSequence = minSeq g current; s = s\<lparr>ms_gating := g\<rparr>
                 in if wrapPoint > gatingSequence then ms_next minSeq rest s n
                    else ms_next minSeq rest (s\<lparr>ms_cache := gatingSequence\<rparr>) n)
       else Claimed next (snd (compareAndSet s current next)))"
  by pat_completeness auto
termination
  by (relation "measure (\<lambda>(m, reads, s, n). length reads)") auto

declare ms_next.simps [simp del]

definition ms_getMinimumSequence :: "(int list \<Rightarrow> int \<Rightarrow> int) \<Rightarrow> multi_seq \<Rightarrow> int" where
  "ms_getMinimumSequence minSeq s = minSeq (ms_gating s) (ms_cursor s)"

definition multi_ops :: "(int list \<Rightarrow> int \<Rightarrow> int) \<Rightarrow> multi_seq seq_ops" where
  "multi_ops minSeq =
    \<lparr>op_bufferSize = ms_bufferSize,
     op_hasAvailableCapacity = (\<lambda>s n. ms_hasAvailableCapacity minSeq s n (ms_cursor s)),
     op_next = ms_next minSeq, op_tryNext = ms_tryNext minSeq,
     op_getRemainingCapacity = ms_getRemainingCapacity minSeq, op_claim = ms_claim,
     op_publish = ms_publish, op_publish_range = ms_publish_range,
     op_isAvailable = ms_isAvailable, op_cursor = ms_cursor,
     op_getMinimumSequence = ms_getMinimumSequence minSeq\<rparr>"

section \<open>The ring\<close>

record ('e, 's) ring_buffer =
  rb_entries :: "'e list"
  rb_indexMask :: i32
  rb_bufferSize :: int
  rb_sequencer :: 's

text \<open>\<open>128 / sizeof(int*)\<close> entries of padding on either side.\<close>

definition m_bufferPad :: nat where "m_bufferPad = 16"

text \<open>\<open>factory i\<close> is what the \<open>i\<close>-th call of the event factory returns.\<close>

definition rb_fill :: "(nat \<Rightarrow> 'e) \<Rightarrow> ('e, 's) ring_buffer \<Rightarrow> ('e, 's) ring_buffer" where
  "rb_fill factory rb =
     rb\<lparr>rb_entries := fold (\<lambda>i es. es[m_bufferPad + i := factory i]) [0..<nat (rb_bufferSize rb)] (rb_entries rb)\<rparr>"

definition RingBuffer ::
  "(int \<Rightarrow> int) \<Rightarrow> 's seq_ops \<Rightarrow> 'e \<Rightarrow> (nat \<Rightarrow> 'e) \<Rightarrow> 's \<Rightarrow> seq_error + ('e, 's) ring_buffer" where
  "RingBuffer ceilingNextPowerOfTwo ops blank factory sqr =
    (let bufferSize = op_bufferSize ops sqr in
     if bufferSize < 1 then Inl ArgumentException
     else if ceilingNextPowerOfTwo bufferSize \<noteq> bufferSize then Inl ArgumentException
     else Inr (rb_fill factory
       \<lparr>rb_entries = replicate (nat bufferSize + 2 * m_bufferPad) blank,
        rb_indexMask = word_of_int (bufferSize - 1), rb_bufferSize = bufferSize,
        rb_sequencer = sqr\<rparr>))"

definition rb_index :: "('e, 's) ring_buffer \<Rightarrow> int \<Rightarrow> nat" where
  "rb_index rb sequence = m_bufferPad + unat ((word_of_int sequence :: i32) AND rb_indexMask rb)"

definition rb_get :: "('e, 's) ring_buffer \<Rightarrow> int \<Rightarrow> 'e" where
  "rb_get rb sequence = rb_entries rb ! rb_index rb sequence"

text \<open>An assignment through the reference that \<open>operator[]\<close> returns.\<close>

definition rb_put :: "('e, 's) ring_buffer \<Rightarrow> int \<Rightarrow> 'e \<Rightarrow> ('e, 's) ring_buffer" where
  "rb_put rb sequence e = rb\<lparr>rb_entries := (rb_entries rb)[rb_index rb sequence := e]\<rparr>"

definition rb_next :: "'s seq_ops \<Rightarrow> int list list \<Rightarrow> ('e, 's) ring_buffer \<Rightarrow> int \<Rightarrow> ('e, 's) ring_buffer claim" where
  "rb_next ops reads rb n =
    (case op_next ops reads (rb_sequencer rb) n of
       Claimed hi s \<Rightarrow> Claimed hi (rb\<lparr>rb_sequencer := s\<rparr>)
     | Waiting s \<Rightarrow> Waiting (rb\<lparr>rb_sequencer := s\<rparr>)
     | Rejected e \<Rightarrow> Rejected e)"

definition rb_tryNext ::
  "'s seq_ops \<Rightarrow> ('e, 's) ring_buffer \<Rightarrow> int \<Rightarrow> (seq_error + int) \<times> ('e, 's) ring_buffer" where
  "rb_tryNext ops rb n =
    (let (r, s) = op_tryNext ops (rb_sequencer rb) n in (r, rb\<lparr>rb_sequencer := s\<rparr>))"

definition rb_publish :: "'s seq_ops \<Rightarrow> ('e, 's) ring_buffer \<Rightarrow> int \<Rightarrow> ('e, 's) ring_buffer" where
  "rb_publish ops rb sequence = rb\<lparr>rb_sequencer := op_publish ops (rb_sequencer rb) sequence\<rparr>"

definition rb_publish_range ::
  "'s seq_ops \<Rightarrow> ('e, 's) ring_buffer \<Rightarrow> int \<Rightarrow> int \<Rightarrow> ('e, 's) ring_buffer" where
  "rb_publish_range ops rb lo hi = rb\<lparr>rb_sequencer := op_publish_range ops (rb_sequencer rb) lo hi\<rparr>"

definition rb_resetTo :: "'s seq_ops \<Rightarrow> ('e, 's) ring_buffer \<Rightarrow> int \<Rightarrow> ('e, 's) ring_buffer" where
  "rb_resetTo ops rb sequence =
     rb\<lparr>rb_sequencer := op_publish ops (op_claim ops (rb_sequencer rb) sequence) sequence\<rparr>"

definition rb_claimAndGetPreallocated ::
  "'s seq_ops \<Rightarrow> ('e, 's) ring_buffer \<Rightarrow> int \<Rightarrow> 'e \<times> ('e, 's) ring_buffer" where
  "rb_claimAndGetPreallocated ops rb sequence =
    (let rb = rb\<lparr>rb_sequencer := op_claim ops (rb_sequencer rb) sequence\<rparr> in (rb_get rb sequence, rb))"

definition rb_isPublished :: "'s seq_ops \<Rightarrow> ('e, 's) ring_buffer \<Rightarrow> int \<Rightarrow> bool" where
  "rb_isPublished ops rb sequence = op_isAvailable ops (rb_sequencer rb) sequence"

definition rb_getRemainingCapacity :: "'s seq_ops \<Rightarrow> ('e, 's) ring_buffer \<Rightarrow> int" where
  "rb_getRemainingCapacity ops rb = op_getRemainingCapacity ops (rb_sequencer rb)"

definition rb_cursor :: "'s seq_ops \<Rightarrow> ('e, 's) ring_buffer \<Rightarrow> int" where
  "rb_cursor ops rb = op_cursor ops (rb_sequencer rb)"

definition rb_getMinimumGatingSequence :: "'s seq_ops \<Rightarrow> ('e, 's) ring_buffer \<Rightarrow> int" where
  "rb_getMinimumGatingSequence ops rb = op_getMinimumSequence ops (rb_sequencer rb)"

section \<open>Publishing events\<close>

type_synonym 'e translator = "'e \<Rightarrow> int \<Rightarrow> 'e \<times> bool"

definition translateAndPublish ::
  "'s seq_ops \<Rightarrow> 'e translator \<Rightarrow> ('e, 's) ring_buffer \<Rightarrow> int \<Rightarrow> ('e, 's) ring_buffer" where
  "translateAndPublish ops translator rb sequence =
     rb_publish ops (rb_put rb sequence (fst (translator (rb_get rb sequence) sequence))) sequence"

text \<open>The loop over the batch, left at the first translator that throws.\<close>

fun translateBatch :: "'e translator list \<Rightarrow> int \<Rightarrow> ('e, 's) ring_buffer \<Rightarrow> ('e, 's) ring_buffer" where
  "translateBatch [] sequence rb = rb"
| "translateBatch (t # ts) sequence rb =
    (let (e, threw) = t (rb_get rb sequence) sequence;
         rb = rb_put rb sequence e
     in if threw then rb else translateBatch ts (sequence + 1) rb)"

definition translateAndPublishBatch ::
  "'s seq_ops \<Rightarrow> 'e translator list \<Rightarrow> int \<Rightarrow> int \<Rightarrow> int \<Rightarrow> ('e, 's) ring_buffer \<Rightarrow> ('e, 's) ring_buffer" where
  "translateAndPublishBatch ops translators batchStartsAt batchSize finalSequence rb =
    (let initialSequence = finalSequence - (batchSize - 1);
         rb = translateBatch (take (nat batchSize) (drop (nat batchStartsAt) translators)) initialSequence rb
     in rb_publish_range ops rb initialSequence finalSequence)"

definition publishEvent ::
  "'s seq_ops \<Rightarrow> int list list \<Rightarrow> 'e translator \<Rightarrow> ('e, 's) ring_buffer \<Rightarrow> ('e, 's) ring_buffer claim" where
  "publishEvent ops reads translator rb =
    (case rb_next ops reads rb 1 of
       Claimed sequence rb \<Rightarrow> Claimed sequence (translateAndPublish ops translator rb sequence)
     | r \<Rightarrow> r)"

definition tryPublishEvent ::
  "'s seq_ops \<Rightarrow> 'e translator \<Rightarrow> ('e, 's) ring_buffer \<Rightarrow> (seq_error + bool) \<times> ('e, 's) ring_buffer" where
  "tryPublishEvent ops translator rb =
    (case rb_tryNext ops rb 1 of
       (Inr sequence, rb) \<Rightarrow> (Inr True, translateAndPublish ops translator rb sequence)
     | (Inl InsufficientCapacityException, rb) \<Rightarrow> (Inr False, rb)
     | (Inl e, rb) \<Rightarrow> (Inl e, rb))"

definition checkBatchSizing :: "('e, 's) ring_buffer \<Rightarrow> int \<Rightarrow> int \<Rightarrow> bool" where
  "checkBatchSizing rb batchStartsAt batchSize \<longleftrightarrow>
     \<not> (batchStartsAt < 0 \<or> batchSize < 0) \<and> \<not> batchSize > rb_bufferSize rb"

definition batchOverRuns :: "int \<Rightarrow> int \<Rightarrow> int \<Rightarrow> bool" where
  "batchOverRuns argumentCount batchStartsAt batchSize \<longleftrightarrow> batchStartsAt + batchSize > argumentCount"

definition checkBounds :: "('e, 's) ring_buffer \<Rightarrow> int \<Rightarrow> int \<Rightarrow> int \<Rightarrow> bool" where
  "checkBounds rb argumentCount batchStartsAt batchSize \<longleftrightarrow>
     checkBatchSizing rb batchStartsAt batchSize \<and> \<not> batchOverRuns argumentCount batchStartsAt batchSize"

definition publishEvents ::
  "'s seq_ops \<Rightarrow> int list list \<Rightarrow> 'e translator list \<Rightarrow> int \<Rightarrow> int \<Rightarrow> ('e, 's) ring_buffer
    \<Rightarrow> ('e, 's) ring_buffer claim" where
  "publishEvents ops reads translators batchStartsAt batchSize rb =
    (if \<not> checkBounds rb (int (length translators)) batchStartsAt batchSize then Rejected ArgumentException
     else case rb_next ops reads rb batchSize of
            Claimed finalSequence rb \<Rightarrow>
              Claimed finalSequence
                (translateAndPublishBatch ops translators batchStartsAt batchSize finalSequence rb)
          | r \<Rightarrow> r)"

definition tryPublishEvents ::
  "'s seq_ops \<Rightarrow> 'e translator list \<Rightarrow> int \<Rightarrow> int \<Rightarrow> ('e, 's) ring_buffer
    \<Rightarrow> (seq_error + bool) \<times> ('e, 's) ring_buffer" where
  "tryPublishEvents ops translators batchStartsAt batchSize rb =
    (if \<not> checkBounds rb (int (length translators)) batchStartsAt batchSize
     then (Inl ArgumentException, rb)
     else case rb_tryNext ops rb batchSize of
            (Inr finalSequence, rb) \<Rightarrow>
              (Inr True, translateAndPublishBatch ops translators batchStartsAt batchSize finalSequence rb)
          | (Inl InsufficientCapacityException, rb) \<Rightarrow> (Inr False, rb)
          | (Inl e, rb) \<Rightarrow> (Inl e, rb))"

section \<open>Slots of the ring\<close>

definition rb_wf :: "('e, 's) ring_buffer \<Rightarrow> bool" where
  "rb_wf rb \<longleftrightarrow> (\<exists>k \<le> 30. rb_bufferSize rb = 2 ^ k) \<and> rb_indexMask rb = word_of_int (rb_bufferSize rb - 1)
     \<and> length (rb_entries rb) = nat (rb_bufferSize rb) + 2 * m_bufferPad"

lemma rb_index_eq:
  assumes "rb_wf rb"
  shows "rb_index rb x = m_bufferPad + nat (x mod rb_bufferSize rb)"
proof -
  obtain k where k: "k \<le> 30" "rb_bufferSize rb = 2 ^ k" using assms by (auto simp: rb_wf_def)
  define s where "s = \<lparr>ms_cursor = 0, ms_cache = 0, ms_gating = [], ms_available = replicate (2 ^ k) 0,
     ms_indexMask = rb_indexMask rb, ms_indexShift = k, ms_bufferSize = rb_bufferSize rb\<rparr>"
  have "ms_wf s" using assms k by (simp add: s_def ms_wf_def rb_wf_def nat_power_eq)
  from calculateIndex_eq [OF this, of x] show ?thesis
    by (simp add: rb_index_def calculateIndex_def s_def)
qed

lemma rb_index_less:
  assumes "rb_wf rb"
  shows "rb_index rb x < length (rb_entries rb)"
proof -
  have "0 < rb_bufferSize rb" using assms by (auto simp: rb_wf_def)
  then have "nat (x mod rb_bufferSize rb) < nat (rb_bufferSize rb)"
    using pos_mod_bound [of "rb_bufferSize rb" x] by simp
  moreover have "length (rb_entries rb) = nat (rb_bufferSize rb) + 2 * m_bufferPad"
    using assms by (simp add: rb_wf_def)
  ultimately show ?thesis using rb_index_eq [OF assms, of x] by linarith
qed

lemma rb_put_simps [simp]:
  "rb_bufferSize (rb_put rb x e) = rb_bufferSize rb" "rb_sequencer (rb_put rb x e) = rb_sequencer rb"
  "rb_index (rb_put rb x e) y = rb_index rb y" "rb_wf (rb_put rb x e) = rb_wf rb"
  by (simp_all add: rb_put_def rb_index_def rb_wf_def)

lemma rb_sequencer_frames [simp]:
  "rb_get (rb\<lparr>rb_sequencer := s\<rparr>) x = rb_get rb x" "rb_wf (rb\<lparr>rb_sequencer := s\<rparr>) = rb_wf rb"
  "rb_put (rb\<lparr>rb_sequencer := s\<rparr>) x e = (rb_put rb x e)\<lparr>rb_sequencer := s\<rparr>"
  by (simp_all add: rb_get_def rb_index_def rb_wf_def rb_put_def)

lemma rb_get_put_same: "rb_wf rb \<Longrightarrow> rb_get (rb_put rb x e) x = e"
  using rb_index_less [of rb x] by (simp add: rb_get_def) (simp add: rb_put_def)

lemma rb_get_put_other:
  assumes "rb_wf rb" and "x mod rb_bufferSize rb \<noteq> y mod rb_bufferSize rb"
  shows "rb_get (rb_put rb x e) y = rb_get rb y"
proof -
  have "0 < rb_bufferSize rb" using assms(1) by (auto simp: rb_wf_def)
  then have "rb_index rb x \<noteq> rb_index rb y"
    using assms by (simp add: rb_index_eq nat_eq_iff)
  then show ?thesis by (simp add: rb_get_def) (simp add: rb_put_def)
qed

text \<open>The slots of a batch of at most one ring are filled in order.\<close>

lemma translateBatch_frame:
  "rb_sequencer (translateBatch ts x rb) = rb_sequencer rb"
  "rb_bufferSize (translateBatch ts x rb) = rb_bufferSize rb"
  "rb_wf (translateBatch ts x rb) = rb_wf rb"
  by (induction ts arbitrary: x rb) (auto simp: Let_def split: prod.splits)

lemma translateBatch_outside:
  assumes "rb_wf rb" and "\<And>i. i < int (length ts) \<Longrightarrow> 0 \<le> i \<Longrightarrow> (x + i) mod rb_bufferSize rb \<noteq> y mod rb_bufferSize rb"
  shows "rb_get (translateBatch ts x rb) y = rb_get rb y"
  using assms
proof (induction ts arbitrary: x rb)
  case Nil
  then show ?case by simp
next
  case (Cons t ts)
  obtain e threw where t: "t (rb_get rb x) x = (e, threw)" by fastforce
  have "x mod rb_bufferSize rb \<noteq> y mod rb_bufferSize rb" using Cons.prems(2) [of 0] by simp
  then have put: "rb_get (rb_put rb x e) y = rb_get rb y" by (rule rb_get_put_other [OF Cons.prems(1)])
  have "rb_get (translateBatch ts (x + 1) (rb_put rb x e)) y = rb_get (rb_put rb x e) y"
    using Cons.prems Cons.prems(2) [of "1 + _"] by (intro Cons.IH) (auto simp: add.assoc)
  then show ?case using put t by (simp add: Let_def)
qed

section \<open>A ring over any sequencer\<close>

locale ring_sequencer = sequencer inv produced gating size tryClaim
  for inv :: "'s \<Rightarrow> bool" and produced gating size tryClaim +
  fixes ops :: "'s seq_ops"
  assumes ops_try: "op_tryNext ops = tryClaim"
    and ops_publish: "inv s \<Longrightarrow> 0 \<le> x \<Longrightarrow> x < 2 ^ 63 \<Longrightarrow> op_isAvailable ops (op_publish ops s x) x"
begin

text \<open>
  Publishing one event: it fails only for want of room and then changes no entry; otherwise
  the next entry holds what the translator left, is published, and no entry a consumer
  still has to read is touched.
\<close>

lemma tryPublish:
  assumes wf: "rb_wf rb" and s: "inv (rb_sequencer rb)" "size (rb_sequencer rb) = rb_bufferSize rb"
    and range: "-1 \<le> produced (rb_sequencer rb)" "produced (rb_sequencer rb) < 2 ^ 63 - 1"
    and pub: "tryPublishEvent ops tr rb = (r, rb')"
  defines "x \<equiv> produced (rb_sequencer rb) + 1"
  shows "(r = Inr True \<and> rb_get rb' x = fst (tr (rb_get rb x) x) \<and> rb_isPublished ops rb' x
      \<and> (\<forall>g \<in> set (gating (rb_sequencer rb)). x - rb_bufferSize rb \<le> g)
      \<and> (\<forall>g \<in> set (gating (rb_sequencer rb)). \<forall>y. g < y \<and> y < x \<longrightarrow> rb_get rb' y = rb_get rb y))
    \<or> (r = Inr False \<and> rb_entries rb' = rb_entries rb
      \<and> (\<exists>g \<in> set (gating (rb_sequencer rb)). g < x - rb_bufferSize rb))"
proof -
  obtain c s' where c: "tryClaim (rb_sequencer rb) 1 = (c, s')" by fastforce
  show ?thesis
  proof (cases c)
    case (Inl e)
    have "e = InsufficientCapacityException" and
      "1 > size (rb_sequencer rb) \<or> (\<exists>g \<in> set (gating (rb_sequencer rb)). g < x - rb_bufferSize rb)"
      using claim_fails [OF s(1), of 1 e s'] c Inl s(2) by (simp_all add: x_def)
    moreover have "\<not> 1 > size (rb_sequencer rb)" using size_pos [OF s(1)] by simp
    ultimately show ?thesis
      using pub c Inl by (auto simp: tryPublishEvent_def rb_tryNext_def ops_try)
  next
    case (Inr hi)
    have hi: "hi = x" "inv s'" "produced s' = x" "gating s' = gating (rb_sequencer rb)" "size s' = rb_bufferSize rb"
      using claim_ok [OF s(1), of 1 hi s'] c Inr s(2) by (simp_all add: x_def)
    have rb': "r = Inr True" "rb' = rb_publish ops ((rb_put rb x (fst (tr (rb_get rb x) x)))\<lparr>rb_sequencer := s'\<rparr>) x"
      using pub c Inr hi(1)
      by (simp_all add: tryPublishEvent_def rb_tryNext_def ops_try translateAndPublish_def)
    have "rb_isPublished ops rb' x"
      using ops_publish [OF hi(2), of x] range by (simp add: rb' rb_isPublished_def rb_publish_def x_def)
    moreover have "rb_get rb' x = fst (tr (rb_get rb x) x)"
      using rb_get_put_same [OF wf] by (simp add: rb' rb_publish_def)
    moreover have "x - rb_bufferSize rb \<le> g" if "g \<in> set (gating (rb_sequencer rb))" for g
      using no_overrun [OF hi(2), of g] that hi by simp
    moreover have "rb_get rb' y = rb_get rb y"
      if "g \<in> set (gating (rb_sequencer rb))" "g < y" "y < x" for g y
      using rb_get_put_other [OF wf, of x y] slots_distinct [OF hi(2), of g y x] that hi
      by (auto simp: rb' rb_publish_def)
    ultimately show ?thesis using rb'(1) by blast
  qed
qed

end

context min_sequence
begin

lemma ss_ring: "ring_sequencer ss_inv ss_nextValue ss_gating ss_bufferSize (ss_tryNext minSeq) (single_ops minSeq)"
  by unfold_locales (simp_all add: single_ops_def ss_isAvailable_def ss_publish_def)

lemma ms_ring: "ring_sequencer ms_quiet ms_cursor ms_gating ms_bufferSize (ms_tryNext minSeq) (multi_ops minSeq)"
proof unfold_locales
  show "op_tryNext (multi_ops minSeq) = ms_tryNext minSeq" by (simp add: multi_ops_def)
  show "op_isAvailable (multi_ops minSeq) (op_publish (multi_ops minSeq) s x) x" if "ms_quiet s" for s x
    using that calculateIndex_less [of s x]
    by (simp add: multi_ops_def ms_publish_def ms_isAvailable_def calculateAvailabilityFlag_def ms_quiet_def)
       (simp add: setAvailable_def setAvailableBufferValue_def calculateAvailabilityFlag_def)
qed

end

sublocale min_sequence \<subseteq> single_ring: ring_sequencer ss_inv ss_nextValue ss_gating ss_bufferSize
  "ss_tryNext minSeq" "single_ops minSeq"
  by (rule ss_ring)

sublocale min_sequence \<subseteq> multi_ring: ring_sequencer ms_quiet ms_cursor ms_gating ms_bufferSize
  "ms_tryNext minSeq" "multi_ops minSeq"
  by (rule ms_ring)

text \<open>A batch of at most one ring, no translator throwing.\<close>

definition no_throw :: "'e translator list \<Rightarrow> bool" where
  "no_throw ts \<longleftrightarrow> (\<forall>t \<in> set ts. \<forall>e y. \<not> snd (t e y))"

lemma translateBatch_inside:
  assumes "rb_wf rb" and "int (length ts) \<le> rb_bufferSize rb"
    and "no_throw ts" and "i < length ts"
  shows "rb_get (translateBatch ts x rb) (x + int i) = fst ((ts ! i) (rb_get rb (x + int i)) (x + int i))"
  using assms
proof (induction ts arbitrary: x rb i)
  case Nil
  then show ?case by simp
next
  case (Cons t ts)
  obtain e where t: "t (rb_get rb x) x = (e, False)"
    using Cons.prems(3) unfolding no_throw_def by (metis list.set_intros(1) snd_conv surj_pair)
  let ?rb = "rb_put rb x e"
  have run: "translateBatch (t # ts) x rb = translateBatch ts (x + 1) ?rb" using t by simp
  have pos: "0 < rb_bufferSize rb" using Cons.prems(1) by (auto simp: rb_wf_def)
  have apart: "(x + 1 + j) mod rb_bufferSize rb \<noteq> x mod rb_bufferSize rb" if "0 \<le> j" "j < int (length ts)" for j
  proof
    assume "(x + 1 + j) mod rb_bufferSize rb = x mod rb_bufferSize rb"
    then have "rb_bufferSize rb dvd 1 + j" by (metis add.assoc add_diff_cancel_left' mod_eq_dvd_iff)
    then show False using that Cons.prems(2) zdvd_imp_le [of "rb_bufferSize rb" "1 + j"] by simp
  qed
  show ?case
  proof (cases i)
    case 0
    have "rb_get (translateBatch ts (x + 1) ?rb) x = rb_get ?rb x"
      using Cons.prems(1) apart by (intro translateBatch_outside) simp_all
    then show ?thesis using 0 run t rb_get_put_same [OF Cons.prems(1)] by simp
  next
    case (Suc j)
    have "rb_get ?rb (x + 1 + int j) = rb_get rb (x + 1 + int j)"
      using apart [of "int j"] Cons.prems(1,4) Suc by (intro rb_get_put_other) simp_all
    moreover have "rb_get (translateBatch ts (x + 1) ?rb) (x + 1 + int j)
        = fst ((ts ! j) (rb_get ?rb (x + 1 + int j)) (x + 1 + int j))"
      using Cons.prems Suc by (intro Cons.IH) (simp_all add: no_throw_def)
    ultimately show ?thesis using Suc run by (simp add: add.assoc)
  qed
qed

section \<open>Properties\<close>

text \<open>
  What \<open>tryPublishEvent\<close> may do to a ring with sequences up to \<open>x - 1\<close> claimed and consumers at
  \<open>gs\<close>: publish what the translator left as event \<open>x\<close>, if no consumer is a whole ring behind and
  without touching an entry a consumer has yet to read, or return false without changing an entry.
\<close>

definition publishes_one ::
  "'s seq_ops \<Rightarrow> int \<Rightarrow> int set \<Rightarrow> 'e translator \<Rightarrow> ('e, 's) ring_buffer \<Rightarrow> (seq_error + bool) \<times> ('e, 's) ring_buffer \<Rightarrow> bool" where
  "publishes_one ops x gs tr rb result \<longleftrightarrow> (case result of (r, rb') \<Rightarrow>
      (r = Inr True \<and> rb_get rb' x = fst (tr (rb_get rb x) x) \<and> rb_isPublished ops rb' x
        \<and> (\<forall>g \<in> gs. x - rb_bufferSize rb \<le> g)
        \<and> (\<forall>g \<in> gs. \<forall>y. g < y \<and> y < x \<longrightarrow> rb_get rb' y = rb_get rb y))
      \<or> (r = Inr False \<and> rb_entries rb' = rb_entries rb \<and> (\<exists>g \<in> gs. g < x - rb_bufferSize rb)))"

text \<open>
  C27: \<open>tryPublishEvent\<close>, on a ring with the single-producer sequencer and on one with the
  multi-producer sequencer, for a call during which no other producer acts. It returns false
  exactly when some consumer is a whole ring behind, and then changes no entry; otherwise the
  next entry is the translator's, its sequence is published, and every entry that a consumer
  has yet to read is unchanged.
\<close>

theorem tryPublishEvent_correct:
  assumes "min_sequence minSeq"
  shows "(rb_wf rb \<and> ss_inv (rb_sequencer rb) \<and> ss_bufferSize (rb_sequencer rb) = rb_bufferSize rb
      \<and> -1 \<le> ss_nextValue (rb_sequencer rb) \<and> ss_nextValue (rb_sequencer rb) < 2 ^ 63 - 1 \<longrightarrow>
      publishes_one (single_ops minSeq) (ss_nextValue (rb_sequencer rb) + 1) (set (ss_gating (rb_sequencer rb))) tr rb
        (tryPublishEvent (single_ops minSeq) tr rb))
    \<and> (rb_wf rbm \<and> ms_quiet (rb_sequencer rbm) \<and> ms_bufferSize (rb_sequencer rbm) = rb_bufferSize rbm
      \<and> -1 \<le> ms_cursor (rb_sequencer rbm) \<and> ms_cursor (rb_sequencer rbm) < 2 ^ 63 - 1 \<longrightarrow>
      publishes_one (multi_ops minSeq) (ms_cursor (rb_sequencer rbm) + 1) (set (ms_gating (rb_sequencer rbm))) tr rbm
        (tryPublishEvent (multi_ops minSeq) tr rbm))"
proof -
  note single = ring_sequencer.tryPublish [OF min_sequence.ss_ring [OF assms]]
    and multi = ring_sequencer.tryPublish [OF min_sequence.ms_ring [OF assms]]
  show ?thesis
    unfolding publishes_one_def
    by (intro conjI impI case_prodI2; elim conjE) (rule single multi; simp; fail)+
qed

text \<open>A ring of two integers with one consumer that has read nothing.\<close>

definition example_rb :: "(int, single_seq) ring_buffer" where
  "example_rb = \<lparr>rb_entries = replicate 34 0, rb_indexMask = 1, rb_bufferSize = 2,
     rb_sequencer = \<lparr>ss_nextValue = -1, ss_cachedValue = -1, ss_cursor = -1, ss_gating = [-1], ss_bufferSize = 2\<rparr>\<rparr>"

lemma example_rb_ok: "rb_wf example_rb" "ss_inv (rb_sequencer example_rb)"
proof -
  have "\<exists>k \<le> 30. (2 :: int) = 2 ^ k" by (rule exI [of _ 1]) simp
  then show "rb_wf example_rb" by (simp add: example_rb_def rb_wf_def m_bufferPad_def)
  show "ss_inv (rb_sequencer example_rb)" by (simp add: example_rb_def ss_inv_def)
qed

text \<open>The same ring with the multi-producer sequencer.\<close>

definition example_rbm :: "(int, multi_seq) ring_buffer" where
  "example_rbm = \<lparr>rb_entries = replicate 34 0, rb_indexMask = 1, rb_bufferSize = 2,
     rb_sequencer = \<lparr>ms_cursor = -1, ms_cache = -1, ms_gating = [-1], ms_available = replicate 2 (-1),
       ms_indexMask = 1, ms_indexShift = 1, ms_bufferSize = 2\<rparr>\<rparr>"

lemma example_rbm_ok: "rb_wf example_rbm" "ms_quiet (rb_sequencer example_rbm)"
proof -
  have "\<exists>k \<le> 30. (2 :: int) = 2 ^ k" by (rule exI [of _ 1]) simp
  then show "rb_wf example_rbm" by (simp add: example_rbm_def rb_wf_def m_bufferPad_def)
  show "ms_quiet (rb_sequencer example_rbm)" by (simp add: example_rbm_def ms_quiet_def ms_wf_def)
qed

theorem tryPublishEvent_correct_witness:
  "(\<exists>rb'. tryPublishEvent (single_ops fold_min) (\<lambda>e x. (e + 10 * (x + 1), False)) example_rb = (Inr True, rb')
     \<and> rb_get rb' 0 = 10 \<and> rb_isPublished (single_ops fold_min) rb' 0)
   \<and> (\<exists>rb'. tryPublishEvent (multi_ops fold_min) (\<lambda>e x. (e + 10 * (x + 1), False)) example_rbm = (Inr True, rb')
     \<and> rb_get rb' 0 = 10 \<and> rb_isPublished (multi_ops fold_min) rb' 0)"
proof -
  let ?tr = "\<lambda>e x. (e + 10 * (x + 1), False)"
  have "rb_get example_rb 0 = 0" "rb_get example_rbm 0 = 0"
    by (simp_all add: rb_get_def rb_index_eq [OF example_rb_ok(1)] rb_index_eq [OF example_rbm_ok(1)])
       (simp_all add: example_rb_def example_rbm_def m_bufferPad_def)
  then show ?thesis
    using tryPublishEvent_correct [OF folding.min_sequence_axioms, of example_rb ?tr example_rbm]
      example_rb_ok example_rbm_ok
    by (simp add: publishes_one_def split: prod.splits) (auto simp: example_rb_def example_rbm_def)
qed

text \<open>
  \<open>publishEvents\<close> on the single-producer ring rejects a batch that does not fit the
  arguments or the ring; when it returns and no translator throws, the batch occupies the
  next sequences in order, each entry as its translator left it, and the cursor is the last
  of them.
\<close>

theorem publishEvents_batch:
  assumes "min_sequence minSeq" and "rb_wf rb" and "ss_inv (rb_sequencer rb)"
    and "ss_bufferSize (rb_sequencer rb) = rb_bufferSize rb"
    and "successive_reads (ss_nextValue (rb_sequencer rb)) (ss_gating (rb_sequencer rb)) reads"
    and "publishEvents (single_ops minSeq) reads ts start n rb = Claimed hi rb'"
    and "no_throw ts"
  shows "checkBounds rb (int (length ts)) start n \<and> 1 \<le> n
    \<and> hi = ss_nextValue (rb_sequencer rb) + n \<and> ss_cursor (rb_sequencer rb') = hi
    \<and> (\<forall>i < nat n. let x = ss_nextValue (rb_sequencer rb) + 1 + int i
         in rb_get rb' x = fst ((ts ! (nat start + i)) (rb_get rb x) x))"
proof -
  have ok: "checkBounds rb (int (length ts)) start n"
    using assms(6) by (auto simp: publishEvents_def split: if_splits)
  obtain s' where s': "ss_next minSeq reads (rb_sequencer rb) n = Claimed hi s'"
    and rb': "rb' = translateAndPublishBatch (single_ops minSeq) ts start n hi (rb\<lparr>rb_sequencer := s'\<rparr>)"
    using assms(6) ok
    by (auto simp: publishEvents_def rb_next_def single_ops_def split: claim.splits)
  have n: "1 \<le> n" "n \<le> rb_bufferSize rb"
    using s' assms(4) by (auto simp: ss_next_def split: if_splits)
  have hi: "hi = ss_nextValue (rb_sequencer rb) + n"
    using min_sequence.ss_next_Claimed [OF assms(1,3,5) s'] by simp
  let ?ts = "take (nat n) (drop (nat start) ts)" and ?lo = "ss_nextValue (rb_sequencer rb) + 1"
  have start: "0 \<le> start" "start + n \<le> int (length ts)"
    using ok by (auto simp: checkBounds_def checkBatchSizing_def batchOverRuns_def)
  then have len: "length ?ts = nat n" using n by auto
  have lo: "hi - (n - 1) = ?lo" using hi by simp
  have quiet: "no_throw ?ts" using assms(7) by (auto simp: no_throw_def dest: in_set_takeD in_set_dropD)
  have "rb_get (translateBatch ?ts ?lo (rb\<lparr>rb_sequencer := s'\<rparr>)) (?lo + int i)
      = fst ((?ts ! i) (rb_get rb (?lo + int i)) (?lo + int i))" if "i < nat n" for i
    using translateBatch_inside [of "rb\<lparr>rb_sequencer := s'\<rparr>" ?ts i ?lo] assms(2) quiet n len that by simp
  moreover have "?ts ! i = ts ! (nat start + i)" if "i < nat n" for i using that start len by auto
  moreover have "rb_get rb' x = rb_get (translateBatch ?ts ?lo (rb\<lparr>rb_sequencer := s'\<rparr>)) x" for x
    unfolding rb' translateAndPublishBatch_def lo by (simp add: rb_publish_range_def Let_def)
  moreover have "ss_cursor (rb_sequencer rb') = hi"
    by (simp add: rb' translateAndPublishBatch_def rb_publish_range_def single_ops_def
        ss_publish_range_def ss_publish_def Let_def)
  ultimately show ?thesis using ok n hi by (simp add: Let_def)
qed

theorem publishEvents_batch_witness:
  "\<exists>rb'. publishEvents (single_ops fold_min) [] [\<lambda>e x. (5, False), \<lambda>e x. (7, False)] 0 2 example_rb = Claimed 1 rb'
    \<and> rb_get rb' 0 = 5 \<and> rb_get rb' 1 = 7"
proof -
  let ?ts = "[\<lambda>e x. (5, False), \<lambda>e x. (7, False)] :: int translator list"
  have "\<exists>rb'. publishEvents (single_ops fold_min) [] ?ts 0 2 example_rb = Claimed 1 rb'"
    by (simp add: publishEvents_def checkBounds_def checkBatchSizing_def batchOverRuns_def rb_next_def
        single_ops_def ss_next_def example_rb_def Let_def)
  then obtain rb' where run: "publishEvents (single_ops fold_min) [] ?ts 0 2 example_rb = Claimed 1 rb'"
    by blast
  have next': "ss_nextValue (rb_sequencer example_rb) = -1" by (simp add: example_rb_def)
  have size: "ss_bufferSize (rb_sequencer example_rb) = rb_bufferSize example_rb"
    and reads: "successive_reads (ss_nextValue (rb_sequencer example_rb)) (ss_gating (rb_sequencer example_rb)) []"
    by (simp_all add: example_rb_def)
  have throws: "no_throw ?ts" by (simp add: no_throw_def)
  have batch: "\<forall>i < nat 2. let x = ss_nextValue (rb_sequencer example_rb) + 1 + int i
       in rb_get rb' x = fst ((?ts ! (nat 0 + i)) (rb_get example_rb x) x)"
    using publishEvents_batch [OF folding.min_sequence_axioms example_rb_ok size reads run throws] by blast
  from batch [rule_format, of 0] batch [rule_format, of 1] run show ?thesis by (simp add: next' Let_def)
qed

end
