(* ===== verification/Supplier.thy ===== *)
theory Supplier
  imports Ring_Buffer
begin

text \<open>
  \<open>Supplier.h\<close> and \<open>SupplierN.h\<close>: a supply of reusable items on a single-producer ring.
  A producer takes items with \<open>get\<close>, consumers with \<open>consumerGet\<close>, and an item is reused
  once every consumer has released it, in whatever order the releases come. An item is the
  entry of its slot; the pointer a call returns is the slot. The member functions of
  \<open>SupplyItem\<close>, the barrier's \<open>waitFor\<close> and the functions of \<open>Util\<close> and \<open>SequenceGroups\<close>
  have no body in the repository: they are arguments, and \<open>supply_item\<close> and \<open>barrier\<close>
  hold what their documentation promises.
\<close>

section \<open>Items\<close>

record 'i item_ops =
  it_reset :: "'i \<Rightarrow> 'i"
  it_isFromConsumerGet :: "'i \<Rightarrow> bool"
  it_setFromConsumerGet :: "'i \<Rightarrow> bool \<Rightarrow> 'i"
  it_decrementCounter :: "'i \<Rightarrow> nat \<Rightarrow> bool \<times> 'i"
  it_getProducerSequence :: "'i \<Rightarrow> int"
  it_setProducerSequence :: "'i \<Rightarrow> int \<Rightarrow> 'i"
  it_getConsumerSequence :: "'i \<Rightarrow> nat \<Rightarrow> int"
  it_setConsumerSequence :: "'i \<Rightarrow> int \<Rightarrow> nat \<Rightarrow> 'i"

text \<open>
  A setter sets its own field and no other; \<open>reset\<close> makes the item one that no consumer
  has taken; counting users down leaves the sequences alone.
\<close>

locale supply_item =
  fixes io :: "'i item_ops"
  assumes reset_flag: "\<not> it_isFromConsumerGet io (it_reset io i)"
    and flag_flag: "it_isFromConsumerGet io (it_setFromConsumerGet io i b) = b"
    and flag_producer: "it_isFromConsumerGet io (it_setProducerSequence io i x) = it_isFromConsumerGet io i"
    and flag_dec: "it_isFromConsumerGet io (snd (it_decrementCounter io i k)) = it_isFromConsumerGet io i"
    and producer_producer: "it_getProducerSequence io (it_setProducerSequence io i x) = x"
    and producer_flag: "it_getProducerSequence io (it_setFromConsumerGet io i b) = it_getProducerSequence io i"
    and producer_consumer: "it_getProducerSequence io (it_setConsumerSequence io i x k) = it_getProducerSequence io i"
    and producer_dec: "it_getProducerSequence io (snd (it_decrementCounter io i k)) = it_getProducerSequence io i"
    and consumer_consumer: "k < 8 \<Longrightarrow> it_getConsumerSequence io (it_setConsumerSequence io i x k) j
           = (if j = k then x else it_getConsumerSequence io i j)"
    and consumer_flag: "it_getConsumerSequence io (it_setFromConsumerGet io i b) j = it_getConsumerSequence io i j"
    and consumer_dec: "it_getConsumerSequence io (snd (it_decrementCounter io i k)) j = it_getConsumerSequence io i j"

text \<open>The fields of \<open>SupplyItem\<close> that the supply uses, with accessors that keep these laws.\<close>

record supplyItem =
  si_producerSequence :: int
  si_consumerSequences :: "nat \<Rightarrow> int"
  si_counters :: "nat \<Rightarrow> int"
  si_fromConsumerGet :: bool

definition field_item_ops :: "supplyItem item_ops" where
  "field_item_ops =
    \<lparr>it_reset = (\<lambda>i. i\<lparr>si_fromConsumerGet := False, si_counters := (\<lambda>k. 1)\<rparr>),
     it_isFromConsumerGet = si_fromConsumerGet,
     it_setFromConsumerGet = (\<lambda>i b. i\<lparr>si_fromConsumerGet := b\<rparr>),
     it_decrementCounter = (\<lambda>i k. (si_counters i k \<le> 1, i\<lparr>si_counters := (si_counters i)(k := si_counters i k - 1)\<rparr>)),
     it_getProducerSequence = si_producerSequence,
     it_setProducerSequence = (\<lambda>i x. i\<lparr>si_producerSequence := x\<rparr>),
     it_getConsumerSequence = si_consumerSequences,
     it_setConsumerSequence = (\<lambda>i x k. i\<lparr>si_consumerSequences := (si_consumerSequences i)(k := x)\<rparr>)\<rparr>"

interpretation field_item: supply_item field_item_ops
  by unfold_locales (auto simp: field_item_ops_def)

text \<open>
  \<open>waitFor alerted cursor sequence\<close>: the sequence up to which items are published, or
  the alert (\<open>None\<close>).
\<close>

locale barrier =
  fixes waitFor :: "bool \<Rightarrow> int \<Rightarrow> int \<Rightarrow> int option"
  assumes wait_available: "waitFor a c x = Some y \<Longrightarrow> x \<le> y \<and> y \<le> c"
    and wait_alert: "waitFor True c x = None"

section \<open>Releasing in any order\<close>

record release_state =
  lastSequenceReleased :: int
  maxSequence :: int
  between :: u32

definition release_init :: release_state where
  "release_init = \<lparr>lastSequenceReleased = -1, maxSequence = -1, between = 0\<rparr>"

text \<open>The locked section: the new state and the value the gating sequence is set to, if any.\<close>

definition releaseSequence :: "release_state \<Rightarrow> int \<Rightarrow> release_state \<times> int option" where
  "releaseSequence st seq =
    (let st = (if seq > maxSequence st
               then (if maxSequence st > lastSequenceReleased st
                     then st\<lparr>between := between st + 1\<rparr> else st)\<lparr>maxSequence := seq\<rparr>
               else if seq > lastSequenceReleased st
               then st\<lparr>between := between st + 1\<rparr>
               else st)
     in if maxSequence st - lastSequenceReleased st - 1 = uint (between st)
        then (st\<lparr>lastSequenceReleased := maxSequence st, between := 0\<rparr>, Some (maxSequence st))
        else (st, None))"

section \<open>Supplier\<close>

datatype supply_error = PositiveArgsOnly | RingSizeNotPowerOf2 | TooManyConsumers | RingError seq_error

type_synonym 'i item_ring = "('i, single_seq) ring_buffer"

record 'i supplier =
  sp_ringSize :: u32
  sp_ring :: "'i item_ring"
  sp_alerted :: bool
  sp_nextConsumer :: int
  sp_availableConsumer :: int
  sp_orderedRelease :: bool
  sp_release_state :: release_state

text \<open>
  The functions outside the repository that the constructors call: the test and rounding of
  \<open>Util\<close>, \<open>SequenceGroups::addSequences\<close>, and the items the event factory makes.
\<close>

record 'i ring_env =
  env_isPowerOf2 :: "int \<Rightarrow> bool"
  env_ceiling :: "int \<Rightarrow> int"
  env_addSequences :: "int list \<Rightarrow> int \<Rightarrow> int list \<Rightarrow> int list"
  env_minSeq :: "int list \<Rightarrow> int \<Rightarrow> int"
  env_blank :: 'i
  env_factory :: "bool \<Rightarrow> nat \<Rightarrow> 'i"

definition createSingleProducer :: "'i ring_env \<Rightarrow> bool \<Rightarrow> int \<Rightarrow> seq_error + 'i item_ring" where
  "createSingleProducer env ordered bufferSize =
    (case ss_new (env_isPowerOf2 env) bufferSize of
       Inl e \<Rightarrow> Inl e
     | Inr s \<Rightarrow> RingBuffer (env_ceiling env) (single_ops (env_minSeq env)) (env_blank env) (env_factory env ordered) s)"

definition ring_addGatingSequences :: "'i ring_env \<Rightarrow> 'i item_ring \<Rightarrow> int list \<Rightarrow> 'i item_ring" where
  "ring_addGatingSequences env rb gs =
     rb\<lparr>rb_sequencer := ss_addGatingSequences (env_addSequences env) (rb_sequencer rb) gs\<rparr>"

text \<open>The member \<open>ringSize\<close> keeps its initial 0: the parameter of that name hides it.\<close>

definition sp_new :: "'i ring_env \<Rightarrow> int \<Rightarrow> bool \<Rightarrow> supply_error + 'i supplier" where
  "sp_new env ringSize orderedRelease =
    (if ringSize < 1 then Inl PositiveArgsOnly
     else if \<not> env_isPowerOf2 env ringSize then Inl RingSizeNotPowerOf2
     else case createSingleProducer env orderedRelease ringSize of
            Inl e \<Rightarrow> Inl (RingError e)
          | Inr rb \<Rightarrow> Inr
              \<lparr>sp_ringSize = 0, sp_ring = ring_addGatingSequences env rb [InitialCursorValue], sp_alerted = False,
               sp_nextConsumer = InitialCursorValue + 1, sp_availableConsumer = -1,
               sp_orderedRelease = orderedRelease, sp_release_state = release_init\<rparr>)"

definition sp_errorAlert :: "'i supplier \<Rightarrow> 'i supplier" where
  "sp_errorAlert s = s\<lparr>sp_alerted := True\<rparr>"

definition sp_getRingSize :: "'i supplier \<Rightarrow> u32" where
  "sp_getRingSize s = sp_ringSize s"

text \<open>The cursor is never below the minimum, so the quotient is one of natural numbers.\<close>

definition ring_fillLevel :: "(int list \<Rightarrow> int \<Rightarrow> int) \<Rightarrow> 'i item_ring \<Rightarrow> int" where
  "ring_fillLevel minSeq rb =
     100 * (rb_cursor (single_ops minSeq) rb - rb_getMinimumGatingSequence (single_ops minSeq) rb) div rb_bufferSize rb"

definition sp_getFillLevel :: "(int list \<Rightarrow> int \<Rightarrow> int) \<Rightarrow> 'i supplier \<Rightarrow> int" where
  "sp_getFillLevel minSeq s = ring_fillLevel minSeq (sp_ring s)"

definition sp_getLastSequence :: "(int list \<Rightarrow> int \<Rightarrow> int) \<Rightarrow> 'i supplier \<Rightarrow> int" where
  "sp_getLastSequence minSeq s = rb_cursor (single_ops minSeq) (sp_ring s)"

subsection \<open>The producer\<close>

text \<open>What \<open>get\<close> and \<open>getAsIs\<close> do with the item of a claimed sequence.\<close>

definition prepare_reset :: "'i item_ops \<Rightarrow> int \<Rightarrow> 'i item_ring \<Rightarrow> 'i item_ring" where
  "prepare_reset io x rb = rb_put rb x (it_setProducerSequence io (it_reset io (rb_get rb x)) x)"

definition prepare_asIs :: "'i item_ops \<Rightarrow> int \<Rightarrow> 'i item_ring \<Rightarrow> 'i item_ring" where
  "prepare_asIs io x rb = rb_put rb x (it_setProducerSequence io (it_setFromConsumerGet io (rb_get rb x) False) x)"

definition ring_get ::
  "(int list \<Rightarrow> int \<Rightarrow> int) \<Rightarrow> (int \<Rightarrow> 'i item_ring \<Rightarrow> 'i item_ring) \<Rightarrow> int list list \<Rightarrow> int \<Rightarrow> 'i item_ring
    \<Rightarrow> 'i item_ring claim" where
  "ring_get minSeq prepare reads n rb =
    (case rb_next (single_ops minSeq) reads rb n of
       Claimed hi rb \<Rightarrow> Claimed hi (let lo = hi - (n - 1) in fold prepare [lo..hi] rb)
     | r \<Rightarrow> r)"

definition map_claim :: "('a \<Rightarrow> 'b) \<Rightarrow> 'a claim \<Rightarrow> 'b claim" where
  "map_claim f c = (case c of Claimed x a \<Rightarrow> Claimed x (f a) | Waiting a \<Rightarrow> Waiting (f a) | Rejected e \<Rightarrow> Rejected e)"

definition sp_get_n ::
  "(int list \<Rightarrow> int \<Rightarrow> int) \<Rightarrow> 'i item_ops \<Rightarrow> int list list \<Rightarrow> 'i supplier \<Rightarrow> int \<Rightarrow> 'i supplier claim" where
  "sp_get_n minSeq io reads s n =
     map_claim (\<lambda>rb. s\<lparr>sp_ring := rb\<rparr>) (ring_get minSeq (prepare_reset io) reads n (sp_ring s))"

definition sp_get ::
  "(int list \<Rightarrow> int \<Rightarrow> int) \<Rightarrow> 'i item_ops \<Rightarrow> int list list \<Rightarrow> 'i supplier \<Rightarrow> 'i supplier claim" where
  "sp_get minSeq io reads s =
     map_claim (\<lambda>rb. s\<lparr>sp_ring := rb\<rparr>) (ring_get minSeq (prepare_reset io) reads 1 (sp_ring s))"

definition sp_getAsIs_n ::
  "(int list \<Rightarrow> int \<Rightarrow> int) \<Rightarrow> 'i item_ops \<Rightarrow> int list list \<Rightarrow> 'i supplier \<Rightarrow> int \<Rightarrow> 'i supplier claim" where
  "sp_getAsIs_n minSeq io reads s n =
     map_claim (\<lambda>rb. s\<lparr>sp_ring := rb\<rparr>) (ring_get minSeq (prepare_asIs io) reads n (sp_ring s))"

definition sp_getAsIs ::
  "(int list \<Rightarrow> int \<Rightarrow> int) \<Rightarrow> 'i item_ops \<Rightarrow> int list list \<Rightarrow> 'i supplier \<Rightarrow> 'i supplier claim" where
  "sp_getAsIs minSeq io reads s =
     map_claim (\<lambda>rb. s\<lparr>sp_ring := rb\<rparr>) (ring_get minSeq (prepare_asIs io) reads 1 (sp_ring s))"

text \<open>\<open>publish\<close> takes the pointer to an item, a slot or null, or an array of them.\<close>

definition item_at :: "'i item_ring \<Rightarrow> nat \<Rightarrow> 'i" where
  "item_at rb slot = rb_entries rb ! slot"

definition ring_publish ::
  "(int list \<Rightarrow> int \<Rightarrow> int) \<Rightarrow> 'i item_ops \<Rightarrow> nat option \<Rightarrow> 'i item_ring \<Rightarrow> 'i item_ring" where
  "ring_publish minSeq io item rb =
    (case item of None \<Rightarrow> rb
     | Some i \<Rightarrow> rb_publish (single_ops minSeq) rb (it_getProducerSequence io (item_at rb i)))"

definition ring_publish_n ::
  "(int list \<Rightarrow> int \<Rightarrow> int) \<Rightarrow> 'i item_ops \<Rightarrow> int \<Rightarrow> nat list option \<Rightarrow> 'i item_ring \<Rightarrow> 'i item_ring" where
  "ring_publish_n minSeq io n items rb =
    (case items of None \<Rightarrow> rb
     | Some is \<Rightarrow>
        if n < 1 then rb
        else rb_publish_range (single_ops minSeq) rb
               (it_getProducerSequence io (item_at rb (is ! 0)))
               (it_getProducerSequence io (item_at rb (is ! nat (n - 1)))))"

definition sp_publish ::
  "(int list \<Rightarrow> int \<Rightarrow> int) \<Rightarrow> 'i item_ops \<Rightarrow> 'i supplier \<Rightarrow> nat option \<Rightarrow> 'i supplier" where
  "sp_publish minSeq io s item = s\<lparr>sp_ring := ring_publish minSeq io item (sp_ring s)\<rparr>"

definition sp_publish_n ::
  "(int list \<Rightarrow> int \<Rightarrow> int) \<Rightarrow> 'i item_ops \<Rightarrow> 'i supplier \<Rightarrow> int \<Rightarrow> nat list option \<Rightarrow> 'i supplier" where
  "sp_publish_n minSeq io s n items = s\<lparr>sp_ring := ring_publish_n minSeq io n items (sp_ring s)\<rparr>"

subsection \<open>The consumer\<close>

definition ring_deliver :: "'i item_ops \<Rightarrow> int \<Rightarrow> nat \<Rightarrow> 'i item_ring \<Rightarrow> 'i item_ring" where
  "ring_deliver io x k rb =
     rb_put rb x (it_setFromConsumerGet io (it_setConsumerSequence io (rb_get rb x) x k) True)"

definition sp_consumerGet ::
  "(bool \<Rightarrow> int \<Rightarrow> int \<Rightarrow> int option) \<Rightarrow> 'i item_ops \<Rightarrow> 'i supplier \<Rightarrow> nat option \<times> 'i supplier" where
  "sp_consumerGet waitFor io s =
    (let deliver = (\<lambda>s. (Some (rb_index (sp_ring s) (sp_nextConsumer s)),
           s\<lparr>sp_ring := ring_deliver io (sp_nextConsumer s) 0 (sp_ring s), sp_nextConsumer := sp_nextConsumer s + 1\<rparr>))
     in if sp_availableConsumer s < sp_nextConsumer s
        then (case waitFor (sp_alerted s) (ss_cursor (rb_sequencer (sp_ring s))) (sp_nextConsumer s) of
                None \<Rightarrow> (None, s)
              | Some a \<Rightarrow> deliver (s\<lparr>sp_availableConsumer := a\<rparr>))
        else deliver s)"

definition ring_setGate :: "nat \<Rightarrow> int \<Rightarrow> 'i item_ring \<Rightarrow> 'i item_ring" where
  "ring_setGate k v rb =
     rb\<lparr>rb_sequencer := (rb_sequencer rb)\<lparr>ss_gating := (ss_gating (rb_sequencer rb))[k := v]\<rparr>\<rparr>"

definition sequence_of :: "'i item_ops \<Rightarrow> 'i \<Rightarrow> nat \<Rightarrow> int" where
  "sequence_of io item k =
    (if it_isFromConsumerGet io item then it_getConsumerSequence io item k else it_getProducerSequence io item)"

definition ring_setItem :: "nat \<Rightarrow> 'i \<Rightarrow> 'i item_ring \<Rightarrow> 'i item_ring" where
  "ring_setItem slot item rb = rb\<lparr>rb_entries := (rb_entries rb)[slot := item]\<rparr>"

definition sp_release :: "'i item_ops \<Rightarrow> 'i supplier \<Rightarrow> nat option \<Rightarrow> 'i supplier" where
  "sp_release io s item =
    (case item of
       None \<Rightarrow> s
     | Some i \<Rightarrow>
        let it = item_at (sp_ring s) i;
            seq = sequence_of io it 0;
            (none_left, it') = it_decrementCounter io it 0;
            s = s\<lparr>sp_ring := ring_setItem i it' (sp_ring s)\<rparr>
        in if \<not> none_left then s
           else if sp_orderedRelease s then s\<lparr>sp_ring := ring_setGate 0 seq (sp_ring s)\<rparr>
           else (case releaseSequence (sp_release_state s) seq of
                   (st, None) \<Rightarrow> s\<lparr>sp_release_state := st\<rparr>
                 | (st, Some v) \<Rightarrow> s\<lparr>sp_release_state := st, sp_ring := ring_setGate 0 v (sp_ring s)\<rparr>))"

section \<open>The counting of out-of-order releases\<close>

text \<open>
  \<open>A\<close> is the set of sequences released but not yet passed on: the state holds its greatest
  element and how many others it has.
\<close>

definition rs_inv :: "release_state \<Rightarrow> int set \<Rightarrow> bool" where
  "rs_inv st A \<longleftrightarrow> finite A \<and> (\<forall>a \<in> A. lastSequenceReleased st < a)
     \<and> (if A = {} then maxSequence st = lastSequenceReleased st \<and> between st = 0
        else maxSequence st = Max A \<and> unat (between st) = card A - 1)"

lemma rs_inv_init: "rs_inv release_init {}"
  by (simp add: rs_inv_def release_init_def)

lemma interval_by_card:
  fixes l :: int
  assumes "finite A" "A \<noteq> {}" "\<forall>a \<in> A. l < a"
  shows "Max A - l = int (card A) \<longleftrightarrow> A = {l<..Max A}"
proof
  have sub: "A \<subseteq> {l<..Max A}" using assms by auto
  assume "Max A - l = int (card A)"
  then have "card A = card {l<..Max A}" by simp
  then show "A = {l<..Max A}" using card_subset_eq [OF _ sub] by simp
next
  assume A: "A = {l<..Max A}"
  have "l \<le> Max A" using assms by (meson Max_in less_imp_le)
  then show "Max A - l = int (card A)" using A by (metis card_greaterThanAtMost_int diff_ge_0_iff_ge int_nat_eq)
qed

lemma unat_inc: "unat (w :: u32) + 1 < 2 ^ 32 \<Longrightarrow> unat (w + 1) = unat w + 1"
  by (simp add: unat_word_ariths)

text \<open>The counter of the state after a release that is not passed on at once.\<close>

definition rs_count :: "release_state \<Rightarrow> int \<Rightarrow> release_state" where
  "rs_count st seq =
    (if seq > maxSequence st
     then (if maxSequence st > lastSequenceReleased st
           then st\<lparr>between := between st + 1\<rparr> else st)\<lparr>maxSequence := seq\<rparr>
     else if seq > lastSequenceReleased st
     then st\<lparr>between := between st + 1\<rparr>
     else st)"

lemma releaseSequence_count:
  "releaseSequence st seq =
    (let st = rs_count st seq
     in if maxSequence st - lastSequenceReleased st - 1 = uint (between st)
        then (st\<lparr>lastSequenceReleased := maxSequence st, between := 0\<rparr>, Some (maxSequence st))
        else (st, None))"
  by (simp add: releaseSequence_def rs_count_def)

lemma rs_count_inv:
  assumes inv: "rs_inv st A" and x: "lastSequenceReleased st < x" "x \<notin> A" and small: "card A + 1 < 2 ^ 32"
  shows "rs_inv (rs_count st x) (insert x A) \<and> lastSequenceReleased (rs_count st x) = lastSequenceReleased st"
proof (cases "A = {}")
  case True
  then show ?thesis using inv x by (simp add: rs_inv_def rs_count_def)
next
  case False
  then have A: "finite A" "maxSequence st = Max A" "unat (between st) = card A - 1" "0 < card A"
    "Max A \<in> A" "lastSequenceReleased st < Max A"
    using inv by (auto simp: rs_inv_def card_gt_0_iff)
  have up: "unat (between st + 1) = card A" using unat_inc [of "between st"] A small by simp
  have "max x (Max A) = (if x > Max A then x else Max A)" by simp
  then show ?thesis using inv A False x up by (auto simp: rs_inv_def rs_count_def Max_insert)
qed

text \<open>
  A release either completes a run from the last passed on, and then all of it is passed
  on, or is counted.
\<close>

lemma releaseSequence_inv:
  assumes inv: "rs_inv st A" and x: "lastSequenceReleased st < x" "x \<notin> A" and small: "card A + 1 < 2 ^ 32"
    and run: "releaseSequence st x = (st', v)"
  shows "(v = Some (Max (insert x A)) \<and> insert x A = {lastSequenceReleased st<..Max (insert x A)}
       \<and> lastSequenceReleased st' = Max (insert x A) \<and> rs_inv st' {})
    \<or> (v = None \<and> insert x A \<noteq> {lastSequenceReleased st<..Max (insert x A)}
       \<and> lastSequenceReleased st' = lastSequenceReleased st \<and> rs_inv st' (insert x A))"
proof -
  let ?A = "insert x A" and ?c = "rs_count st x"
  have c: "rs_inv ?c ?A" "lastSequenceReleased ?c = lastSequenceReleased st"
    using rs_count_inv [OF inv x small] by simp_all
  then have A: "finite ?A" "maxSequence ?c = Max ?A" "unat (between ?c) = card ?A - 1"
    by (auto simp: rs_inv_def)
  then have pos: "0 < card ?A" by (simp add: card_gt_0_iff)
  have "uint (between ?c) = int (card ?A) - 1"
    using A pos by (simp add: uint_nat of_nat_diff)
  then have "maxSequence ?c - lastSequenceReleased ?c - 1 = uint (between ?c) \<longleftrightarrow> ?A = {lastSequenceReleased st<..Max ?A}"
    using interval_by_card [of ?A "lastSequenceReleased st"] A c by (auto simp: rs_inv_def)
  then show ?thesis
    using run c A by (auto simp: releaseSequence_count Let_def rs_inv_def split: if_splits)
qed

fun releaseAll :: "int list \<Rightarrow> release_state \<Rightarrow> release_state" where
  "releaseAll [] st = st"
| "releaseAll (x # xs) st = releaseAll xs (fst (releaseSequence st x))"

lemma releaseAll_inv:
  assumes "rs_inv st A" and "A = {} \<or> A \<noteq> {lastSequenceReleased st<..Max A}" and "-1 \<le> lastSequenceReleased st"
    and "distinct xs" and "\<forall>x \<in> set xs. 0 \<le> x \<and> x \<notin> {0..lastSequenceReleased st} \<union> A"
    and "card A + length xs < 2 ^ 32"
  shows "\<exists>A'. rs_inv (releaseAll xs st) A'
      \<and> (A' = {} \<or> A' \<noteq> {lastSequenceReleased (releaseAll xs st)<..Max A'})
      \<and> -1 \<le> lastSequenceReleased (releaseAll xs st)
      \<and> {0..lastSequenceReleased (releaseAll xs st)} \<union> A' = {0..lastSequenceReleased st} \<union> A \<union> set xs"
  using assms
proof (induction xs arbitrary: st A)
  case Nil
  then show ?case by auto
next
  case (Cons x xs)
  obtain st' v where run: "releaseSequence st x = (st', v)" by fastforce
  have x: "lastSequenceReleased st < x" "x \<notin> A" "card A + 1 < 2 ^ 32" using Cons.prems(5,6) by auto
  have A: "finite A" "\<forall>a \<in> A. lastSequenceReleased st < a" using Cons.prems(1) by (auto simp: rs_inv_def)
  then have card: "card (insert x A) = card A + 1" using x by simp
  from releaseSequence_inv [OF Cons.prems(1) x run] show ?case
  proof (elim disjE conjE)
    assume v: "insert x A = {lastSequenceReleased st<..Max (insert x A)}"
      "lastSequenceReleased st' = Max (insert x A)" "rs_inv st' {}"
    have grows: "lastSequenceReleased st < Max (insert x A)" using x A by (meson Max_ge finite_insert insertI1 less_le_trans)
    then have eq: "{0..lastSequenceReleased st'} = {0..lastSequenceReleased st} \<union> insert x A"
      unfolding v(2) by (subst (2) v(1)) (use Cons.prems(3) in auto)
    have low: "-1 \<le> lastSequenceReleased st'" using v(2) Cons.prems(3) grows by simp
    have fresh: "\<forall>y \<in> set xs. 0 \<le> y \<and> y \<notin> {0..lastSequenceReleased st'} \<union> {}"
      unfolding eq using Cons.prems(4,5) by auto
    have union: "{0..lastSequenceReleased st'} \<union> {} \<union> set xs = {0..lastSequenceReleased st} \<union> A \<union> set (x # xs)"
      unfolding eq by auto
    have "\<exists>A'. rs_inv (releaseAll xs st') A'
      \<and> (A' = {} \<or> A' \<noteq> {lastSequenceReleased (releaseAll xs st')<..Max A'})
      \<and> -1 \<le> lastSequenceReleased (releaseAll xs st')
      \<and> {0..lastSequenceReleased (releaseAll xs st')} \<union> A' = {0..lastSequenceReleased st'} \<union> {} \<union> set xs"
      using v(3) low fresh Cons.prems(4,6) by (intro Cons.IH) simp_all
    then show ?thesis using run unfolding union by simp
  next
    assume v: "insert x A \<noteq> {lastSequenceReleased st<..Max (insert x A)}"
      "lastSequenceReleased st' = lastSequenceReleased st" "rs_inv st' (insert x A)"
    then show ?thesis
      using Cons.IH [of st' "insert x A"] Cons.prems run card by auto
  qed
qed

text \<open>
  C25: whatever the order in which distinct items are released, the supply passes on to the
  producer only sequences that have been released together with all lower ones, and as soon
  as what has been released has no gap, all of it has been passed on.
\<close>

theorem release_any_order:
  assumes "distinct xs" and "\<forall>x \<in> set xs. 0 \<le> x" and "length xs < 2 ^ 32"
  shows "{0..lastSequenceReleased (releaseAll xs release_init)} \<subseteq> set xs
    \<and> (\<forall>m \<ge> -1. set xs = {0..m} \<longrightarrow> lastSequenceReleased (releaseAll xs release_init) = m)"
proof -
  let ?st = "releaseAll xs release_init"
  have "lastSequenceReleased release_init = -1" by (simp add: release_init_def)
  then obtain A where A: "rs_inv ?st A" "A = {} \<or> A \<noteq> {lastSequenceReleased ?st<..Max A}"
      "-1 \<le> lastSequenceReleased ?st" "{0..lastSequenceReleased ?st} \<union> A = set xs"
    using releaseAll_inv [OF rs_inv_init, of xs] assms by auto
  have "lastSequenceReleased ?st = m" if m: "-1 \<le> m" "set xs = {0..m}" for m
  proof (cases "A = {}")
    case True
    then show ?thesis using A(3,4) m by (cases "m = -1") (auto simp: Icc_eq_Icc)
  next
    case False
    have fin: "finite A" "\<forall>a \<in> A. lastSequenceReleased ?st < a" using A(1) by (auto simp: rs_inv_def)
    then have "Max A \<in> A" "\<forall>a \<in> A. a \<le> Max A" using False by auto
    then have "A = {lastSequenceReleased ?st<..Max A}"
      using A(3,4) m(2) fin(2) by (auto simp: set_eq_iff) (smt (verit) atLeastAtMost_iff UnE)+
    then show ?thesis using A(2) False by blast
  qed
  then show ?thesis using A(4) by blast
qed

theorem release_any_order_witness:
  "lastSequenceReleased (releaseAll [2, 0, 3, 1] release_init) = 3"
proof -
  have "set [2, 0, 3, 1] = {0..3 :: int}" by auto
  then show ?thesis using release_any_order [of "[2, 0, 3, 1]"] by auto
qed

section \<open>A waiting producer\<close>

lemma ss_spin_cursor: "ss_spin minSeq w nv reads s = (None, s') \<Longrightarrow> ss_cursor s' = ss_cursor s"
  by (induction reads arbitrary: s) (fastforce simp: Let_def split: if_splits)+

text \<open>
  A call of \<open>get\<close> that has to wait moves the cursor to the last sequence claimed: every
  item taken so far becomes available to the consumer, published or not.
\<close>

theorem waiting_get_publishes:
  assumes "sp_get minSeq io reads s = Waiting s'"
  shows "sp_getLastSequence minSeq s' = ss_nextValue (rb_sequencer (sp_ring s))
    \<and> (\<forall>x \<le> ss_nextValue (rb_sequencer (sp_ring s)). rb_isPublished (single_ops minSeq) (sp_ring s') x)"
proof -
  let ?q = "rb_sequencer (sp_ring s)"
  obtain q' where q': "ss_next minSeq reads ?q 1 = Waiting q'" "rb_sequencer (sp_ring s') = q'"
    using assms by (auto simp: sp_get_def map_claim_def ring_get_def rb_next_def single_ops_def split: claim.splits)
  then obtain w where "ss_spin minSeq w (ss_nextValue ?q) reads (?q\<lparr>ss_cursor := ss_nextValue ?q\<rparr>) = (None, q')"
    by (auto simp: ss_next_def Let_def split: if_splits prod.splits option.splits)
  then have "ss_cursor q' = ss_nextValue ?q" using ss_spin_cursor by fastforce
  then show ?thesis
    using q'(2) by (simp add: sp_getLastSequence_def rb_cursor_def rb_isPublished_def single_ops_def ss_isAvailable_def)
qed

text \<open>Two items taken from a ring of two, none of them published.\<close>

definition example_supplier :: "supplyItem supplier" where
  "example_supplier =
    \<lparr>sp_ringSize = 0,
     sp_ring = \<lparr>rb_entries = replicate 34 \<lparr>si_producerSequence = 0, si_consumerSequences = (\<lambda>_. 0),
                  si_counters = (\<lambda>_. 1), si_fromConsumerGet = False\<rparr>,
                rb_indexMask = 1, rb_bufferSize = 2,
                rb_sequencer = \<lparr>ss_nextValue = 1, ss_cachedValue = -1, ss_cursor = -1, ss_gating = [-1],
                                 ss_bufferSize = 2\<rparr>\<rparr>,
     sp_alerted = False, sp_nextConsumer = 0, sp_availableConsumer = -1, sp_orderedRelease = False,
     sp_release_state = release_init\<rparr>"

theorem waiting_get_publishes_witness:
  "sp_getLastSequence fold_min example_supplier = -1
   \<and> (\<exists>s'. sp_get fold_min field_item_ops [[-1]] example_supplier = Waiting s' \<and> sp_getLastSequence fold_min s' = 1)"
proof -
  have "sp_getLastSequence fold_min example_supplier = -1"
    by (simp add: sp_getLastSequence_def rb_cursor_def single_ops_def example_supplier_def)
  moreover have "\<exists>s'. sp_get fold_min field_item_ops [[-1]] example_supplier = Waiting s'"
    by (simp add: sp_get_def map_claim_def ring_get_def rb_next_def single_ops_def ss_next_def fold_min_def
        example_supplier_def Let_def)
  ultimately show ?thesis
    using waiting_get_publishes [of fold_min field_item_ops "[[-1]]" example_supplier]
    by (auto simp: example_supplier_def)
qed

end
