(* ===== verification/Supplier_N.thy ===== *)
theory Supplier_N
  imports Supplier
begin

text \<open>
  \<open>SupplierN.h\<close>: the supply with up to eight consumers, each with its own gating sequence,
  its own position and its own record of releases. The safety of the supply is proved here
  over all interleavings of its operations; \<open>Supplier\<close> is shown to be the case of one consumer.
\<close>

section \<open>State and construction\<close>

record 'i supplierN =
  sn_ringSize :: u32
  sn_consumerCount :: u32
  sn_ring :: "'i item_ring"
  sn_alerted :: bool
  sn_nextConsumer :: "int list"
  sn_availableConsumer :: "int list"
  sn_orderedRelease :: bool
  sn_release_states :: "release_state list"

definition sn_new :: "'i ring_env \<Rightarrow> u32 \<Rightarrow> bool \<Rightarrow> u32 \<Rightarrow> supply_error + 'i supplierN" where
  "sn_new env ringSize orderedRelease consumerCount =
    (if consumerCount > 8 then Inl TooManyConsumers
     else if ringSize < 1 \<or> consumerCount < 1 then Inl PositiveArgsOnly
     else if \<not> env_isPowerOf2 env (sint ringSize) then Inl RingSizeNotPowerOf2
     else case createSingleProducer env orderedRelease (sint ringSize) of
            Inl e \<Rightarrow> Inl (RingError e)
          | Inr rb \<Rightarrow>
              let n = unat consumerCount in Inr
              \<lparr>sn_ringSize = ringSize, sn_consumerCount = consumerCount,
               sn_ring = ring_addGatingSequences env rb (replicate n InitialCursorValue), sn_alerted = False,
               sn_nextConsumer = replicate n (InitialCursorValue + 1), sn_availableConsumer = replicate n (-1),
               sn_orderedRelease = orderedRelease, sn_release_states = replicate n release_init\<rparr>)"

definition sn_errorAlert :: "'i supplierN \<Rightarrow> 'i supplierN" where
  "sn_errorAlert s = s\<lparr>sn_alerted := True\<rparr>"

definition sn_getRingSize :: "'i supplierN \<Rightarrow> u32" where
  "sn_getRingSize s = sn_ringSize s"

definition sn_getFillLevel :: "(int list \<Rightarrow> int \<Rightarrow> int) \<Rightarrow> 'i supplierN \<Rightarrow> int" where
  "sn_getFillLevel minSeq s = ring_fillLevel minSeq (sn_ring s)"

definition sn_getLastSequence :: "(int list \<Rightarrow> int \<Rightarrow> int) \<Rightarrow> 'i supplierN \<Rightarrow> int" where
  "sn_getLastSequence minSeq s = rb_cursor (single_ops minSeq) (sn_ring s)"

section \<open>Operations\<close>

definition sn_get ::
  "(int list \<Rightarrow> int \<Rightarrow> int) \<Rightarrow> 'i item_ops \<Rightarrow> int list list \<Rightarrow> 'i supplierN \<Rightarrow> 'i supplierN claim" where
  "sn_get minSeq io reads s =
     map_claim (\<lambda>rb. s\<lparr>sn_ring := rb\<rparr>) (ring_get minSeq (prepare_reset io) reads 1 (sn_ring s))"

definition sn_get_n ::
  "(int list \<Rightarrow> int \<Rightarrow> int) \<Rightarrow> 'i item_ops \<Rightarrow> int list list \<Rightarrow> 'i supplierN \<Rightarrow> int \<Rightarrow> 'i supplierN claim" where
  "sn_get_n minSeq io reads s n =
     map_claim (\<lambda>rb. s\<lparr>sn_ring := rb\<rparr>) (ring_get minSeq (prepare_reset io) reads n (sn_ring s))"

definition sn_getAsIs ::
  "(int list \<Rightarrow> int \<Rightarrow> int) \<Rightarrow> 'i item_ops \<Rightarrow> int list list \<Rightarrow> 'i supplierN \<Rightarrow> 'i supplierN claim" where
  "sn_getAsIs minSeq io reads s =
     map_claim (\<lambda>rb. s\<lparr>sn_ring := rb\<rparr>) (ring_get minSeq (prepare_asIs io) reads 1 (sn_ring s))"

definition sn_publish ::
  "(int list \<Rightarrow> int \<Rightarrow> int) \<Rightarrow> 'i item_ops \<Rightarrow> 'i supplierN \<Rightarrow> nat option \<Rightarrow> 'i supplierN" where
  "sn_publish minSeq io s item = s\<lparr>sn_ring := ring_publish minSeq io item (sn_ring s)\<rparr>"

definition sn_publish_n ::
  "(int list \<Rightarrow> int \<Rightarrow> int) \<Rightarrow> 'i item_ops \<Rightarrow> 'i supplierN \<Rightarrow> int \<Rightarrow> nat list option \<Rightarrow> 'i supplierN" where
  "sn_publish_n minSeq io s n items = s\<lparr>sn_ring := ring_publish_n minSeq io n items (sn_ring s)\<rparr>"

definition sn_consumerGet ::
  "(bool \<Rightarrow> int \<Rightarrow> int \<Rightarrow> int option) \<Rightarrow> 'i item_ops \<Rightarrow> 'i supplierN \<Rightarrow> u32
    \<Rightarrow> supply_error + (nat option \<times> 'i supplierN)" where
  "sn_consumerGet waitFor io s cid =
    (if cid > sn_consumerCount s - 1 then Inl TooManyConsumers
     else
      let k = unat cid;
          next = sn_nextConsumer s ! k;
          deliver = (\<lambda>s. (Some (rb_index (sn_ring s) next),
            s\<lparr>sn_ring := ring_deliver io next k (sn_ring s),
              sn_nextConsumer := (sn_nextConsumer s)[k := next + 1]\<rparr>))
      in Inr (if sn_availableConsumer s ! k < next
              then (case waitFor (sn_alerted s) (ss_cursor (rb_sequencer (sn_ring s))) next of
                      None \<Rightarrow> (None, s)
                    | Some a \<Rightarrow> deliver (s\<lparr>sn_availableConsumer := (sn_availableConsumer s)[k := a]\<rparr>))
              else deliver s))"

definition sn_release :: "'i item_ops \<Rightarrow> 'i supplierN \<Rightarrow> nat option \<Rightarrow> u32 \<Rightarrow> supply_error + 'i supplierN" where
  "sn_release io s item cid =
    (if cid > sn_consumerCount s - 1 then Inl TooManyConsumers
     else case item of
       None \<Rightarrow> Inr s
     | Some i \<Rightarrow>
        let k = unat cid;
            it = item_at (sn_ring s) i;
            seq = sequence_of io it k;
            (none_left, it') = it_decrementCounter io it k;
            s = s\<lparr>sn_ring := ring_setItem i it' (sn_ring s)\<rparr>
        in Inr
          (if \<not> none_left then s
           else if sn_orderedRelease s then s\<lparr>sn_ring := ring_setGate k seq (sn_ring s)\<rparr>
           else (case releaseSequence (sn_release_states s ! k) seq of
                   (st, None) \<Rightarrow> s\<lparr>sn_release_states := (sn_release_states s)[k := st]\<rparr>
                 | (st, Some v) \<Rightarrow> s\<lparr>sn_release_states := (sn_release_states s)[k := st],
                                     sn_ring := ring_setGate k v (sn_ring s)\<rparr>)))"

section \<open>One consumer\<close>

definition as_n :: "u32 \<Rightarrow> 'i supplier \<Rightarrow> 'i supplierN" where
  "as_n r s =
    \<lparr>sn_ringSize = r, sn_consumerCount = 1, sn_ring = sp_ring s, sn_alerted = sp_alerted s,
     sn_nextConsumer = [sp_nextConsumer s], sn_availableConsumer = [sp_availableConsumer s],
     sn_orderedRelease = sp_orderedRelease s, sn_release_states = [sp_release_state s]\<rparr>"

lemma map_claim_comp: "map_claim f (map_claim g c) = map_claim (f \<circ> g) c"
  by (cases c) (simp_all add: map_claim_def)

lemma as_n_take:
  "map_claim (as_n r) (sp_get minSeq io reads s) = sn_get minSeq io reads (as_n r s)"
  "map_claim (as_n r) (sp_get_n minSeq io reads s n) = sn_get_n minSeq io reads (as_n r s) n"
  "map_claim (as_n r) (sp_getAsIs minSeq io reads s) = sn_getAsIs minSeq io reads (as_n r s)"
  by (simp_all add: sp_get_def sn_get_def sp_get_n_def sn_get_n_def sp_getAsIs_def sn_getAsIs_def
      map_claim_comp as_n_def comp_def)

lemma as_n_consumerGet:
  "sn_consumerGet waitFor io (as_n r s) 0 = Inr (apsnd (as_n r) (sp_consumerGet waitFor io s))"
  by (simp add: sn_consumerGet_def sp_consumerGet_def as_n_def Let_def split: option.split)

lemma as_n_release: "sn_release io (as_n r s) item 0 = Inr (as_n r (sp_release io s item))"
  by (simp add: sn_release_def sp_release_def as_n_def Let_def split: option.split prod.split)

lemma as_n_publish:
  "sn_publish minSeq io (as_n r s) item = as_n r (sp_publish minSeq io s item)"
  "sn_publish_n minSeq io (as_n r s) n items = as_n r (sp_publish_n minSeq io s n items)"
  by (simp_all add: sn_publish_def sp_publish_def sn_publish_n_def sp_publish_n_def as_n_def)

section \<open>The supply in operation\<close>

text \<open>
  Beside the supply, \<open>held k\<close> is the set of sequences whose items consumer \<open>k\<close> has not
  released. The producer takes items (a call that waits is repeated, reading the gating
  sequences as they are at that moment) and publishes them; a consumer takes the next item
  and releases items it may release: ones it has not released before, after it has taken
  them when some consumer has taken them, and in order if it has promised to.
\<close>

type_synonym 'i supply_system = "'i supplierN \<times> (nat \<Rightarrow> int set)"

definition sn_produced :: "'i supplierN \<Rightarrow> int" where
  "sn_produced s = ss_nextValue (rb_sequencer (sn_ring s))"

definition sn_gates :: "'i supplierN \<Rightarrow> int list" where
  "sn_gates s = ss_gating (rb_sequencer (sn_ring s))"

definition may_release :: "'i item_ops \<Rightarrow> 'i supplierN \<Rightarrow> int set \<Rightarrow> nat \<Rightarrow> int \<Rightarrow> bool" where
  "may_release io s H k x \<longleftrightarrow> x \<in> H
     \<and> (it_isFromConsumerGet io (rb_get (sn_ring s) x) \<longrightarrow> x < sn_nextConsumer s ! k)
     \<and> (sn_orderedRelease s \<longrightarrow> (\<forall>y \<in> H. x \<le> y))"

inductive sn_step ::
  "(int list \<Rightarrow> int \<Rightarrow> int) \<Rightarrow> 'i item_ops \<Rightarrow> (bool \<Rightarrow> int \<Rightarrow> int \<Rightarrow> int option)
    \<Rightarrow> 'i supply_system \<Rightarrow> 'i supply_system \<Rightarrow> bool" for minSeq io waitFor where
  Get: "set reads \<subseteq> {sn_gates s} \<Longrightarrow> sn_get_n minSeq io reads s n = Claimed hi s' \<Longrightarrow>
    sn_step minSeq io waitFor (s, held) (s', \<lambda>k. held k \<union> {sn_produced s<..hi})"
| GetAsIs: "set reads \<subseteq> {sn_gates s} \<Longrightarrow> sn_getAsIs minSeq io reads s = Claimed hi s' \<Longrightarrow>
    sn_step minSeq io waitFor (s, held) (s', \<lambda>k. held k \<union> {sn_produced s<..hi})"
| Wait: "set reads \<subseteq> {sn_gates s} \<Longrightarrow> sn_get_n minSeq io reads s n = Waiting s' \<Longrightarrow>
    sn_step minSeq io waitFor (s, held) (s', held)"
| Publish: "k < unat (sn_consumerCount s) \<Longrightarrow> x \<in> held k \<Longrightarrow>
    sn_step minSeq io waitFor (s, held) (sn_publish minSeq io s (Some (rb_index (sn_ring s) x)), held)"
| ConsumerGet: "sn_consumerGet waitFor io s cid = Inr (r, s') \<Longrightarrow>
    sn_nextConsumer s ! unat cid \<in> held (unat cid) \<Longrightarrow> sn_step minSeq io waitFor (s, held) (s', held)"
| Release: "sn_release io s (Some (rb_index (sn_ring s) x)) cid = Inr s' \<Longrightarrow>
    may_release io s (held (unat cid)) (unat cid) x \<Longrightarrow>
    sn_step minSeq io waitFor (s, held)
      (s', if fst (it_decrementCounter io (rb_get (sn_ring s) x) (unat cid))
           then held(unat cid := held (unat cid) - {x}) else held)"
| Alert: "sn_step minSeq io waitFor (s, held) (sn_errorAlert s, held)"

text \<open>What holds of the ring and of every consumer's part of the state.\<close>

definition ring_inv :: "'i item_ring \<Rightarrow> bool" where
  "ring_inv rb \<longleftrightarrow> rb_wf rb \<and> ss_inv (rb_sequencer rb) \<and> ss_bufferSize (rb_sequencer rb) = rb_bufferSize rb"

definition gate_inv :: "bool \<Rightarrow> int \<Rightarrow> int \<Rightarrow> release_state \<Rightarrow> int set \<Rightarrow> bool" where
  "gate_inv ordered nv g st H \<longleftrightarrow> (\<forall>x \<in> H. g < x \<and> x \<le> nv)
     \<and> (ordered \<or> lastSequenceReleased st = g \<and> rs_inv st ({g<..nv} - H))"

definition item_inv :: "'i item_ops \<Rightarrow> nat \<Rightarrow> int \<Rightarrow> (int \<Rightarrow> 'i) \<Rightarrow> int set \<Rightarrow> bool" where
  "item_inv io k nx entry H \<longleftrightarrow> (\<forall>x \<in> H. it_getProducerSequence io (entry x) = x
     \<and> (x < nx \<longrightarrow> it_getConsumerSequence io (entry x) k = x))"

definition sn_inv :: "'i item_ops \<Rightarrow> 'i supply_system \<Rightarrow> bool" where
  "sn_inv io p = (case p of (s, held) \<Rightarrow>
     ring_inv (sn_ring s) \<and> 1 \<le> sn_consumerCount s \<and> sn_consumerCount s \<le> 8
     \<and> length (sn_gates s) = unat (sn_consumerCount s)
     \<and> length (sn_nextConsumer s) = unat (sn_consumerCount s)
     \<and> length (sn_release_states s) = unat (sn_consumerCount s)
     \<and> (\<forall>k < unat (sn_consumerCount s).
          sn_nextConsumer s ! k \<le> sn_produced s + 1
          \<and> gate_inv (sn_orderedRelease s) (sn_produced s) (sn_gates s ! k) (sn_release_states s ! k) (held k)
          \<and> item_inv io k (sn_nextConsumer s ! k) (rb_get (sn_ring s)) (held k)))"

lemmas sn_views = sn_produced_def sn_gates_def

text \<open>Sequences above some gate and not above the last one claimed lie in different slots.\<close>

lemma ring_slots_distinct:
  assumes "ring_inv rb" and "g \<in> set (ss_gating (rb_sequencer rb))" and "g < x" "x < y" "y \<le> ss_nextValue (rb_sequencer rb)"
  shows "rb_index rb x \<noteq> rb_index rb y"
proof -
  have inv: "ss_inv (rb_sequencer rb)" and size: "ss_bufferSize (rb_sequencer rb) = rb_bufferSize rb"
    and wf: "rb_wf rb" using assms(1) by (simp_all add: ring_inv_def)
  have "x mod rb_bufferSize rb \<noteq> y mod rb_bufferSize rb"
    using folding.single.slots_distinct [OF inv assms(2-5)] size by simp
  moreover have "0 < rb_bufferSize rb" using wf by (auto simp: rb_wf_def)
  ultimately show ?thesis using rb_index_eq [OF wf] by (simp add: nat_eq_iff)
qed

lemma held_slots_distinct:
  assumes "ring_inv rb" and "g \<in> set (ss_gating (rb_sequencer rb))" "g' \<in> set (ss_gating (rb_sequencer rb))"
    and "g < x" "g' < y" "x \<noteq> y" "x \<le> ss_nextValue (rb_sequencer rb)" "y \<le> ss_nextValue (rb_sequencer rb)"
  shows "rb_index rb x \<noteq> rb_index rb y"
  using assms ring_slots_distinct [of rb g x y] ring_slots_distinct [of rb g' y x] by fastforce

section \<open>Every operation keeps the invariant\<close>

subsection \<open>Gates\<close>

lemma gate_inv_claim:
  assumes "gate_inv ordered nv g st H" and "nv \<le> hi" "g \<le> nv"
  shows "gate_inv ordered hi g st (H \<union> {nv<..hi})"
proof -
  have "{g<..hi} - (H \<union> {nv<..hi}) = {g<..nv} - H" using assms(2,3) by auto
  then show ?thesis using assms by (auto simp: gate_inv_def)
qed

lemma gate_inv_release:
  assumes inv: "gate_inv False nv g st H" and x: "x \<in> H" and size: "nv - g \<le> 2 ^ 30"
    and run: "releaseSequence st x = (st', v)"
  shows "case v of None \<Rightarrow> gate_inv False nv g st' (H - {x})
    | Some w \<Rightarrow> g \<le> w \<and> w \<le> nv \<and> gate_inv False nv w st' (H - {x})"
proof -
  let ?A = "{g<..nv} - H"
  have st: "lastSequenceReleased st = g" "rs_inv st ?A" "g < x" "x \<le> nv" "x \<notin> ?A"
    using inv x by (auto simp: gate_inv_def)
  have "card ?A \<le> card {g<..nv}" by (rule card_mono) auto
  then have small: "card ?A + 1 < 2 ^ 32" using size by simp
  have A: "insert x ?A = {g<..nv} - (H - {x})" using x st by auto
  have H: "\<forall>y \<in> H. g < y \<and> y \<le> nv" using inv by (simp add: gate_inv_def)
  have "Max (insert x ?A) \<in> insert x ?A" by (rule Max_in) auto
  then have max: "g \<le> Max (insert x ?A)" "Max (insert x ?A) \<le> nv" using st by auto
  from releaseSequence_inv [OF st(2) _ st(5) small run, unfolded st(1), OF st(3)]
  consider (passed) w where "v = Some w" "insert x ?A = {g<..w}"
      "lastSequenceReleased st' = w" "rs_inv st' {}" "g \<le> w" "w \<le> nv"
    | (counted) "v = None" "lastSequenceReleased st' = g" "rs_inv st' (insert x ?A)"
    using max by metis
  then show ?thesis
  proof cases
    case passed
    have eq: "y \<le> w \<longleftrightarrow> y \<notin> H - {x}" if "g < y" "y \<le> nv" for y
    proof -
      have "y \<in> insert x ?A \<longleftrightarrow> y \<in> {g<..w}" using passed(2) by (rule arg_cong)
      then show ?thesis unfolding A using that by simp
    qed
    have "y \<in> H - {x}" if "w < y" "y \<le> nv" for y using eq [of y] that passed(5) by auto
    then have none: "{w<..nv} - (H - {x}) = {}" by (meson Diff_eq_empty_iff greaterThanAtMost_iff subsetI)
    have "\<forall>y \<in> H - {x}. w < y" using eq H by force
    then have "gate_inv False nv w st' (H - {x})" unfolding gate_inv_def none using passed H by simp
    then show ?thesis using passed by simp
  next
    case counted
    then show ?thesis using A H by (simp add: gate_inv_def)
  qed
qed

lemma gate_inv_ordered:
  "gate_inv True nv g st H \<Longrightarrow> x \<in> H \<Longrightarrow> \<forall>y \<in> H. x \<le> y \<Longrightarrow> gate_inv True nv x st (H - {x}) \<and> g \<le> x \<and> x \<le> nv"
  by (force simp: gate_inv_def)

subsection \<open>Items\<close>

lemma rb_get_put:
  "rb_wf rb \<Longrightarrow> rb_get (rb_put rb y e) x = (if rb_index rb y = rb_index rb x then e else rb_get rb x)"
  using rb_index_less [of rb y] by (simp add: rb_get_def rb_put_def rb_index_def)

definition prepare_with :: "(int \<Rightarrow> 'i \<Rightarrow> 'i) \<Rightarrow> int \<Rightarrow> 'i item_ring \<Rightarrow> 'i item_ring" where
  "prepare_with f x rb = rb_put rb x (f x (rb_get rb x))"

lemma prepare_with_simps [simp]:
  "rb_wf (fold (prepare_with f) ys rb) = rb_wf rb"
  "rb_bufferSize (fold (prepare_with f) ys rb) = rb_bufferSize rb"
  "rb_sequencer (fold (prepare_with f) ys rb) = rb_sequencer rb"
  "rb_index (fold (prepare_with f) ys rb) x = rb_index rb x"
  by (induction ys arbitrary: rb) (simp_all add: prepare_with_def)

lemma rb_get_prepare:
  "rb_wf rb \<Longrightarrow> rb_get (prepare_with f y rb) x
     = (if rb_index rb y = rb_index rb x then f y (rb_get rb y) else rb_get rb x)"
  by (simp add: prepare_with_def rb_get_put)

lemma fold_prepare_other:
  "rb_wf rb \<Longrightarrow> \<forall>y \<in> set ys. rb_index rb y \<noteq> rb_index rb x \<Longrightarrow> rb_get (fold (prepare_with f) ys rb) x = rb_get rb x"
proof (induction ys arbitrary: rb)
  case (Cons y ys)
  have "rb_get (fold (prepare_with f) ys (prepare_with f y rb)) x = rb_get (prepare_with f y rb) x"
    using Cons.prems by (intro Cons.IH) (simp_all add: prepare_with_def)
  then show ?case using Cons.prems by (simp add: rb_get_prepare)
qed simp

lemma fold_prepare_same:
  "rb_wf rb \<Longrightarrow> inj_on (rb_index rb) (set ys) \<Longrightarrow> distinct ys \<Longrightarrow> x \<in> set ys \<Longrightarrow>
   rb_get (fold (prepare_with f) ys rb) x = f x (rb_get rb x)"
proof (induction ys arbitrary: rb)
  case (Cons y ys)
  let ?rb = "prepare_with f y rb"
  have wf: "rb_wf ?rb" "rb_index ?rb = rb_index rb" using Cons.prems(1) by (auto simp: prepare_with_def)
  show ?case
  proof (cases "x = y")
    case True
    have "rb_get (fold (prepare_with f) ys ?rb) x = rb_get ?rb x"
      using Cons.prems True wf by (intro fold_prepare_other) (auto simp: inj_on_def)
    then show ?thesis using Cons.prems True by (simp add: rb_get_prepare)
  next
    case False
    have "rb_get (fold (prepare_with f) ys ?rb) x = f x (rb_get ?rb x)"
      using Cons.prems False wf by (intro Cons.IH) (auto simp: inj_on_def)
    moreover have "rb_index rb y \<noteq> rb_index rb x" using Cons.prems False by (auto simp: inj_on_def)
    ultimately show ?thesis using Cons.prems(1) by (simp add: rb_get_prepare)
  qed
qed simp

lemma prepares:
  "prepare_reset io = prepare_with (\<lambda>x i. it_setProducerSequence io (it_reset io i) x)"
  "prepare_asIs io = prepare_with (\<lambda>x i. it_setProducerSequence io (it_setFromConsumerGet io i False) x)"
  by (simp_all add: fun_eq_iff prepare_reset_def prepare_asIs_def prepare_with_def)

subsection \<open>Taking items\<close>

lemma successive_same: "set reads \<subseteq> {gs} \<Longrightarrow> \<forall>g \<in> set gs. g \<le> m \<Longrightarrow> successive_reads m gs reads"
  by (induction reads) (auto simp: consumers_advance_def list.rel_refl)

lemma ss_next_gating:
  assumes "ss_inv s" and "set reads \<subseteq> {ss_gating s}"
  shows "ss_next minSeq reads s n = Claimed hi s' \<Longrightarrow> ss_gating s' = ss_gating s"
    and "ss_next minSeq reads s n = Waiting s' \<Longrightarrow>
      ss_gating s' = ss_gating s \<and> ss_nextValue s' = ss_nextValue s \<and> ss_bufferSize s' = ss_bufferSize s"
proof -
  have spin: "ss_spin minSeq w nv reads t = (r, t') \<Longrightarrow> set reads \<subseteq> {ss_gating t} \<Longrightarrow>
      t' = t \<and> (\<forall>m u. r = Some (m, u) \<longrightarrow> u = t)" for w nv t t' r
    by (induction reads arbitrary: t) (auto simp: Let_def split: if_splits)
  show "ss_next minSeq reads s n = Claimed hi s' \<Longrightarrow> ss_gating s' = ss_gating s"
    using assms(2)
    by (auto simp: ss_next_def Let_def split: if_splits prod.splits option.splits dest!: spin)
  show "ss_next minSeq reads s n = Waiting s' \<Longrightarrow>
      ss_gating s' = ss_gating s \<and> ss_nextValue s' = ss_nextValue s \<and> ss_bufferSize s' = ss_bufferSize s"
    using assms(2)
    by (auto simp: ss_next_def Let_def split: if_splits prod.splits option.splits dest!: spin)
qed

text \<open>A claim on a ring whose gates are read as they are.\<close>

lemma ring_claim:
  assumes "min_sequence minSeq" and "ring_inv rb" and "set reads \<subseteq> {ss_gating (rb_sequencer rb)}"
    and "rb_next (single_ops minSeq) reads rb n = Claimed hi rb'"
  shows "ring_inv rb' \<and> rb_entries rb' = rb_entries rb \<and> rb_index rb' = rb_index rb
     \<and> ss_gating (rb_sequencer rb') = ss_gating (rb_sequencer rb) \<and> 1 \<le> n
     \<and> hi = ss_nextValue (rb_sequencer rb) + n \<and> ss_nextValue (rb_sequencer rb') = hi"
proof -
  let ?q = "rb_sequencer rb"
  have inv: "ss_inv ?q" using assms(2) by (simp add: ring_inv_def)
  obtain q' where q': "ss_next minSeq reads ?q n = Claimed hi q'" "rb' = rb\<lparr>rb_sequencer := q'\<rparr>"
    using assms(4) by (auto simp: rb_next_def single_ops_def split: claim.splits)
  have "successive_reads (ss_nextValue ?q) (ss_gating ?q) reads"
    using successive_same [OF assms(3)] inv by (simp add: ss_inv_def)
  from min_sequence.ss_next_Claimed [OF assms(1) inv this q'(1)] ss_next_gating(1) [OF inv assms(3) q'(1)]
  show ?thesis using assms(2) q' by (auto simp: ring_inv_def rb_index_def ss_next_def split: if_splits)
qed

text \<open>The invariant for one consumer, over the ring.\<close>

definition consumer_inv ::
  "'i item_ops \<Rightarrow> bool \<Rightarrow> 'i item_ring \<Rightarrow> nat \<Rightarrow> int \<Rightarrow> release_state \<Rightarrow> int set \<Rightarrow> bool" where
  "consumer_inv io ordered rb k nx st H \<longleftrightarrow> nx \<le> ss_nextValue (rb_sequencer rb) + 1
     \<and> gate_inv ordered (ss_nextValue (rb_sequencer rb)) (ss_gating (rb_sequencer rb) ! k) st H
     \<and> item_inv io k nx (rb_get rb) H"

lemma sn_inv_consumers:
  "sn_inv io (s, held) \<longleftrightarrow> ring_inv (sn_ring s) \<and> 1 \<le> sn_consumerCount s \<and> sn_consumerCount s \<le> 8
     \<and> length (sn_gates s) = unat (sn_consumerCount s)
     \<and> length (sn_nextConsumer s) = unat (sn_consumerCount s)
     \<and> length (sn_release_states s) = unat (sn_consumerCount s)
     \<and> (\<forall>k < unat (sn_consumerCount s). consumer_inv io (sn_orderedRelease s) (sn_ring s) k
          (sn_nextConsumer s ! k) (sn_release_states s ! k) (held k))"
  by (simp add: sn_inv_def consumer_inv_def sn_views)

text \<open>
  Preparing the items of a claim disturbs no item that a consumer holds, and gives every new
  item its sequence.
\<close>

lemma consumer_inv_take:
  assumes min: "min_sequence minSeq" and rb: "ring_inv rb" and reads: "set reads \<subseteq> {ss_gating (rb_sequencer rb)}"
    and claim: "ring_get minSeq (prepare_with f) reads n rb = Claimed hi rb'"
    and f: "\<And>x i. it_getProducerSequence io (f x i) = x"
    and k: "k < length (ss_gating (rb_sequencer rb))" and inv: "consumer_inv io ordered rb k nx st H"
  shows "consumer_inv io ordered rb' k nx st (H \<union> {ss_nextValue (rb_sequencer rb)<..hi})"
proof -
  let ?nv = "ss_nextValue (rb_sequencer rb)" and ?g = "ss_gating (rb_sequencer rb) ! k"
  obtain rb1 where rb1: "rb_next (single_ops minSeq) reads rb n = Claimed hi rb1"
    and rb': "rb' = fold (prepare_with f) [hi - (n - 1)..hi] rb1"
    using claim by (auto simp: ring_get_def split: claim.splits)
  note c = ring_claim [OF min rb reads rb1]
  have wf: "rb_wf rb1" and ys: "set [hi - (n - 1)..hi] = {?nv<..hi}" using c by (auto simp: ring_inv_def)
  have g: "?g \<in> set (ss_gating (rb_sequencer rb1))" "?g \<le> ?nv" using c k rb by (simp_all add: ring_inv_def ss_inv_def)
  have H: "\<forall>x \<in> H. ?g < x \<and> x \<le> ?nv" using inv by (simp add: consumer_inv_def gate_inv_def)
  have apart: "rb_index rb1 x \<noteq> rb_index rb1 y" if "?g < x" "?g < y" "x \<noteq> y" "x \<le> hi" "y \<le> hi" for x y
    using held_slots_distinct [of rb1 ?g ?g x y] that g c by simp
  have new: "it_getProducerSequence io (rb_get rb' x) = x" if "x \<in> {?nv<..hi}" for x
  proof -
    have "inj_on (rb_index rb1) (set [hi - (n - 1)..hi])" unfolding ys
      by (rule inj_onI, rule ccontr) (use apart g(2) in force)
    then have "rb_get rb' x = f x (rb_get rb1 x)"
      unfolding rb' using wf that ys by (intro fold_prepare_same) simp_all
    then show ?thesis by (simp add: f)
  qed
  have old: "rb_get rb' x = rb_get rb x" if "x \<in> H" for x
  proof -
    have "\<forall>y \<in> set [hi - (n - 1)..hi]. rb_index rb1 y \<noteq> rb_index rb1 x"
      unfolding ys using apart [of _ x] H that g(2) c by force
    then have "rb_get rb' x = rb_get rb1 x" unfolding rb' using wf by (intro fold_prepare_other)
    then show ?thesis using c by (simp add: rb_get_def)
  qed
  have nv: "?nv \<le> hi" using c by simp
  show ?thesis
    using inv new old nv c gate_inv_claim [OF _ nv g(2)]
    by (auto simp: consumer_inv_def item_inv_def rb')
qed

lemma ring_inv_take:
  assumes "min_sequence minSeq" and "ring_inv rb" and "set reads \<subseteq> {ss_gating (rb_sequencer rb)}"
    and "ring_get minSeq (prepare_with f) reads n rb = Claimed hi rb'"
  shows "ring_inv rb' \<and> ss_gating (rb_sequencer rb') = ss_gating (rb_sequencer rb)"
proof -
  obtain rb1 where rb1: "rb_next (single_ops minSeq) reads rb n = Claimed hi rb1"
    and rb': "rb' = fold (prepare_with f) [hi - (n - 1)..hi] rb1"
    using assms(4) by (auto simp: ring_get_def split: claim.splits)
  then show ?thesis using ring_claim [OF assms(1-3) rb1] by (simp add: ring_inv_def)
qed

lemma sn_inv_take:
  assumes "min_sequence minSeq" and "sn_inv io (s, held)" and "set reads \<subseteq> {sn_gates s}"
    and "map_claim (\<lambda>rb. s\<lparr>sn_ring := rb\<rparr>) (ring_get minSeq (prepare_with f) reads n (sn_ring s)) = Claimed hi s'"
    and f: "\<And>x i. it_getProducerSequence io (f x i) = x"
  shows "sn_inv io (s', \<lambda>k. held k \<union> {sn_produced s<..hi})"
proof -
  obtain rb' where rb': "ring_get minSeq (prepare_with f) reads n (sn_ring s) = Claimed hi rb'"
    and s': "s' = s\<lparr>sn_ring := rb'\<rparr>"
    using assms(4) by (auto simp: map_claim_def split: claim.splits)
  have inv: "ring_inv (sn_ring s)" and reads: "set reads \<subseteq> {ss_gating (rb_sequencer (sn_ring s))}"
    using assms(2,3) by (simp_all add: sn_inv_consumers sn_views)
  show ?thesis
    using assms(2) ring_inv_take [OF assms(1) inv reads rb'] consumer_inv_take [OF assms(1) inv reads rb' f]
    by (auto simp: sn_inv_consumers s' sn_views)
qed

subsection \<open>Waiting and publishing\<close>

lemma rb_get_sequencer [simp]: "rb_get (rb\<lparr>rb_sequencer := q\<rparr>) = rb_get rb"
  by (simp add: fun_eq_iff)

lemma sn_inv_wait:
  assumes "sn_inv io (s, held)" and "set reads \<subseteq> {sn_gates s}" and "sn_get_n minSeq io reads s n = Waiting s'"
  shows "sn_inv io (s', held)"
proof -
  let ?q = "rb_sequencer (sn_ring s)"
  obtain q' where q': "ss_next minSeq reads ?q n = Waiting q'" and s': "s' = s\<lparr>sn_ring := (sn_ring s)\<lparr>rb_sequencer := q'\<rparr>\<rparr>"
    using assms(3) by (auto simp: sn_get_n_def map_claim_def ring_get_def rb_next_def single_ops_def split: claim.splits)
  have inv: "ss_inv ?q" and reads: "set reads \<subseteq> {ss_gating ?q}"
    using assms(1,2) by (simp_all add: sn_inv_def ring_inv_def sn_views)
  have "ss_inv q'"
    using ss_next_Waiting [OF inv successive_same [OF reads] q'] inv by (simp add: ss_inv_def)
  then show ?thesis
    using assms(1) ss_next_gating(2) [OF inv reads q'] by (simp add: sn_inv_def s' ring_inv_def sn_views)
qed

lemma sn_inv_publish:
  assumes "sn_inv io (s, held)" and "k < unat (sn_consumerCount s)" and "x \<in> held k"
  shows "sn_inv io (sn_publish minSeq io s (Some (rb_index (sn_ring s) x)), held)"
proof -
  have x: "it_getProducerSequence io (rb_get (sn_ring s) x) = x" "x \<le> sn_produced s"
    using assms by (auto simp: sn_inv_def item_inv_def gate_inv_def)
  let ?rb = "rb_publish (single_ops minSeq) (sn_ring s) x"
  have "sn_publish minSeq io s (Some (rb_index (sn_ring s) x)) = s\<lparr>sn_ring := ?rb\<rparr>"
    using x by (simp add: sn_publish_def ring_publish_def item_at_def flip: rb_get_def)
  then show ?thesis
    using assms(1) x
    by (auto simp: sn_inv_def ring_inv_def sn_views rb_publish_def single_ops_def ss_publish_def ss_inv_def)
qed

subsection \<open>Consumers\<close>

lemma cid_less:
  "\<not> (cid :: u32) > count - 1 \<Longrightarrow> 1 \<le> count \<Longrightarrow> count \<le> 8 \<Longrightarrow> unat cid < unat count \<and> unat cid < 8"
proof -
  assume a: "\<not> cid > count - 1" "1 \<le> count" "count \<le> 8"
  then have "unat (count - 1) = unat count - 1" by (simp add: unat_sub)
  moreover have "1 \<le> unat count" "unat count \<le> 8" using a(2,3) by (simp_all add: word_le_nat_alt)
  ultimately show ?thesis using a(1) unfolding word_less_nat_alt by linarith
qed

context supply_item
begin

lemma consumer_inv_deliver:
  assumes rb: "ring_inv rb" and k: "k < length (ss_gating (rb_sequencer rb))" and k': "k' < length (ss_gating (rb_sequencer rb))"
    and inv: "consumer_inv io ordered rb k nx st H" and inv': "consumer_inv io ordered rb k' nx' st' H'"
    and nx': "nx' \<in> H'" and few: "k' < 8" and same: "k = k' \<Longrightarrow> nx = nx'"
  shows "consumer_inv io ordered (ring_deliver io nx' k' rb) k (if k = k' then nx + 1 else nx) st H"
proof -
  let ?d = "\<lambda>i. it_setFromConsumerGet io (it_setConsumerSequence io i nx' k') True"
  let ?q = "rb_sequencer rb"
  have wf: "rb_wf rb" using rb by (simp add: ring_inv_def)
  have H': "ss_gating ?q ! k' < nx'" "nx' \<le> ss_nextValue ?q"
    using inv' nx' by (auto simp: consumer_inv_def gate_inv_def)
  have get: "rb_get (ring_deliver io nx' k' rb) x = (if x = nx' then ?d (rb_get rb x) else rb_get rb x)" if "x \<in> H" for x
  proof -
    have "ss_gating ?q ! k < x" "x \<le> ss_nextValue ?q" using inv that by (auto simp: consumer_inv_def gate_inv_def)
    then have "x \<noteq> nx' \<Longrightarrow> rb_index rb nx' \<noteq> rb_index rb x"
      using held_slots_distinct [OF rb, of "ss_gating ?q ! k'" "ss_gating ?q ! k" nx' x] H' k k' by auto
    then show ?thesis using rb_get_put [OF wf] by (auto simp: ring_deliver_def)
  qed
  have "item_inv io k (if k = k' then nx + 1 else nx) (rb_get (ring_deliver io nx' k' rb)) H"
    using inv get same few
    by (auto simp: consumer_inv_def item_inv_def producer_flag producer_consumer consumer_flag consumer_consumer)
  moreover have "(if k = k' then nx + 1 else nx) \<le> ss_nextValue ?q + 1"
    using inv H' same by (auto simp: consumer_inv_def)
  ultimately show ?thesis
    using inv by (simp add: consumer_inv_def ring_deliver_def)
qed

lemma sn_inv_consumerGet:
  assumes inv: "sn_inv io (s, held)" and run: "sn_consumerGet waitFor io s cid = Inr (r, s')"
    and next': "sn_nextConsumer s ! unat cid \<in> held (unat cid)"
  shows "sn_inv io (s', held)"
proof -
  let ?k = "unat cid" and ?n = "unat (sn_consumerCount s)"
  let ?nx = "sn_nextConsumer s ! ?k"
  let ?t = "s\<lparr>sn_ring := ring_deliver io ?nx ?k (sn_ring s), sn_nextConsumer := (sn_nextConsumer s)[?k := ?nx + 1]\<rparr>"
  have cid: "\<not> cid > sn_consumerCount s - 1" using run by (auto simp: sn_consumerGet_def split: if_splits)
  have count: "1 \<le> sn_consumerCount s" "sn_consumerCount s \<le> 8" using inv by (simp_all add: sn_inv_def)
  have k: "?k < ?n" "?k < 8" using cid_less [OF _ count] cid by simp_all
  have "sn_inv io (?t, held)"
  proof -
    have rb: "ring_inv (sn_ring s)" and len: "length (ss_gating (rb_sequencer (sn_ring s))) = ?n"
      using inv by (simp_all add: sn_inv_def sn_views)
    have "consumer_inv io (sn_orderedRelease s) (ring_deliver io ?nx ?k (sn_ring s)) j
        ((sn_nextConsumer s)[?k := ?nx + 1] ! j) (sn_release_states s ! j) (held j)" if "j < ?n" for j
      using consumer_inv_deliver [OF rb, of j ?k "sn_orderedRelease s" "sn_nextConsumer s ! j" "sn_release_states s ! j"
          "held j" ?nx "sn_release_states s ! ?k" "held ?k"] inv that k next'
      by (auto simp: sn_inv_consumers sn_views nth_list_update split: if_splits)
    moreover have "ring_inv (ring_deliver io ?nx ?k (sn_ring s))"
      using rb by (simp add: ring_inv_def ring_deliver_def)
    ultimately show ?thesis using inv by (simp add: sn_inv_consumers sn_views ring_deliver_def)
  qed
  moreover have irrelevant: "sn_inv io (t, held) = sn_inv io (t\<lparr>sn_availableConsumer := []\<rparr>, held)" for t
    by (simp add: sn_inv_def sn_views)
  moreover have "s' = s \<or> s'\<lparr>sn_availableConsumer := []\<rparr> = ?t\<lparr>sn_availableConsumer := []\<rparr>"
    using run cid by (auto simp: sn_consumerGet_def Let_def split: if_splits option.splits)
  ultimately show ?thesis using inv by metis
qed

lemma item_inv_dec:
  assumes "rb_wf rb" and "item_inv io k nx (rb_get rb) H"
  shows "item_inv io k nx
    (rb_get (ring_setItem (rb_index rb x) (snd (it_decrementCounter io (rb_get rb x) j)) rb)) H"
proof -
  have "rb_get (ring_setItem (rb_index rb x) e rb) y = (if rb_index rb x = rb_index rb y then e else rb_get rb y)" for e y
    using rb_index_less [OF assms(1), of x] by (simp add: rb_get_def ring_setItem_def rb_index_def)
  then have "it_getProducerSequence io (rb_get (ring_setItem (rb_index rb x) (snd (it_decrementCounter io (rb_get rb x) j)) rb) y)
        = it_getProducerSequence io (rb_get rb y)"
      "it_getConsumerSequence io (rb_get (ring_setItem (rb_index rb x) (snd (it_decrementCounter io (rb_get rb x) j)) rb) y) k
        = it_getConsumerSequence io (rb_get rb y) k" for y
    by (simp_all add: producer_dec consumer_dec rb_get_def)
  then show ?thesis using assms(2) by (simp add: item_inv_def)
qed

text \<open>The ring after a release: the gate of the consumer may have moved up to a claimed sequence.\<close>

lemma ring_inv_setGate:
  assumes "ring_inv rb" and "k < length (ss_gating (rb_sequencer rb))"
    and "ss_gating (rb_sequencer rb) ! k \<le> v" "v \<le> ss_nextValue (rb_sequencer rb)"
  shows "ring_inv (ring_setGate k v rb)"
proof -
  let ?q = "rb_sequencer rb"
  have inv: "ss_inv ?q" using assms(1) by (simp add: ring_inv_def)
  have "consumers_advance (ss_nextValue ?q) (ss_gating ?q) ((ss_gating ?q)[k := v])"
    using assms(2-4) inv
    by (auto simp: consumers_advance_def list_all2_conv_all_nth nth_list_update ss_inv_def
        dest!: subsetD [OF set_update_subset_insert])
  from ss_inv_advance [OF inv this] show ?thesis using assms(1) by (simp add: ring_inv_def ring_setGate_def)
qed

lemma ring_setGate_same: "v = ss_gating (rb_sequencer rb) ! k \<Longrightarrow> ring_setGate k v rb = rb"
  by (simp add: ring_setGate_def)

lemma ring_span:
  assumes "ring_inv rb" and "k < length (ss_gating (rb_sequencer rb))"
  shows "ss_nextValue (rb_sequencer rb) - ss_gating (rb_sequencer rb) ! k \<le> 2 ^ 30"
proof -
  obtain e where "e \<le> 30" "rb_bufferSize rb = 2 ^ e" using assms(1) by (auto simp: ring_inv_def rb_wf_def)
  then have "rb_bufferSize rb \<le> 2 ^ 30" using power_increasing [of e 30 "2 :: int"] by simp
  moreover have "ss_nextValue (rb_sequencer rb) - rb_bufferSize rb \<le> ss_gating (rb_sequencer rb) ! k"
    using assms by (auto simp: ring_inv_def ss_inv_def)
  ultimately show ?thesis by linarith
qed

lemma sn_inv_dec:
  assumes "sn_inv io (s, held)"
  shows "sn_inv io (s\<lparr>sn_ring := ring_setItem (rb_index (sn_ring s) x)
     (snd (it_decrementCounter io (rb_get (sn_ring s) x) j)) (sn_ring s)\<rparr>, held)"
  using assms item_inv_dec [of "sn_ring s"]
  by (auto simp: sn_inv_def ring_inv_def sn_views rb_wf_def) (simp_all add: ring_setItem_def)

lemma sn_inv_gate:
  assumes inv: "sn_inv io (s, held)" and k: "k < unat (sn_consumerCount s)"
    and v: "sn_gates s ! k \<le> v" "v \<le> sn_produced s"
    and gate: "gate_inv (sn_orderedRelease s) (sn_produced s) v st (H)" and H: "H \<subseteq> held k"
  shows "sn_inv io (s\<lparr>sn_release_states := (sn_release_states s)[k := st], sn_ring := ring_setGate k v (sn_ring s)\<rparr>,
    held(k := H))"
proof -
  have "ring_inv (ring_setGate k v (sn_ring s))"
    using inv k v by (intro ring_inv_setGate) (simp_all add: sn_inv_def sn_views)
  moreover have "rb_get (ring_setGate k v (sn_ring s)) = rb_get (sn_ring s)"
    by (simp add: ring_setGate_def)
  moreover have "item_inv io k nx e H" if "item_inv io k nx e (held k)" for nx e
    using that H by (auto simp: item_inv_def)
  ultimately show ?thesis
    using inv k gate
    by (auto simp: sn_inv_def sn_views nth_list_update) (auto simp: ring_setGate_def nth_list_update)
qed

lemma sn_release_eq:
  fixes x :: int
  assumes "\<not> cid > sn_consumerCount s - 1"
  defines "it \<equiv> rb_get (sn_ring s) x" and "k \<equiv> unat cid"
  defines "t \<equiv> s\<lparr>sn_ring := ring_setItem (rb_index (sn_ring s) x) (snd (it_decrementCounter io it k)) (sn_ring s)\<rparr>"
  shows "sn_release io s (Some (rb_index (sn_ring s) x)) cid = Inr
    (if \<not> fst (it_decrementCounter io it k) then t
     else if sn_orderedRelease s then t\<lparr>sn_ring := ring_setGate k (sequence_of io it k) (sn_ring t)\<rparr>
     else let (st, v) = releaseSequence (sn_release_states s ! k) (sequence_of io it k)
          in t\<lparr>sn_release_states := (sn_release_states s)[k := st],
               sn_ring := (case v of None \<Rightarrow> sn_ring t | Some w \<Rightarrow> ring_setGate k w (sn_ring t))\<rparr>)"
  using assms(1)
  by (simp add: sn_release_def item_at_def Let_def it_def k_def t_def rb_get_def split: prod.split option.split)

lemma sn_inv_release:
  assumes inv: "sn_inv io (s, held)" and run: "sn_release io s (Some (rb_index (sn_ring s) x)) cid = Inr s'"
    and may: "may_release io s (held (unat cid)) (unat cid) x"
  shows "sn_inv io (s', if fst (it_decrementCounter io (rb_get (sn_ring s) x) (unat cid))
           then held(unat cid := held (unat cid) - {x}) else held)"
proof -
  let ?k = "unat cid" and ?it = "rb_get (sn_ring s) x"
  let ?t = "s\<lparr>sn_ring := ring_setItem (rb_index (sn_ring s) x) (snd (it_decrementCounter io ?it ?k)) (sn_ring s)\<rparr>"
  let ?nv = "sn_produced s" and ?g = "sn_gates s ! ?k" and ?st = "sn_release_states s ! ?k" and ?H = "held ?k"
  have cid: "\<not> cid > sn_consumerCount s - 1" using run by (auto simp: sn_release_def split: if_splits)
  have count: "1 \<le> sn_consumerCount s" "sn_consumerCount s \<le> 8" using inv by (simp_all add: sn_inv_def)
  have k: "?k < unat (sn_consumerCount s)" using cid_less [OF cid count] by simp
  have x: "x \<in> ?H" "it_getProducerSequence io ?it = x"
    "it_isFromConsumerGet io ?it \<Longrightarrow> it_getConsumerSequence io ?it ?k = x"
    using may inv k by (auto simp: may_release_def sn_inv_def item_inv_def)
  then have seq: "sequence_of io ?it ?k = x" by (simp add: sequence_of_def)
  have gate: "gate_inv (sn_orderedRelease s) ?nv ?g ?st ?H" and lens: "?k < length (sn_release_states s)"
    using inv k by (simp_all add: sn_inv_def)
  have t: "sn_inv io (?t, held)" by (rule sn_inv_dec [OF inv])
  have views: "sn_gates ?t = sn_gates s" "sn_produced ?t = ?nv"
    by (simp_all add: sn_views ring_setItem_def)
  note s' = run [unfolded sn_release_eq [OF cid] seq]
  note move = sn_inv_gate [OF t, of ?k, simplified, OF k, unfolded views]
  show ?thesis
  proof (cases "fst (it_decrementCounter io ?it ?k)")
    case False
    then show ?thesis using s' t by simp
  next
    case True
    show ?thesis
    proof (cases "sn_orderedRelease s")
      case ordered: True
      have "gate_inv True ?nv x ?st (?H - {x}) \<and> ?g \<le> x \<and> x \<le> ?nv"
        using gate_inv_ordered [of ?nv ?g ?st ?H x] gate may ordered x by (simp add: may_release_def)
      then have "sn_inv io (?t\<lparr>sn_release_states := (sn_release_states s)[?k := ?st],
          sn_ring := ring_setGate ?k x (sn_ring ?t)\<rparr>, held(?k := ?H - {x}))"
        using move [of x ?st "?H - {x}"] ordered by simp
      moreover have "s' = ?t\<lparr>sn_release_states := (sn_release_states s)[?k := ?st], sn_ring := ring_setGate ?k x (sn_ring ?t)\<rparr>"
        using s' True ordered by simp
      ultimately show ?thesis using True by simp
    next
      case False
      obtain st' v where rel: "releaseSequence ?st x = (st', v)" by fastforce
      have "?nv - ?g \<le> 2 ^ 30" using ring_span [of "sn_ring s" ?k] inv k by (simp add: sn_inv_def sn_views)
      from gate_inv_release [OF _ x(1) this rel] gate False
      have g: "case v of None \<Rightarrow> gate_inv False ?nv ?g st' (?H - {x})
          | Some w \<Rightarrow> ?g \<le> w \<and> w \<le> ?nv \<and> gate_inv False ?nv w st' (?H - {x})" by simp
      have "s' = ?t\<lparr>sn_release_states := (sn_release_states s)[?k := st'],
          sn_ring := ring_setGate ?k (case v of None \<Rightarrow> ?g | Some w \<Rightarrow> w) (sn_ring ?t)\<rparr>"
        using s' True False rel
        by (auto simp: ring_setGate_same ring_setItem_def sn_views split: option.split)
      then show ?thesis
        using True False g move [of "case v of None \<Rightarrow> ?g | Some w \<Rightarrow> w" st' "?H - {x}"] x gate
        by (auto simp: gate_inv_def split: option.splits)
    qed
  qed
qed

lemma sn_step_inv:
  assumes min: "min_sequence minSeq" and step: "sn_step minSeq io waitFor p p'" and inv: "sn_inv io p"
  shows "sn_inv io p'"
  using step inv
proof cases
  case (Get reads s n hi s' held)
  then show ?thesis
    using sn_inv_take [OF min, of io s held reads "\<lambda>x i. it_setProducerSequence io (it_reset io i) x" n hi s'] inv
    by (simp add: sn_get_n_def prepares producer_producer)
next
  case (GetAsIs reads s hi s' held)
  then show ?thesis
    using sn_inv_take [OF min, of io s held reads "\<lambda>x i. it_setProducerSequence io (it_setFromConsumerGet io i False) x" 1 hi s'] inv
    by (simp add: sn_getAsIs_def prepares producer_producer)
next
  case (Wait reads s n s' held)
  then show ?thesis using sn_inv_wait inv by blast
next
  case (Publish k s x held)
  then show ?thesis using sn_inv_publish inv by blast
next
  case (ConsumerGet s cid r s' held)
  then show ?thesis using sn_inv_consumerGet inv by blast
next
  case (Release s x cid s' held)
  then show ?thesis using sn_inv_release inv by blast
next
  case (Alert s held)
  then show ?thesis using inv by (simp add: sn_inv_def sn_errorAlert_def sn_views)
qed

end

section \<open>Construction\<close>

text \<open>What the constructors rely on in \<open>Util\<close> and \<open>SequenceGroups\<close>.\<close>

locale ring_environment =
  fixes env :: "'i ring_env"
  assumes env_min: "min_sequence (env_minSeq env)"
    and env_power: "1 \<le> n \<Longrightarrow> env_isPowerOf2 env n \<Longrightarrow> \<exists>k. n = 2 ^ k"
    and env_ceiling_power: "env_ceiling env (2 ^ k) = 2 ^ k"
    and env_add: "env_addSequences env [] c gs = map (\<lambda>_. c) gs"
begin

lemma fill_length: "length (fold (\<lambda>i es. es[m + i := f i]) is es) = length es"
  by (induction "is" arbitrary: es) simp_all

lemma created_ring:
  fixes c :: nat
  assumes new: "createSingleProducer env ordered n = Inr rb" and n: "n < 2 ^ 31"
  defines "rb' \<equiv> ring_addGatingSequences env rb (replicate c InitialCursorValue)"
  shows "ring_inv rb' \<and> ss_gating (rb_sequencer rb') = replicate c (-1) \<and> ss_nextValue (rb_sequencer rb') = -1"
proof -
  obtain q where q: "ss_new (env_isPowerOf2 env) n = Inr q"
    and rb: "RingBuffer (env_ceiling env) (single_ops (env_minSeq env)) (env_blank env) (env_factory env ordered) q = Inr rb"
    using new by (auto simp: createSingleProducer_def split: sum.splits)
  have qs: "1 \<le> n" "env_isPowerOf2 env n" "q = \<lparr>ss_nextValue = -1, ss_cachedValue = -1, ss_cursor = -1, ss_gating = [], ss_bufferSize = n\<rparr>"
    using q by (auto simp: ss_new_def InitialCursorValue_def split: if_splits)
  obtain k where k: "n = 2 ^ k" using env_power qs by blast
  have "(2 :: int) ^ k < 2 ^ 31" using n by (simp add: k)
  then have "k < 31" by (rule power_less_imp_less_exp [rotated]) simp
  then have "k \<le> 30" by simp
  then have wf: "rb_wf rb" "rb_sequencer rb = q" "rb_bufferSize rb = n"
    using rb qs k by (auto simp: RingBuffer_def rb_wf_def rb_fill_def single_ops_def fill_length Let_def split: if_splits)
  have "ss_gating (rb_sequencer rb') = replicate c (-1)"
    using wf qs by (simp add: rb'_def ring_addGatingSequences_def ss_addGatingSequences_def env_add map_replicate_const)
  then show ?thesis
    using wf qs by (auto simp: rb'_def ring_addGatingSequences_def ss_addGatingSequences_def ring_inv_def ss_inv_def)
qed

lemma sn_new_inv:
  assumes new: "sn_new env r ordered c = Inr s"
  shows "sn_inv io (s, \<lambda>_. {})"
proof -
  have "c \<le> 8" "\<not> c < 1" using new by (auto simp: sn_new_def not_less split: if_splits)
  then have c: "1 \<le> c" "c \<le> 8" by (simp_all only: not_less)
  obtain rb where rb: "createSingleProducer env ordered (sint r) = Inr rb"
    and s: "s = \<lparr>sn_ringSize = r, sn_consumerCount = c,
         sn_ring = ring_addGatingSequences env rb (replicate (unat c) InitialCursorValue), sn_alerted = False,
         sn_nextConsumer = replicate (unat c) (InitialCursorValue + 1), sn_availableConsumer = replicate (unat c) (-1),
         sn_orderedRelease = ordered, sn_release_states = replicate (unat c) release_init\<rparr>"
    using new by (auto simp: sn_new_def Let_def split: if_splits sum.splits)
  have "sint r < 2 ^ 31" using sint_less [of r] by simp
  from created_ring [OF rb this, of "unat c"] show ?thesis
    using c rs_inv_init by (auto simp: sn_inv_def s sn_views gate_inv_def item_inv_def InitialCursorValue_def release_init_def)
qed

end

text \<open>The functions of \<open>Util\<close> computed, with items that are fresh.\<close>

definition blank_item :: supplyItem where
  "blank_item = \<lparr>si_producerSequence = 0, si_consumerSequences = (\<lambda>_. 0), si_counters = (\<lambda>_. 1), si_fromConsumerGet = False\<rparr>"

fun power_of_2 :: "nat \<Rightarrow> int \<Rightarrow> bool" where
  "power_of_2 0 n = (n = 1)"
| "power_of_2 (Suc k) n = (n = 2 ^ Suc k \<or> power_of_2 k n)"

definition computed_env :: "supplyItem ring_env" where
  "computed_env =
    \<lparr>env_isPowerOf2 = power_of_2 31, env_ceiling = (\<lambda>n. n),
     env_addSequences = (\<lambda>old c gs. old @ map (\<lambda>_. c) gs), env_minSeq = fold_min,
     env_blank = blank_item, env_factory = (\<lambda>_ _. blank_item)\<rparr>"

lemma power_of_2_power: "power_of_2 k n \<Longrightarrow> \<exists>j. n = 2 ^ j"
proof (induction k)
  case 0
  then show ?case by (auto intro: exI [of _ 0])
next
  case (Suc k)
  then show ?case by (metis power_of_2.simps(2))
qed

interpretation computed: ring_environment computed_env
proof (rule ring_environment.intro)
  show "min_sequence (env_minSeq computed_env)" by (simp add: computed_env_def folding.min_sequence_axioms)
  show "\<exists>k. n = 2 ^ k" if "1 \<le> n" "env_isPowerOf2 computed_env n" for n using that(2) by (simp add: computed_env_def power_of_2_power)
qed (simp_all add: computed_env_def)

section \<open>Properties\<close>

text \<open>
  C17: a supply built by the constructor and used by a producer and up to eight consumers in
  any interleaving never hands out an item that some consumer has not released: the slots
  of newly taken items are different from those of every item held, and every item held
  still carries the sequence it was taken with.
\<close>

theorem supplyN_no_reuse:
  assumes "ring_environment env" and "supply_item io" and "sn_new env r ordered c = Inr s0"
    and "(sn_step (env_minSeq env) io waitFor)\<^sup>*\<^sup>* (s0, \<lambda>_. {}) (s, held)"
    and "set reads \<subseteq> {sn_gates s}" and "sn_get_n (env_minSeq env) io reads s n = Claimed hi s'"
    and "k < unat (sn_consumerCount s)" and "x \<in> held k"
  shows "it_getProducerSequence io (rb_get (sn_ring s') x) = x
    \<and> (\<forall>y. sn_produced s < y \<and> y \<le> hi \<longrightarrow> rb_index (sn_ring s') y \<noteq> rb_index (sn_ring s') x)"
proof -
  have min: "min_sequence (env_minSeq env)" by (rule ring_environment.env_min [OF assms(1)])
  have inv: "sn_inv io (s, held)"
    using assms(4) ring_environment.sn_new_inv [OF assms(1,3)]
    by (induction rule: rtranclp_induct) (auto intro: supply_item.sn_step_inv [OF assms(2) min])
  have "sn_step (env_minSeq env) io waitFor (s, held) (s', \<lambda>k. held k \<union> {sn_produced s<..hi})"
    using assms(5,6) by (rule sn_step.Get)
  then have inv': "sn_inv io (s', \<lambda>k. held k \<union> {sn_produced s<..hi})"
    using supply_item.sn_step_inv [OF assms(2) min] inv by blast
  have s': "sn_consumerCount s' = sn_consumerCount s"
    using assms(6) by (auto simp: sn_get_n_def map_claim_def split: claim.splits)
  have ring: "ring_inv (sn_ring s')" "sn_gates s' ! k \<in> set (sn_gates s')"
    using inv' assms(7) s' by (simp_all add: sn_inv_def)
  have held: "sn_gates s' ! k < y \<and> y \<le> sn_produced s'" if "y \<in> held k \<union> {sn_produced s<..hi}" for y
    using inv' assms(7) s' that by (simp add: sn_inv_def gate_inv_def)
  have old: "x \<le> sn_produced s" using inv assms(7,8) by (simp add: sn_inv_def gate_inv_def)
  have "rb_index (sn_ring s') y \<noteq> rb_index (sn_ring s') x" if "sn_produced s < y" "y \<le> hi" for y
    using held_slots_distinct [OF ring(1), of "sn_gates s' ! k" "sn_gates s' ! k" y x] ring held [of x] held [of y]
      that old assms(8) by (simp add: sn_views)
  moreover have "it_getProducerSequence io (rb_get (sn_ring s') x) = x"
    using inv' assms(7,8) s' by (simp add: sn_inv_def item_inv_def)
  ultimately show ?thesis by blast
qed

theorem supplyN_no_reuse_witness:
  "\<exists>s0 s1 s2. sn_new computed_env 2 False 2 = Inr s0
    \<and> sn_get_n fold_min field_item_ops [] s0 1 = Claimed 0 s1 \<and> sn_get_n fold_min field_item_ops [] s1 1 = Claimed 1 s2
    \<and> rb_index (sn_ring s2) 1 \<noteq> rb_index (sn_ring s2) 0 \<and> si_producerSequence (rb_get (sn_ring s2) 0) = 0"
proof -
  note run = sn_new_def createSingleProducer_def ss_new_def RingBuffer_def ring_addGatingSequences_def
    ss_addGatingSequences_def single_ops_def computed_env_def InitialCursorValue_def Let_def
    sn_get_n_def map_claim_def ring_get_def rb_next_def ss_next_def
  have p: "power_of_2 31 2" by (simp add: eval_nat_numeral)
  obtain s0 where s0: "sn_new computed_env 2 False 2 = Inr s0" "sn_consumerCount s0 = 2"
      "rb_sequencer (sn_ring s0) = \<lparr>ss_nextValue = -1, ss_cachedValue = -1, ss_cursor = -1, ss_gating = replicate 2 (-1), ss_bufferSize = 2\<rparr>"
    using p by (simp add: run rb_fill_def map_replicate_const)
  obtain s1 where s1: "sn_get_n fold_min field_item_ops [] s0 1 = Claimed 0 s1" "sn_consumerCount s1 = 2"
      "rb_sequencer (sn_ring s1) = \<lparr>ss_nextValue = 0, ss_cachedValue = -1, ss_cursor = -1, ss_gating = replicate 2 (-1), ss_bufferSize = 2\<rparr>"
    using s0(2,3) by (simp add: run prepares prepare_with_def)
  obtain s2 where s2: "sn_get_n fold_min field_item_ops [] s1 1 = Claimed 1 s2"
    using s1(2,3) by (simp add: run)
  have min: "env_minSeq computed_env = fold_min" by (simp add: computed_env_def)
  have "sn_step fold_min field_item_ops (\<lambda>_ _ _. None) (s0, \<lambda>_. {}) (s1, \<lambda>k. {} \<union> {sn_produced s0<..0})"
    by (rule sn_step.Get [OF _ s1(1)]) simp
  then have reach: "(sn_step (env_minSeq computed_env) field_item_ops (\<lambda>_ _ _. None))\<^sup>*\<^sup>*
      (s0, \<lambda>_. {}) (s1, \<lambda>k. {} \<union> {sn_produced s0<..0})" unfolding min by (rule r_into_rtranclp)
  have "it_getProducerSequence field_item_ops (rb_get (sn_ring s2) 0) = 0
      \<and> (\<forall>y. sn_produced s1 < y \<and> y \<le> 1 \<longrightarrow> rb_index (sn_ring s2) y \<noteq> rb_index (sn_ring s2) 0)"
    using s0 s1 s2
    by (intro supplyN_no_reuse [OF computed.ring_environment_axioms field_item.supply_item_axioms s0(1) reach, of "[]" 1 1 s2 0 0])
       (simp_all add: min sn_produced_def)
  then show ?thesis using s0 s1 s2 by (auto simp: field_item_ops_def sn_produced_def)
qed

text \<open>
  \<open>Supplier\<close> is \<open>SupplierN\<close> with one consumer: taking items, publishing them,
  \<open>consumerGet\<close> and \<open>release\<close> commute with the embedding of its state.
\<close>

theorem supplier_is_supplierN:
  "map_claim (as_n r) (sp_get_n minSeq io reads s n) = sn_get_n minSeq io reads (as_n r s) n
   \<and> map_claim (as_n r) (sp_getAsIs minSeq io reads s) = sn_getAsIs minSeq io reads (as_n r s)
   \<and> sn_publish minSeq io (as_n r s) item = as_n r (sp_publish minSeq io s item)
   \<and> sn_consumerGet waitFor io (as_n r s) 0 = Inr (apsnd (as_n r) (sp_consumerGet waitFor io s))
   \<and> sn_release io (as_n r s) item 0 = Inr (as_n r (sp_release io s item))"
  by (simp add: as_n_take as_n_publish as_n_consumerGet as_n_release)

text \<open>The barrier of a supply that waits for what has been published.\<close>

definition cursor_barrier :: "bool \<Rightarrow> int \<Rightarrow> int \<Rightarrow> int option" where
  "cursor_barrier alerted cursor x = (if alerted \<or> cursor < x then None else Some cursor)"

interpretation at_cursor: barrier cursor_barrier
  by unfold_locales (simp_all add: cursor_barrier_def split: if_splits)

text \<open>
  A consumer gets the items in the order of their sequences, each once, and none before
  the cursor has reached it; after an alert a consumer that has taken all it knew of gets
  none and its position stays; an unknown consumer is refused.
\<close>

theorem consumerGet_in_order:
  assumes "barrier waitFor" and "unat cid < length (sn_nextConsumer s)" "unat cid < length (sn_availableConsumer s)"
    and "sn_availableConsumer s ! unat cid \<le> ss_cursor (rb_sequencer (sn_ring s))"
  shows "if cid > sn_consumerCount s - 1 then sn_consumerGet waitFor io s cid = Inl TooManyConsumers
    else \<exists>r s'. sn_consumerGet waitFor io s cid = Inr (r, s')
      \<and> sn_availableConsumer s' ! unat cid \<le> ss_cursor (rb_sequencer (sn_ring s))
      \<and> (case r of
           None \<Rightarrow> s' = s
         | Some i \<Rightarrow> i = rb_index (sn_ring s) (sn_nextConsumer s ! unat cid)
             \<and> sn_nextConsumer s ! unat cid \<le> ss_cursor (rb_sequencer (sn_ring s))
             \<and> sn_nextConsumer s' = (sn_nextConsumer s)[unat cid := sn_nextConsumer s ! unat cid + 1])
      \<and> (sn_alerted s \<and> sn_availableConsumer s ! unat cid < sn_nextConsumer s ! unat cid \<longrightarrow> r = None)"
  using assms(2-4)
  by (cases "sn_alerted s")
     (auto simp: sn_consumerGet_def Let_def barrier.wait_alert [OF assms(1)] split: option.splits
      dest!: barrier.wait_available [OF assms(1)])

text \<open>One item published, and the second of two consumers asks for it.\<close>

definition example_supplierN :: "supplyItem supplierN" where
  "example_supplierN =
    \<lparr>sn_ringSize = 2, sn_consumerCount = 2,
     sn_ring = \<lparr>rb_entries = replicate 34 blank_item, rb_indexMask = 1, rb_bufferSize = 2,
                rb_sequencer = \<lparr>ss_nextValue = 1, ss_cachedValue = -1, ss_cursor = 0, ss_gating = [-1, -1],
                                 ss_bufferSize = 2\<rparr>\<rparr>,
     sn_alerted = False, sn_nextConsumer = [0, 0], sn_availableConsumer = [-1, -1], sn_orderedRelease = False,
     sn_release_states = [release_init, release_init]\<rparr>"

theorem consumerGet_in_order_witness:
  "\<exists>i s'. sn_consumerGet cursor_barrier field_item_ops example_supplierN 1 = Inr (Some i, s')
     \<and> i = rb_index (sn_ring example_supplierN) 0 \<and> sn_nextConsumer s' = [0, 1]"
proof -
  have run: "\<exists>i s'. sn_consumerGet cursor_barrier field_item_ops example_supplierN 1 = Inr (Some i, s')"
    by (simp add: sn_consumerGet_def cursor_barrier_def example_supplierN_def Let_def)
  show ?thesis
    using consumerGet_in_order [OF at_cursor.barrier_axioms, of 1 example_supplierN field_item_ops] run
    by (auto simp: example_supplierN_def)
qed

end
