(* ===== verification/Worker_Pool.thy ===== *)
theory Worker_Pool
  imports Ring_Buffer "HOL-Library.Multiset"
begin

text \<open>
  \<open>WorkProcessor.h\<close> and \<open>WorkerPool.h\<close>: processors that share one work sequence and claim
  the events of a ring from it by compare-and-set. A call of \<open>run\<close> is its locals and the point
  it has reached; \<open>wk_access\<close> is its next access to shared memory. Since \<open>run\<close> only tests and
  sets \<open>m_running\<close>, several calls of one processor can be under way after a \<open>halt\<close>. The
  calls whose result the pool cannot know, \<open>waitFor\<close> of the barrier and the handlers, return
  what the action says. The calls, one producer on the single-producer sequencer and the
  owner of the pool interleave freely in \<open>wp_run\<close>.
\<close>

section \<open>A processor and the calls of its run\<close>

text \<open>
  The points of \<open>run\<close>: \<open>Starting\<close> is after the exchange of \<open>m_running\<close>, \<open>ReadWork\<close> to
  \<open>CasWork\<close> are the loop that claims a sequence, \<open>Decide\<close> the test of the cached sequence,
  \<open>Closing\<close> the way out after a halt. A call that has returned or was left by an exception is
  \<open>Stopped\<close>; in the second case the flag of its processor is still set.
\<close>

datatype wk_pc = Stopped | Starting | ReadWork | SetSequence | CasWork | Decide | WaitBarrier | OnEvent
  | Closing | Crashed

record work_processor =
  wk_sequence :: int
  wk_running :: bool

record run_call =
  rn_worker :: nat
  rn_next :: int
  rn_cached :: int
  rn_event :: bool
  rn_pc :: wk_pc

definition INT64_MIN :: int where "INT64_MIN = - (2 ^ 63)"
definition INT64_MAX :: int where "INT64_MAX = 2 ^ 63 - 1"

definition wk_create :: work_processor where
  "wk_create = \<lparr>wk_sequence = InitialCursorValue, wk_running = False\<rparr>"

text \<open>
  What a call outside of the pool did. The flag of an exception says whether the handler it
  is reported to throws as well, which ends \<open>run\<close>.
\<close>

datatype wait_result = Available int | TimesOut bool | IsAlerted | WaitFails bool
datatype outcome = Returns | ThrowsTimeout bool | ThrowsAlert | ThrowsError bool

text \<open>
  The head of \<open>run\<close> of processor \<open>k\<close>; \<open>None\<close> is "Thread is already running". The locals
  are those the declarations give, \<open>nextSequence\<close> apart, which \<open>wk_start\<close> reads.
\<close>

definition wk_run :: "nat \<Rightarrow> work_processor \<Rightarrow> (work_processor \<times> run_call) option" where
  "wk_run k w =
    (if wk_running w then None
     else Some (w\<lparr>wk_running := True\<rparr>,
       \<lparr>rn_worker = k, rn_next = 0, rn_cached = INT64_MIN, rn_event = False, rn_pc = Starting\<rparr>))"

text \<open>The way to the loop; the flag says whether an exception leaves \<open>notifyStart\<close>.\<close>

definition wk_start :: "bool \<Rightarrow> work_processor \<Rightarrow> run_call \<Rightarrow> run_call" where
  "wk_start escapes w c =
     c\<lparr>rn_next := wk_sequence w, rn_pc := (if escapes then Stopped else ReadWork)\<rparr>"

fun wk_access :: "int \<Rightarrow> work_processor \<Rightarrow> run_call \<Rightarrow> int \<times> work_processor \<times> run_call" where
  "wk_access work w c = (case rn_pc c of
     ReadWork \<Rightarrow> (work, w, c\<lparr>rn_next := work + 1, rn_pc := SetSequence\<rparr>)
   | SetSequence \<Rightarrow> (work, w\<lparr>wk_sequence := rn_next c - 1\<rparr>, c\<lparr>rn_pc := CasWork\<rparr>)
   | CasWork \<Rightarrow> (if work = rn_next c - 1 then (rn_next c, w, c\<lparr>rn_pc := Decide\<rparr>)
                else (work, w, c\<lparr>rn_pc := ReadWork\<rparr>))
   | Decide \<Rightarrow> (work, w, if rn_cached c \<ge> rn_next c then c\<lparr>rn_event := True, rn_pc := OnEvent\<rparr>
                         else c\<lparr>rn_pc := WaitBarrier\<rparr>)
   | _ \<Rightarrow> (work, w, c))"

definition wk_alert :: "work_processor \<Rightarrow> run_call \<Rightarrow> run_call" where
  "wk_alert w c = c\<lparr>rn_pc := (if wk_running w then Decide else Closing)\<rparr>"

definition wk_timeout :: "bool \<Rightarrow> run_call \<Rightarrow> run_call" where
  "wk_timeout escapes c = c\<lparr>rn_pc := (if escapes then Stopped else Decide)\<rparr>"

text \<open>\<open>handleEventException\<close> gets \<open>*eventRef\<close>, a null pointer before the first event.\<close>

definition wk_error :: "bool \<Rightarrow> run_call \<Rightarrow> run_call" where
  "wk_error escapes c =
     c\<lparr>rn_pc := (if \<not> rn_event c then Crashed else if escapes then Stopped else ReadWork)\<rparr>"

fun wk_wait :: "wait_result \<Rightarrow> work_processor \<Rightarrow> run_call \<Rightarrow> run_call" where
  "wk_wait (Available a) w c = c\<lparr>rn_cached := a, rn_pc := Decide\<rparr>"
| "wk_wait (TimesOut escapes) w c = wk_timeout escapes c"
| "wk_wait IsAlerted w c = wk_alert w c"
| "wk_wait (WaitFails escapes) w c = wk_error escapes c"

fun wk_return :: "outcome \<Rightarrow> work_processor \<Rightarrow> run_call \<Rightarrow> run_call" where
  "wk_return Returns w c = c\<lparr>rn_pc := ReadWork\<rparr>"
| "wk_return (ThrowsTimeout escapes) w c = wk_timeout escapes c"
| "wk_return ThrowsAlert w c = wk_alert w c"
| "wk_return (ThrowsError escapes) w c = wk_error escapes c"

text \<open>The end of \<open>run\<close> after the loop.\<close>

definition wk_close :: "bool \<Rightarrow> work_processor \<Rightarrow> work_processor" where
  "wk_close escapes w = w\<lparr>wk_running := (escapes \<and> wk_running w)\<rparr>"

text \<open>\<open>EventReleaser::release\<close>.\<close>

definition wk_release :: "work_processor \<Rightarrow> work_processor" where
  "wk_release w = w\<lparr>wk_sequence := INT64_MAX\<rparr>"

text \<open>The sequence a call has claimed and not given up.\<close>

definition claim_of :: "run_call \<Rightarrow> int list" where
  "claim_of c = (if rn_pc c \<in> {Decide, WaitBarrier, OnEvent} then [rn_next c] else [])"

section \<open>The pool\<close>

text \<open>
  \<open>wp_calls\<close> are the calls of \<open>run\<close> so far, \<open>wp_scan\<close> is what the producer has read of the
  gating sequences. The last four fields only record history: the sequences whose event was
  handled and those a call gave up, and whether a processor was run while an earlier call of
  its \<open>run\<close> was still under way, or its sequence was set by \<open>EventReleaser\<close>.
\<close>

record pool =
  wp_work :: int
  wp_workers :: "work_processor list"
  wp_calls :: "run_call list"
  wp_alerted :: bool
  wp_running :: bool
  wp_sequencer :: single_seq
  wp_scan :: "int list"
  wp_completed :: "int list"
  wp_abandoned :: "int list"
  wp_overlapped :: bool
  wp_released :: bool

definition WorkerPool :: "nat \<Rightarrow> single_seq \<Rightarrow> pool" where
  "WorkerPool n sqr = \<lparr>wp_work = InitialCursorValue, wp_workers = replicate n wk_create, wp_calls = [],
     wp_alerted = False, wp_running = False, wp_sequencer = sqr, wp_scan = [],
     wp_completed = [], wp_abandoned = [], wp_overlapped = False, wp_released = False\<rparr>"

definition getWorkerSequences :: "pool \<Rightarrow> int list" where
  "getWorkerSequences S = map wk_sequence (wp_workers S) @ [wp_work S]"

text \<open>
  \<open>start\<close>; \<open>None\<close> is "WorkerPool has already been started". The executor calls \<open>run\<close> of
  each processor, which is the action \<open>Run\<close> below.
\<close>

definition wp_start :: "pool \<Rightarrow> pool option" where
  "wp_start S =
    (if wp_running S then None
     else let cursor = ss_cursor (wp_sequencer S) in
       Some (S\<lparr>wp_running := True, wp_work := cursor,
               wp_workers := map (wk_sequence_update (\<lambda>_. cursor)) (wp_workers S)\<rparr>))"

definition wk_halt :: "nat \<Rightarrow> pool \<Rightarrow> pool" where
  "wk_halt k S = S\<lparr>wp_workers := (wp_workers S)[k := (wp_workers S ! k)\<lparr>wk_running := False\<rparr>],
                   wp_alerted := True\<rparr>"

definition wp_halt :: "pool \<Rightarrow> pool" where
  "wp_halt S = (fold wk_halt [0..<length (wp_workers S)] S)\<lparr>wp_running := False\<rparr>"

text \<open>The loop of \<open>drainAndHalt\<close> on what it reads on successive turns.\<close>

fun wp_drained :: "(int list \<Rightarrow> int \<Rightarrow> int) \<Rightarrow> (int \<times> int list) list \<Rightarrow> bool" where
  "wp_drained minSeq [] = False"
| "wp_drained minSeq ((cursor, sequences) # reads) =
     (if cursor > minSeq sequences INT64_MAX then wp_drained minSeq reads else True)"

definition wp_drainAndHalt :: "(int list \<Rightarrow> int \<Rightarrow> int) \<Rightarrow> (int \<times> int list) list \<Rightarrow> pool \<Rightarrow> pool option" where
  "wp_drainAndHalt minSeq reads S = (if wp_drained minSeq reads then Some (wp_halt S) else None)"

section \<open>Runs of the pool\<close>

text \<open>
  What can happen next. \<open>Run\<close>, \<open>HaltWorker\<close> and \<open>Release\<close> name a processor, the other
  actions of a worker one of the calls. The producer looks at the gating sequences one by one,
  in any order, before it claims; \<open>ScanStart\<close> begins a look, \<open>ScanRead\<close> reads one of them anew.
\<close>

datatype wp_action = Run nat | Start nat bool | Access nat | WaitReturns nat wait_result
  | EventReturns nat outcome | Close nat bool | HaltWorker nat | HaltPool | Release nat | ScanStart
  | ScanRead nat | ClaimNext int | PublishTo int

text \<open>The processor of a call.\<close>

definition wp_worker :: "pool \<Rightarrow> nat \<Rightarrow> work_processor" where
  "wp_worker S j = wp_workers S ! rn_worker (wp_calls S ! j)"

definition wp_set :: "nat \<Rightarrow> work_processor \<Rightarrow> run_call \<Rightarrow> pool \<Rightarrow> pool" where
  "wp_set j w c S = S\<lparr>wp_workers := (wp_workers S)[rn_worker c := w], wp_calls := (wp_calls S)[j := c]\<rparr>"

text \<open>A call gives up its claim: it goes on to the next, or it does not.\<close>

definition wp_leave :: "nat \<Rightarrow> bool \<Rightarrow> run_call \<Rightarrow> pool \<Rightarrow> pool" where
  "wp_leave j finished c S =
    (let old = claim_of (wp_calls S ! j); S = S\<lparr>wp_calls := (wp_calls S)[j := c]\<rparr> in
     if claim_of c \<noteq> [] then S
     else if finished then S\<lparr>wp_completed := wp_completed S @ old\<rparr>
     else S\<lparr>wp_abandoned := wp_abandoned S @ old\<rparr>)"

text \<open>
  One action; \<open>None\<close> when it cannot happen. The barrier returns a published sequence and
  throws \<open>AlertException\<close> only when alerted.
\<close>

fun wp_do :: "(int list \<Rightarrow> int \<Rightarrow> int) \<Rightarrow> wp_action \<Rightarrow> pool \<Rightarrow> pool option" where
  "wp_do minSeq (Run k) S =
    (if k < length (wp_workers S)
     then map_option (\<lambda>(w, c). S\<lparr>wp_workers := (wp_workers S)[k := w], wp_calls := wp_calls S @ [c],
              wp_overlapped := (wp_overlapped S \<or> (\<exists>c \<in> set (wp_calls S). rn_worker c = k \<and> rn_pc c \<noteq> Stopped))\<rparr>)
            (wk_run k (wp_workers S ! k))
     else None)"
| "wp_do minSeq (Start j escapes) S =
    (if j < length (wp_calls S) \<and> rn_pc (wp_calls S ! j) = Starting
     then Some (S\<lparr>wp_calls := (wp_calls S)[j := wk_start escapes (wp_worker S j) (wp_calls S ! j)],
                  wp_alerted := False\<rparr>)
     else None)"
| "wp_do minSeq (Access j) S =
    (if j < length (wp_calls S) \<and> rn_pc (wp_calls S ! j) \<in> {ReadWork, SetSequence, CasWork, Decide}
     then let (work, w, c) = wk_access (wp_work S) (wp_worker S j) (wp_calls S ! j)
          in Some ((wp_set j w c S)\<lparr>wp_work := work\<rparr>)
     else None)"
| "wp_do minSeq (WaitReturns j r) S =
    (if j < length (wp_calls S) \<and> rn_pc (wp_calls S ! j) = WaitBarrier
        \<and> (case r of Available a \<Rightarrow> a \<le> ss_cursor (wp_sequencer S) | IsAlerted \<Rightarrow> wp_alerted S | _ \<Rightarrow> True)
     then Some (wp_leave j False (wk_wait r (wp_worker S j) (wp_calls S ! j)) S)
     else None)"
| "wp_do minSeq (EventReturns j r) S =
    (if j < length (wp_calls S) \<and> rn_pc (wp_calls S ! j) = OnEvent
     then let c = wk_return r (wp_worker S j) (wp_calls S ! j) in Some (wp_leave j (rn_pc c = ReadWork) c S)
     else None)"
| "wp_do minSeq (Close j escapes) S =
    (if j < length (wp_calls S) \<and> rn_pc (wp_calls S ! j) = Closing
     then Some (wp_set j (wk_close escapes (wp_worker S j)) ((wp_calls S ! j)\<lparr>rn_pc := Stopped\<rparr>) S) else None)"
| "wp_do minSeq (HaltWorker k) S = (if k < length (wp_workers S) then Some (wk_halt k S) else None)"
| "wp_do minSeq HaltPool S = Some (wp_halt S)"
| "wp_do minSeq (Release k) S =
    (if k < length (wp_workers S)
     then Some (S\<lparr>wp_workers := (wp_workers S)[k := wk_release (wp_workers S ! k)], wp_released := True\<rparr>) else None)"
| "wp_do minSeq ScanStart S = Some (S\<lparr>wp_scan := getWorkerSequences S\<rparr>)"
| "wp_do minSeq (ScanRead i) S =
    (if i < length (wp_scan S) then Some (S\<lparr>wp_scan := (wp_scan S)[i := getWorkerSequences S ! i]\<rparr>) else None)"
| "wp_do minSeq (ClaimNext n) S =
    (if wp_scan S = [] then None
     else Some (S\<lparr>wp_sequencer := snd (ss_tryNext minSeq ((wp_sequencer S)\<lparr>ss_gating := wp_scan S\<rparr>) n),
                  wp_scan := []\<rparr>))"
| "wp_do minSeq (PublishTo x) S =
    (if ss_cursor (wp_sequencer S) \<le> x \<and> x \<le> ss_nextValue (wp_sequencer S)
     then Some (S\<lparr>wp_sequencer := ss_publish (wp_sequencer S) x\<rparr>) else None)"

fun wp_run :: "(int list \<Rightarrow> int \<Rightarrow> int) \<Rightarrow> wp_action list \<Rightarrow> pool \<Rightarrow> pool option" where
  "wp_run minSeq [] S = Some S"
| "wp_run minSeq (a # as) S = Option.bind (wp_do minSeq a S) (wp_run minSeq as)"

section \<open>The invariant\<close>

text \<open>
  What holds of a call whatever happens, and what the sequence of its processor guarantees as
  long as no two calls of one processor overlap and no sequence is released.
\<close>

definition call_ok :: "int \<Rightarrow> int \<Rightarrow> run_call \<Rightarrow> bool" where
  "call_ok work cursor c \<longleftrightarrow> (rn_pc c \<in> {SetSequence, CasWork} \<longrightarrow> rn_next c \<le> work + 1)
     \<and> (claim_of c \<noteq> [] \<longrightarrow> rn_next c \<le> work) \<and> rn_cached c \<le> cursor
     \<and> (rn_pc c = OnEvent \<longrightarrow> rn_next c \<le> cursor)"

definition guard_ok :: "int \<Rightarrow> run_call \<Rightarrow> bool" where
  "guard_ok s c \<longleftrightarrow> (rn_pc c = SetSequence \<longrightarrow> s < rn_next c)
     \<and> (rn_pc c = CasWork \<or> claim_of c \<noteq> [] \<longrightarrow> s = rn_next c - 1)"

definition seq_ok :: "single_seq \<Rightarrow> int \<Rightarrow> bool" where
  "seq_ok s g \<longleftrightarrow> ss_cachedValue s \<le> g \<and> ss_nextValue s - ss_bufferSize s \<le> g"

text \<open>\<open>c0\<close> is the cursor at which the pool started.\<close>

definition wp_exact :: "int \<Rightarrow> pool \<Rightarrow> bool" where
  "wp_exact c0 S \<longleftrightarrow>
     (\<forall>c \<in> set (wp_calls S). rn_worker c < length (wp_workers S)
        \<and> call_ok (wp_work S) (ss_cursor (wp_sequencer S)) c)
     \<and> INT64_MIN \<le> ss_cursor (wp_sequencer S) \<and> c0 \<le> wp_work S
     \<and> mset (wp_completed S @ wp_abandoned S @ concat (map claim_of (wp_calls S))) = mset [c0 + 1..wp_work S]"

definition one_call :: "run_call list \<Rightarrow> bool" where
  "one_call cs \<longleftrightarrow> (\<forall>i < length cs. \<forall>j < length cs. i \<noteq> j \<and> rn_worker (cs ! i) = rn_worker (cs ! j)
     \<longrightarrow> rn_pc (cs ! i) = Stopped \<or> rn_pc (cs ! j) = Stopped)"

definition wp_guarded :: "pool \<Rightarrow> bool" where
  "wp_guarded S \<longleftrightarrow>
     (\<forall>s \<in> set (map wk_sequence (wp_workers S)). s \<le> wp_work S)
     \<and> (\<forall>c \<in> set (wp_calls S). guard_ok (map wk_sequence (wp_workers S) ! rn_worker c) c)
     \<and> one_call (wp_calls S)
     \<and> (\<forall>g \<in> set (getWorkerSequences S). seq_ok (wp_sequencer S) g)
     \<and> (wp_scan S = [] \<or> list_all2 (\<le>) (wp_scan S) (getWorkerSequences S))"

definition wp_inv :: "int \<Rightarrow> pool \<Rightarrow> bool" where
  "wp_inv c0 S \<longleftrightarrow> wp_exact c0 S \<and> (\<not> wp_overlapped S \<and> \<not> wp_released S \<longrightarrow> wp_guarded S)"

lemma mset_concat_update:
  "k < length xs \<Longrightarrow>
   mset (concat (map f (xs[k := y]))) + mset (f (xs ! k)) = mset (concat (map f xs)) + mset (f y)"
proof (induction xs arbitrary: k)
  case (Cons x xs)
  then show ?case by (cases k) (auto simp: ac_simps)
qed simp

lemma mset_exchange:
  assumes "c' + a' + f' = c + a + f + u" and "h' + f = h + f'" and "c + a + h = r" and "r' = r + u"
  shows "c' + a' + h' = (r' :: 'a multiset)"
proof (rule multiset_eqI)
  fix x
  have "count (c' + a' + f') x = count (c + a + f + u) x" "count (h' + f) x = count (h + f') x"
    "count (c + a + h) x = count r x" "count r' x = count (r + u) x"
    using assms by simp_all
  then show "count (c' + a' + h') x = count r' x" by simp
qed

lemma upto_append: "a \<le> b \<Longrightarrow> b \<le> c \<Longrightarrow> [a + 1..c] = [a + 1..b] @ [b + 1..c]" for a b c :: int
  using upto_split1 [of "a + 1" "b + 1" c] by (cases "b = c") simp_all

lemma call_ok_mono: "call_ok work cursor c \<Longrightarrow> work \<le> work' \<Longrightarrow> cursor \<le> cursor' \<Longrightarrow> call_ok work' cursor' c"
  by (auto simp: call_ok_def)

lemma length_getWorkerSequences [simp]: "length (getWorkerSequences S) = Suc (length (wp_workers S))"
  by (simp add: getWorkerSequences_def)

lemma getWorkerSequences_mono:
  assumes "k < length (wp_workers S)"
    and "map wk_sequence (wp_workers S') = (map wk_sequence (wp_workers S))[k := s]"
    and "map wk_sequence (wp_workers S) ! k \<le> s" and "wp_work S \<le> wp_work S'"
  shows "list_all2 (\<le>) (getWorkerSequences S) (getWorkerSequences S')"
  unfolding getWorkerSequences_def assms(2)
  by (rule list_all2_appendI) (use assms(1,3,4) in \<open>simp_all add: list_all2_conv_all_nth nth_list_update\<close>)

lemma seq_ok_mono: "list_all2 (\<le>) gs gs' \<Longrightarrow> \<forall>g \<in> set gs. seq_ok s g \<Longrightarrow> \<forall>g \<in> set gs'. seq_ok s g"
  unfolding seq_ok_def ball_conj_distrib using list_all2_le_set by blast

lemma one_call_update:
  assumes "one_call cs" and "j < length cs" and "rn_worker c = rn_worker (cs ! j)"
    and "rn_pc (cs ! j) = Stopped \<Longrightarrow> rn_pc c = Stopped"
  shows "one_call (cs[j := c])"
  using assms unfolding one_call_def by (metis length_list_update nth_list_update)

lemma one_call_append:
  assumes "one_call cs" and "\<forall>d \<in> set cs. rn_worker d = rn_worker c \<longrightarrow> rn_pc d = Stopped"
  shows "one_call (cs @ [c])"
  using assms by (fastforce simp: one_call_def nth_append less_Suc_eq)

text \<open>One call goes on, and what it claims or gives up is accounted for.\<close>

lemma wp_exact_call:
  assumes inv: "wp_exact c0 S" and j: "j < length (wp_calls S)"
    and S': "wp_calls S' = (wp_calls S)[j := c]" "length (wp_workers S') = length (wp_workers S)"
      "wp_sequencer S' = wp_sequencer S"
    and ok: "rn_worker c < length (wp_workers S)" "call_ok (wp_work S') (ss_cursor (wp_sequencer S)) c"
    and mono: "wp_work S \<le> wp_work S'"
    and claims: "mset (wp_completed S') + mset (wp_abandoned S') + mset (claim_of c)
      = mset (wp_completed S) + mset (wp_abandoned S) + mset (claim_of (wp_calls S ! j))
        + mset [wp_work S + 1..wp_work S']"
  shows "wp_exact c0 S'"
proof -
  let ?held = "\<lambda>S. mset (concat (map claim_of (wp_calls S)))"
  have calls: "\<forall>c \<in> set (wp_calls S'). rn_worker c < length (wp_workers S)
      \<and> call_ok (wp_work S') (ss_cursor (wp_sequencer S)) c"
    using inv ok call_ok_mono [OF _ mono order_refl] set_update_subset_insert [of "wp_calls S" j c]
    by (auto simp: wp_exact_def S'(1))
  have c0: "c0 \<le> wp_work S" using inv by (simp add: wp_exact_def)
  have held: "?held S' + mset (claim_of (wp_calls S ! j)) = ?held S + mset (claim_of c)"
    unfolding S'(1) by (rule mset_concat_update [OF j])
  have sum: "mset (wp_completed S) + mset (wp_abandoned S) + ?held S = mset [c0 + 1..wp_work S]"
    using inv by (simp add: wp_exact_def add.assoc)
  have "mset [c0 + 1..wp_work S'] = mset [c0 + 1..wp_work S] + mset [wp_work S + 1..wp_work S']"
    by (simp add: upto_append [OF c0 mono])
  with claims held sum have "mset (wp_completed S') + mset (wp_abandoned S') + ?held S' = mset [c0 + 1..wp_work S']"
    by (rule mset_exchange)
  then show ?thesis using inv calls c0 mono by (simp add: wp_exact_def S' add.assoc)
qed

lemma wp_guarded_call:
  assumes inv: "wp_guarded S" and j: "j < length (wp_calls S)" and k: "rn_worker c < length (wp_workers S)"
    and S': "wp_calls S' = (wp_calls S)[j := c]" "wp_sequencer S' = wp_sequencer S" "wp_scan S' = wp_scan S"
      "map wk_sequence (wp_workers S') = (map wk_sequence (wp_workers S))[rn_worker c := s]"
    and c: "rn_worker c = rn_worker (wp_calls S ! j)" "rn_pc (wp_calls S ! j) \<noteq> Stopped" "guard_ok s c"
    and mono: "map wk_sequence (wp_workers S) ! rn_worker c \<le> s" "wp_work S \<le> wp_work S'" "s \<le> wp_work S'"
  shows "wp_guarded S'"
proof -
  let ?seqs = "map wk_sequence (wp_workers S)"
  have gates: "list_all2 (\<le>) (getWorkerSequences S) (getWorkerSequences S')"
    by (rule getWorkerSequences_mono [OF k S'(4) mono(1,2)])
  have "s' \<le> wp_work S'" if "s' \<in> set (?seqs[rn_worker c := s])" for s'
    using that inv mono(2,3) set_update_subset_insert [of ?seqs "rn_worker c" s]
    by (fastforce simp: wp_guarded_def)
  moreover have "guard_ok (?seqs[rn_worker c := s] ! rn_worker d) d" if d: "d \<in> set ((wp_calls S)[j := c])" for d
  proof -
    obtain i where i: "i < length (wp_calls S)" "d = (if i = j then c else wp_calls S ! i)"
      using d by (auto simp: in_set_conv_nth nth_list_update split: if_splits)
    show ?thesis
    proof (cases "i = j \<or> rn_worker d \<noteq> rn_worker c")
      case True
      have "guard_ok (?seqs ! rn_worker (wp_calls S ! i)) (wp_calls S ! i)"
        using inv i(1) by (simp add: wp_guarded_def)
      with True i c(3) k show ?thesis by (cases "i = j") simp_all
    next
      case False
      then have "rn_pc d = Stopped"
        using inv i j c(1,2) by (auto simp: wp_guarded_def one_call_def)
      then show ?thesis by (simp add: guard_ok_def claim_of_def)
    qed
  qed
  moreover have "wp_scan S = [] \<or> list_all2 (\<le>) (wp_scan S) (getWorkerSequences S')"
    using inv gates list_all2_trans [of "(\<le>)" "(\<le>)" "(\<le>)" "wp_scan S" "getWorkerSequences S" "getWorkerSequences S'"]
    by (auto simp: wp_guarded_def)
  moreover have "one_call ((wp_calls S)[j := c])"
    using inv c by (intro one_call_update [OF _ j]) (simp_all add: wp_guarded_def)
  moreover have "\<forall>g \<in> set (getWorkerSequences S'). seq_ok (wp_sequencer S) g"
    using inv seq_ok_mono [OF gates] by (simp add: wp_guarded_def)
  ultimately show ?thesis unfolding wp_guarded_def S' by blast
qed

lemma wp_inv_call:
  assumes inv: "wp_inv c0 S" and j: "j < length (wp_calls S)"
    and S': "wp_calls S' = (wp_calls S)[j := c]" "wp_sequencer S' = wp_sequencer S" "wp_scan S' = wp_scan S"
      "map wk_sequence (wp_workers S') = (map wk_sequence (wp_workers S))[rn_worker c := s]"
      "wp_overlapped S' = wp_overlapped S" "wp_released S' = wp_released S"
    and c: "rn_worker c = rn_worker (wp_calls S ! j)" "rn_pc (wp_calls S ! j) \<noteq> Stopped"
      "call_ok (wp_work S') (ss_cursor (wp_sequencer S)) c"
    and mono: "wp_work S \<le> wp_work S'"
    and guard: "guard_ok (wk_sequence (wp_worker S j)) (wp_calls S ! j) \<Longrightarrow> wk_sequence (wp_worker S j) \<le> wp_work S \<Longrightarrow>
      guard_ok s c \<and> wk_sequence (wp_worker S j) \<le> s \<and> s \<le> wp_work S'"
    and claims: "mset (wp_completed S') + mset (wp_abandoned S') + mset (claim_of c)
      = mset (wp_completed S) + mset (wp_abandoned S) + mset (claim_of (wp_calls S ! j))
        + mset [wp_work S + 1..wp_work S']"
  shows "wp_inv c0 S'"
proof -
  have k: "rn_worker c < length (wp_workers S)" using inv j c(1) by (simp add: wp_inv_def wp_exact_def)
  have "length (wp_workers S') = length (wp_workers S)"
    using arg_cong [OF S'(4), of length] by simp
  then have "wp_exact c0 S'"
    using inv S' by (intro wp_exact_call [OF _ j S'(1) _ S'(2) k c(3) mono claims]) (simp_all add: wp_inv_def)
  moreover have "wp_guarded S'" if g: "wp_guarded S"
  proof -
    have "guard_ok (map wk_sequence (wp_workers S) ! rn_worker (wp_calls S ! j)) (wp_calls S ! j)"
      "wk_sequence (wp_workers S ! rn_worker c) \<le> wp_work S"
      using g j k by (simp_all add: wp_guarded_def)
    then have "guard_ok (wk_sequence (wp_worker S j)) (wp_calls S ! j)" "wk_sequence (wp_worker S j) \<le> wp_work S"
      using k c(1) by (simp_all add: wp_worker_def)
    from guard [OF this] show ?thesis
      using k c(1) by (intro wp_guarded_call [OF g j k S'(1-4) c(1,2) _ _ mono]) (simp_all add: wp_worker_def)
  qed
  ultimately show ?thesis using inv S'(5,6) by (simp add: wp_inv_def)
qed

text \<open>A call that leaves the sequence of its processor and the work sequence as they are.\<close>

lemma wp_inv_stay:
  assumes inv: "wp_inv c0 S" and j: "j < length (wp_calls S)"
    and S': "wp_calls S' = (wp_calls S)[j := c]" "wp_sequencer S' = wp_sequencer S" "wp_scan S' = wp_scan S"
      "map wk_sequence (wp_workers S') = map wk_sequence (wp_workers S)"
      "wp_overlapped S' = wp_overlapped S" "wp_released S' = wp_released S" "wp_work S' = wp_work S"
    and c: "rn_worker c = rn_worker (wp_calls S ! j)" "rn_pc (wp_calls S ! j) \<noteq> Stopped"
      "call_ok (wp_work S) (ss_cursor (wp_sequencer S)) c" "\<And>s. guard_ok s (wp_calls S ! j) \<Longrightarrow> guard_ok s c"
    and claims: "mset (wp_completed S') + mset (wp_abandoned S') + mset (claim_of c)
      = mset (wp_completed S) + mset (wp_abandoned S) + mset (claim_of (wp_calls S ! j))"
  shows "wp_inv c0 S'"
proof (rule wp_inv_call [OF inv j, where c = c and s = "wk_sequence (wp_worker S j)"])
  have "rn_worker c < length (wp_workers S)" using inv j c(1) by (simp add: wp_inv_def wp_exact_def)
  then have "(map wk_sequence (wp_workers S))[rn_worker c := wk_sequence (wp_worker S j)] = map wk_sequence (wp_workers S)"
    by (intro list_update_same_conv [THEN iffD2]) (simp_all add: wp_worker_def c(1))
  then show "map wk_sequence (wp_workers S') = (map wk_sequence (wp_workers S))[rn_worker c := wk_sequence (wp_worker S j)]"
    by (simp add: S'(4))
qed (use S' c claims in simp_all)

lemma wp_inv_leave:
  assumes "wp_inv c0 S" and "j < length (wp_calls S)" and "rn_pc (wp_calls S ! j) \<noteq> Stopped"
    and "rn_worker c = rn_worker (wp_calls S ! j)" and "call_ok (wp_work S) (ss_cursor (wp_sequencer S)) c"
    and "claim_of c = [] \<or> claim_of c = claim_of (wp_calls S ! j)"
    and "\<And>s. guard_ok s (wp_calls S ! j) \<Longrightarrow> guard_ok s c"
  shows "wp_inv c0 (wp_leave j finished c S)"
  by (rule wp_inv_stay [OF assms(1,2), where c = c])
     (use assms(3-7) in \<open>auto simp: wp_leave_def Let_def ac_simps\<close>)

text \<open>Every access keeps a call well-formed and moves no gating sequence back.\<close>

lemmas call_defs = call_ok_def guard_ok_def claim_of_def

lemma wk_access_ok:
  assumes "call_ok work cursor c" and "wk_access work w c = (work', w', c')"
  shows "call_ok work' cursor c'" "rn_worker c' = rn_worker c" "work \<le> work'"
    "mset (claim_of c') = mset (claim_of c) + mset [work + 1..work']"
  using assms by (auto simp: call_ok_def claim_of_def split: wk_pc.splits if_splits)

lemma wk_access_guard:
  assumes "call_ok work cursor c" and "wk_access work w c = (work', w', c')"
    and "guard_ok (wk_sequence w) c" and "wk_sequence w \<le> work"
  shows "guard_ok (wk_sequence w') c' \<and> wk_sequence w \<le> wk_sequence w' \<and> wk_sequence w' \<le> work'"
  using assms by (auto simp: call_defs split: wk_pc.splits if_splits)

lemma wk_wait_ok:
  assumes "call_ok work cursor c" and "rn_pc c = WaitBarrier" and "\<And>a. r = Available a \<Longrightarrow> a \<le> cursor"
  shows "call_ok work cursor (wk_wait r w c)" "rn_worker (wk_wait r w c) = rn_worker c"
    "claim_of (wk_wait r w c) = [] \<or> claim_of (wk_wait r w c) = claim_of c"
    "guard_ok s c \<Longrightarrow> guard_ok s (wk_wait r w c)"
  using assms by (cases r; simp add: call_defs wk_timeout_def wk_alert_def wk_error_def)+

lemma wk_return_ok:
  assumes "call_ok work cursor c" and "rn_pc c = OnEvent"
  shows "call_ok work cursor (wk_return r w c)" "rn_worker (wk_return r w c) = rn_worker c"
    "claim_of (wk_return r w c) = [] \<or> claim_of (wk_return r w c) = claim_of c"
    "guard_ok s c \<Longrightarrow> guard_ok s (wk_return r w c)"
  using assms by (cases r; simp add: call_defs wk_timeout_def wk_alert_def wk_error_def)+

text \<open>What a halt changes is not in the invariant.\<close>

lemma wp_inv_cong:
  assumes "wp_inv c0 S" and "map wk_sequence (wp_workers S') = map wk_sequence (wp_workers S)"
    and "wp_calls S' = wp_calls S" "wp_work S' = wp_work S" "wp_sequencer S' = wp_sequencer S" "wp_scan S' = wp_scan S"
      "wp_completed S' = wp_completed S" "wp_abandoned S' = wp_abandoned S" "wp_overlapped S' = wp_overlapped S"
      "wp_released S' = wp_released S"
  shows "wp_inv c0 S'"
proof -
  have "length (wp_workers S') = length (wp_workers S)" using arg_cong [OF assms(2), of length] by simp
  then show ?thesis
    using assms(1) unfolding wp_inv_def wp_exact_def wp_guarded_def getWorkerSequences_def assms(2-)
    by (simp del: nth_map)
qed

lemma wk_halt_same:
  "map wk_sequence (wp_workers (wk_halt k S)) = map wk_sequence (wp_workers S)" for k S
  by (cases "k < length (wp_workers S)") (simp_all add: wk_halt_def map_update list_update_same_conv list_update_beyond)

lemma wp_inv_halt_worker: "wp_inv c0 S \<Longrightarrow> wp_inv c0 (wk_halt k S)"
  by (erule wp_inv_cong) (simp_all add: wk_halt_same, simp_all add: wk_halt_def)

lemma wp_inv_halt: "wp_inv c0 S \<Longrightarrow> wp_inv c0 (wp_halt S)"
proof -
  have fold: "wp_inv c0 S \<Longrightarrow> wp_inv c0 (fold wk_halt ks S)" for ks S
    by (induction ks arbitrary: S) (simp_all add: wp_inv_halt_worker)
  assume "wp_inv c0 S"
  from fold [OF this] show ?thesis by (rule wp_inv_cong) (simp_all add: wp_halt_def)
qed

lemma wp_inv_run:
  assumes inv: "wp_inv c0 S" and k: "k < length (wp_workers S)" and w: "wk_run k (wp_workers S ! k) = Some (w, c)"
    and S': "S' = S\<lparr>wp_workers := (wp_workers S)[k := w], wp_calls := wp_calls S @ [c],
      wp_overlapped := (wp_overlapped S \<or> (\<exists>c \<in> set (wp_calls S). rn_worker c = k \<and> rn_pc c \<noteq> Stopped))\<rparr>"
  shows "wp_inv c0 S'"
proof -
  have c: "rn_worker c = k" "claim_of c = []" "guard_ok s c" "rn_cached c = INT64_MIN" "rn_pc c = Starting" for s
    using w by (auto simp: wk_run_def call_defs split: if_splits)
  have seqs: "map wk_sequence ((wp_workers S)[k := w]) = map wk_sequence (wp_workers S)"
    using w k by (auto simp: wk_run_def map_update list_update_same_conv split: if_splits)
  have "wp_exact c0 S'" using inv c k by (auto simp: S' wp_inv_def wp_exact_def call_ok_def)
  moreover have "wp_guarded S'" if "\<not> wp_overlapped S'" "\<not> wp_released S'"
  proof -
    have "wp_guarded S" "\<forall>d \<in> set (wp_calls S). rn_worker d = rn_worker c \<longrightarrow> rn_pc d = Stopped"
      using inv that c(1) by (auto simp: wp_inv_def S')
    then show ?thesis
      using one_call_append [of "wp_calls S" c] c seqs by (simp add: wp_guarded_def S' getWorkerSequences_def del: nth_map)
  qed
  ultimately show ?thesis by (simp add: wp_inv_def)
qed

text \<open>A claim respects what the producer read of the gating sequences, and they only grow.\<close>

lemma seq_ok_tryNext:
  assumes "min_sequence minSeq" and "gs \<noteq> []" and "list_all2 (\<le>) gs gs'" and "\<forall>g \<in> set gs'. seq_ok s g"
    and g: "g \<in> set gs'"
  shows "seq_ok (snd (ss_tryNext minSeq (s\<lparr>ss_gating := gs\<rparr>) n)) g"
proof -
  have "minSeq gs (ss_nextValue s) \<le> g"
    using list_all2_le_set [OF assms(3), of "minSeq gs (ss_nextValue s)"] g min_sequence.min_le [OF assms(1)]
    by blast
  moreover have "seq_ok s g" using assms(4) g by blast
  ultimately show ?thesis
    by (auto simp: ss_tryNext_def ss_hasAvailableCapacity_def seq_ok_def Let_def)
qed

lemma tryNext_cursor [simp]: "ss_cursor (snd (ss_tryNext minSeq s n)) = ss_cursor s"
  by (simp add: ss_tryNext_def ss_hasAvailableCapacity_def Let_def)

lemmas wp_inv_defs = wp_inv_def wp_exact_def wp_guarded_def getWorkerSequences_def

lemma wp_inv_scan: "wp_inv c0 S \<Longrightarrow> wp_inv c0 (S\<lparr>wp_scan := getWorkerSequences S\<rparr>)"
  by (simp add: wp_inv_defs list_all2_refl del: nth_map)

lemma wp_inv_rescan:
  "wp_inv c0 S \<Longrightarrow> i < length (wp_scan S) \<Longrightarrow>
   wp_inv c0 (S\<lparr>wp_scan := (wp_scan S)[i := getWorkerSequences S ! i]\<rparr>)"
  by (auto simp: wp_inv_defs list_all2_conv_all_nth nth_list_update simp del: nth_map)

lemma wp_inv_claim:
  assumes "min_sequence minSeq" and "wp_inv c0 S" and "wp_scan S \<noteq> []"
  shows "wp_inv c0 (S\<lparr>wp_sequencer := snd (ss_tryNext minSeq ((wp_sequencer S)\<lparr>ss_gating := wp_scan S\<rparr>) n),
                      wp_scan := []\<rparr>)"
  using assms(2,3) seq_ok_tryNext [OF assms(1,3), of "getWorkerSequences S" "wp_sequencer S" _ n]
  by (simp add: wp_inv_defs del: nth_map)

lemma wp_inv_publish:
  assumes "wp_inv c0 S" and "ss_cursor (wp_sequencer S) \<le> x"
  shows "wp_inv c0 (S\<lparr>wp_sequencer := ss_publish (wp_sequencer S) x\<rparr>)"
  using assms call_ok_mono [OF _ order_refl assms(2)]
  by (simp add: wp_inv_defs ss_publish_def seq_ok_def del: nth_map)

lemma wp_inv_release:
  "wp_inv c0 S \<Longrightarrow> wp_inv c0 (S\<lparr>wp_workers := (wp_workers S)[k := w], wp_released := True\<rparr>)"
  by (simp add: wp_inv_def wp_exact_def)

lemma wp_do_inv:
  assumes min: "min_sequence minSeq" and inv: "wp_inv c0 S" and act: "wp_do minSeq a S = Some S'"
  shows "wp_inv c0 S'"
proof -
  have ok: "call_ok (wp_work S) (ss_cursor (wp_sequencer S)) (wp_calls S ! j)" "rn_worker (wp_calls S ! j) < length (wp_workers S)"
    if "j < length (wp_calls S)" for j
    using inv that by (simp_all add: wp_inv_def wp_exact_def)
  show ?thesis
  proof (cases a)
    case (Run k)
    then show ?thesis using act wp_inv_run [OF inv] by (auto split: if_splits)
  next
    case (Start j escapes)
    then have j: "j < length (wp_calls S)" and pc: "rn_pc (wp_calls S ! j) = Starting"
      and S': "S' = S\<lparr>wp_calls := (wp_calls S)[j := wk_start escapes (wp_worker S j) (wp_calls S ! j)], wp_alerted := False\<rparr>"
      using act by (auto split: if_splits)
    show ?thesis unfolding S' using ok [OF j] pc
      by (intro wp_inv_stay [OF inv j, where c = "wk_start escapes (wp_worker S j) (wp_calls S ! j)"])
         (auto simp: wk_start_def call_defs)
  next
    case (Access j)
    then obtain work w c where j: "j < length (wp_calls S)" and pc: "rn_pc (wp_calls S ! j) \<noteq> Stopped"
      and c: "wk_access (wp_work S) (wp_worker S j) (wp_calls S ! j) = (work, w, c)" "S' = (wp_set j w c S)\<lparr>wp_work := work\<rparr>"
      using act by (auto simp: Let_def simp del: wk_access.simps split: if_splits prod.splits)
    note access = wk_access_ok [OF ok(1) [OF j] c(1)]
    show ?thesis
      by (rule wp_inv_call [OF inv j, where c = c and s = "wk_sequence w"])
         (use pc access wk_access_guard [OF ok(1) [OF j] c(1)] in \<open>simp_all add: c(2) wp_set_def map_update ac_simps\<close>)
  next
    case (WaitReturns j r)
    then have j: "j < length (wp_calls S)" and pc: "rn_pc (wp_calls S ! j) = WaitBarrier"
      and r: "\<And>a. r = Available a \<Longrightarrow> a \<le> ss_cursor (wp_sequencer S)"
      and S': "S' = wp_leave j False (wk_wait r (wp_worker S j) (wp_calls S ! j)) S"
      using act by (auto split: if_splits)
    show ?thesis unfolding S' using wk_wait_ok [OF ok(1) [OF j] pc r] pc by (intro wp_inv_leave [OF inv j]) simp_all
  next
    case (EventReturns j r)
    then obtain b where j: "j < length (wp_calls S)" and pc: "rn_pc (wp_calls S ! j) = OnEvent"
      and S': "S' = wp_leave j b (wk_return r (wp_worker S j) (wp_calls S ! j)) S"
      using act by (auto simp: Let_def split: if_splits)
    show ?thesis unfolding S' using wk_return_ok [OF ok(1) [OF j] pc] pc by (intro wp_inv_leave [OF inv j]) simp_all
  next
    case (Close j escapes)
    then have j: "j < length (wp_calls S)" and pc: "rn_pc (wp_calls S ! j) = Closing"
      and S': "S' = wp_set j (wk_close escapes (wp_worker S j)) ((wp_calls S ! j)\<lparr>rn_pc := Stopped\<rparr>) S"
      using act by (auto split: if_splits)
    show ?thesis unfolding S' using ok [OF j] pc
      by (intro wp_inv_stay [OF inv j, where c = "(wp_calls S ! j)\<lparr>rn_pc := Stopped\<rparr>"])
         (simp_all add: wp_set_def wk_close_def wp_worker_def call_defs map_update list_update_same_conv)
  next
    case ScanStart
    then show ?thesis using act wp_inv_scan [OF inv] by auto
  next
    case (ScanRead i)
    then show ?thesis using act wp_inv_rescan [OF inv] by (auto split: if_splits)
  next
    case (ClaimNext n)
    then show ?thesis using act wp_inv_claim [OF min inv] by (auto split: if_splits)
  next
    case (PublishTo x)
    then show ?thesis using act wp_inv_publish [OF inv] by (auto split: if_splits)
  qed (use act wp_inv_halt [OF inv] wp_inv_halt_worker [OF inv] wp_inv_release [OF inv] in \<open>auto split: if_splits\<close>)
qed

lemma wp_run_inv:
  assumes "min_sequence minSeq" and "wp_inv c0 S" and "wp_run minSeq as S = Some S'"
  shows "wp_inv c0 S'"
  using assms(2-3)
proof (induction as arbitrary: S)
  case (Cons a as)
  then obtain S1 where "wp_do minSeq a S = Some S1" "wp_run minSeq as S1 = Some S'"
    by (auto split: Option.bind_splits)
  with Cons wp_do_inv [OF assms(1) Cons.prems(1), of a S1] show ?case by auto
qed simp

lemma wp_start_inv:
  assumes "wp_start (WorkerPool n sqr) = Some S" and "seq_ok sqr (ss_cursor sqr)" and "INT64_MIN \<le> ss_cursor sqr"
  shows "wp_inv (ss_cursor sqr) S"
  using assms
  by (auto simp: wp_start_def WorkerPool_def wp_inv_defs one_call_def wk_create_def Let_def)

lemma wp_guarded_drained:
  assumes exact: "wp_exact c0 S" and guarded: "wp_guarded S"
    and reached: "\<forall>g \<in> set (getWorkerSequences S). ss_cursor (wp_sequencer S) \<le> g"
  shows "{c0 + 1..ss_cursor (wp_sequencer S)} \<subseteq> set (wp_completed S) \<union> set (wp_abandoned S)"
proof
  fix x
  assume x: "x \<in> {c0 + 1..ss_cursor (wp_sequencer S)}"
  have "ss_cursor (wp_sequencer S) \<le> wp_work S" using reached by (simp add: getWorkerSequences_def)
  with x have "x \<in># mset [c0 + 1..wp_work S]" by simp
  also have "mset [c0 + 1..wp_work S]
      = mset (wp_completed S @ wp_abandoned S @ concat (map claim_of (wp_calls S)))"
    using exact by (simp add: wp_exact_def)
  finally have "x \<in> set (wp_completed S) \<union> set (wp_abandoned S) \<union> (\<Union>c \<in> set (wp_calls S). set (claim_of c))"
    by simp
  moreover have False if "c \<in> set (wp_calls S)" "x \<in> set (claim_of c)" for c
  proof -
    have k: "rn_worker c < length (wp_workers S)" using exact that by (simp add: wp_exact_def)
    have "guard_ok (map wk_sequence (wp_workers S) ! rn_worker c) c" using guarded that(1) by (simp add: wp_guarded_def)
    then have "wk_sequence (wp_workers S ! rn_worker c) = x - 1"
      using that(2) k by (auto simp: call_defs split: if_splits)
    moreover have "ss_cursor (wp_sequencer S) \<le> wk_sequence (wp_workers S ! rn_worker c)"
      using reached k by (simp add: getWorkerSequences_def)
    ultimately show False using x by simp
  qed
  ultimately show "x \<in> set (wp_completed S) \<union> set (wp_abandoned S)" by blast
qed

lemma wp_guarded_event:
  assumes "wp_guarded S" and "wp_exact c0 S" and "c \<in> set (wp_calls S)" and "claim_of c \<noteq> []"
  shows "ss_nextValue (wp_sequencer S) < rn_next c + ss_bufferSize (wp_sequencer S)"
proof -
  have k: "rn_worker c < length (wp_workers S)" using assms(2,3) by (simp add: wp_exact_def)
  have "guard_ok (map wk_sequence (wp_workers S) ! rn_worker c) c"
    using assms(1,3) by (simp add: wp_guarded_def)
  then have "wk_sequence (wp_workers S ! rn_worker c) = rn_next c - 1"
    using assms(4) k by (simp add: guard_ok_def)
  moreover have "seq_ok (wp_sequencer S) (wk_sequence (wp_workers S ! rn_worker c))"
    using assms(1) k by (simp add: wp_guarded_def getWorkerSequences_def)
  ultimately show ?thesis by (simp add: seq_ok_def)
qed

section \<open>Properties\<close>

text \<open>
  C19: for a pool started once, however the calls of \<open>run\<close>, the owner, the handlers and one
  producer interleave, every sequence after the cursor at the start is claimed from the work
  sequence exactly once: it is handled once, or given up once, or held by one call; and a call
  is given only an event that is published. As long as no processor was run again while an
  earlier call of its \<open>run\<close> was under way, and no handler has used the \<open>EventReleaser\<close>, the
  producer has not claimed the slot of an event that a call holds; and once every sequence the
  pool reports has reached the cursor, as \<open>drainAndHalt\<close> waits for, every published event has
  been handled or given up. The producer is one thread that claims with \<open>tryNext\<close> of the
  single-producer sequencer.
\<close>

theorem worker_pool_exact:
  assumes "min_sequence minSeq" and "wp_start (WorkerPool n sqr) = Some S0"
    and "seq_ok sqr (ss_cursor sqr)" and "INT64_MIN \<le> ss_cursor sqr"
    and "wp_run minSeq as S0 = Some S"
  shows "mset (wp_completed S @ wp_abandoned S @ concat (map claim_of (wp_calls S)))
      = mset [ss_cursor sqr + 1..wp_work S]
    \<and> (\<forall>c \<in> set (wp_calls S). rn_pc c = OnEvent \<longrightarrow> rn_next c \<le> ss_cursor (wp_sequencer S))
    \<and> (\<not> wp_overlapped S \<and> \<not> wp_released S \<longrightarrow>
         (\<forall>c \<in> set (wp_calls S). claim_of c \<noteq> [] \<longrightarrow>
            ss_nextValue (wp_sequencer S) < rn_next c + ss_bufferSize (wp_sequencer S))
         \<and> ((\<forall>g \<in> set (getWorkerSequences S). ss_cursor (wp_sequencer S) \<le> g) \<longrightarrow>
              {ss_cursor sqr + 1..ss_cursor (wp_sequencer S)} \<subseteq> set (wp_completed S) \<union> set (wp_abandoned S)))"
proof -
  have inv: "wp_inv (ss_cursor sqr) S"
    by (rule wp_run_inv [OF assms(1) wp_start_inv [OF assms(2-4)] assms(5)])
  then have exact: "wp_exact (ss_cursor sqr) S" by (simp add: wp_inv_def)
  then have "\<forall>c \<in> set (wp_calls S). rn_pc c = OnEvent \<longrightarrow> rn_next c \<le> ss_cursor (wp_sequencer S)"
    "mset (wp_completed S @ wp_abandoned S @ concat (map claim_of (wp_calls S))) = mset [ss_cursor sqr + 1..wp_work S]"
    by (simp_all add: wp_exact_def call_ok_def)
  then show ?thesis
    using inv wp_guarded_drained [OF exact] wp_guarded_event [OF _ exact] unfolding wp_inv_def by blast
qed

text \<open>
  A ring of four entries before anything is published, and two processors: they claim 0 and 1,
  both events are published, and the first worker handles its event.
\<close>

definition fresh_seq :: "int \<Rightarrow> single_seq" where
  "fresh_seq n = \<lparr>ss_nextValue = -1, ss_cachedValue = -1, ss_cursor = -1, ss_gating = [], ss_bufferSize = n\<rparr>"

definition claim_actions :: "nat \<Rightarrow> wp_action list" where
  "claim_actions j = [Access j, Access j, Access j, Access j]"

definition handle_actions :: "nat \<Rightarrow> int \<Rightarrow> wp_action list" where
  "handle_actions j a = [WaitReturns j (Available a), Access j]"

definition demo_actions :: "wp_action list" where
  "demo_actions = [Run 0, Run 1, Start 0 False, Start 1 False] @ claim_actions 0 @ claim_actions 1
     @ [ScanStart, ClaimNext 2, PublishTo 1] @ handle_actions 0 1 @ [EventReturns 0 Returns]
     @ handle_actions 1 1"

lemmas demo_defs = demo_actions_def claim_actions_def handle_actions_def fresh_seq_def
  wp_start_def WorkerPool_def wk_create_def wk_run_def wk_start_def wp_set_def wp_worker_def wp_leave_def claim_of_def
  ss_tryNext_def ss_hasAvailableCapacity_def ss_publish_def fold_min_def getWorkerSequences_def
  INT64_MIN_def INT64_MAX_def InitialCursorValue_def Let_def wk_release_def wk_halt_def wk_alert_def wk_close_def

theorem worker_pool_exact_witness:
  "\<exists>S0 S. wp_start (WorkerPool 2 (fresh_seq 4)) = Some S0 \<and> wp_run fold_min demo_actions S0 = Some S
     \<and> wp_completed S = [0] \<and> map claim_of (wp_calls S) = [[], [1]] \<and> \<not> wp_overlapped S \<and> \<not> wp_released S
     \<and> mset (wp_completed S @ wp_abandoned S @ concat (map claim_of (wp_calls S))) = mset [0..wp_work S]
     \<and> (\<forall>c \<in> set (wp_calls S). claim_of c \<noteq> [] \<longrightarrow> ss_nextValue (wp_sequencer S) < rn_next c + 4)"
proof -
  have "\<exists>S0 S. wp_start (WorkerPool 2 (fresh_seq 4)) = Some S0 \<and> wp_run fold_min demo_actions S0 = Some S
      \<and> wp_completed S = [0] \<and> map claim_of (wp_calls S) = [[], [1]] \<and> \<not> wp_overlapped S \<and> \<not> wp_released S
      \<and> ss_bufferSize (wp_sequencer S) = 4"
    by (simp add: demo_defs numeral_2_eq_2)
  then obtain S0 S where S0: "wp_start (WorkerPool 2 (fresh_seq 4)) = Some S0"
    and S: "wp_run fold_min demo_actions S0 = Some S" "wp_completed S = [0]"
      "map claim_of (wp_calls S) = [[], [1]]" "\<not> wp_overlapped S" "\<not> wp_released S"
      "ss_bufferSize (wp_sequencer S) = 4"
    by (elim exE conjE)
  have "seq_ok (fresh_seq 4) (ss_cursor (fresh_seq 4))" "INT64_MIN \<le> ss_cursor (fresh_seq 4)"
    by (simp_all add: fresh_seq_def seq_ok_def INT64_MIN_def)
  note exact = worker_pool_exact [OF folding.min_sequence_axioms S0 this S(1)]
  then have "mset (wp_completed S @ wp_abandoned S @ concat (map claim_of (wp_calls S))) = mset [0..wp_work S]"
    "\<forall>c \<in> set (wp_calls S). claim_of c \<noteq> [] \<longrightarrow> ss_nextValue (wp_sequencer S) < rn_next c + 4"
    using S(4-6) by (simp_all add: fresh_seq_def)
  with S0 S(1-5) show ?thesis by (intro exI conjI)
qed

text \<open>
  A worker that is halted while it waits for the event it has claimed does not come back
  to it: run again it claims the next sequence, and the event, once published, is handled by
  nobody.
\<close>

lemma rerun_worker_skips_its_claim:
  "\<exists>S0 S. wp_start (WorkerPool 1 (fresh_seq 4)) = Some S0
     \<and> wp_run fold_min ([Run 0, Start 0 False] @ claim_actions 0 @ [HaltWorker 0, WaitReturns 0 IsAlerted, Close 0 False,
          Run 0, Start 1 False] @ claim_actions 1 @ [ScanStart, ClaimNext 2, PublishTo 1] @ handle_actions 1 1) S0 = Some S
     \<and> ss_cursor (wp_sequencer S) = 1 \<and> wp_abandoned S = [0] \<and> wp_completed S = []
     \<and> map rn_pc (wp_calls S) = [Stopped, OnEvent] \<and> map rn_next (wp_calls S) = [0, 1]"
  by (simp add: demo_defs)

text \<open>
  A worker that is halted and run again by another thread while the first call is still in
  its handler: the second call sets the sequence of the processor past the event of the first,
  and the producer takes its slot (\<open>4 mod 4\<close>).
\<close>

lemma rerun_during_handler_overwritten:
  "\<exists>S0 S. wp_start (WorkerPool 1 (fresh_seq 4)) = Some S0
     \<and> wp_run fold_min ([Run 0, Start 0 False] @ claim_actions 0 @ [ScanStart, ClaimNext 4, PublishTo 3]
          @ handle_actions 0 3 @ [HaltWorker 0, Run 0, Start 1 False] @ claim_actions 1
          @ [ScanStart, ClaimNext 1]) S0 = Some S
     \<and> wp_overlapped S \<and> map rn_pc (wp_calls S) = [OnEvent, WaitBarrier] \<and> map rn_next (wp_calls S) = [0, 1]
     \<and> ss_nextValue (wp_sequencer S) = 4 \<and> (4 :: int) mod ss_bufferSize (wp_sequencer S) = 0"
  by (simp add: demo_defs)

text \<open>
  The \<open>EventReleaser\<close> breaks the protection of events being handled. A worker that has released
  its event reports the largest sequence until it claims the next one; a producer that reads this
  value and the other sequences only after the claim takes the slot of the event the worker is
  handling.
\<close>

lemma released_worker_overwritten:
  "\<exists>S0 S. wp_start (WorkerPool 2 (fresh_seq 4)) = Some S0
     \<and> wp_run fold_min ([Run 0, Run 1, Start 0 False, Start 1 False] @ claim_actions 0 @ claim_actions 1
          @ [ScanStart, ClaimNext 4, PublishTo 3] @ handle_actions 0 3 @ handle_actions 1 3
          @ [Release 0, EventReturns 0 Returns, EventReturns 1 Returns, ScanStart]
          @ claim_actions 0 @ claim_actions 1 @ [ScanRead 1, ScanRead 2, ClaimNext 3]) S0 = Some S
     \<and> map rn_pc (wp_calls S) = [OnEvent, OnEvent] \<and> map rn_next (wp_calls S) = [2, 3]
     \<and> ss_nextValue (wp_sequencer S) = 6 \<and> (6 :: int) mod ss_bufferSize (wp_sequencer S) = 2"
  by (simp add: demo_defs numeral_2_eq_2)

end
