(* ===== verification/Event_Processors.thy ===== *)
theory Event_Processors
  imports Worker_Pool
begin

text \<open>
  The consumers that deliver the events of a ring one by one: \<open>EventPoller.h\<close> and
  \<open>BatchEventProcessor.h\<close>. A handler is an argument; it gets the event, its sequence and
  whether it ends the batch, and leaves the event and a state of its own, so that what it was
  given can be recorded in that state (\<open>logged\<close>).
\<close>

section \<open>The poller\<close>

datatype poll_state = Processing | Gating | PollIdle

record poller =
  ep_sequence :: int

text \<open>The value of the gating sequence that \<open>newInstance\<close> chooses.\<close>

definition newInstance_gating :: "(int list \<Rightarrow> int \<Rightarrow> int) \<Rightarrow> int \<Rightarrow> int list \<Rightarrow> int" where
  "newInstance_gating minSeq cursorSequence gatingSequences =
    (case gatingSequences of [] \<Rightarrow> cursorSequence | [g] \<Rightarrow> g | _ \<Rightarrow> minSeq gatingSequences INT64_MAX)"

text \<open>A handler that returns gives \<open>Some\<close> of its result, one that throws \<open>None\<close>.\<close>

type_synonym ('e, 'h) poll_handler = "'e \<Rightarrow> int \<Rightarrow> bool \<Rightarrow> 'h \<Rightarrow> 'e \<times> 'h \<times> bool option"

text \<open>The \<open>do\<close> loop: the last sequence processed, and whether the handler threw.\<close>

function poll_loop ::
  "('e, 'h) poll_handler \<Rightarrow> int \<Rightarrow> int \<Rightarrow> int \<Rightarrow> ('e, 's) ring_buffer \<Rightarrow> 'h
    \<Rightarrow> int \<times> bool \<times> ('e, 's) ring_buffer \<times> 'h" where
  "poll_loop handler availableSequence nextSequence processedSequence rb h =
    (let (e, h, r) = handler (rb_get rb nextSequence) nextSequence (nextSequence = availableSequence) h;
         rb = rb_put rb nextSequence e
     in case r of
          None \<Rightarrow> (processedSequence, True, rb, h)
        | Some processNextEvent \<Rightarrow>
            if nextSequence + 1 \<le> availableSequence \<and> processNextEvent
            then poll_loop handler availableSequence (nextSequence + 1) nextSequence rb h
            else (nextSequence, False, rb, h))"
  by pat_completeness auto
termination
  by (relation "measure (\<lambda>(handler, a, x, p, rb, h). nat (a - x))") auto

declare poll_loop.simps [simp del]

text \<open>\<open>None\<close> is the exception of the handler, thrown on to the caller.\<close>

definition poll ::
  "'s seq_ops \<Rightarrow> ('s \<Rightarrow> int \<Rightarrow> int \<Rightarrow> int) \<Rightarrow> int \<Rightarrow> ('e, 'h) poll_handler \<Rightarrow> poller \<Rightarrow> ('e, 's) ring_buffer \<Rightarrow> 'h
    \<Rightarrow> poll_state option \<times> poller \<times> ('e, 's) ring_buffer \<times> 'h" where
  "poll ops highest gating handler ep rb h =
    (let currentSequence = ep_sequence ep;
         nextSequence = currentSequence + 1;
         availableSequence = highest (rb_sequencer rb) nextSequence gating
     in if nextSequence \<le> availableSequence
        then let (processed, threw, rb, h) = poll_loop handler availableSequence nextSequence currentSequence rb h
             in (if threw then None else Some Processing, ep\<lparr>ep_sequence := processed\<rparr>, rb, h)
        else if op_cursor ops (rb_sequencer rb) \<ge> nextSequence then (Some Gating, ep, rb, h)
        else (Some PollIdle, ep, rb, h))"

section \<open>The batch processor\<close>

text \<open>
  What a call throws; every exception of the Disruptor is a \<open>std::exception\<close>, and only
  \<open>Foreign\<close> stands for what is not.
\<close>

datatype thrown = TimeoutException | AlertException | StdException | Foreign

text \<open>
  The interfaces the event handler may implement, and the exception handler if one is set. A
  handler that implements \<open>ISequenceReportingEventHandler\<close> holds the sequence of the processor
  as its callback: the third result of \<open>onEvent\<close> is the value it has set there before it
  returns or throws, if any.
\<close>

record ('e, 'h) exception_handler =
  handleEventException :: "int \<Rightarrow> 'e \<Rightarrow> 'h \<Rightarrow> 'e \<times> 'h \<times> thrown option"
  handleOnTimeoutException :: "int \<Rightarrow> 'h \<Rightarrow> 'h \<times> thrown option"
  handleOnStartException :: "'h \<Rightarrow> 'h \<times> thrown option"
  handleOnShutdownException :: "'h \<Rightarrow> 'h \<times> thrown option"

record ('e, 'h) batch_handlers =
  onEvent :: "'e \<Rightarrow> int \<Rightarrow> bool \<Rightarrow> 'h \<Rightarrow> 'e \<times> 'h \<times> int option \<times> thrown option"
  onTimeout :: "(int \<Rightarrow> 'h \<Rightarrow> 'h \<times> thrown option) option"
  onStart :: "('h \<Rightarrow> 'h \<times> thrown option) option"
  onShutdown :: "('h \<Rightarrow> 'h \<times> thrown option) option"
  exceptionHandler :: "('e, 'h) exception_handler option"

text \<open>A notification whose exceptions go to the exception handler, if there is one.\<close>

definition notify ::
  "('h \<Rightarrow> 'h \<times> thrown option) option \<Rightarrow> ('h \<Rightarrow> 'h \<times> thrown option) option \<Rightarrow> 'h \<Rightarrow> 'h \<times> thrown option" where
  "notify call report h =
    (case call of
       None \<Rightarrow> (h, None)
     | Some f \<Rightarrow> (case f h of
         (h, None) \<Rightarrow> (h, None)
       | (h, Some Foreign) \<Rightarrow> (h, Some Foreign)
       | (h, Some _) \<Rightarrow> (case report of None \<Rightarrow> (h, None) | Some g \<Rightarrow> g h)))"

definition notifyTimeout :: "('e, 'h) batch_handlers \<Rightarrow> int \<Rightarrow> 'h \<Rightarrow> 'h \<times> thrown option" where
  "notifyTimeout b availableSequence =
     notify (map_option (\<lambda>f. f availableSequence) (onTimeout b))
       (map_option (\<lambda>x. handleOnTimeoutException x availableSequence) (exceptionHandler b))"

definition notifyStart :: "('e, 'h) batch_handlers \<Rightarrow> 'h \<Rightarrow> 'h \<times> thrown option" where
  "notifyStart b = notify (onStart b) (map_option handleOnStartException (exceptionHandler b))"

definition notifyShutdown :: "('e, 'h) batch_handlers \<Rightarrow> 'h \<Rightarrow> 'h \<times> thrown option" where
  "notifyShutdown b = notify (onShutdown b) (map_option handleOnShutdownException (exceptionHandler b))"

text \<open>\<open>bp_evt\<close> is the sequence of the entry the pointer \<open>evt\<close> points to, if it is not null.\<close>

record ('e, 's, 'h) batch =
  bp_running :: bool
  bp_sequence :: int
  bp_next :: int
  bp_evt :: "int option"
  bp_ring :: "('e, 's) ring_buffer"
  bp_handler :: 'h

text \<open>The inner loop, up to the event for which the handler throws.\<close>

function batch_events ::
  "('e, 'h) batch_handlers \<Rightarrow> int \<Rightarrow> ('e, 's, 'h) batch \<Rightarrow> ('e, 's, 'h) batch \<times> thrown option" where
  "batch_events b availableSequence st =
    (if bp_next st \<le> availableSequence
     then let n = bp_next st;
              (e, h, callback, r) = onEvent b (rb_get (bp_ring st) n) n (n = availableSequence) (bp_handler st);
              st = st\<lparr>bp_evt := Some n, bp_ring := rb_put (bp_ring st) n e, bp_handler := h,
                      bp_sequence := (case callback of None \<Rightarrow> bp_sequence st | Some s \<Rightarrow> s)\<rparr>
          in (case r of
                None \<Rightarrow> batch_events b availableSequence (st\<lparr>bp_next := n + 1\<rparr>)
              | Some x \<Rightarrow> (st, Some x))
     else (st, None))"
  by pat_completeness auto
termination
  by (relation "measure (\<lambda>(b, a, st). nat (a + 1 - bp_next st))") auto

declare batch_events.simps [simp del]

text \<open>What one turn of the outer loop leads to.\<close>

datatype 's turn = Goes 's | Breaks 's | Escapes thrown 's | NullPointer

definition batch_catch :: "('e, 'h) batch_handlers \<Rightarrow> thrown \<Rightarrow> ('e, 's, 'h) batch \<Rightarrow> ('e, 's, 'h) batch turn" where
  "batch_catch b x st = (case x of
     TimeoutException \<Rightarrow>
       (case notifyTimeout b (bp_sequence st) (bp_handler st) of
          (h, None) \<Rightarrow> Goes (st\<lparr>bp_handler := h\<rparr>)
        | (h, Some y) \<Rightarrow> Escapes y (st\<lparr>bp_handler := h\<rparr>))
   | AlertException \<Rightarrow> if bp_running st then Goes st else Breaks st
   | StdException \<Rightarrow>
       (case (exceptionHandler b, bp_evt st) of
          (Some eh, Some i) \<Rightarrow>
            (case handleEventException eh (bp_next st) (rb_get (bp_ring st) i) (bp_handler st) of
               (e, h, None) \<Rightarrow> Goes (st\<lparr>bp_ring := rb_put (bp_ring st) i e, bp_handler := h,
                                       bp_sequence := bp_next st, bp_next := bp_next st + 1\<rparr>)
             | (e, h, Some y) \<Rightarrow> Escapes y (st\<lparr>bp_ring := rb_put (bp_ring st) i e, bp_handler := h\<rparr>))
        | _ \<Rightarrow> NullPointer)
   | Foreign \<Rightarrow> Escapes Foreign st)"

definition batch_turn ::
  "('e, 'h) batch_handlers \<Rightarrow> (int \<Rightarrow> thrown + int) \<Rightarrow> ('e, 's, 'h) batch \<Rightarrow> ('e, 's, 'h) batch turn" where
  "batch_turn b waitFor st =
    (case waitFor (bp_next st) of
       Inl x \<Rightarrow> batch_catch b x st
     | Inr availableSequence \<Rightarrow>
         (case batch_events b availableSequence st of
            (st, None) \<Rightarrow> Goes (st\<lparr>bp_sequence := availableSequence\<rparr>)
          | (st, Some x) \<Rightarrow> batch_catch b x st))"

text \<open>
  The outer loop over the turns the list gives: what \<open>waitFor\<close> does in it and whether
  \<open>m_running\<close> is still set, since other threads call \<open>halt\<close>. \<open>Goes\<close> is the state in which the next turn starts.
\<close>

fun batch_loop ::
  "('e, 'h) batch_handlers \<Rightarrow> ((int \<Rightarrow> thrown + int) \<times> bool) list \<Rightarrow> ('e, 's, 'h) batch \<Rightarrow> ('e, 's, 'h) batch turn" where
  "batch_loop b [] st = Goes st"
| "batch_loop b ((waitFor, running) # turns) st =
    (case batch_turn b waitFor (st\<lparr>bp_running := running\<rparr>) of Goes st \<Rightarrow> batch_loop b turns st | t \<Rightarrow> t)"

text \<open>\<open>None\<close> is "Thread is already running"; \<open>Breaks\<close> is a run that has returned.\<close>

definition batch_run ::
  "('e, 'h) batch_handlers \<Rightarrow> ((int \<Rightarrow> thrown + int) \<times> bool) list \<Rightarrow> ('e, 's, 'h) batch \<Rightarrow> ('e, 's, 'h) batch turn option" where
  "batch_run b turns st =
    (if bp_running st then None
     else Some (
       let st = st\<lparr>bp_running := True\<rparr> in
       case notifyStart b (bp_handler st) of
         (h, Some x) \<Rightarrow> Escapes x (st\<lparr>bp_handler := h\<rparr>)
       | (h, None) \<Rightarrow>
          (case batch_loop b turns (st\<lparr>bp_handler := h, bp_next := bp_sequence st + 1, bp_evt := None\<rparr>) of
             Breaks st \<Rightarrow>
               (case notifyShutdown b (bp_handler st) of
                  (h, Some x) \<Rightarrow> Escapes x (st\<lparr>bp_handler := h\<rparr>)
                | (h, None) \<Rightarrow> Breaks (st\<lparr>bp_handler := h, bp_running := False\<rparr>))
           | t \<Rightarrow> t)))"

section \<open>What a handler is given\<close>

definition logged :: "('e, 'h) poll_handler \<Rightarrow> ('e, 'h \<times> (int \<times> 'e \<times> bool option) list) poll_handler" where
  "logged handler e n lastOfBatch p =
    (let (h, log) = p; (e', h, r) = handler e n lastOfBatch h in (e', (h, log @ [(n, e, r)]), r))"

text \<open>The log of a batch processor: the events given to the handler and what it did with each.\<close>

type_synonym deliveries = "(int \<times> thrown option) list"

definition silent :: "('h \<Rightarrow> 'h \<times> thrown option) \<Rightarrow> 'h \<times> deliveries \<Rightarrow> ('h \<times> deliveries) \<times> thrown option" where
  "silent f p = (let (h, r) = f (fst p) in ((h, snd p), r))"

definition silent_handler :: "('e, 'h) exception_handler \<Rightarrow> ('e, 'h \<times> deliveries) exception_handler" where
  "silent_handler x =
    \<lparr>handleEventException = (\<lambda>n e p. let (e, h, r) = handleEventException x n e (fst p) in (e, (h, snd p), r)),
     handleOnTimeoutException = (\<lambda>n. silent (handleOnTimeoutException x n)),
     handleOnStartException = silent (handleOnStartException x),
     handleOnShutdownException = silent (handleOnShutdownException x)\<rparr>"

definition logged_batch :: "('e, 'h) batch_handlers \<Rightarrow> ('e, 'h \<times> deliveries) batch_handlers" where
  "logged_batch b =
    \<lparr>onEvent = (\<lambda>e n l p. let (e, h, callback, r) = onEvent b e n l (fst p) in (e, (h, snd p @ [(n, r)]), callback, r)),
     onTimeout = map_option (\<lambda>f n. silent (f n)) (onTimeout b),
     onStart = map_option silent (onStart b), onShutdown = map_option silent (onShutdown b),
     exceptionHandler = map_option silent_handler (exceptionHandler b)\<rparr>"

text \<open>
  A delivery that is made again: the processor catches the two exceptions it uses itself
  without passing over the event. \<open>in_order n\<close> says that the deliveries start with \<open>n\<close> and that
  each is of the event after the previous one, or of the same event if that has to be made
  again; \<open>next_after\<close> is the event the next one has to be of.
\<close>

definition retried :: "thrown option \<Rightarrow> bool" where
  "retried r \<longleftrightarrow> r \<in> {Some TimeoutException, Some AlertException}"

fun in_order :: "int \<Rightarrow> deliveries \<Rightarrow> bool" where
  "in_order n [] = True"
| "in_order n ((m, r) # log) = (m = n \<and> in_order (if retried r then n else n + 1) log)"

fun next_after :: "int \<Rightarrow> deliveries \<Rightarrow> int" where
  "next_after n [] = n"
| "next_after n ((m, r) # log) = next_after (if retried r then n else n + 1) log"

section \<open>Proofs\<close>

text \<open>Different sequences of a stretch of at most one ring have different slots.\<close>

lemma different_slots:
  assumes "x < y" and "y - x < n"
  shows "x mod n \<noteq> y mod (n :: int)"
proof
  assume "x mod n = y mod n"
  then have "n dvd y - x" by (metis mod_eq_dvd_iff)
  then show False using assms zdvd_not_zless [of "y - x" n] by simp
qed

lemma poll_loop_log:
  assumes "rb_wf rb" and "x \<le> a" and "a - x < rb_bufferSize rb"
    and "poll_loop (logged handler) a x (x - 1) rb (h, log) = (p, threw, rb', h', log')"
  shows "\<exists>q r. x \<le> q \<and> q \<le> a \<and> log' = log @ map (\<lambda>n. (n, rb_get rb n, r n)) [x..q]
    \<and> (\<forall>n \<in> {x..<q}. r n = Some True) \<and> (threw \<longleftrightarrow> r q = None) \<and> p = (if threw then q - 1 else q)
    \<and> (r q = Some True \<longrightarrow> q = a)"
  using assms
proof (induction "nat (a - x)" arbitrary: x rb h log)
  case 0
  then have x: "x = a" by simp
  obtain e h1 r where run: "handler (rb_get rb x) x True h = (e, h1, r)" by (metis prod_cases3)
  show ?case
    using "0.prems"(4) run unfolding x
    by (intro exI [of _ a] exI [of _ "\<lambda>_. r"])
       (subst (asm) poll_loop.simps, auto simp: logged_def Let_def split: option.splits)
next
  case (Suc k)
  obtain e h1 r where run: "handler (rb_get rb x) x (x = a) h = (e, h1, r)" by (metis prod_cases3)
  let ?rb = "rb_put rb x e" and ?log = "log @ [(x, rb_get rb x, r)]"
  show ?case
  proof (cases "r = Some True")
    case True
    have x: "k = nat (a - (x + 1))" "x + 1 \<le> a" using Suc.hyps(2) by simp_all
    have step: "poll_loop (logged handler) a (x + 1) (x + 1 - 1) ?rb (h1, ?log) = (p, threw, rb', h', log')"
      using Suc.prems(4) run True x(2) by (subst (asm) poll_loop.simps) (simp add: logged_def Let_def)
    obtain q r' where q: "x + 1 \<le> q" "q \<le> a"
        "log' = ?log @ map (\<lambda>n. (n, rb_get ?rb n, r' n)) [x + 1..q]"
        "\<forall>n \<in> {x + 1..<q}. r' n = Some True" "threw \<longleftrightarrow> r' q = None" "p = (if threw then q - 1 else q)"
        "r' q = Some True \<longrightarrow> q = a"
      using Suc.hyps(1) [OF x(1) _ x(2) _ step] Suc.prems(1,3) by auto
    have same: "rb_get ?rb n = rb_get rb n" if "n \<in> {x + 1..q}" for n
      using that q(2) Suc.prems(1,3) by (intro rb_get_put_other different_slots) auto
    have "log' = log @ map (\<lambda>n. (n, rb_get rb n, (r'(x := r)) n)) [x..q]"
      using q(1,3) same by (simp add: upto_rec1 [of x q])
    then show ?thesis using q True by (intro exI [of _ q] exI [of _ "r'(x := r)"]) auto
  next
    case False
    then have "(p, threw, rb', h', log') = (if r = None then x - 1 else x, r = None, ?rb, h1, ?log)"
      using Suc.prems(4) run
      by (subst (asm) poll_loop.simps) (auto simp: logged_def Let_def split: option.splits if_splits)
    then show ?thesis
      using Suc.prems(2) False by (intro exI [of _ x] exI [of _ "\<lambda>_. r"]) (auto split: if_splits)
  qed
qed

lemma onEvent_logged:
  "onEvent (logged_batch b) e n l p =
    (let (e, h, callback, r) = onEvent b e n l (fst p) in (e, (h, snd p @ [(n, r)]), callback, r))"
  by (simp add: logged_batch_def)

lemma next_after_snoc [simp]:
  "next_after n (log @ [(m, r)]) = (if retried r then next_after n log else next_after n log + 1)"
  by (induction n log rule: next_after.induct) auto

lemma in_order_snoc [simp]: "in_order n (log @ [(m, r)]) \<longleftrightarrow> in_order n log \<and> m = next_after n log"
  by (induction n log rule: in_order.induct) auto

lemma next_after_ge: "n \<le> next_after n log"
  by (induction n log rule: next_after.induct) (auto split: if_splits)

lemma in_order_each_once:
  "in_order n log \<Longrightarrow> \<forall>(m, r) \<in> set log. \<not> retried r \<Longrightarrow> map fst log = [n..next_after n log - 1]"
proof (induction n log rule: in_order.induct)
  case (2 n m r log)
  then show ?case using next_after_ge [of "n + 1" log] by (simp add: upto_rec1)
qed simp

text \<open>
  What is asked of handlers: to set the callback to no event after the one they were given,
  and not to that one if they then ask for it again; or to throw nothing but \<open>std::exception\<close>s
  other than the two, to an exception handler that throws nothing.
\<close>

definition reports_handled :: "('e, 'h) batch_handlers \<Rightarrow> bool" where
  "reports_handled b \<longleftrightarrow> (\<forall>e n l h e' h' s r. onEvent b e n l h = (e', h', Some s, r) \<longrightarrow>
     (if retried r then s < n else s \<le> n))"

definition handlers_report :: "('e, 'h) batch_handlers \<Rightarrow> bool" where
  "handlers_report b \<longleftrightarrow> (\<forall>e n l h. snd (snd (snd (onEvent b e n l h))) \<in> {None, Some StdException})
     \<and> (\<exists>eh. exceptionHandler b = Some eh \<and> (\<forall>n e h. snd (snd (handleEventException eh n e h)) = None))"

text \<open>A log of deliveries after \<open>s0\<close>, and the sequence that goes with it.\<close>

definition log_ok :: "('e, 'h) batch_handlers \<Rightarrow> int \<Rightarrow> int \<Rightarrow> deliveries \<Rightarrow> bool" where
  "log_ok b s0 s log \<longleftrightarrow> in_order (s0 + 1) log \<and> (reports_handled b \<longrightarrow> s < next_after (s0 + 1) log)
     \<and> (handlers_report b \<longrightarrow> (\<forall>(m, r) \<in> set log. \<not> retried r))"

lemma batch_events_log:
  assumes "batch_events (logged_batch b) a st = (st', r)"
    and "log_ok b s0 (bp_sequence st) (snd (bp_handler st))"
    and "next_after (s0 + 1) (snd (bp_handler st)) = bp_next st" and "bp_next st - 1 \<le> a"
  shows "log_ok b s0 (bp_sequence st') (snd (bp_handler st'))
    \<and> (case r of None \<Rightarrow> bp_next st' = a + 1 \<and> next_after (s0 + 1) (snd (bp_handler st')) = a + 1
       | Some x \<Rightarrow> bp_evt st' \<noteq> None \<and> (handlers_report b \<longrightarrow> x = StdException)
           \<and> next_after (s0 + 1) (snd (bp_handler st')) = (if retried r then bp_next st' else bp_next st' + 1))"
  using assms
proof (induction "nat (a + 1 - bp_next st)" arbitrary: st)
  case 0
  then have "bp_next st = a + 1" by simp
  with 0 show ?case by (subst (asm) batch_events.simps) auto
next
  case (Suc k)
  let ?n = "bp_next st"
  obtain e h cb x where ev: "onEvent b (rb_get (bp_ring st) ?n) ?n (?n = a) (fst (bp_handler st)) = (e, h, cb, x)"
    by (metis prod_cases4)
  let ?s = "case cb of None \<Rightarrow> bp_sequence st | Some s \<Rightarrow> s"
  let ?st = "st\<lparr>bp_evt := Some ?n, bp_ring := rb_put (bp_ring st) ?n e, bp_handler := (h, snd (bp_handler st) @ [(?n, x)]),
      bp_sequence := ?s\<rparr>"
  have n: "?n \<le> a" using Suc.hyps(2) by simp
  have run: "(case x of None \<Rightarrow> batch_events (logged_batch b) a (?st\<lparr>bp_next := ?n + 1\<rparr>) | Some x \<Rightarrow> (?st, Some x)) = (st', r)"
    using Suc.prems(1) n ev by (subst (asm) batch_events.simps) (simp add: onEvent_logged Let_def)
  have x: "handlers_report b \<Longrightarrow> x = None \<or> x = Some StdException"
    using ev unfolding handlers_report_def by (metis insertE prod.sel(2) singletonD)
  have "?s < (if retried x then ?n else ?n + 1)" if "reports_handled b"
  proof (cases cb)
    case None
    then show ?thesis using that Suc.prems(2,3) by (simp add: log_ok_def)
  next
    case (Some s)
    then show ?thesis using that ev unfolding reports_handled_def by fastforce
  qed
  then have log: "log_ok b s0 ?s (snd (bp_handler ?st))"
    using Suc.prems(2,3) x by (auto simp: log_ok_def retried_def)
  show ?case
  proof (cases x)
    case None
    with run have "batch_events (logged_batch b) a (?st\<lparr>bp_next := ?n + 1\<rparr>) = (st', r)" by simp
    from Suc.hyps(1) [OF _ this] show ?thesis using Suc.hyps(2) Suc.prems(3) n log None by (simp add: retried_def)
  next
    case (Some y)
    then show ?thesis using run log Suc.prems(3) x by auto
  qed
qed

text \<open>Between two turns, and when the processor has left its loop.\<close>

definition delivered :: "('e, 'h) batch_handlers \<Rightarrow> int \<Rightarrow> ('e, 's, 'h \<times> deliveries) batch \<Rightarrow> bool" where
  "delivered b s0 st \<longleftrightarrow> log_ok b s0 (bp_sequence st) (snd (bp_handler st))
     \<and> next_after (s0 + 1) (snd (bp_handler st)) = bp_next st
     \<and> (handlers_report b \<longrightarrow> bp_sequence st = bp_next st - 1)"

definition left_at :: "('e, 'h) batch_handlers \<Rightarrow> int \<Rightarrow> ('e, 's, 'h \<times> deliveries) batch \<Rightarrow> bool" where
  "left_at b s0 st \<longleftrightarrow> log_ok b s0 (bp_sequence st) (snd (bp_handler st))
     \<and> (handlers_report b \<longrightarrow> bp_sequence st = next_after (s0 + 1) (snd (bp_handler st)) - 1)"

lemma delivered_left: "delivered b s0 st \<Longrightarrow> left_at b s0 st"
  by (simp add: delivered_def left_at_def)

fun turn_ok :: "('e, 'h) batch_handlers \<Rightarrow> int \<Rightarrow> ('e, 's, 'h \<times> deliveries) batch turn \<Rightarrow> bool" where
  "turn_ok b s0 (Goes st) = delivered b s0 st"
| "turn_ok b s0 (Breaks st) = left_at b s0 st"
| "turn_ok b s0 (Escapes x st) = left_at b s0 st"
| "turn_ok b s0 NullPointer = (exceptionHandler b = None)"

fun turn_state :: "'s turn \<Rightarrow> 's option" where
  "turn_state (Goes s) = Some s"
| "turn_state (Breaks s) = Some s"
| "turn_state (Escapes x s) = Some s"
| "turn_state NullPointer = None"

lemma notify_silent:
  "notify (map_option silent call) (map_option silent report) p = (p', r) \<Longrightarrow> snd p' = snd p"
  by (auto simp: notify_def silent_def Let_def split: option.splits prod.splits thrown.splits)

lemma notifications_silent:
  "notifyTimeout (logged_batch b) n p = (p', r) \<Longrightarrow> snd p' = snd p"
  "notifyStart (logged_batch b) p = (p', r) \<Longrightarrow> snd p' = snd p"
  "notifyShutdown (logged_batch b) p = (p', r) \<Longrightarrow> snd p' = snd p"
  using notify_silent [of "map_option (\<lambda>f. f n) (onTimeout b)"
      "map_option (\<lambda>x. handleOnTimeoutException x n) (exceptionHandler b)" p p' r]
    notify_silent [of "onStart b" "map_option handleOnStartException (exceptionHandler b)" p p' r]
    notify_silent [of "onShutdown b" "map_option handleOnShutdownException (exceptionHandler b)" p p' r]
  by (simp_all add: notifyTimeout_def notifyStart_def notifyShutdown_def logged_batch_def
      silent_handler_def option.map_comp o_def)

text \<open>What the batch processor relies on: a barrier that never falls back.\<close>

definition barrier_ok :: "(int \<Rightarrow> thrown + int) \<Rightarrow> bool" where
  "barrier_ok waitFor \<longleftrightarrow> (\<forall>x. case waitFor x of Inl t \<Rightarrow> t \<in> {TimeoutException, AlertException} | Inr a \<Rightarrow> x - 1 \<le> a)"

lemma batch_catch_timeout:
  assumes "delivered b s0 st" and "x \<in> {TimeoutException, AlertException}"
  shows "turn_ok b s0 (batch_catch (logged_batch b) x st)"
proof -
  obtain h r where n: "notifyTimeout (logged_batch b) (bp_sequence st) (bp_handler st) = (h, r)" by fastforce
  show ?thesis
    using assms n notifications_silent(1) [OF n] delivered_left [OF assms(1)]
    by (cases r) (auto simp: batch_catch_def delivered_def left_at_def)
qed

lemma batch_catch_std:
  assumes "log_ok b s0 (bp_sequence st) (snd (bp_handler st))" and "bp_evt st = Some i"
    and "next_after (s0 + 1) (snd (bp_handler st)) = bp_next st + 1"
  shows "turn_ok b s0 (batch_catch (logged_batch b) StdException st)"
proof (cases "exceptionHandler b")
  case None
  then show ?thesis using assms(2) by (simp add: batch_catch_def logged_batch_def)
next
  case (Some eh)
  obtain e h r where eh: "handleEventException eh (bp_next st) (rb_get (bp_ring st) i) (fst (bp_handler st)) = (e, h, r)"
    by (metis prod_cases3)
  have "handlers_report b \<Longrightarrow> r = None" using eh Some unfolding handlers_report_def by (metis option.inject prod.sel(2))
  then show ?thesis
    using assms Some eh
    by (cases r) (auto simp: batch_catch_def logged_batch_def silent_handler_def delivered_def left_at_def log_ok_def)
qed

lemma batch_turn_delivers:
  assumes "barrier_ok waitFor" and "delivered b s0 st"
  shows "turn_ok b s0 (batch_turn (logged_batch b) waitFor st)"
proof (cases "waitFor (bp_next st)")
  case (Inl x)
  then have "x \<in> {TimeoutException, AlertException}" using assms(1) by (auto simp: barrier_ok_def split: sum.splits)
  from batch_catch_timeout [OF assms(2) this] show ?thesis by (simp add: batch_turn_def Inl)
next
  case (Inr a)
  then have a: "bp_next st - 1 \<le> a" using assms(1) by (auto simp: barrier_ok_def split: sum.splits)
  obtain st1 r where ev: "batch_events (logged_batch b) a st = (st1, r)" by fastforce
  from batch_events_log [OF this _ _ a, of s0] assms(2)
  have log: "log_ok b s0 (bp_sequence st1) (snd (bp_handler st1))"
    "case r of None \<Rightarrow> bp_next st1 = a + 1 \<and> next_after (s0 + 1) (snd (bp_handler st1)) = a + 1
       | Some x \<Rightarrow> bp_evt st1 \<noteq> None \<and> (handlers_report b \<longrightarrow> x = StdException)
           \<and> next_after (s0 + 1) (snd (bp_handler st1)) = (if retried r then bp_next st1 else bp_next st1 + 1)"
    by (simp_all add: delivered_def)
  show ?thesis
  proof (cases r)
    case None
    then show ?thesis using log Inr ev by (simp add: batch_turn_def delivered_def log_ok_def)
  next
    case (Some x)
    have turn: "batch_turn (logged_batch b) waitFor st = batch_catch (logged_batch b) x st1"
      by (simp add: batch_turn_def Inr ev Some)
    show ?thesis
    proof (cases x)
      case StdException
      then show ?thesis using Some log batch_catch_std [of b s0 st1] by (auto simp: turn retried_def)
    next
      case Foreign
      then show ?thesis using Some log by (auto simp: turn batch_catch_def left_at_def)
    qed (use Some log batch_catch_timeout [of b s0 st1 x] in \<open>auto simp: turn retried_def delivered_def\<close>)
  qed
qed

lemma batch_loop_delivers:
  assumes "\<forall>(waitFor, running) \<in> set turns. barrier_ok waitFor" and "delivered b s0 st"
  shows "turn_ok b s0 (batch_loop (logged_batch b) turns st)"
  using assms
proof (induction turns arbitrary: st)
  case (Cons t turns)
  obtain waitFor running where t: "t = (waitFor, running)" by fastforce
  let ?st = "st\<lparr>bp_running := running\<rparr>"
  have "barrier_ok waitFor" "delivered b s0 ?st" using Cons.prems t by (simp_all add: delivered_def)
  from batch_turn_delivers [OF this] Cons.IH Cons.prems(1) show ?case
    by (cases "batch_turn (logged_batch b) waitFor ?st") (auto simp: t)
qed simp

lemma batch_run_delivers:
  assumes "\<not> bp_running st" and "snd (bp_handler st) = []"
    and "\<forall>(waitFor, running) \<in> set turns. barrier_ok waitFor"
  shows "\<exists>t. batch_run (logged_batch b) turns st = Some t \<and> turn_ok b (bp_sequence st) t"
proof -
  let ?b = "logged_batch b"
  obtain h r where start: "notifyStart ?b (bp_handler st) = (h, r)" by fastforce
  then have h: "snd h = []" using notifications_silent(2) [OF start] assms(2) by simp
  let ?st = "st\<lparr>bp_running := True, bp_handler := h, bp_next := bp_sequence st + 1, bp_evt := None\<rparr>"
  have "delivered b (bp_sequence st) ?st" using h by (simp add: delivered_def log_ok_def)
  from batch_loop_delivers [OF assms(3) this]
  have loop: "turn_ok b (bp_sequence st) (batch_loop ?b turns ?st)" .
  have shut: "turn_ok b (bp_sequence st) (case notifyShutdown ?b (bp_handler s) of
      (h, Some x) \<Rightarrow> Escapes x (s\<lparr>bp_handler := h\<rparr>)
    | (h, None) \<Rightarrow> Breaks (s\<lparr>bp_handler := h, bp_running := False\<rparr>))"
    if "left_at b (bp_sequence st) s" for s :: "('a, 'b, 'c \<times> deliveries) batch"
  proof -
    obtain h r where n: "notifyShutdown ?b (bp_handler s) = (h, r)" by fastforce
    then show ?thesis using that notifications_silent(3) [OF n] by (cases r) (auto simp: left_at_def)
  qed
  show ?thesis
  proof (cases r)
    case (Some x)
    then show ?thesis using assms(1) start h by (simp add: batch_run_def left_at_def log_ok_def)
  next
    case None
    then show ?thesis
      using assms(1) start loop shut by (cases "batch_loop ?b turns ?st") (simp_all add: batch_run_def)
  qed
qed

text \<open>A halted processor that is alerted leaves its loop.\<close>

lemma batch_loop_halts:
  assumes "(waitFor, False) \<in> set turns" and "\<forall>x. waitFor x = Inl AlertException"
  shows "batch_loop b turns st \<noteq> Goes st'"
  using assms(1)
proof (induction turns arbitrary: st)
  case (Cons t turns)
  show ?case
  proof (cases "t = (waitFor, False)")
    case True
    then show ?thesis using assms(2) by (simp add: batch_turn_def batch_catch_def)
  next
    case False
    then show ?thesis using Cons by (cases t) (auto split: turn.splits)
  qed
qed simp

section \<open>Properties\<close>

text \<open>
  C23: when nothing is available a poll changes nothing and tells whether the gating sequences
  or the cursor hold it back. Otherwise the handler gets the available events in order, each as
  it is in the ring, until it asks to stop, throws or has had them all; the sequence then
  stands at the last event for which the handler returned, so that an event for which it threw
  is delivered again by the next poll.
\<close>

theorem poll_delivers:
  assumes "rb_wf rb"
    and "highest (rb_sequencer rb) (ep_sequence ep + 1) gating - ep_sequence ep \<le> rb_bufferSize rb"
    and "poll ops highest gating (logged handler) ep rb (h, log) = (st, ep', rb', h', log')"
  shows "(let c = ep_sequence ep; a = highest (rb_sequencer rb) (c + 1) gating in
    if a \<le> c
    then (st, ep', rb', h', log') = (Some (if c < op_cursor ops (rb_sequencer rb) then Gating else PollIdle), ep, rb, h, log)
    else \<exists>q r. c < q \<and> q \<le> a \<and> log' = log @ map (\<lambda>n. (n, rb_get rb n, r n)) [c + 1..q]
       \<and> (\<forall>n \<in> {c + 1..<q}. r n = Some True) \<and> (r q = Some True \<longrightarrow> q = a)
       \<and> (if r q = None then st = None \<and> ep_sequence ep' = q - 1 else st = Some Processing \<and> ep_sequence ep' = q))"
proof -
  let ?c = "ep_sequence ep"
  let ?a = "highest (rb_sequencer rb) (?c + 1) gating"
  show ?thesis
  proof (cases "?a \<le> ?c")
    case True
    then show ?thesis using assms(3) by (auto simp: poll_def Let_def split: if_splits)
  next
    case False
    obtain p threw where loop: "poll_loop (logged handler) ?a (?c + 1) (?c + 1 - 1) rb (h, log) = (p, threw, rb', h', log')"
      and out: "st = (if threw then None else Some Processing)" "ep_sequence ep' = p"
      using assms(3) False by (auto simp: poll_def Let_def split: prod.splits if_splits)
    from poll_loop_log [OF assms(1) _ _ loop] obtain q r where
      "?c + 1 \<le> q" "q \<le> ?a" "log' = log @ map (\<lambda>n. (n, rb_get rb n, r n)) [?c + 1..q]"
      "\<forall>n \<in> {?c + 1..<q}. r n = Some True" "threw \<longleftrightarrow> r q = None" "p = (if threw then q - 1 else q)"
      "r q = Some True \<longrightarrow> q = ?a"
      using False assms(2) by auto
    with out False show ?thesis by (auto simp: Let_def intro!: exI [of _ q] exI [of _ r])
  qed
qed

text \<open>A ring of four entries with two events published, of which the handler takes one.\<close>

definition demo_ring :: "(int, single_seq) ring_buffer" where
  "demo_ring = \<lparr>rb_entries = replicate 36 7, rb_indexMask = 3, rb_bufferSize = 4,
     rb_sequencer = (fresh_seq 4)\<lparr>ss_nextValue := 1, ss_cursor := 1\<rparr>\<rparr>"

lemma demo_ring_wf: "rb_wf demo_ring"
  by (auto simp: rb_wf_def demo_ring_def m_bufferPad_def intro!: exI [of _ 2])

theorem poll_delivers_witness:
  "fst (poll (single_ops fold_min) ss_getHighestPublishedSequence 1 (logged (\<lambda>e n l h. (e, h, Some False)))
     \<lparr>ep_sequence = -1\<rparr> demo_ring (0 :: nat, [])) = Some Processing
   \<and> snd (snd (snd (snd (poll (single_ops fold_min) ss_getHighestPublishedSequence 1
       (logged (\<lambda>e n l h. (e, h, Some False))) \<lparr>ep_sequence = -1\<rparr> demo_ring (0 :: nat, []))))) = [(0, 7, Some False)]"
proof -
  obtain st ep' rb' h' log' where run: "poll (single_ops fold_min) ss_getHighestPublishedSequence 1
      (logged (\<lambda>e n l h. (e, h, Some False))) \<lparr>ep_sequence = -1\<rparr> demo_ring (0 :: nat, []) = (st, ep', rb', h', log')"
    by (metis prod_cases5)
  then have eq: "st = Some Processing \<and> log' = [(0, 7, Some False)]"
    by (simp add: poll_def ss_getHighestPublishedSequence_def poll_loop.simps logged_def rb_get_def rb_index_def
        demo_ring_def m_bufferPad_def Let_def)
  have "highest (rb_sequencer demo_ring) (ep_sequence \<lparr>ep_sequence = -1\<rparr> + 1) 1 - ep_sequence \<lparr>ep_sequence = -1\<rparr>
      \<le> rb_bufferSize demo_ring" if "highest = ss_getHighestPublishedSequence" for highest
    by (simp add: that ss_getHighestPublishedSequence_def demo_ring_def)
  from poll_delivers [OF demo_ring_wf this [OF refl] run] run eq show ?thesis by simp
qed

text \<open>
  C20: whatever the event handler and the exception handler do, a batch processor that is
  started delivers the events after its sequence in order and without a gap: after each
  delivery comes the next event, except that an event whose delivery ends in a
  \<open>TimeoutException\<close> or an \<open>AlertException\<close> of the handler is delivered again. If the handler
  reports through its callback only events it has handled, the sequence stays before the event
  the next delivery is of, so that consumers gated by the processor never pass it. If the
  handler throws only other \<open>std::exception\<close>s, to an exception handler that throws nothing,
  every event up to the sequence, which stands at the last one, has been delivered exactly
  once, also those for which the handler failed. A null exception handler is the only cause of
  a null pointer. Once halted and alerted the processor does not go on. The barrier returns at
  least the sequence before the one waited for and throws only the two exceptions above.
\<close>

theorem batch_each_once:
  assumes "\<not> bp_running st" and "snd (bp_handler st) = []"
    and "\<forall>(waitFor, running) \<in> set turns. barrier_ok waitFor"
  shows "\<exists>t. batch_run (logged_batch b) turns st = Some t
    \<and> (t = NullPointer \<longrightarrow> exceptionHandler b = None)
    \<and> (\<forall>st'. turn_state t = Some st' \<longrightarrow>
         in_order (bp_sequence st + 1) (snd (bp_handler st'))
         \<and> (reports_handled b \<longrightarrow> bp_sequence st' < next_after (bp_sequence st + 1) (snd (bp_handler st')))
         \<and> (handlers_report b \<longrightarrow> map fst (snd (bp_handler st')) = [bp_sequence st + 1..bp_sequence st']
              \<and> bp_sequence st \<le> bp_sequence st'))
    \<and> ((\<exists>waitFor. (waitFor, False) \<in> set turns \<and> (\<forall>x. waitFor x = Inl AlertException)) \<longrightarrow> (\<forall>s. t \<noteq> Goes s))"
proof -
  obtain t where t: "batch_run (logged_batch b) turns st = Some t" "turn_ok b (bp_sequence st) t"
    using batch_run_delivers [OF assms] by blast
  have left: "left_at b (bp_sequence st) st'" if "turn_state t = Some st'" for st'
    using t(2) that delivered_left by (cases t) auto
  have "\<forall>s. t \<noteq> Goes s"
    if "(waitFor, False) \<in> set turns" "\<forall>x. waitFor x = Inl AlertException" for waitFor
    using t(1) batch_loop_halts [OF that]
    by (auto simp: batch_run_def Let_def split: if_splits prod.splits option.splits turn.splits)
  moreover have "t = NullPointer \<longrightarrow> exceptionHandler b = None" using t(2) by (cases t) auto
  moreover have "map fst (snd (bp_handler st')) = [bp_sequence st + 1..bp_sequence st'] \<and> bp_sequence st \<le> bp_sequence st'"
    if "turn_state t = Some st'" "handlers_report b" for st'
    using left [OF that(1)] that(2) in_order_each_once next_after_ge [of "bp_sequence st + 1" "snd (bp_handler st')"]
    by (auto simp: left_at_def log_ok_def)
  ultimately show ?thesis using t(1) left unfolding left_at_def log_ok_def by blast
qed

definition demo_batch :: "(int, unit) batch_handlers" where
  "demo_batch = \<lparr>onEvent = (\<lambda>e n l h. (e, h, None, if n = 1 then Some StdException else None)), onTimeout = None,
     onStart = None, onShutdown = None,
     exceptionHandler = Some \<lparr>handleEventException = (\<lambda>n e h. (e, h, None)),
       handleOnTimeoutException = (\<lambda>n h. (h, None)), handleOnStartException = (\<lambda>h. (h, None)),
       handleOnShutdownException = (\<lambda>h. (h, None))\<rparr>\<rparr>"

definition demo_turns :: "((int \<Rightarrow> thrown + int) \<times> bool) list" where
  "demo_turns = [(\<lambda>x. Inr (x + 1), True), (\<lambda>x. Inl AlertException, False)]"

definition demo_batch_start :: "(int, single_seq, unit \<times> deliveries) batch" where
  "demo_batch_start = \<lparr>bp_running = False, bp_sequence = -1, bp_next = 0, bp_evt = None, bp_ring = demo_ring,
     bp_handler = ((), [])\<rparr>"

lemmas batch_defs = batch_run_def batch_turn_def batch_catch_def batch_events.simps onEvent_logged logged_batch_def
  silent_handler_def demo_turns_def demo_batch_start_def demo_batch_def notifyStart_def notifyShutdown_def notifyTimeout_def
  notify_def Let_def

theorem batch_each_once_witness:
  "\<exists>st'. batch_run (logged_batch demo_batch) demo_turns demo_batch_start = Some (Breaks st')
     \<and> handlers_report demo_batch \<and> reports_handled demo_batch
     \<and> bp_sequence st' = 1 \<and> map fst (snd (bp_handler st')) = [0..1]"
proof -
  have pre: "\<not> bp_running demo_batch_start" "snd (bp_handler demo_batch_start) = []"
    "\<forall>(waitFor, running) \<in> set demo_turns. barrier_ok waitFor"
    by (simp_all add: demo_batch_start_def demo_turns_def barrier_ok_def)
  have reports: "handlers_report demo_batch" "reports_handled demo_batch"
    by (simp_all add: demo_batch_def handlers_report_def reports_handled_def)
  have "\<exists>st'. batch_run (logged_batch demo_batch) demo_turns demo_batch_start = Some (Breaks st') \<and> bp_sequence st' = 1"
    by (simp add: batch_defs)
  then obtain st' where st': "batch_run (logged_batch demo_batch) demo_turns demo_batch_start = Some (Breaks st')"
    "bp_sequence st' = 1" by (elim exE conjE)
  with batch_each_once [OF pre, of demo_batch] reports have "map fst (snd (bp_handler st')) = [0..1]"
    by (auto simp: demo_batch_start_def)
  with st' reports show ?thesis by (intro exI conjI)
qed

text \<open>
  A handler that finishes with an event only after \<open>onEvent\<close> has returned and has reported
  nothing: at the end of the batch its sequence is set to the last event all the same.
\<close>

lemma callback_is_overridden:
  assumes "\<forall>e n l h. onEvent b e n l h = (e, h, None, None)" and "waitFor (bp_next st) = Inr a"
  shows "\<exists>st'. batch_turn b waitFor st = Goes st' \<and> bp_sequence st' = a"
proof -
  have "snd (batch_events b a st) = None" for st
    using assms(1) by (induction b a st rule: batch_events.induct) (subst batch_events.simps, simp add: Let_def)
  then obtain st1 where "batch_events b a st = (st1, None)" by (metis prod.collapse)
  then show ?thesis by (simp add: batch_turn_def assms(2))
qed

text \<open>
  Without an exception handler, which nothing requires to be set, an exception of the
  event handler makes the processor call a method of a null pointer, although every
  notification checks that there is one.
\<close>

lemma batch_without_handler:
  assumes "exceptionHandler b = None" and "waitFor (bp_next st) = Inr a" and "bp_next st \<le> a"
    and "onEvent b (rb_get (bp_ring st) (bp_next st)) (bp_next st) (bp_next st = a) (bp_handler st) = (e, h, callback, Some StdException)"
  shows "batch_loop b ((waitFor, running) # turns) st = NullPointer"
  using assms by (simp add: batch_turn_def batch_catch_def batch_events.simps Let_def)

end
