(* ===== verification/Disruptor_Builder.thy ===== *)
theory Disruptor_Builder
  imports Event_Processors
begin

text \<open>
  \<open>Disruptor.h\<close>, \<open>EventHandlerGroup.h\<close> and \<open>ConsumerRepository.h\<close>: the builder that connects
  consumers to a ring. Consumers, their sequences and handlers are identified by their
  addresses. The question is whether the sequences that gate the ring protect every consumer.
\<close>

section \<open>Consumers and their repository\<close>

text \<open>A sequence made by the builder, or that of a processor the user supplies.\<close>

datatype seq_id = Own nat | Custom nat

text \<open>\<open>m_exceptionHandler\<close> points to the wrapper it starts with or to a handler given later.\<close>

datatype exception_ref = Wrapper | Given nat

datatype dr_error = AlreadyStarted | StartedTwice | NotProcessing nat | NullHandler | NullDereference | NoSuchGroup

text \<open>
  \<open>EventProcessorInfo\<close> and \<open>WorkerPoolInfo\<close>; the barrier is what it was made from. An exception
  handler \<open>None\<close> is the one the processor has by itself, for a pool the null pointer.
\<close>

record consumer =
  ci_sequences :: "seq_id list"
  ci_handler :: "nat option"
  ci_barrier :: "seq_id list option"
  ci_exception :: "exception_ref option"
  ci_isEndOfChain :: bool

text \<open>The maps point to positions in the list of consumers.\<close>

record repository =
  cr_infos :: "consumer list"
  cr_byHandler :: "nat \<rightharpoonup> nat"
  cr_bySequence :: "seq_id \<rightharpoonup> nat"

definition cr_new :: repository where
  "cr_new = \<lparr>cr_infos = [], cr_byHandler = Map.empty, cr_bySequence = Map.empty\<rparr>"

definition cr_addHandler :: "seq_id \<Rightarrow> nat \<Rightarrow> seq_id list \<Rightarrow> exception_ref option \<Rightarrow> repository \<Rightarrow> repository" where
  "cr_addHandler s handler barrier exc r =
    (let k = length (cr_infos r) in
     r\<lparr>cr_byHandler := (cr_byHandler r)(handler \<mapsto> k), cr_bySequence := (cr_bySequence r)(s \<mapsto> k),
       cr_infos := cr_infos r @ [\<lparr>ci_sequences = [s], ci_handler = Some handler, ci_barrier = Some barrier,
         ci_exception = exc, ci_isEndOfChain = True\<rparr>]\<rparr>)"

definition cr_addProcessor :: "nat \<Rightarrow> repository \<Rightarrow> repository" where
  "cr_addProcessor p r =
    r\<lparr>cr_bySequence := (cr_bySequence r)(Custom p \<mapsto> length (cr_infos r)),
      cr_infos := cr_infos r @ [\<lparr>ci_sequences = [Custom p], ci_handler = None, ci_barrier = None,
        ci_exception = None, ci_isEndOfChain = True\<rparr>]\<rparr>"

definition cr_addPool :: "seq_id list \<Rightarrow> seq_id list \<Rightarrow> exception_ref option \<Rightarrow> repository \<Rightarrow> repository" where
  "cr_addPool sequences barrier exc r =
    r\<lparr>cr_infos := cr_infos r @ [\<lparr>ci_sequences = sequences, ci_handler = None, ci_barrier = Some barrier,
        ci_exception = exc, ci_isEndOfChain = True\<rparr>],
      cr_bySequence := fold (\<lambda>s m. m(s \<mapsto> length (cr_infos r))) sequences (cr_bySequence r)\<rparr>"

text \<open>\<open>running\<close> is what \<open>isRunning\<close> of the consumers returns.\<close>

definition getLastSequenceInChain :: "(nat \<Rightarrow> bool) \<Rightarrow> bool \<Rightarrow> repository \<Rightarrow> seq_id list" where
  "getLastSequenceInChain running includeStopped r =
     concat (map (\<lambda>k. ci_sequences (cr_infos r ! k))
       (filter (\<lambda>k. (includeStopped \<or> running k) \<and> ci_isEndOfChain (cr_infos r ! k)) [0..<length (cr_infos r)]))"

definition getEventProcessorFor :: "nat \<Rightarrow> repository \<Rightarrow> dr_error + nat" where
  "getEventProcessorFor handler r =
    (case cr_byHandler r handler of None \<Rightarrow> Inl (NotProcessing handler) | Some k \<Rightarrow> Inr k)"

definition getSequenceFor :: "nat \<Rightarrow> repository \<Rightarrow> dr_error + seq_id" where
  "getSequenceFor handler r = map_sum id (\<lambda>k. hd (ci_sequences (cr_infos r ! k))) (getEventProcessorFor handler r)"

definition markAsUsedInBarrier :: "nat \<Rightarrow> repository \<Rightarrow> repository" where
  "markAsUsedInBarrier k r = r\<lparr>cr_infos := (cr_infos r)[k := (cr_infos r ! k)\<lparr>ci_isEndOfChain := False\<rparr>]\<rparr>"

definition unMarkEventProcessorsAsEndOfChain :: "seq_id list \<Rightarrow> repository \<Rightarrow> repository" where
  "unMarkEventProcessorsAsEndOfChain barrier =
     fold (\<lambda>s r. case cr_bySequence r s of None \<Rightarrow> r | Some k \<Rightarrow> markAsUsedInBarrier k r) barrier"

definition getBarrierFor :: "nat \<Rightarrow> repository \<Rightarrow> seq_id list option" where
  "getBarrierFor handler r =
    (case cr_byHandler r handler of None \<Rightarrow> None | Some k \<Rightarrow> ci_barrier (cr_infos r ! k))"

section \<open>The builder\<close>

text \<open>What the builder does to consumers and barriers, in order.\<close>

datatype dr_action = StartConsumer nat | HaltConsumer nat | AlertBarrier "seq_id list option"

text \<open>\<open>dr_wrapped\<close> is what the wrapper points to, \<open>None\<close> being its fatal handler; \<open>dr_fresh\<close> counts the sequences made.\<close>

record disruptor =
  dr_repo :: repository
  dr_gating :: "seq_id list"
  dr_started :: bool
  dr_exception :: "exception_ref option"
  dr_wrapped :: "nat option"
  dr_fresh :: nat
  dr_actions :: "dr_action list"

definition dr_new :: disruptor where
  "dr_new = \<lparr>dr_repo = cr_new, dr_gating = [], dr_started = False, dr_exception = Some Wrapper, dr_wrapped = None,
     dr_fresh = 0, dr_actions = []\<rparr>"

text \<open>A group is the list of its sequences.\<close>

fun addProcessors :: "seq_id list \<Rightarrow> nat list \<Rightarrow> disruptor \<Rightarrow> disruptor \<times> seq_id list" where
  "addProcessors barrier [] d = (d, [])"
| "addProcessors barrier (h # hs) d =
    (let s = Own (dr_fresh d);
         (d, ss) = addProcessors barrier hs (d\<lparr>dr_fresh := dr_fresh d + 1,
           dr_repo := cr_addHandler s h barrier (dr_exception d) (dr_repo d)\<rparr>)
     in (d, s # ss))"

definition createEventProcessors :: "seq_id list \<Rightarrow> nat list \<Rightarrow> disruptor \<Rightarrow> dr_error + disruptor \<times> seq_id list" where
  "createEventProcessors barrierSequences eventHandlers d =
    (if dr_started d then Inl AlreadyStarted
     else let (d, processorSequences) = addProcessors barrierSequences eventHandlers d
          in Inr (if processorSequences \<noteq> []
                  then d\<lparr>dr_repo := unMarkEventProcessorsAsEndOfChain barrierSequences (dr_repo d)\<rparr> else d,
                  processorSequences))"

definition handleProcessors :: "nat list \<Rightarrow> disruptor \<Rightarrow> disruptor \<times> seq_id list" where
  "handleProcessors processors d = (d\<lparr>dr_repo := fold cr_addProcessor processors (dr_repo d)\<rparr>, map Custom processors)"

text \<open>\<open>factory f barrier\<close> is the processor that factory \<open>f\<close> creates.\<close>

definition createFromFactories :: "(nat \<Rightarrow> seq_id list \<Rightarrow> nat) \<Rightarrow> seq_id list \<Rightarrow> nat list \<Rightarrow> disruptor \<Rightarrow> disruptor \<times> seq_id list" where
  "createFromFactories factory barrierSequences factories =
     handleProcessors (map (\<lambda>f. factory f barrierSequences) factories)"

text \<open>A pool has the sequences of its workers and its work sequence.\<close>

definition createWorkerPool :: "seq_id list \<Rightarrow> nat \<Rightarrow> disruptor \<Rightarrow> disruptor \<times> seq_id list" where
  "createWorkerPool barrierSequences workers d =
    (let sequences = map Own [dr_fresh d..<dr_fresh d + workers + 1] in
     (d\<lparr>dr_fresh := dr_fresh d + workers + 1,
        dr_repo := cr_addPool sequences barrierSequences (dr_exception d) (dr_repo d)\<rparr>, sequences))"

fun sequencesFor :: "nat list \<Rightarrow> repository \<Rightarrow> dr_error + seq_id list" where
  "sequencesFor [] r = Inr []"
| "sequencesFor (h # hs) r =
    (case getSequenceFor h r of
       Inl e \<Rightarrow> Inl e
     | Inr s \<Rightarrow> map_sum id (Cons s) (sequencesFor hs r))"

definition setDefaultExceptionHandler :: "nat \<Rightarrow> disruptor \<Rightarrow> dr_error + disruptor" where
  "setDefaultExceptionHandler h d =
    (if dr_started d then Inl AlreadyStarted
     else case dr_exception d of Some Wrapper \<Rightarrow> Inr (d\<lparr>dr_wrapped := Some h\<rparr>) | _ \<Rightarrow> Inl NullDereference)"

text \<open>\<open>ExceptionHandlerSetting::with\<close>: the handler of one processor, whose barrier is alerted.\<close>

definition handleExceptionsFor :: "nat \<Rightarrow> nat option \<Rightarrow> disruptor \<Rightarrow> dr_error + disruptor" where
  "handleExceptionsFor handler exc d =
    (case getEventProcessorFor handler (dr_repo d) of
       Inl e \<Rightarrow> Inl e
     | Inr k \<Rightarrow>
        (case exc of
           None \<Rightarrow> Inl NullHandler
         | Some e \<Rightarrow>
            let r = dr_repo d in
            Inr (d\<lparr>dr_repo := r\<lparr>cr_infos := (cr_infos r)[k := (cr_infos r ! k)\<lparr>ci_exception := Some (Given e)\<rparr>]\<rparr>,
                   dr_actions := dr_actions d @ [AlertBarrier (getBarrierFor handler r)]\<rparr>)))"

text \<open>The calls a user makes; a group is named by its position among the groups returned so far.\<close>

datatype dr_call = HandleEventsWith "nat list" | HandleProcessors "nat list" | HandleFactories "nat list" | HandlePool nat
  | After "nat list" | AfterProcessors "nat list" | And nat nat | AndProcessors nat "nat list"
  | Then nat "nat list" | ThenFactories nat "nat list" | ThenPool nat nat
  | HandleExceptionsWith "nat option" | SetDefaultExceptionHandler nat | HandleExceptionsFor nat "nat option"

definition with_group :: "seq_id list list \<Rightarrow> disruptor \<times> seq_id list \<Rightarrow> dr_error + disruptor \<times> seq_id list list" where
  "with_group gs = (\<lambda>(d, g). Inr (d, gs @ [g]))"

fun dr_exec ::
  "(nat \<Rightarrow> seq_id list \<Rightarrow> nat) \<Rightarrow> dr_call \<Rightarrow> disruptor \<Rightarrow> seq_id list list \<Rightarrow> dr_error + disruptor \<times> seq_id list list" where
  "dr_exec factory (HandleEventsWith hs) d gs = (case createEventProcessors [] hs d of Inl e \<Rightarrow> Inl e | Inr x \<Rightarrow> with_group gs x)"
| "dr_exec factory (HandleProcessors ps) d gs = with_group gs (handleProcessors ps d)"
| "dr_exec factory (HandleFactories fs) d gs = with_group gs (createFromFactories factory [] fs d)"
| "dr_exec factory (HandlePool n) d gs = with_group gs (createWorkerPool [] n d)"
| "dr_exec factory (After hs) d gs =
    (case sequencesFor hs (dr_repo d) of Inl e \<Rightarrow> Inl e | Inr ss \<Rightarrow> with_group gs (d, ss))"
| "dr_exec factory (AfterProcessors ps) d gs = with_group gs (handleProcessors ps d)"
| "dr_exec factory (And g g') d gs =
    (if g < length gs \<and> g' < length gs then with_group gs (d, gs ! g @ gs ! g') else Inl NoSuchGroup)"
| "dr_exec factory (AndProcessors g ps) d gs =
    (if g < length gs then case handleProcessors ps d of (d, ss) \<Rightarrow> with_group gs (d, ss @ gs ! g) else Inl NoSuchGroup)"
| "dr_exec factory (Then g hs) d gs =
    (if g < length gs then case createEventProcessors (gs ! g) hs d of Inl e \<Rightarrow> Inl e | Inr x \<Rightarrow> with_group gs x else Inl NoSuchGroup)"
| "dr_exec factory (ThenFactories g fs) d gs =
    (if g < length gs then with_group gs (createFromFactories factory (gs ! g) fs d) else Inl NoSuchGroup)"
| "dr_exec factory (ThenPool g n) d gs =
    (if g < length gs then with_group gs (createWorkerPool (gs ! g) n d) else Inl NoSuchGroup)"
| "dr_exec factory (HandleExceptionsWith h) d gs = Inr (d\<lparr>dr_exception := map_option Given h\<rparr>, gs)"
| "dr_exec factory (SetDefaultExceptionHandler h) d gs = map_sum id (\<lambda>d. (d, gs)) (setDefaultExceptionHandler h d)"
| "dr_exec factory (HandleExceptionsFor h exc) d gs = map_sum id (\<lambda>d. (d, gs)) (handleExceptionsFor h exc d)"

fun dr_build ::
  "(nat \<Rightarrow> seq_id list \<Rightarrow> nat) \<Rightarrow> dr_call list \<Rightarrow> disruptor \<Rightarrow> seq_id list list \<Rightarrow> dr_error + disruptor \<times> seq_id list list" where
  "dr_build factory [] d gs = Inr (d, gs)"
| "dr_build factory (c # cs) d gs =
    (case dr_exec factory c d gs of Inl e \<Rightarrow> Inl e | Inr (d, gs) \<Rightarrow> dr_build factory cs d gs)"

text \<open>\<open>start\<close> gates the ring before it checks that it is the first call.\<close>

definition dr_start :: "disruptor \<Rightarrow> dr_error option \<times> disruptor" where
  "dr_start d =
    (let d = d\<lparr>dr_gating := dr_gating d @ getLastSequenceInChain (\<lambda>_. False) True (dr_repo d)\<rparr> in
     if dr_started d then (Some StartedTwice, d)
     else (None, d\<lparr>dr_started := True,
            dr_actions := dr_actions d @ map StartConsumer [0..<length (cr_infos (dr_repo d))]\<rparr>))"

definition dr_halt :: "disruptor \<Rightarrow> disruptor" where
  "dr_halt d = d\<lparr>dr_actions := dr_actions d @ map HaltConsumer [0..<length (cr_infos (dr_repo d))]\<rparr>"

definition hasBacklog :: "(nat \<Rightarrow> bool) \<Rightarrow> int \<Rightarrow> (seq_id \<Rightarrow> int) \<Rightarrow> disruptor \<Rightarrow> bool" where
  "hasBacklog running cursor val d = list_ex (\<lambda>s. cursor > val s) (getLastSequenceInChain running False (dr_repo d))"

text \<open>
  The loop of \<open>shutdown\<close> on what it reads in its turns: which consumers run, the cursor, the
  sequences and the clock. A timeout \<open>None\<close> is \<open>Duration::max()\<close>.
\<close>

record shutdown_read =
  sd_running :: "nat \<Rightarrow> bool"
  sd_cursor :: int
  sd_value :: "seq_id \<Rightarrow> int"
  sd_now :: int

datatype shutdown_result = Halted | TimedOut | StillWaiting

fun shutdown_loop :: "int option \<Rightarrow> int \<Rightarrow> disruptor \<Rightarrow> shutdown_read list \<Rightarrow> shutdown_result \<times> disruptor" where
  "shutdown_loop timeout began d [] = (StillWaiting, d)"
| "shutdown_loop timeout began d (x # reads) =
    (if hasBacklog (sd_running x) (sd_cursor x) (sd_value x) d
     then if (case timeout of None \<Rightarrow> False | Some t \<Rightarrow> t \<ge> 0 \<and> sd_now x > began + t) then (TimedOut, d)
          else shutdown_loop timeout began d reads
     else (Halted, dr_halt d))"

text \<open>\<open>shutdown()\<close> without a timeout never reports one.\<close>

definition dr_shutdown :: "int \<Rightarrow> disruptor \<Rightarrow> shutdown_read list \<Rightarrow> shutdown_result \<times> disruptor" where
  "dr_shutdown began = shutdown_loop None began"

section \<open>What the builder keeps\<close>

text \<open>
  A consumer that does not gate the ring has a successor: a later consumer whose barrier
  holds all its sequences.
\<close>

definition justified :: "consumer list \<Rightarrow> nat \<Rightarrow> bool" where
  "justified infos k \<longleftrightarrow> ci_isEndOfChain (infos ! k)
     \<or> (\<exists>k' D. k < k' \<and> k' < length infos \<and> ci_barrier (infos ! k') = Some D \<and> set (ci_sequences (infos ! k)) \<subseteq> set D)"

definition chain_ok :: "consumer list \<Rightarrow> bool" where
  "chain_ok infos \<longleftrightarrow> (\<forall>k < length infos. justified infos k)"

text \<open>Groups hold only sequences that exist, and all sequences of a consumer if any.\<close>

definition closed_group :: "repository \<Rightarrow> nat \<Rightarrow> seq_id list \<Rightarrow> bool" where
  "closed_group r m G \<longleftrightarrow> (\<forall>s \<in> set G. (\<forall>n. s = Own n \<longrightarrow> n < m)
     \<and> (\<forall>k. cr_bySequence r s = Some k \<longrightarrow> set (ci_sequences (cr_infos r ! k)) \<subseteq> set G))"

definition index_ok :: "repository \<Rightarrow> nat \<Rightarrow> bool" where
  "index_ok r m \<longleftrightarrow>
     (\<forall>s k. cr_bySequence r s = Some k \<longrightarrow> k < length (cr_infos r) \<and> (\<forall>n. s = Own n \<longrightarrow> n < m)
          \<and> (\<forall>p. s = Custom p \<longrightarrow> ci_sequences (cr_infos r ! k) = [s]))
     \<and> (\<forall>h k. cr_byHandler r h = Some k \<longrightarrow> k < length (cr_infos r)
          \<and> (\<exists>n < m. ci_sequences (cr_infos r ! k) = [Own n] \<and> cr_bySequence r (Own n) = Some k))"

lemma update_keeps:
  assumes "\<And>x. f (g x) = f x"
  shows "f (xs[k := g (xs ! k)] ! i) = f (xs ! i)"
proof (cases "k < length xs")
  case True
  with assms show ?thesis by (cases "i = k") simp_all
next
  case False
  then have "xs[k := g (xs ! k)] = xs" by (intro list_update_beyond) simp
  then show ?thesis by simp
qed

lemma justified_append: "justified infos k \<Longrightarrow> k < length infos \<Longrightarrow> justified (infos @ cs) k"
  unfolding justified_def by (metis (no_types, lifting) length_append nth_append trans_less_add1)

lemma chain_ok_snoc: "chain_ok infos \<Longrightarrow> ci_isEndOfChain c \<Longrightarrow> chain_ok (infos @ [c])"
  using justified_append [of infos _ "[c]"] by (auto simp: chain_ok_def less_Suc_eq) (simp add: justified_def)

lemma chain_ok_mark:
  assumes "chain_ok infos" and k: "k < k'" "k' < length infos" "ci_barrier (infos ! k') = Some D" "set (ci_sequences (infos ! k)) \<subseteq> set D"
  shows "chain_ok (infos[k := (infos ! k)\<lparr>ci_isEndOfChain := False\<rparr>])"
  unfolding chain_ok_def
proof (intro allI impI)
  fix j assume "j < length (infos[k := (infos ! k)\<lparr>ci_isEndOfChain := False\<rparr>])"
  then have j: "j < length infos" by simp
  let ?infos = "infos[k := (infos ! k)\<lparr>ci_isEndOfChain := False\<rparr>]"
  have same: "ci_barrier (?infos ! i) = ci_barrier (infos ! i)" "ci_sequences (?infos ! i) = ci_sequences (infos ! i)" for i
    by (rule update_keeps, simp)+
  show "justified ?infos j"
  proof (cases "j = k")
    case True
    with k show ?thesis unfolding justified_def same by auto
  next
    case False
    with assms(1) j have "justified infos j" by (simp add: chain_ok_def)
    with False show ?thesis unfolding justified_def same by auto
  qed
qed

text \<open>A consumer is added with sequences of its own, or with that of the user's processor.\<close>

lemma index_ok_add:
  assumes ok: "index_ok r m" and infos: "cr_infos r' = cr_infos r @ [c]"
    and seqs: "cr_bySequence r' = (\<lambda>s. if s \<in> set (ci_sequences c) then Some (length (cr_infos r)) else cr_bySequence r s)"
    and new: "(\<forall>s \<in> set (ci_sequences c). \<exists>n. s = Own n \<and> m \<le> n \<and> n < m') \<or> (\<exists>p. ci_sequences c = [Custom p])"
    and "m \<le> m'"
    and h: "cr_byHandler r' = cr_byHandler r
      \<or> (\<exists>h n. cr_byHandler r' = (cr_byHandler r)(h \<mapsto> length (cr_infos r)) \<and> ci_sequences c = [Own n] \<and> n < m')"
  shows "index_ok r' m'"
proof -
  have old: "cr_bySequence r' (Own n) = Some k" if "cr_bySequence r (Own n) = Some k" "n < m" for n k
    using that new by (auto simp: seqs)
  have "k < length (cr_infos r') \<and> (\<forall>n. s = Own n \<longrightarrow> n < m') \<and> (\<forall>p. s = Custom p \<longrightarrow> ci_sequences (cr_infos r' ! k) = [s])"
    if k: "cr_bySequence r' s = Some k" for s k
  proof (cases "s \<in> set (ci_sequences c)")
    case True
    with k new show ?thesis by (auto simp: seqs infos)
  next
    case False
    with k ok have "k < length (cr_infos r) \<and> (\<forall>n. s = Own n \<longrightarrow> n < m) \<and> (\<forall>p. s = Custom p \<longrightarrow> ci_sequences (cr_infos r ! k) = [s])"
      by (simp add: seqs index_ok_def)
    with \<open>m \<le> m'\<close> show ?thesis by (auto simp: infos nth_append)
  qed
  moreover have "k < length (cr_infos r') \<and> (\<exists>n < m'. ci_sequences (cr_infos r' ! k) = [Own n] \<and> cr_bySequence r' (Own n) = Some k)"
    if "cr_byHandler r' x = Some k" for x k
  proof (cases "cr_byHandler r x = Some k")
    case True
    with ok obtain n where "k < length (cr_infos r)" "n < m" "ci_sequences (cr_infos r ! k) = [Own n]" "cr_bySequence r (Own n) = Some k"
      unfolding index_ok_def by blast
    with old \<open>m \<le> m'\<close> show ?thesis by (intro conjI exI [of _ n]) (simp_all add: infos nth_append)
  next
    case False
    with h that have "k = length (cr_infos r)" "\<exists>n < m'. ci_sequences c = [Own n]" by (auto split: if_splits)
    then show ?thesis by (auto simp: infos seqs)
  qed
  ultimately show ?thesis by (auto simp: index_ok_def)
qed

lemma closed_group_add:
  assumes "closed_group r m G" and "index_ok r m" and "cr_infos r' = cr_infos r @ [c]"
    and "cr_bySequence r' = (\<lambda>s. if s \<in> set (ci_sequences c) then Some (length (cr_infos r)) else cr_bySequence r s)"
    and "(\<forall>s \<in> set (ci_sequences c). \<exists>n. s = Own n \<and> m \<le> n \<and> n < m') \<or> (\<exists>p. ci_sequences c = [Custom p])"
    and "m \<le> m'"
  shows "closed_group r' m' G"
  unfolding closed_group_def
proof (intro ballI conjI allI impI)
  fix s assume s: "s \<in> set G"
  show "n < m'" if "s = Own n" for n using assms(1,6) s that by (auto simp: closed_group_def)
  show "set (ci_sequences (cr_infos r' ! k)) \<subseteq> set G" if k: "cr_bySequence r' s = Some k" for k
  proof (cases "s \<in> set (ci_sequences c)")
    case True
    then have "ci_sequences c = [s]" using assms(1,5) s by (fastforce simp: closed_group_def)
    moreover have "k = length (cr_infos r)" using True k by (simp add: assms(4))
    ultimately show ?thesis using s by (simp add: assms(3))
  next
    case False
    with k have k: "cr_bySequence r s = Some k" by (simp add: assms(4))
    with assms(2) have "k < length (cr_infos r)" by (simp add: index_ok_def)
    with k assms(1) s show ?thesis by (auto simp: assms(3) nth_append closed_group_def)
  qed
qed

text \<open>Marking: every consumer with a sequence in the barrier has one of the new consumers as its successor.\<close>

lemma chain_ok_unmark:
  assumes "chain_ok (cr_infos r)" and "k' < length (cr_infos r)" and "ci_barrier (cr_infos r ! k') = Some D"
    and "\<forall>s \<in> set B. \<forall>k. cr_bySequence r s = Some k \<longrightarrow> k < k' \<and> set (ci_sequences (cr_infos r ! k)) \<subseteq> set D"
  shows "chain_ok (cr_infos (unMarkEventProcessorsAsEndOfChain B r))
    \<and> map ci_sequences (cr_infos (unMarkEventProcessorsAsEndOfChain B r)) = map ci_sequences (cr_infos r)
    \<and> cr_bySequence (unMarkEventProcessorsAsEndOfChain B r) = cr_bySequence r
    \<and> cr_byHandler (unMarkEventProcessorsAsEndOfChain B r) = cr_byHandler r"
  using assms
proof (induction B arbitrary: r)
  case Nil
  then show ?case by (simp add: unMarkEventProcessorsAsEndOfChain_def)
next
  case (Cons s B)
  show ?case
  proof (cases "cr_bySequence r s")
    case None
    with Cons show ?thesis by (simp add: unMarkEventProcessorsAsEndOfChain_def)
  next
    case (Some k)
    with Cons.prems(4) have k: "k < k'" "set (ci_sequences (cr_infos r ! k)) \<subseteq> set D" by auto
    let ?r = "markAsUsedInBarrier k r"
    have same: "ci_barrier (cr_infos ?r ! i) = ci_barrier (cr_infos r ! i)" "ci_sequences (cr_infos ?r ! i) = ci_sequences (cr_infos r ! i)"
      "cr_bySequence ?r = cr_bySequence r" "cr_byHandler ?r = cr_byHandler r" "length (cr_infos ?r) = length (cr_infos r)" for i
      using update_keeps [of ci_barrier "ci_isEndOfChain_update (\<lambda>_. False)"] update_keeps [of ci_sequences "ci_isEndOfChain_update (\<lambda>_. False)"]
      by (simp_all add: markAsUsedInBarrier_def)
    have seqs: "map ci_sequences (cr_infos ?r) = map ci_sequences (cr_infos r)"
      using same by (intro nth_equalityI) auto
    have "chain_ok (cr_infos ?r)"
      using chain_ok_mark [OF Cons.prems(1) k(1) Cons.prems(2,3) k(2)] by (simp add: markAsUsedInBarrier_def)
    with Cons.IH [of ?r] Cons.prems(2-4) same seqs
    have "chain_ok (cr_infos (unMarkEventProcessorsAsEndOfChain B ?r))
      \<and> map ci_sequences (cr_infos (unMarkEventProcessorsAsEndOfChain B ?r)) = map ci_sequences (cr_infos ?r)
      \<and> cr_bySequence (unMarkEventProcessorsAsEndOfChain B ?r) = cr_bySequence ?r
      \<and> cr_byHandler (unMarkEventProcessorsAsEndOfChain B ?r) = cr_byHandler ?r" by auto
    moreover have "unMarkEventProcessorsAsEndOfChain (s # B) r = unMarkEventProcessorsAsEndOfChain B ?r"
      using Some by (simp add: unMarkEventProcessorsAsEndOfChain_def)
    ultimately show ?thesis using seqs same by simp
  qed
qed

lemma index_ok_cong:
  assumes "index_ok r m" and "map ci_sequences (cr_infos r') = map ci_sequences (cr_infos r)"
    and "cr_bySequence r' = cr_bySequence r" and "cr_byHandler r' = cr_byHandler r"
  shows "index_ok r' m"
proof -
  have "length (cr_infos r') = length (cr_infos r)" using arg_cong [OF assms(2), of length] by simp
  moreover have "ci_sequences (cr_infos r' ! k) = ci_sequences (cr_infos r ! k)" if "k < length (cr_infos r)" for k
    using arg_cong [OF assms(2), of "\<lambda>xs. xs ! k"] that calculation by simp
  ultimately show ?thesis using assms(1,3,4) by (auto simp: index_ok_def)
qed

lemma closed_group_cong:
  assumes "closed_group r m G" and "index_ok r m" and "map ci_sequences (cr_infos r') = map ci_sequences (cr_infos r)"
    and "cr_bySequence r' = cr_bySequence r"
  shows "closed_group r' m G"
proof -
  have len: "length (cr_infos r') = length (cr_infos r)" using arg_cong [OF assms(3), of length] by simp
  have "ci_sequences (cr_infos r' ! k) = ci_sequences (cr_infos r ! k)" if "k < length (cr_infos r)" for k
    using arg_cong [OF assms(3), of "\<lambda>xs. xs ! k"] that len by simp
  moreover have "k < length (cr_infos r)" if "cr_bySequence r s = Some k" for s k
    using assms(2) that by (simp add: index_ok_def)
  ultimately show ?thesis using assms(1,4) by (simp add: closed_group_def)
qed

lemma closed_group_append: "closed_group r m G \<Longrightarrow> closed_group r m H \<Longrightarrow> closed_group r m (G @ H)"
  unfolding closed_group_def set_append by blast

lemma closed_group_Nil [simp]: "closed_group r m []"
  by (simp add: closed_group_def)

lemma closed_group_Custom: "index_ok r m \<Longrightarrow> closed_group r m (map Custom ps)"
  by (auto simp: closed_group_def index_ok_def)

definition repo_ok :: "repository \<Rightarrow> nat \<Rightarrow> seq_id list set \<Rightarrow> bool" where
  "repo_ok r m gs \<longleftrightarrow> chain_ok (cr_infos r) \<and> index_ok r m \<and> (\<forall>G \<in> gs. closed_group r m G)"

lemma repo_ok_addHandler:
  assumes "repo_ok r m gs"
  shows "repo_ok (cr_addHandler (Own m) h D e r) (Suc m) gs"
    and "cr_bySequence (cr_addHandler (Own m) h D e r) (Own m) = Some (length (cr_infos r))"
    and "cr_infos (cr_addHandler (Own m) h D e r) = cr_infos r @ [\<lparr>ci_sequences = [Own m], ci_handler = Some h,
      ci_barrier = Some D, ci_exception = e, ci_isEndOfChain = True\<rparr>]"
proof -
  let ?r = "cr_addHandler (Own m) h D e r"
  let ?c = "\<lparr>ci_sequences = [Own m], ci_handler = Some h, ci_barrier = Some D, ci_exception = e, ci_isEndOfChain = True\<rparr>"
  have infos: "cr_infos ?r = cr_infos r @ [?c]"
    and seqs: "cr_bySequence ?r = (\<lambda>s. if s \<in> set (ci_sequences ?c) then Some (length (cr_infos r)) else cr_bySequence r s)"
    and hs: "cr_byHandler ?r = (cr_byHandler r)(h \<mapsto> length (cr_infos r))"
    by (auto simp: cr_addHandler_def Let_def)
  have "index_ok ?r (Suc m)"
    using assms hs by (intro index_ok_add [OF _ infos seqs, of m "Suc m"]) (auto simp: repo_ok_def)
  moreover have "closed_group ?r (Suc m) G" if "G \<in> gs" for G
    using assms that by (intro closed_group_add [OF _ _ infos seqs, of m]) (auto simp: repo_ok_def)
  moreover have "chain_ok (cr_infos ?r)" using assms by (simp add: infos repo_ok_def chain_ok_snoc)
  ultimately show "repo_ok ?r (Suc m) gs" by (simp add: repo_ok_def)
  show "cr_bySequence ?r (Own m) = Some (length (cr_infos r))" "cr_infos ?r = cr_infos r @ [?c]"
    by (simp_all add: infos seqs)
qed

lemma repo_ok_addProcessor:
  assumes "repo_ok r m gs"
  shows "repo_ok (cr_addProcessor p r) m gs"
proof -
  let ?r = "cr_addProcessor p r"
  let ?c = "\<lparr>ci_sequences = [Custom p], ci_handler = None, ci_barrier = None, ci_exception = None, ci_isEndOfChain = True\<rparr>"
  have infos: "cr_infos ?r = cr_infos r @ [?c]"
    and seqs: "cr_bySequence ?r = (\<lambda>s. if s \<in> set (ci_sequences ?c) then Some (length (cr_infos r)) else cr_bySequence r s)"
    and hs: "cr_byHandler ?r = cr_byHandler r"
    by (auto simp: cr_addProcessor_def)
  have "index_ok ?r m"
    using assms hs by (intro index_ok_add [OF _ infos seqs, of m m]) (auto simp: repo_ok_def)
  moreover have "closed_group ?r m G" if "G \<in> gs" for G
    using assms that by (intro closed_group_add [OF _ _ infos seqs, of m]) (auto simp: repo_ok_def)
  moreover have "chain_ok (cr_infos ?r)" using assms by (simp add: infos repo_ok_def chain_ok_snoc)
  ultimately show ?thesis by (simp add: repo_ok_def)
qed

lemma fold_upd_all: "fold (\<lambda>s m. m(s \<mapsto> k)) ss f = (\<lambda>s. if s \<in> set ss then Some k else f s)"
  by (induction ss arbitrary: f) auto

lemma repo_ok_addPool:
  assumes "repo_ok r m gs" and ss: "ss = map Own [m..<m']" "m \<le> m'"
  shows "repo_ok (cr_addPool ss D e r) m' (insert ss gs)"
proof -
  let ?r = "cr_addPool ss D e r"
  let ?c = "\<lparr>ci_sequences = ss, ci_handler = None, ci_barrier = Some D, ci_exception = e, ci_isEndOfChain = True\<rparr>"
  have infos: "cr_infos ?r = cr_infos r @ [?c]"
    and seqs: "cr_bySequence ?r = (\<lambda>s. if s \<in> set (ci_sequences ?c) then Some (length (cr_infos r)) else cr_bySequence r s)"
    and hs: "cr_byHandler ?r = cr_byHandler r"
    by (auto simp: cr_addPool_def fold_upd_all)
  have "index_ok ?r m'"
    using assms hs by (intro index_ok_add [OF _ infos seqs, of m m']) (auto simp: repo_ok_def)
  moreover have "closed_group ?r m' G" if "G \<in> gs" for G
    using assms that by (intro closed_group_add [OF _ _ infos seqs, of m]) (auto simp: repo_ok_def)
  moreover have "closed_group ?r m' ss" unfolding closed_group_def seqs infos using ss(1) by auto
  moreover have "chain_ok (cr_infos ?r)" unfolding infos using assms(1) by (simp add: repo_ok_def chain_ok_snoc)
  ultimately show ?thesis by (simp add: repo_ok_def)
qed

text \<open>The processors of a list of handlers, each with the barrier \<open>D\<close>.\<close>

lemma addProcessors_ok:
  assumes "repo_ok (dr_repo d) (dr_fresh d) gs" and "addProcessors D hs d = (d', ss)"
  shows "repo_ok (dr_repo d') (dr_fresh d') gs \<and> dr_fresh d \<le> dr_fresh d'
    \<and> length (cr_infos (dr_repo d')) = length (cr_infos (dr_repo d)) + length hs
    \<and> (\<forall>k. length (cr_infos (dr_repo d)) \<le> k \<and> k < length (cr_infos (dr_repo d')) \<longrightarrow> ci_barrier (cr_infos (dr_repo d') ! k) = Some D)
    \<and> (\<forall>k < length (cr_infos (dr_repo d)). cr_infos (dr_repo d') ! k = cr_infos (dr_repo d) ! k)
    \<and> (\<forall>s. (\<forall>n. s = Own n \<longrightarrow> n < dr_fresh d) \<longrightarrow> cr_bySequence (dr_repo d') s = cr_bySequence (dr_repo d) s)
    \<and> closed_group (dr_repo d') (dr_fresh d') ss \<and> length ss = length hs"
  using assms
proof (induction hs arbitrary: d ss)
  case Nil
  then show ?case by auto
next
  case (Cons h hs)
  let ?m = "dr_fresh d" and ?r = "dr_repo d"
  let ?d = "d\<lparr>dr_fresh := ?m + 1, dr_repo := cr_addHandler (Own ?m) h D (dr_exception d) ?r\<rparr>"
  note add = repo_ok_addHandler [OF Cons.prems(1), of h D "dr_exception d"]
  obtain ss' where run: "addProcessors D hs ?d = (d', ss')" and ss: "ss = Own ?m # ss'"
    using Cons.prems(2) by (auto simp: Let_def split: prod.splits)
  have infos: "cr_infos (dr_repo ?d) = cr_infos ?r @ [\<lparr>ci_sequences = [Own ?m], ci_handler = Some h, ci_barrier = Some D,
      ci_exception = dr_exception d, ci_isEndOfChain = True\<rparr>]" using add(3) by simp
  have by_seq: "cr_bySequence (dr_repo ?d) s = (if s = Own ?m then Some (length (cr_infos ?r)) else cr_bySequence ?r s)" for s
    by (simp add: cr_addHandler_def Let_def)
  have ok: "repo_ok (dr_repo ?d) (dr_fresh ?d) gs" using add(1) by simp
  note IH = Cons.IH [OF ok run]
  have "closed_group (dr_repo d') (dr_fresh d') [Own ?m]"
  proof -
    have "cr_bySequence (dr_repo d') (Own ?m) = Some (length (cr_infos ?r))" using IH by_seq by simp
    moreover have "cr_infos (dr_repo d') ! length (cr_infos ?r) = cr_infos (dr_repo ?d) ! length (cr_infos ?r)"
      using IH infos by simp
    ultimately show ?thesis using IH infos by (simp add: closed_group_def)
  qed
  then have "closed_group (dr_repo d') (dr_fresh d') ss" using IH closed_group_append [of _ _ "[Own ?m]" ss'] by (simp add: ss)
  moreover have "ci_barrier (cr_infos (dr_repo d') ! k) = Some D"
    if "length (cr_infos ?r) \<le> k" "k < length (cr_infos (dr_repo d'))" for k
    using that IH infos by (cases "k = length (cr_infos ?r)") simp_all
  moreover have "cr_infos (dr_repo d') ! k = cr_infos ?r ! k" if "k < length (cr_infos ?r)" for k
    using that IH infos by (simp add: nth_append)
  moreover have "cr_bySequence (dr_repo d') s = cr_bySequence ?r s" if "\<forall>n. s = Own n \<longrightarrow> n < ?m" for s
    using that IH by_seq [of s] by (cases s) auto
  ultimately show ?case using IH infos by (simp add: ss)
qed

lemma createEventProcessors_ok:
  assumes ok: "repo_ok (dr_repo d) (dr_fresh d) gs" and D: "closed_group (dr_repo d) (dr_fresh d) D"
    and run: "createEventProcessors D hs d = Inr (d', ss)"
  shows "repo_ok (dr_repo d') (dr_fresh d') (insert ss gs)"
proof -
  obtain d1 where d1: "addProcessors D hs d = (d1, ss)"
      and d': "d' = (if ss \<noteq> [] then d1\<lparr>dr_repo := unMarkEventProcessorsAsEndOfChain D (dr_repo d1)\<rparr> else d1)"
    using run by (auto simp: createEventProcessors_def Let_def split: if_splits prod.splits)
  note add = addProcessors_ok [OF ok d1]
  show ?thesis
  proof (cases "ss = []")
    case True
    with add d' show ?thesis by (simp add: repo_ok_def)
  next
    case False
    let ?r = "dr_repo d1" and ?k = "length (cr_infos (dr_repo d))"
    have k: "?k < length (cr_infos ?r)" "ci_barrier (cr_infos ?r ! ?k) = Some D"
      using add False by (cases hs; simp)+
    have succ: "k < ?k \<and> set (ci_sequences (cr_infos ?r ! k)) \<subseteq> set D" if "s \<in> set D" "cr_bySequence ?r s = Some k" for s k
    proof -
      have s: "cr_bySequence (dr_repo d) s = Some k" using add D that by (auto simp: closed_group_def)
      then have "k < ?k" using ok by (auto simp: repo_ok_def index_ok_def)
      moreover have "set (ci_sequences (cr_infos (dr_repo d) ! k)) \<subseteq> set D" using D s that(1) by (auto simp: closed_group_def)
      ultimately show ?thesis using add by simp
    qed
    have un: "chain_ok (cr_infos (unMarkEventProcessorsAsEndOfChain D ?r))
      \<and> map ci_sequences (cr_infos (unMarkEventProcessorsAsEndOfChain D ?r)) = map ci_sequences (cr_infos ?r)
      \<and> cr_bySequence (unMarkEventProcessorsAsEndOfChain D ?r) = cr_bySequence ?r
      \<and> cr_byHandler (unMarkEventProcessorsAsEndOfChain D ?r) = cr_byHandler ?r"
    proof (rule chain_ok_unmark [OF _ k])
      show "chain_ok (cr_infos ?r)" using add by (simp add: repo_ok_def)
      show "\<forall>s \<in> set D. \<forall>k. cr_bySequence ?r s = Some k \<longrightarrow> k < ?k \<and> set (ci_sequences (cr_infos ?r ! k)) \<subseteq> set D"
        using succ by blast
    qed
    let ?u = "unMarkEventProcessorsAsEndOfChain D ?r"
    have idx: "index_ok ?r (dr_fresh d1)" using add by (simp add: repo_ok_def)
    have "closed_group ?r (dr_fresh d1) G" if "G \<in> insert ss gs" for G
      using add that unfolding repo_ok_def by blast
    with idx un have "closed_group ?u (dr_fresh d1) G" if "G \<in> insert ss gs" for G
      using that closed_group_cong [of ?r _ _ ?u] by blast
    moreover have "index_ok ?u (dr_fresh d1)" using idx un index_ok_cong [of ?r _ ?u] by blast
    ultimately have "repo_ok ?u (dr_fresh d1) (insert ss gs)" using un unfolding repo_ok_def by blast
    then show ?thesis using False by (simp add: d')
  qed
qed

lemma sequencesFor_closed:
  "index_ok r m \<Longrightarrow> sequencesFor hs r = Inr ss \<Longrightarrow> closed_group r m ss"
proof (induction hs arbitrary: ss)
  case (Cons h hs)
  then obtain k s' where k: "cr_byHandler r h = Some k" and s': "sequencesFor hs r = Inr s'"
      and ss: "ss = hd (ci_sequences (cr_infos r ! k)) # s'"
    by (cases "sequencesFor hs r") (auto simp: getSequenceFor_def getEventProcessorFor_def split: option.splits sum.splits)
  obtain n where n: "n < m" "ci_sequences (cr_infos r ! k) = [Own n]" "cr_bySequence r (Own n) = Some k"
    using Cons.prems(1) k unfolding index_ok_def by blast
  then have "closed_group r m [Own n]" by (simp add: closed_group_def)
  from closed_group_append [OF this Cons.IH [OF Cons.prems(1) s']] n show ?case by (simp add: ss)
qed simp

lemma repo_ok_insert: "repo_ok r m gs \<Longrightarrow> closed_group r m G \<Longrightarrow> repo_ok r m (insert G gs)"
  by (simp add: repo_ok_def)

lemma handleProcessors_ok:
  assumes "repo_ok (dr_repo d) (dr_fresh d) gs" and "handleProcessors ps d = (d', ss)"
  shows "repo_ok (dr_repo d') (dr_fresh d') (insert ss gs)"
proof -
  have "repo_ok (fold cr_addProcessor ps r) m gs" if "repo_ok r m gs" for r m
    using that by (induction ps arbitrary: r) (simp_all add: repo_ok_addProcessor)
  with assms have "repo_ok (dr_repo d') (dr_fresh d') gs" by (auto simp: handleProcessors_def)
  moreover have "ss = map Custom ps" using assms(2) by (simp add: handleProcessors_def)
  ultimately show ?thesis using closed_group_Custom by (auto simp: repo_ok_def)
qed

lemma createWorkerPool_ok:
  assumes "repo_ok (dr_repo d) (dr_fresh d) gs" and "createWorkerPool D n d = (d', ss)"
  shows "repo_ok (dr_repo d') (dr_fresh d') (insert ss gs)"
  using assms repo_ok_addPool [OF assms(1) refl, of "dr_fresh d + n + 1" D "dr_exception d"]
  by (auto simp: createWorkerPool_def Let_def)

lemma repo_ok_exception:
  assumes "repo_ok r m gs"
  shows "repo_ok (r\<lparr>cr_infos := (cr_infos r)[k := (cr_infos r ! k)\<lparr>ci_exception := e\<rparr>]\<rparr>) m gs" (is "repo_ok ?r m gs")
proof -
  have same: "ci_barrier (cr_infos ?r ! i) = ci_barrier (cr_infos r ! i)" "ci_sequences (cr_infos ?r ! i) = ci_sequences (cr_infos r ! i)"
      "ci_isEndOfChain (cr_infos ?r ! i) = ci_isEndOfChain (cr_infos r ! i)" for i
    using update_keeps [of ci_barrier "ci_exception_update (\<lambda>_. e)"] update_keeps [of ci_sequences "ci_exception_update (\<lambda>_. e)"]
      update_keeps [of ci_isEndOfChain "ci_exception_update (\<lambda>_. e)"] by simp_all
  have "chain_ok (cr_infos ?r)" using assms unfolding chain_ok_def justified_def same by (simp add: repo_ok_def chain_ok_def justified_def)
  moreover have "map ci_sequences (cr_infos ?r) = map ci_sequences (cr_infos r)" using same by (intro nth_equalityI) auto
  ultimately show ?thesis
    using assms index_ok_cong [of r m ?r] closed_group_cong [of r m _ ?r] by (simp add: repo_ok_def)
qed

lemma dr_exec_ok:
  assumes ok: "repo_ok (dr_repo d) (dr_fresh d) (set gs)" and run: "dr_exec factory c d gs = Inr (d', gs')"
  shows "repo_ok (dr_repo d') (dr_fresh d') (set gs')"
proof -
  have idx: "index_ok (dr_repo d) (dr_fresh d)" using ok by (simp add: repo_ok_def)
  have group: "closed_group (dr_repo d) (dr_fresh d) (gs ! g)" if "g < length gs" for g using ok that by (simp add: repo_ok_def)
  show ?thesis
  proof (cases c)
    case (HandleEventsWith hs)
    with run createEventProcessors_ok [OF ok, of "[]" hs] show ?thesis by (auto simp: with_group_def split: sum.splits)
  next
    case (HandleProcessors ps)
    with run handleProcessors_ok [OF ok, of ps] show ?thesis by (auto simp: with_group_def split: prod.splits)
  next
    case (HandleFactories fs)
    with run handleProcessors_ok [OF ok] show ?thesis by (auto simp: with_group_def createFromFactories_def split: prod.splits)
  next
    case (HandlePool n)
    with run createWorkerPool_ok [OF ok, of "[]" n] show ?thesis by (auto simp: with_group_def split: prod.splits)
  next
    case (After hs)
    with run sequencesFor_closed [OF idx, of hs] ok show ?thesis
      by (auto simp: with_group_def repo_ok_def split: sum.splits)
  next
    case (AfterProcessors ps)
    with run handleProcessors_ok [OF ok, of ps] show ?thesis by (auto simp: with_group_def split: prod.splits)
  next
    case (And g g')
    with run closed_group_append [OF group group] ok show ?thesis by (auto simp: with_group_def repo_ok_def split: if_splits)
  next
    case (AndProcessors g ps)
    then obtain ss where h: "handleProcessors ps d = (d', ss)" and gs': "gs' = gs @ [ss @ gs ! g]" and g: "g < length gs"
      using run by (auto simp: with_group_def split: if_splits prod.splits)
    have ok': "repo_ok (dr_repo d') (dr_fresh d') (insert ss (set gs))" by (rule handleProcessors_ok [OF ok h])
    then have "closed_group (dr_repo d') (dr_fresh d') (ss @ gs ! g)" using g by (intro closed_group_append) (auto simp: repo_ok_def)
    with ok' show ?thesis by (simp add: gs' repo_ok_def)
  next
    case (Then g hs)
    with run createEventProcessors_ok [OF ok group, of g hs] show ?thesis by (auto simp: with_group_def split: sum.splits if_splits)
  next
    case (ThenFactories g fs)
    with run handleProcessors_ok [OF ok] show ?thesis
      by (auto simp: with_group_def createFromFactories_def split: prod.splits if_splits)
  next
    case (ThenPool g n)
    with run createWorkerPool_ok [OF ok, of "gs ! g" n] show ?thesis by (auto simp: with_group_def split: prod.splits if_splits)
  next
    case (HandleExceptionsWith h)
    with run ok show ?thesis by auto
  next
    case (SetDefaultExceptionHandler h)
    with run ok show ?thesis by (auto simp: setDefaultExceptionHandler_def split: if_splits exception_ref.splits option.splits)
  next
    case (HandleExceptionsFor h e)
    with run ok repo_ok_exception show ?thesis by (auto simp: handleExceptionsFor_def Let_def split: sum.splits option.splits)
  qed
qed

lemma dr_build_ok:
  "dr_build factory cs d gs = Inr (d', gs') \<Longrightarrow> repo_ok (dr_repo d) (dr_fresh d) (set gs) \<Longrightarrow> repo_ok (dr_repo d') (dr_fresh d') (set gs')"
  by (induction cs arbitrary: d gs) (auto split: sum.splits dest: dr_exec_ok)

lemma dr_new_ok: "repo_ok (dr_repo dr_new) (dr_fresh dr_new) (set [])"
  by (simp add: repo_ok_def dr_new_def cr_new_def chain_ok_def index_ok_def)

section \<open>What the gating sequences protect\<close>

text \<open>
  Consumers wait for their barriers: what a barrier is made from is not behind all sequences
  of a consumer that has it.
\<close>

definition waits_for_barriers :: "(seq_id \<Rightarrow> int) \<Rightarrow> consumer list \<Rightarrow> bool" where
  "waits_for_barriers val infos \<longleftrightarrow> list_all (\<lambda>c. case ci_barrier c of
      None \<Rightarrow> True
    | Some D \<Rightarrow> list_all (\<lambda>q. list_ex (\<lambda>s. val s \<le> val q) (ci_sequences c)) D) infos"

lemma waits_nth:
  assumes "waits_for_barriers val infos" and "k < length infos" and "ci_barrier (infos ! k) = Some D" and "q \<in> set D"
  shows "\<exists>s \<in> set (ci_sequences (infos ! k)). val s \<le> val q"
proof -
  have "case ci_barrier (infos ! k) of None \<Rightarrow> True
      | Some D \<Rightarrow> list_all (\<lambda>q. list_ex (\<lambda>s. val s \<le> val q) (ci_sequences (infos ! k))) D"
    using assms(1,2) by (simp add: waits_for_barriers_def list_all_length)
  with assms(3,4) show ?thesis by (simp add: list_all_iff list_ex_iff)
qed

lemma getLastSequenceInChain_iff:
  "g \<in> set (getLastSequenceInChain running includeStopped r) \<longleftrightarrow>
   (\<exists>k < length (cr_infos r). (includeStopped \<or> running k) \<and> ci_isEndOfChain (cr_infos r ! k) \<and> g \<in> set (ci_sequences (cr_infos r ! k)))"
  by (auto simp: getLastSequenceInChain_def)

lemma chain_gated:
  assumes "chain_ok infos" and "waits_for_barriers val infos"
  shows "k < length infos \<Longrightarrow> q \<in> set (ci_sequences (infos ! k)) \<Longrightarrow>
    \<exists>j < length infos. ci_isEndOfChain (infos ! j) \<and> (\<exists>g \<in> set (ci_sequences (infos ! j)). val g \<le> val q)"
proof (induction "length infos - k" arbitrary: k q rule: less_induct)
  case less
  show ?case
  proof (cases "ci_isEndOfChain (infos ! k)")
    case True
    with less.prems show ?thesis by blast
  next
    case False
    with assms(1) less.prems(1) obtain k' D where k': "k < k'" "k' < length infos" "ci_barrier (infos ! k') = Some D"
        "set (ci_sequences (infos ! k)) \<subseteq> set D"
      unfolding chain_ok_def justified_def by blast
    with less.prems(2) obtain s where s: "s \<in> set (ci_sequences (infos ! k'))" "val s \<le> val q"
      using waits_nth [OF assms(2) k'(2,3), of q] by blast
    have "length infos - k' < length infos - k" using k' by linarith
    from less.hyps [OF this k'(2) s(1)] s(2) show ?thesis by (meson order_trans)
  qed
qed

lemma built_gated:
  assumes "dr_build factory cs dr_new [] = Inr (d, gs)" and "waits_for_barriers val (cr_infos (dr_repo d))"
    and "c \<in> set (cr_infos (dr_repo d))" and "q \<in> set (ci_sequences c)"
  shows "\<exists>g \<in> set (getLastSequenceInChain running True (dr_repo d)). val g \<le> val q"
proof -
  have "chain_ok (cr_infos (dr_repo d))" using dr_build_ok [OF assms(1) dr_new_ok] by (simp add: repo_ok_def)
  moreover obtain k where "k < length (cr_infos (dr_repo d))" "c = cr_infos (dr_repo d) ! k"
    using assms(3) by (auto simp: in_set_conv_nth)
  ultimately obtain j g where "j < length (cr_infos (dr_repo d))" "ci_isEndOfChain (cr_infos (dr_repo d) ! j)"
      and g: "g \<in> set (ci_sequences (cr_infos (dr_repo d) ! j))" "val g \<le> val q"
    using chain_gated [OF _ assms(2), of k q] assms(4) by blast
  with g show ?thesis by (intro bexI [of _ g]) (auto simp: getLastSequenceInChain_iff)
qed

text \<open>
  C21: \<open>start\<close> sets the ring up "to prevent overwriting any entry that is yet to be processed by
  the slowest event processor": whatever calls built the disruptor, groups joined with \<open>And\<close>,
  pools, custom processors and processors added again included, a producer that keeps behind
  the sequences that \<open>start\<close> made gate the ring is never a whole ring ahead of any sequence of
  any consumer, as long as consumers wait for their barriers.
\<close>

theorem builder_gates_all:
  assumes "dr_build factory cs dr_new [] = Inr (d, gs)" and "dr_start d = (None, d')"
    and "waits_for_barriers val (cr_infos (dr_repo d'))" and "ss_inv s" and "ss_gating s = map val (dr_gating d')"
    and "c \<in> set (cr_infos (dr_repo d'))" and "q \<in> set (ci_sequences c)"
  shows "ss_nextValue s - ss_bufferSize s \<le> val q"
proof -
  have d': "dr_repo d' = dr_repo d" "set (getLastSequenceInChain (\<lambda>_. False) True (dr_repo d)) \<subseteq> set (dr_gating d')"
    using assms(2) by (auto simp: dr_start_def Let_def split: if_splits)
  with built_gated [OF assms(1), of val c q "\<lambda>_. False"] assms(3,6,7)
  obtain g where g: "g \<in> set (dr_gating d')" "val g \<le> val q" by auto
  then have "val g \<in> set (ss_gating s)" by (simp add: assms(5))
  with assms(4) have "ss_nextValue s - ss_bufferSize s \<le> val g" by (simp add: ss_inv_def)
  with g(2) show ?thesis by linarith
qed

text \<open>Two handlers, a third after the first two, a pool after it, a custom processor beside.\<close>

definition sample_calls :: "dr_call list" where
  "sample_calls = [HandleEventsWith [1, 2], Then 0 [3], ThenPool 1 2, HandleProcessors [7]]"

definition sample_built :: disruptor where
  "sample_built = (case dr_build (\<lambda>f _. f) sample_calls dr_new [] of Inr (d, _) \<Rightarrow> snd (dr_start d) | Inl _ \<Rightarrow> dr_new)"

text \<open>Where its sequences may stand in a ring of 8.\<close>

definition sample_values :: "seq_id \<Rightarrow> int" where
  "sample_values s = (case s of Own n \<Rightarrow> [12, 11, 10, 7, 9, 10] ! n | Custom _ \<Rightarrow> 8)"

lemma sample_infos:
  "map ci_sequences (cr_infos (dr_repo sample_built)) = [[Own 0], [Own 1], [Own 2], [Own 3, Own 4, Own 5], [Custom 7]]"
  "dr_gating sample_built = [Own 2, Own 3, Own 4, Own 5, Custom 7]"
  "waits_for_barriers sample_values (cr_infos (dr_repo sample_built))"
  by code_simp+

lemma sample_starts:
  "\<exists>d gs. dr_build (\<lambda>f _. f) sample_calls dr_new [] = Inr (d, gs) \<and> dr_start d = (None, sample_built)"
proof -
  let ?b = "dr_build (\<lambda>f _. f) sample_calls dr_new []"
  have "(case ?b of Inr (d, _) \<Rightarrow> fst (dr_start d) = None | Inl _ \<Rightarrow> False)" by code_simp
  then obtain d gs where "?b = Inr (d, gs)" "fst (dr_start d) = None"
    by (auto split: sum.splits)
  then show ?thesis by (intro exI [of _ d] exI [of _ gs]) (simp add: sample_built_def prod_eq_iff)
qed

theorem builder_gates_all_witness:
  "(15 :: int) - 8 \<le> sample_values (Own 0)"
proof -
  define s where "s = \<lparr>ss_nextValue = 15, ss_cachedValue = 7, ss_cursor = 15,
    ss_gating = map sample_values (dr_gating sample_built), ss_bufferSize = 8\<rparr>"
  obtain d gs where d: "dr_build (\<lambda>f _. f) sample_calls dr_new [] = Inr (d, gs)" "dr_start d = (None, sample_built)"
    using sample_starts by blast
  have "ss_inv s" by (simp add: s_def sample_infos ss_inv_def) (simp add: sample_values_def)
  moreover have "cr_infos (dr_repo sample_built) ! 0 \<in> set (cr_infos (dr_repo sample_built))"
    "Own 0 \<in> set (ci_sequences (cr_infos (dr_repo sample_built) ! 0))" by code_simp+
  ultimately show ?thesis
    using builder_gates_all [OF d sample_infos(3), of s] by (simp add: s_def)
qed

section \<open>Shutdown\<close>

definition all_processed :: "disruptor \<Rightarrow> shutdown_read \<Rightarrow> bool" where
  "all_processed d x \<longleftrightarrow>
     list_all (\<lambda>c. list_all (\<lambda>q. sd_cursor x \<le> sd_value x q) (ci_sequences c)) (cr_infos (dr_repo d))"

lemma hasBacklog_iff:
  assumes "dr_build factory cs dr_new [] = Inr (d, gs)" and d': "dr_repo d' = dr_repo d"
    and run: "\<forall>k < length (cr_infos (dr_repo d)). sd_running x k"
    and waits: "waits_for_barriers (sd_value x) (cr_infos (dr_repo d))"
  shows "hasBacklog (sd_running x) (sd_cursor x) (sd_value x) d' \<longleftrightarrow> \<not> all_processed d' x"
proof -
  let ?r = "dr_repo d"
  have last: "set (getLastSequenceInChain (sd_running x) False ?r) = set (getLastSequenceInChain (sd_running x) True ?r)"
    using run by (intro set_eqI) (simp add: getLastSequenceInChain_iff, blast)
  have backlog: "hasBacklog (sd_running x) (sd_cursor x) (sd_value x) d'
      \<longleftrightarrow> (\<exists>g \<in> set (getLastSequenceInChain (sd_running x) True ?r). sd_cursor x > sd_value x g)"
    by (simp add: hasBacklog_def list_ex_iff d' last)
  have processed: "all_processed d' x \<longleftrightarrow> (\<forall>c \<in> set (cr_infos ?r). \<forall>q \<in> set (ci_sequences c). sd_cursor x \<le> sd_value x q)"
    by (simp add: all_processed_def list_all_iff d')
  have "sd_cursor x > sd_value x g" if "g \<in> set (getLastSequenceInChain (sd_running x) True ?r)" "sd_value x g \<le> sd_value x q"
      "sd_cursor x > sd_value x q" for g q using that by linarith
  then have "\<not> all_processed d' x \<Longrightarrow> hasBacklog (sd_running x) (sd_cursor x) (sd_value x) d'"
    unfolding backlog processed using built_gated [OF assms(1) waits, of _ _ "sd_running x"] by (meson not_le)
  moreover have "\<exists>c \<in> set (cr_infos ?r). g \<in> set (ci_sequences c)" if "g \<in> set (getLastSequenceInChain (sd_running x) True ?r)" for g
    using that by (auto simp: getLastSequenceInChain_iff)
  then have "hasBacklog (sd_running x) (sd_cursor x) (sd_value x) d' \<Longrightarrow> \<not> all_processed d' x"
    unfolding backlog processed by (meson not_le)
  ultimately show ?thesis by blast
qed

lemma shutdown_loop_None:
  "shutdown_loop None began d reads =
    (if \<exists>x \<in> set reads. \<not> hasBacklog (sd_running x) (sd_cursor x) (sd_value x) d then (Halted, dr_halt d) else (StillWaiting, d))"
  by (induction reads) auto

text \<open>A timeout is reported only after it has passed, while events are still waiting.\<close>

lemma shutdown_TimedOut:
  "shutdown_loop timeout began d reads = (TimedOut, d') \<Longrightarrow>
   \<exists>x \<in> set reads. \<exists>t. timeout = Some t \<and> sd_now x > began + t \<and> hasBacklog (sd_running x) (sd_cursor x) (sd_value x) d"
  by (induction reads) (auto split: if_splits option.splits)

text \<open>
  C22: \<open>shutdown\<close> "waits until all events currently in the disruptor have been processed by all
  event processors and then halts the processors". It looks only at the ends of the chains.
  As long as in every turn all consumers are running and have waited for their barriers, it halts
  all of them in exactly the first turn that finds every sequence of every consumer at the
  cursor, and waits before that. Consumers that are not running it does not count: if in the
  first turn no consumer at the end of a chain is running, as when the executor has not yet
  started their threads, it halts at once, whatever has not been processed.
\<close>

theorem shutdown_halts_when_processed:
  assumes "dr_build factory cs dr_new [] = Inr (d, gs)" and "dr_start d = (None, d')"
    and "\<forall>x \<in> set reads. (\<forall>k < length (cr_infos (dr_repo d')). sd_running x k) \<and> waits_for_barriers (sd_value x) (cr_infos (dr_repo d'))"
    and "halted = d'\<lparr>dr_actions := dr_actions d @ map StartConsumer [0..<length (cr_infos (dr_repo d))]
            @ map HaltConsumer [0..<length (cr_infos (dr_repo d))]\<rparr>"
  shows "dr_shutdown began d' reads =
      (if list_ex (all_processed d') reads then (Halted, halted) else (StillWaiting, d'))
    \<and> (\<forall>x more. (\<forall>k < length (cr_infos (dr_repo d')).
          ci_isEndOfChain (cr_infos (dr_repo d') ! k) \<longrightarrow> \<not> sd_running x k) \<longrightarrow>
        dr_shutdown began d' (x # more) = (Halted, halted))"
proof -
  have d': "dr_repo d' = dr_repo d" "dr_actions d' = dr_actions d @ map StartConsumer [0..<length (cr_infos (dr_repo d))]"
    using assms(2) by (auto simp: dr_start_def Let_def split: if_splits)
  then have halt: "dr_halt d' = halted" by (simp add: dr_halt_def assms(4))
  have "hasBacklog (sd_running x) (sd_cursor x) (sd_value x) d' \<longleftrightarrow> \<not> all_processed d' x" if "x \<in> set reads" for x
    using hasBacklog_iff [OF assms(1) d'(1), of x] assms(3) that by (simp add: d'(1))
  then have "dr_shutdown began d' reads =
      (if list_ex (all_processed d') reads then (Halted, halted) else (StillWaiting, d'))"
    by (auto simp: dr_shutdown_def shutdown_loop_None list_ex_iff halt)
  moreover have "dr_shutdown began d' (x # more) = (Halted, halted)"
    if "\<forall>k < length (cr_infos (dr_repo d')). ci_isEndOfChain (cr_infos (dr_repo d') ! k) \<longrightarrow> \<not> sd_running x k" for x more
  proof -
    have "\<not> hasBacklog (sd_running x) (sd_cursor x) (sd_value x) d'"
      using that by (auto simp: hasBacklog_def list_ex_iff getLastSequenceInChain_iff)
    then show ?thesis by (simp add: dr_shutdown_def halt)
  qed
  ultimately show ?thesis by blast
qed

text \<open>The sample at cursor 12: in the second turn everybody has caught up.\<close>

definition sample_reads :: "shutdown_read list" where
  "sample_reads = [\<lparr>sd_running = \<lambda>_. True, sd_cursor = 12, sd_value = sample_values, sd_now = 0\<rparr>,
     \<lparr>sd_running = \<lambda>_. True, sd_cursor = 12, sd_value = \<lambda>_. 12, sd_now = 1\<rparr>]"

theorem shutdown_halts_when_processed_witness:
  "fst (dr_shutdown 0 sample_built sample_reads) = Halted \<and> fst (dr_shutdown 0 sample_built (take 1 sample_reads)) = StillWaiting
   \<and> fst (dr_shutdown 0 sample_built [\<lparr>sd_running = \<lambda>_. False, sd_cursor = 12, sd_value = sample_values, sd_now = 0\<rparr>]) = Halted"
proof -
  obtain d gs where d: "dr_build (\<lambda>f _. f) sample_calls dr_new [] = Inr (d, gs)" "dr_start d = (None, sample_built)"
    using sample_starts by blast
  have waits: "\<forall>x \<in> set sample_reads. (\<forall>k < length (cr_infos (dr_repo sample_built)). sd_running x k)
      \<and> waits_for_barriers (sd_value x) (cr_infos (dr_repo sample_built))"
  proof -
    have "waits_for_barriers (\<lambda>_. 12) (cr_infos (dr_repo sample_built))" by code_simp
    with sample_infos(3) show ?thesis by (simp add: sample_reads_def)
  qed
  have "list_ex (all_processed sample_built) sample_reads" "\<not> list_ex (all_processed sample_built) (take 1 sample_reads)"
    by code_simp+
  moreover have "set (take 1 sample_reads) \<subseteq> set sample_reads" by (rule set_take_subset)
  ultimately show ?thesis
    using shutdown_halts_when_processed [OF d waits refl, of 0]
      shutdown_halts_when_processed [OF d _ refl, of "take 1 sample_reads" 0] waits
    by (simp add: subset_iff)
qed

text \<open>A second \<open>start\<close> fails, but only after it has added every gating sequence once more.\<close>

lemma second_start_gates_again:
  assumes "dr_start d = (None, d')" and "dr_gating d = []"
  shows "\<exists>d''. dr_start d' = (Some StartedTwice, d'') \<and> dr_gating d'' = dr_gating d' @ dr_gating d'"
  using assms by (auto simp: dr_start_def Let_def split: if_splits)

text \<open>\<open>setDefaultExceptionHandler\<close> after \<open>handleExceptionsWith\<close> casts to a wrapper that is not there.\<close>

lemma setDefault_after_handleExceptionsWith:
  "dr_exec factory (HandleExceptionsWith h) d gs = Inr (d', gs') \<Longrightarrow> \<not> dr_started d \<Longrightarrow>
   setDefaultExceptionHandler h' d' = Inl NullDereference"
  by (cases h) (auto simp: setDefaultExceptionHandler_def)

text \<open>\<open>after(processors)\<close> adds processors that were set up before a second time, and \<open>start\<close> runs them twice.\<close>

lemma after_adds_again:
  "\<exists>d gs. dr_build factory [HandleProcessors [p], AfterProcessors [p]] dr_new [] = Inr (d, gs)
     \<and> map ci_sequences (cr_infos (dr_repo d)) = [[Custom p], [Custom p]]
     \<and> dr_actions (snd (dr_start d)) = [StartConsumer 0, StartConsumer 1]"
  by (simp add: with_group_def handleProcessors_def dr_new_def cr_new_def cr_addProcessor_def dr_start_def Let_def)

end
