(* ===== verification/Evio_Util.thy ===== *)
theory Evio_Util
  imports Byte_Order
begin

text \<open>
  EVIO's \<open>Util.h\<close>, the parts with a body that compute: padding, conversions between bytes and
  integers of either byte order, names of data types, the raw format of string arrays with
  its parser, and the header parsers of \<open>EventHeaderParser.h\<close> built on them. Shown: string
  arrays come back from their raw format.
\<close>

section \<open>Padding\<close>

definition getPadding :: "u32 \<Rightarrow> u32" where
  "getPadding len = [0, 3, 2, 1] ! unat (len mod 4)"

definition getWords :: "u32 \<Rightarrow> u32" where
  "getWords len = (let words = len div 4 in if getPadding len > 0 then words + 1 else words)"

section \<open>Names of data types\<close>

datatype data_type = UNKNOWN32 | UINT32 | FLOAT32 | CHARSTAR8 | SHORT16 | USHORT16 | CHAR8 | UCHAR8
  | DOUBLE64 | LONG64 | ULONG64 | INT32 | TAGSEGMENT | ALSOSEGMENT | ALSOBANK | COMPOSITE
  | BANK | SEGMENT | HOLLERIT | NVALUE | nVALUE | mVALUE | NOT_A_VALID_TYPE

definition tolower :: "char \<Rightarrow> char" where
  "tolower c = (let n = of_char c :: nat in if 65 \<le> n \<and> n \<le> 90 then char_of (n + 32) else c)"

fun equalFrom :: "string \<Rightarrow> string \<Rightarrow> nat \<Rightarrow> nat \<Rightarrow> bool" where
  "equalFrom a b sz 0 = True"
| "equalFrom a b sz (Suc n) =
     (if tolower (a ! (sz - Suc n)) \<noteq> tolower (b ! (sz - Suc n)) then False else equalFrom a b sz n)"

definition iStrEquals :: "string \<Rightarrow> string \<Rightarrow> bool" where
  "iStrEquals a b = (if length b \<noteq> length a then False else equalFrom a b (length a) (length a))"

definition getDataType :: "string \<Rightarrow> data_type" where
  "getDataType type =
    (if iStrEquals type ''int8'' then CHAR8
     else if iStrEquals type ''uint8'' then UCHAR8
     else if iStrEquals type ''int16'' then SHORT16
     else if iStrEquals type ''uint16'' then USHORT16
     else if iStrEquals type ''int32'' then INT32
     else if iStrEquals type ''uint32'' then UINT32
     else if iStrEquals type ''int64'' then LONG64
     else if iStrEquals type ''uint64'' then ULONG64
     else if iStrEquals type ''long64'' then LONG64
     else if iStrEquals type ''ulong64'' then ULONG64
     else if iStrEquals type ''float32'' then FLOAT32
     else if iStrEquals type ''float64'' then DOUBLE64
     else if iStrEquals type ''double64'' then DOUBLE64
     else if iStrEquals type ''string'' then CHARSTAR8
     else if iStrEquals type ''composite'' then COMPOSITE
     else if iStrEquals type ''unknown32'' then UNKNOWN32
     else if iStrEquals type ''tagsegment'' then TAGSEGMENT
     else if iStrEquals type ''segment'' then ALSOSEGMENT
     else if iStrEquals type ''bank'' then ALSOBANK
     else NOT_A_VALID_TYPE)"

section \<open>Bytes and integers\<close>

datatype util_error = EvioException

definition byte32 :: "u8 \<Rightarrow> u32" where "byte32 b = 0xff AND ucast b"
definition byte64 :: "u8 \<Rightarrow> u64" where "byte64 b = 0xff AND ucast b"

definition toInt4 :: "u8 \<Rightarrow> u8 \<Rightarrow> u8 \<Rightarrow> u8 \<Rightarrow> byte_order \<Rightarrow> u32" where
  "toInt4 b1 b2 b3 b4 order =
    (if order = ENDIAN_BIG
     then push_bit 24 (byte32 b1) OR push_bit 16 (byte32 b2) OR push_bit 8 (byte32 b3) OR byte32 b4
     else byte32 b1 OR push_bit 8 (byte32 b2) OR push_bit 16 (byte32 b3) OR push_bit 24 (byte32 b4))"

text \<open>A pointer argument is the bytes from there on, \<open>None\<close> when it is null.\<close>

definition toInt :: "bytes option \<Rightarrow> byte_order \<Rightarrow> util_error + u32" where
  "toInt data order =
    (case data of None \<Rightarrow> Inl EvioException | Some d \<Rightarrow> Inr (toInt4 (d ! 0) (d ! 1) (d ! 2) (d ! 3) order))"

definition toLong :: "bytes option \<Rightarrow> byte_order \<Rightarrow> util_error + u64" where
  "toLong data order =
    (case data of
       None \<Rightarrow> Inl EvioException
     | Some d \<Rightarrow> Inr (
         if order = ENDIAN_BIG
         then push_bit 56 (byte64 (d ! 0)) OR push_bit 48 (byte64 (d ! 1)) OR push_bit 40 (byte64 (d ! 2))
           OR push_bit 32 (byte64 (d ! 3)) OR push_bit 24 (byte64 (d ! 4)) OR push_bit 16 (byte64 (d ! 5))
           OR push_bit 8 (byte64 (d ! 6)) OR byte64 (d ! 7)
         else byte64 (d ! 0) OR push_bit 8 (byte64 (d ! 1)) OR push_bit 16 (byte64 (d ! 2))
           OR push_bit 24 (byte64 (d ! 3)) OR push_bit 32 (byte64 (d ! 4)) OR push_bit 40 (byte64 (d ! 5))
           OR push_bit 48 (byte64 (d ! 6)) OR push_bit 56 (byte64 (d ! 7))))"

text \<open>The bytes of an integer in the given order, and the writers that store them.\<close>

definition intBytes :: "u32 \<Rightarrow> byte_order \<Rightarrow> bytes" where
  "intBytes data order =
    (if order = ENDIAN_BIG
     then [ucast (drop_bit 24 data), ucast (drop_bit 16 data), ucast (drop_bit 8 data), ucast data]
     else [ucast data, ucast (drop_bit 8 data), ucast (drop_bit 16 data), ucast (drop_bit 24 data)])"

definition longBytes :: "u64 \<Rightarrow> byte_order \<Rightarrow> bytes" where
  "longBytes data order =
    (if order = ENDIAN_BIG
     then [ucast (drop_bit 56 data), ucast (drop_bit 48 data), ucast (drop_bit 40 data), ucast (drop_bit 32 data),
           ucast (drop_bit 24 data), ucast (drop_bit 16 data), ucast (drop_bit 8 data), ucast data]
     else [ucast data, ucast (drop_bit 8 data), ucast (drop_bit 16 data), ucast (drop_bit 24 data),
           ucast (drop_bit 32 data), ucast (drop_bit 40 data), ucast (drop_bit 48 data), ucast (drop_bit 56 data)])"

definition shortBytes :: "u16 \<Rightarrow> byte_order \<Rightarrow> bytes" where
  "shortBytes data order =
    (if order = ENDIAN_BIG then [ucast (drop_bit 8 data), ucast data] else [ucast data, ucast (drop_bit 8 data)])"

definition toBytes_int :: "u32 \<Rightarrow> byte_order \<Rightarrow> bytes option \<Rightarrow> util_error + bytes" where
  "toBytes_int data order dest =
    (case dest of None \<Rightarrow> Inl EvioException | Some d \<Rightarrow> Inr (overwrite d 0 (intBytes data order)))"

definition toBytes_long :: "u64 \<Rightarrow> byte_order \<Rightarrow> bytes option \<Rightarrow> util_error + bytes" where
  "toBytes_long data order dest =
    (case dest of None \<Rightarrow> Inl EvioException | Some d \<Rightarrow> Inr (overwrite d 0 (longBytes data order)))"

definition toBytes_short :: "u16 \<Rightarrow> byte_order \<Rightarrow> bytes option \<Rightarrow> util_error + bytes" where
  "toBytes_short data order dest =
    (case dest of None \<Rightarrow> Inl EvioException | Some d \<Rightarrow> Inr (overwrite d 0 (shortBytes data order)))"

text \<open>Into a vector at an offset; \<open>None\<close>: outside of the vector.\<close>

definition toBytes_int_at :: "u32 \<Rightarrow> byte_order \<Rightarrow> bytes \<Rightarrow> nat \<Rightarrow> bytes option" where
  "toBytes_int_at data order dest off =
    (if off + 4 \<le> length dest then Some (overwrite dest off (intBytes data order)) else None)"

definition toBytes_short_at :: "u16 \<Rightarrow> byte_order \<Rightarrow> bytes \<Rightarrow> nat \<Rightarrow> bytes option" where
  "toBytes_short_at data order dest off =
    (if off + 2 \<le> length dest then Some (overwrite dest off (shortBytes data order)) else None)"

text \<open>
  The loop of \<open>toIntArray\<close>, whose bound \<open>dataLen - 3\<close> is computed in 32 bits. \<open>None\<close>: an access
  outside of one of the arrays.
\<close>

function intArray_loop :: "bytes \<Rightarrow> u32 \<Rightarrow> byte_order \<Rightarrow> nat \<Rightarrow> u32 list \<Rightarrow> u32 list option" where
  "intArray_loop data dataLen order i dest =
    (if i < unat (dataLen - 3) then
       (if i + 4 \<le> length data \<and> i div 4 < length dest
        then intArray_loop data dataLen order (i + 4)
               (dest[i div 4 := toInt4 (data ! i) (data ! (i + 1)) (data ! (i + 2)) (data ! (i + 3)) order])
        else None)
     else Some dest)"
  by pat_completeness auto
termination
  by (relation "measure (\<lambda>(data, dataLen, order, i, dest). length data - i)") auto

declare intArray_loop.simps [simp del]

definition toIntArray :: "bytes option \<Rightarrow> u32 \<Rightarrow> byte_order \<Rightarrow> u32 list option \<Rightarrow> (util_error + u32 list) option" where
  "toIntArray data dataLen order dest =
    (case (data, dest) of
       (Some d, Some w) \<Rightarrow> map_option Inr (intArray_loop d dataLen order 0 w)
     | _ \<Rightarrow> Some (Inl EvioException))"

section \<open>Headers\<close>

text \<open>What the parsers hand to the setters of a header, narrowed to their argument types.\<close>

record structure_header =
  sh_length :: u32
  sh_tag :: u16
  sh_type :: u32
  sh_padding :: u8
  sh_number :: u8

definition header_word :: "bytes \<Rightarrow> byte_order \<Rightarrow> u32 option" where
  "header_word bytes order =
    (case toIntArray (Some bytes) 4 order (Some [0]) of Some (Inr [w]) \<Rightarrow> Some w | _ \<Rightarrow> None)"

definition createBankHeader :: "bytes \<Rightarrow> byte_order \<Rightarrow> structure_header option" where
  "createBankHeader bytes order =
    (case header_word bytes order of
       None \<Rightarrow> None
     | Some len \<Rightarrow>
        (case header_word (drop 4 bytes) order of
           None \<Rightarrow> None
         | Some word \<Rightarrow>
             let dt = drop_bit 8 word AND 0xff
             in Some \<lparr>sh_length = len, sh_tag = ucast (drop_bit 16 word), sh_type = dt AND 0x3f,
                      sh_padding = ucast (drop_bit 6 dt), sh_number = ucast word\<rparr>))"

definition createSegmentHeader :: "bytes \<Rightarrow> byte_order \<Rightarrow> structure_header option" where
  "createSegmentHeader bytes order =
    (case header_word bytes order of
       None \<Rightarrow> None
     | Some word \<Rightarrow>
         let dt = drop_bit 16 word AND 0xff
         in Some \<lparr>sh_length = word AND 0xffff, sh_tag = ucast (drop_bit 24 word), sh_type = dt AND 0x3f,
                  sh_padding = ucast (drop_bit 6 dt), sh_number = 0\<rparr>)"

definition createTagSegmentHeader :: "bytes \<Rightarrow> byte_order \<Rightarrow> structure_header option" where
  "createTagSegmentHeader bytes order =
    (case header_word bytes order of
       None \<Rightarrow> None
     | Some word \<Rightarrow>
         Some \<lparr>sh_length = word AND 0xffff, sh_tag = ucast (drop_bit 20 word),
               sh_type = drop_bit 16 word AND 0xf, sh_padding = 0, sh_number = 0\<rparr>)"

section \<open>String arrays\<close>

text \<open>Strings are byte lists; their total length stays below \<open>2 ^ 31\<close>, the range of the index.\<close>

definition pads :: "nat list" where "pads = [4, 3, 2, 1]"

definition stringsToRawSize :: "bytes list \<Rightarrow> u32" where
  "stringsToRawSize strings =
    (if strings = [] then 0
     else let dataLen = fold (\<lambda>s n. n + of_nat (length s + 1)) strings 0
          in dataLen + of_nat (pads ! unat (dataLen mod 4)))"

definition stringToRawSize :: "bytes \<Rightarrow> u32" where
  "stringToRawSize str =
    (if str = [] then 0
     else let dataLen = of_nat (length str + 1) in dataLen + of_nat (pads ! unat (dataLen mod 4)))"

text \<open>The \<open>switch\<close> appends as many bytes 4 as its selector says.\<close>

definition stringsToRawBytes :: "bytes list \<Rightarrow> bytes option" where
  "stringsToRawBytes strings =
    (if strings = [] then Some []
     else
      let dataLen = stringsToRawSize strings;
          strData = fold (\<lambda>s acc. acc @ s @ [0]) strings [];
          strData = strData @ replicate (pads ! (length strData mod 4)) 4
      in if length strData \<le> unat dataLen
         then Some (strData @ replicate (unat dataLen - length strData) 0) else None)"

record sb_state =
  sb_nulls :: "nat list"
  sb_nullCount :: nat
  sb_goodChars :: nat
  sb_badFormat :: bool

definition unprintable :: "u8 \<Rightarrow> bool" where
  "unprintable c \<longleftrightarrow> (c < 32 \<or> c > 126) \<and> c \<noteq> 9 \<and> c \<noteq> 10"

text \<open>
  The scan, over the characters from index \<open>i\<close> on. When characters other than 4 follow a 4,
  the \<open>goto\<close> leads to the end of the loop body, not past the loop: the scan goes on.
\<close>

fun sb_loop :: "bool \<Rightarrow> nat \<Rightarrow> sb_state \<Rightarrow> bytes \<Rightarrow> sb_state" where
  "sb_loop noEnding4 i st [] = st"
| "sb_loop noEnding4 i st (c # rest) =
    (let next = (\<lambda>st. sb_loop noEnding4 (i + 1) (st\<lparr>sb_goodChars := sb_goodChars st + 1\<rparr>) rest) in
     if c = 0 then
       let st = st\<lparr>sb_nullCount := sb_nullCount st + 1, sb_nulls := sb_nulls st @ [i]\<rparr>
       in if noEnding4 then st\<lparr>sb_badFormat := False\<rparr> else next st
     else if unprintable c then
       (if sb_nullCount st < 1 then st\<lparr>sb_badFormat := True\<rparr>
        else if c = 4 then
          (if length rest > 3 then st\<lparr>sb_badFormat := True\<rparr>
           else if list_all (\<lambda>x. x = 4) rest then st\<lparr>sb_badFormat := False\<rparr>
           else next (st\<lparr>sb_badFormat := True\<rparr>))
        else st\<lparr>sb_badFormat := True\<rparr>)
     else next st)"

fun splitAt :: "bytes \<Rightarrow> nat \<Rightarrow> nat list \<Rightarrow> bytes list" where
  "splitAt strData firstIndex [] = []"
| "splitAt strData firstIndex (nullIndex # ns) =
     take (nullIndex - firstIndex) (drop firstIndex strData) # splitAt strData (nullIndex + 1) ns"

text \<open>\<open>None\<close>: the last character of an empty string is read.\<close>

definition stringBuilderToStrings :: "bytes \<Rightarrow> bool \<Rightarrow> bytes list option" where
  "stringBuilderToStrings strData onlyGoodChars =
    (if strData = [] then None
     else
      let st = sb_loop (last strData \<noteq> 4) 0
                 \<lparr>sb_nulls = [], sb_nullCount = 0, sb_goodChars = 0, sb_badFormat = True\<rparr> strData
      in Some (if sb_badFormat st then (if onlyGoodChars then [take (sb_goodChars st) strData] else [strData])
               else splitAt strData 0 (sb_nulls st)))"

text \<open>The unpacking routines; when they return early the vector of strings is as it was.\<close>

definition unpackRawBytesToStrings_max :: "bytes \<Rightarrow> u64 \<Rightarrow> u64 \<Rightarrow> bytes list \<Rightarrow> bytes list option" where
  "unpackRawBytesToStrings_max bytes offset maxLength strData =
    (let len = ucast (of_nat (length bytes) - offset) :: i32 in
     if bytes = [] \<or> sint len < 4 then Some strData
     else
      let len = (if scast len > maxLength then ucast maxLength else len) :: i32
      in if unat offset + unat len > length bytes then None
         else stringBuilderToStrings (take (unat len) (drop (unat offset) bytes)) True)"

definition unpackRawBytesToStrings :: "bytes \<Rightarrow> u64 \<Rightarrow> bytes list \<Rightarrow> bytes list option" where
  "unpackRawBytesToStrings bytes offset strData =
     unpackRawBytesToStrings_max bytes offset (of_nat (length bytes)) strData"

definition unpackRawBytesToStrings_pointer :: "bytes option \<Rightarrow> nat \<Rightarrow> bytes list \<Rightarrow> bytes list option" where
  "unpackRawBytesToStrings_pointer bytes len strData =
    (case bytes of
       None \<Rightarrow> Some strData
     | Some b \<Rightarrow> if len > length b then None else stringBuilderToStrings (take len b) True)"

text \<open>From a buffer, whose bytes start at \<open>array() + arrayOffset()\<close>.\<close>

definition unpackRawBytesToStrings_buffer :: "bytes \<Rightarrow> nat \<Rightarrow> nat \<Rightarrow> bytes list \<Rightarrow> bytes list option" where
  "unpackRawBytesToStrings_buffer array pos len strData =
    (if len < 4 then Some strData
     else if pos + len > length array then None
     else stringBuilderToStrings (take len (drop pos array)) False)"


section \<open>Integers come back from their bytes\<close>

lemma byte_ucast [simp]: "byte32 b = ucast b" "byte64 b = ucast b"
  unfolding byte32_def byte64_def and.commute [of "0xff"] and_0xff
  by (rule bit_word_eqI, auto simp: bit_simps dest: bit_imp_le_length)+

lemma toInt4_le:
  "toInt4 a b c d ENDIAN_LITTLE = word_le [a, b, c, d]" "toInt4 a b c d ENDIAN_BIG = word_le [d, c, b, a]"
  by (simp_all add: toInt4_def push_bit_or ac_simps)

lemma intBytes_le: "intBytes w ENDIAN_LITTLE = bytes_le 4 w" "intBytes w ENDIAN_BIG = rev (bytes_le 4 w)"
  by (simp_all add: intBytes_def bytes_le_4 bytes_le_2)

lemma longBytes_le: "longBytes w ENDIAN_LITTLE = bytes_le 8 w" "longBytes w ENDIAN_BIG = rev (bytes_le 8 w)"
  by (simp_all add: longBytes_def bytes_le_8 bytes_le_4 bytes_le_2)

lemma toInt_intBytes: "toInt (Some (intBytes w order @ rest)) order = Inr w"
proof -
  have "word_le (bytes_le 4 w) = w" by (simp add: word_le_bytes_le_full)
  then show ?thesis by (cases order) (simp_all add: toInt_def intBytes_def toInt4_le bytes_le_4 bytes_le_2)
qed

lemma toLong_longBytes: "toLong (Some (longBytes w order @ rest)) order = Inr w"
proof -
  have "word_le (bytes_le 8 w) = w" by (simp add: word_le_bytes_le_full)
  then show ?thesis
    by (cases order) (simp_all add: toLong_def longBytes_def bytes_le_8 bytes_le_4 bytes_le_2 push_bit_or ac_simps)
qed

lemma toIntArray_word: "4 \<le> length bytes \<Longrightarrow> header_word bytes order
    = Some (toInt4 (bytes ! 0) (bytes ! 1) (bytes ! 2) (bytes ! 3) order)"
  by (simp add: header_word_def toIntArray_def intArray_loop.simps numeral_2_eq_2)

section \<open>Raw strings\<close>

definition printable :: "u8 \<Rightarrow> bool" where
  "printable c \<longleftrightarrow> \<not> unprintable c \<and> c \<noteq> 0"

definition raw_body :: "bytes list \<Rightarrow> bytes" where
  "raw_body ss = concat (map (\<lambda>s. s @ [0]) ss)"

lemma raw_body_simps [simp]: "raw_body [] = []" "raw_body (s # ss) = s @ 0 # raw_body ss"
  by (simp_all add: raw_body_def)

lemma fold_raw_body: "fold (\<lambda>s acc. acc @ s @ [0]) ss acc = acc @ raw_body ss"
  by (induction ss arbitrary: acc) simp_all

lemma fold_raw_size: "fold (\<lambda>s n. n + of_nat (length s + 1)) ss n = n + (of_nat (length (raw_body ss)) :: u32)"
  by (induction ss arbitrary: n) (simp_all add: ac_simps)

fun null_positions :: "nat \<Rightarrow> bytes list \<Rightarrow> nat list" where
  "null_positions i [] = []"
| "null_positions i (s # ss) = (i + length s) # null_positions (i + length s + 1) ss"

lemma sb_loop_printable:
  assumes "list_all printable s"
  shows "sb_loop e i st (s @ rest) = sb_loop e (i + length s) (st\<lparr>sb_goodChars := sb_goodChars st + length s\<rparr>) rest"
  using assms by (induction s arbitrary: i st) (simp_all add: printable_def)

lemma sb_loop_strings:
  assumes "\<forall>s \<in> set ss. list_all printable s"
  shows "sb_loop False i st (raw_body ss @ rest) = sb_loop False (i + length (raw_body ss))
    (st\<lparr>sb_nulls := sb_nulls st @ null_positions i ss, sb_nullCount := sb_nullCount st + length ss,
        sb_goodChars := sb_goodChars st + length (raw_body ss)\<rparr>) rest"
  using assms by (induction ss arbitrary: i st) (simp_all add: sb_loop_printable add.assoc)

lemma splitAt_strings:
  "splitAt (pre @ raw_body ss @ rest) (length pre) (null_positions (length pre) ss) = ss"
proof (induction ss arbitrary: pre)
  case Nil
  then show ?case by simp
next
  case (Cons s ss)
  from Cons [of "pre @ s @ [0]"] show ?case by simp
qed

lemma pads_small: "0 < pads ! (n mod 4) \<and> pads ! (n mod 4) \<le> 4 \<and> (n + pads ! (n mod 4)) mod 4 = 0"
proof -
  have "n mod 4 = 0 \<or> n mod 4 = 1 \<or> n mod 4 = 2 \<or> n mod 4 = 3" by presburger
  then show ?thesis by (auto simp: pads_def) presburger+
qed

definition raw_format :: "bytes list \<Rightarrow> bytes" where
  "raw_format ss = raw_body ss @ replicate (pads ! (length (raw_body ss) mod 4)) 4"

lemma stringBuilder_raw:
  assumes "ss \<noteq> []" and "\<forall>s \<in> set ss. list_all printable s"
  shows "stringBuilderToStrings (raw_format ss) good = Some ss"
proof -
  let ?p = "pads ! (length (raw_body ss) mod 4)"
  obtain q where q: "?p = Suc q" "q \<le> 3" using pads_small [of "length (raw_body ss)"] by (cases ?p) auto
  have raw: "raw_format ss = raw_body ss @ 4 # replicate q 4" by (simp add: raw_format_def q(1))
  have four: "unprintable 4" by (simp add: unprintable_def)
  have "last (raw_format ss) = 4" by (simp add: raw last_append)
  then show ?thesis
    using assms q(2) four splitAt_strings [of "[]" ss]
    by (simp add: stringBuilderToStrings_def raw sb_loop_strings list_all_iff)
qed

lemma raw_size:
  assumes "ss \<noteq> []" and "length (raw_body ss) < 2 ^ 31 - 4"
  shows "unat (stringsToRawSize ss) = length (raw_format ss)" and "stringsToRawBytes ss = Some (raw_format ss)"
proof -
  let ?n = "length (raw_body ss)"
  have "unat ((of_nat ?n :: u32) mod 4) = ?n mod 4" using assms(2) by (simp add: unat_mod unat_of_nat)
  then have "stringsToRawSize ss = of_nat (length (raw_format ss))"
    using assms(1) fold_raw_size [of ss 0] by (simp add: stringsToRawSize_def raw_format_def Let_def)
  moreover have "length (raw_format ss) < 2 ^ 32"
    using assms(2) pads_small [of ?n] by (simp add: raw_format_def)
  ultimately show size: "unat (stringsToRawSize ss) = length (raw_format ss)" by (simp add: unat_of_nat)
  show "stringsToRawBytes ss = Some (raw_format ss)"
    using assms(1) size by (simp add: stringsToRawBytes_def fold_raw_body raw_format_def Let_def)
qed

section \<open>Property\<close>

text \<open>
  C35: an array of printable strings written by \<open>stringsToRawBytes\<close> has the size
  \<open>stringsToRawSize\<close> says, a multiple of four, and every unpacking routine gives the strings
  back, empty ones included.
\<close>

theorem raw_strings_roundtrip:
  assumes "ss \<noteq> []" and "\<forall>s \<in> set ss. list_all printable s" and "sum_list (map (\<lambda>s. length s + 1) ss) < 2 ^ 31 - 4"
  shows "\<exists>raw. stringsToRawBytes ss = Some raw \<and> length raw = unat (stringsToRawSize ss) \<and> length raw mod 4 = 0
    \<and> unpackRawBytesToStrings raw 0 old = Some ss
    \<and> unpackRawBytesToStrings_pointer (Some raw) (length raw) old = Some ss
    \<and> unpackRawBytesToStrings_buffer (before @ raw @ after) (length before) (length raw) old = Some ss"
proof -
  let ?raw = "raw_format ss"
  have "length (raw_body ss) = sum_list (map (\<lambda>s. length s + 1) ss)" by (induction ss) simp_all
  then have body: "length (raw_body ss) < 2 ^ 31 - 4" using assms(3) by simp
  note size = raw_size [OF assms(1) body] and unpack = stringBuilder_raw [OF assms(1,2)]
  have mod: "length ?raw mod 4 = 0" "0 < length ?raw" "length ?raw < 2 ^ 31"
    using pads_small [of "length (raw_body ss)"] body by (simp_all add: raw_format_def)
  then have four: "4 \<le> length ?raw" by presburger
  have len: "unat (of_nat (length ?raw) :: i32) = length ?raw" using mod(3) by (simp add: unat_of_nat)
  have s: "sint (of_nat (length ?raw) :: i32) = int (length ?raw)" using mod(3) by (simp add: signed_of_nat signed_take_bit_int_eq_self)
  have cast: "ucast (of_nat (length ?raw) :: u64) = (of_nat (length ?raw) :: i32)"
    using mod(3) by (simp add: word_unat_eq_iff unsigned_ucast_eq unsigned_of_nat take_bit_nat_eq_self)
  have "unpackRawBytesToStrings ?raw 0 old = Some ss"
    using four len s unpack mod(2)
    by (auto simp: unpackRawBytesToStrings_def unpackRawBytesToStrings_max_def cast Let_def)
  then show ?thesis
    using size mod(1) four unpack
    by (auto simp: unpackRawBytesToStrings_pointer_def unpackRawBytesToStrings_buffer_def)
qed

theorem raw_strings_roundtrip_witness:
  "\<exists>raw. stringsToRawBytes [[104, 105], [], [49]] = Some raw \<and> length raw = 8
    \<and> unpackRawBytesToStrings raw 0 [] = Some [[104, 105], [], [49]]"
  using raw_strings_roundtrip [of "[[104, 105], [], [49]]" "[]" "[]" "[]"]
  by (auto simp: printable_def unprintable_def stringsToRawSize_def pads_def)

end
