(* ===== verification/Evio_Tree.thy ===== *)
theory Evio_Tree
  imports Evio_Util
begin

text \<open>
  The trees of EVIO structures: the depth-first and breadth-first iterators of
  \<open>BaseStructure.h\<close>, and the entries of a dictionary with their equality
  (\<open>EvioDictionaryEntry.h\<close>).
\<close>

section \<open>Iterators\<close>

text \<open>A structure is its contents and its children.\<close>

datatype 'a base_structure = Structure (content: 'a) (children: "'a base_structure list")

text \<open>
  A pair of iterators into a vector of children is the list of those still to come. The vector
  on top is popped with its last child; the source then still increments, through a reference,
  the iterator in the pair that was popped and no longer exists. What this undefined
  increment does to the iterator is the argument \<open>dangling\<close> of the operations: \<open>Some\<close> where it
  does nothing else than the source expects of it, \<open>\<lambda>_. None\<close> where it ends the program.
\<close>

record 'a node_iterator =
  ni_stack :: "'a base_structure list list"
  ni_currentNode :: "'a base_structure"
  ni_isEnd :: bool

definition nodeIterator :: "'a base_structure \<Rightarrow> bool \<Rightarrow> 'a node_iterator" where
  "nodeIterator node isEnd =
    \<lparr>ni_stack = (if children node \<noteq> [] then [children node] else []), ni_currentNode = node, ni_isEnd = isEnd\<rparr>"

text \<open>\<open>operator==\<close>; \<open>same\<close> tells whether both are the same object.\<close>

definition ni_equal :: "bool \<Rightarrow> 'a node_iterator \<Rightarrow> 'a node_iterator \<Rightarrow> bool" where
  "ni_equal same a b = (if ni_isEnd a \<and> ni_isEnd b then True else same)"

definition ni_notEqual :: "bool \<Rightarrow> 'a node_iterator \<Rightarrow> 'a node_iterator \<Rightarrow> bool" where
  "ni_notEqual same a b = (if ni_isEnd a \<and> ni_isEnd b then False else \<not> same)"

definition ni_preIncrement ::
  "('a node_iterator \<Rightarrow> 'a node_iterator option) \<Rightarrow> 'a node_iterator \<Rightarrow> 'a node_iterator option" where
  "ni_preIncrement dangling it =
    (if ni_isEnd it then Some it
     else case ni_stack it of
       [] \<Rightarrow> Some (it\<lparr>ni_isEnd := True\<rparr>)
     | kids # rest \<Rightarrow>
         let node = hd kids in
         map_option (\<lambda>it. it\<lparr>ni_stack := (if children node \<noteq> [] then children node # ni_stack it else ni_stack it),
                             ni_currentNode := node\<rparr>)
           (if length kids = 1 then dangling (it\<lparr>ni_stack := rest\<rparr>) else Some (it\<lparr>ni_stack := tl kids # rest\<rparr>)))"

text \<open>The value of \<open>it++\<close> and the iterator after it.\<close>

definition ni_postIncrement ::
  "('a node_iterator \<Rightarrow> 'a node_iterator option) \<Rightarrow> 'a node_iterator \<Rightarrow> ('a node_iterator \<times> 'a node_iterator) option" where
  "ni_postIncrement dangling it = map_option (Pair it) (ni_preIncrement dangling it)"

text \<open>The breadth-first iterator keeps a queue.\<close>

definition nb_preIncrement ::
  "('a node_iterator \<Rightarrow> 'a node_iterator option) \<Rightarrow> 'a node_iterator \<Rightarrow> 'a node_iterator option" where
  "nb_preIncrement dangling it =
    (if ni_isEnd it then Some it
     else case ni_stack it of
       [] \<Rightarrow> Some (it\<lparr>ni_isEnd := True\<rparr>)
     | front # rest \<Rightarrow>
         let node = hd front in
         map_option (\<lambda>it. it\<lparr>ni_stack := (if children node \<noteq> [] then ni_stack it @ [children node] else ni_stack it),
                             ni_currentNode := node\<rparr>)
           (if length front = 1 then dangling (it\<lparr>ni_stack := rest\<rparr>) else Some (it\<lparr>ni_stack := tl front # rest\<rparr>)))"

text \<open>At the end of the tree the value is the iterator already moved to the end.\<close>

definition nb_postIncrement ::
  "('a node_iterator \<Rightarrow> 'a node_iterator option) \<Rightarrow> 'a node_iterator \<Rightarrow> ('a node_iterator \<times> 'a node_iterator) option" where
  "nb_postIncrement dangling it =
    (if \<not> ni_isEnd it \<and> ni_stack it = [] then Some (it\<lparr>ni_isEnd := True\<rparr>, it\<lparr>ni_isEnd := True\<rparr>)
     else map_option (Pair it) (nb_preIncrement dangling it))"

text \<open>
  The loop \<open>for (it = begin(); it != end(); ++it)\<close> and the nodes it sees; it can be ended by an
  increment, and \<open>NoFuel\<close> is that the turns allowed do not suffice.
\<close>

datatype visit_error = NoFuel | DanglingIncrement

fun visit ::
  "('a node_iterator \<Rightarrow> 'a node_iterator option) \<Rightarrow> nat \<Rightarrow> 'a node_iterator \<Rightarrow> 'a node_iterator
    \<Rightarrow> visit_error + 'a base_structure list" where
  "visit next fuel finish it =
    (if \<not> ni_notEqual False it finish then Inr []
     else case fuel of
       0 \<Rightarrow> Inl NoFuel
     | Suc k \<Rightarrow> (case next it of
         None \<Rightarrow> Inl DanglingIncrement
       | Some it' \<Rightarrow> map_sum id (Cons (ni_currentNode it)) (visit next k finish it')))"

declare visit.simps [simp del]

definition depthFirst ::
  "('a node_iterator \<Rightarrow> 'a node_iterator option) \<Rightarrow> nat \<Rightarrow> 'a base_structure \<Rightarrow> visit_error + 'a base_structure list" where
  "depthFirst dangling fuel t = visit (ni_preIncrement dangling) fuel (nodeIterator t True) (nodeIterator t False)"

definition breadthFirst ::
  "('a node_iterator \<Rightarrow> 'a node_iterator option) \<Rightarrow> nat \<Rightarrow> 'a base_structure \<Rightarrow> visit_error + 'a base_structure list" where
  "breadthFirst dangling fuel t = visit (nb_preIncrement dangling) fuel (nodeIterator t True) (nodeIterator t False)"

section \<open>Dictionary entries\<close>

datatype entry_type = TAG_NUM | TAG_ONLY | TAG_RANGE

datatype dictionary_entry = DictionaryEntry (de_tag: u16) (de_tagEnd: u16) (de_num: u8) (de_numValid: bool)
  (de_type: data_type) (de_format: string) (de_description: string) (de_entryType: entry_type)
  (de_parentEntry: "dictionary_entry option")

text \<open>The constructor all others call: it orders the ends of a range and finds the kind of the entry.\<close>

definition EvioDictionaryEntry ::
  "u16 \<Rightarrow> u8 \<Rightarrow> u16 \<Rightarrow> bool \<Rightarrow> data_type \<Rightarrow> string \<Rightarrow> string \<Rightarrow> dictionary_entry option \<Rightarrow> dictionary_entry" where
  "EvioDictionaryEntry tag num tagEnd numValid type description format parent =
    (let (lo, hi, isRange) =
       (if tagEnd = tag \<or> tagEnd = 0 then (tag, 0, False)
        else if tagEnd < tag then (tagEnd, tag, True)
        else (tag, tagEnd, True))
     in DictionaryEntry lo hi num numValid type format description
          (if \<not> isRange then (if numValid then TAG_NUM else TAG_ONLY) else TAG_RANGE) parent)"

definition entry_tag_num :: "u16 \<Rightarrow> u8 \<Rightarrow> data_type \<Rightarrow> dictionary_entry" where
  "entry_tag_num tag num type = EvioDictionaryEntry tag num 0 True type [] [] None"

definition entry_tag_range :: "u16 \<Rightarrow> u16 \<Rightarrow> data_type \<Rightarrow> string \<Rightarrow> string \<Rightarrow> dictionary_entry option \<Rightarrow> dictionary_entry" where
  "entry_tag_range tag tagEnd type description format parent = EvioDictionaryEntry tag 0 tagEnd False type description format parent"

definition entry_full :: "u16 \<Rightarrow> u8 \<Rightarrow> u16 \<Rightarrow> data_type \<Rightarrow> string \<Rightarrow> string \<Rightarrow> dictionary_entry option \<Rightarrow> dictionary_entry" where
  "entry_full tag num tagEnd type description format parent = EvioDictionaryEntry tag num tagEnd True type description format parent"

definition inRange :: "dictionary_entry \<Rightarrow> u16 \<Rightarrow> bool" where
  "inRange e tagArg \<longleftrightarrow> de_tagEnd e \<noteq> 0 \<and> tagArg \<ge> de_tag e \<and> tagArg \<le> de_tagEnd e"

definition inRange_entry :: "dictionary_entry \<Rightarrow> dictionary_entry \<Rightarrow> bool" where
  "inRange_entry e entry \<longleftrightarrow> de_tagEnd e \<noteq> 0 \<and> de_tag entry \<ge> de_tag e \<and> de_tag entry \<le> de_tagEnd e"

text \<open>\<open>operator==\<close>; \<open>same\<close> tells whether both are one object. Parents are compared by their numbers alone.\<close>

definition de_equal :: "bool \<Rightarrow> dictionary_entry \<Rightarrow> dictionary_entry \<Rightarrow> bool" where
  "de_equal same a b \<longleftrightarrow> same \<or>
     (let match = (de_tag a = de_tag b \<and> de_numValid a = de_numValid b);
          match = (if de_numValid a then match \<and> de_num a = de_num b else match);
          match = (match \<and> de_tagEnd a = de_tagEnd b);
          match = (match \<and> de_entryType a = de_entryType b)
      in case (de_parentEntry a, de_parentEntry b) of
           (Some p, Some q) \<Rightarrow>
             let match = (match \<and> de_tag p = de_tag q);
                 match = (match \<and> de_numValid p = de_numValid q);
                 match = (if de_numValid p then match \<and> de_num p = de_num q else match)
             in match \<and> de_tagEnd p = de_tagEnd q
         | _ \<Rightarrow> match)"

section \<open>What they should see\<close>

fun preorder :: "'a base_structure \<Rightarrow> 'a base_structure list" where
  "preorder (Structure a ts) = Structure a ts # concat (map preorder ts)"

text \<open>Level by level: the nodes of a list of trees, then those of all their children.\<close>

lemma size_children: "size_list size (children t) < size (t :: 'a base_structure)"
  by (cases t) simp

lemma size_list_children:
  "size_list size (concat (map children ts)) + length ts \<le> size_list size (ts :: 'a base_structure list)"
proof (induction ts)
  case (Cons t ts)
  with size_children [of t] show ?case by (simp add: size_list_append)
qed simp

function level_order :: "'a base_structure list \<Rightarrow> 'a base_structure list" where
  "level_order ts = (if ts = [] then [] else ts @ level_order (concat (map children ts)))"
  by pat_completeness auto
termination
proof (relation "measure (size_list size)")
  fix ts :: "'a base_structure list"
  assume "ts \<noteq> []"
  then have "0 < length ts" by simp
  then show "(concat (map children ts), ts) \<in> measure (size_list size)" using size_list_children [of ts] by (simp only: in_measure)
qed simp

declare level_order.simps [simp del]

text \<open>The same with a queue.\<close>

function queue_order :: "'a base_structure list \<Rightarrow> 'a base_structure list" where
  "queue_order [] = []"
| "queue_order (t # q) = t # queue_order (q @ children t)"
  by pat_completeness auto
termination
  by (relation "measure (size_list size)") (simp_all add: size_list_append size_children less_imp_le less_Suc_eq_le)

lemma queue_order_append: "queue_order (xs @ ys) = xs @ queue_order (ys @ concat (map children xs))"
  by (induction xs arbitrary: ys) simp_all

lemma queue_level_order: "queue_order ts = level_order ts"
proof (induction ts rule: level_order.induct)
  case (1 ts)
  then show ?case using queue_order_append [of ts "[]"] by (simp add: level_order.simps [of ts])
qed

definition nodes_of :: "'a base_structure list \<Rightarrow> 'a base_structure list" where
  "nodes_of ts = concat (map preorder ts)"

lemma nodes_of_simps [simp]: "nodes_of [] = []" "nodes_of (t # ts) = t # nodes_of (children t @ ts)"
  by (cases t, simp add: nodes_of_def)+

lemma length_queue_order: "length (queue_order ts) = length (nodes_of ts)"
proof (induction ts rule: queue_order.induct)
  case (2 t q)
  have "length (nodes_of (q @ children t)) = length (nodes_of (children t @ q))" by (simp add: nodes_of_def)
  with 2 show ?case by simp
qed simp

section \<open>The iterators see every structure once\<close>

text \<open>The children still to come; no vector on the stack or in the queue is used up.\<close>

definition ni_wf :: "'a node_iterator \<Rightarrow> bool" where
  "ni_wf it \<longleftrightarrow> [] \<notin> set (ni_stack it)"

definition pending :: "'a node_iterator \<Rightarrow> 'a base_structure list" where
  "pending it = concat (ni_stack it)"

text \<open>
  One increment: at the end, with a child left in the vector it looks at, or with the last one.
  \<open>place\<close> is where the children of the new node go.
\<close>

definition steps_to ::
  "('a base_structure list \<Rightarrow> 'a base_structure list \<Rightarrow> 'a base_structure list) \<Rightarrow> 'a node_iterator
    \<Rightarrow> 'a node_iterator option \<Rightarrow> bool" where
  "steps_to place it r \<longleftrightarrow> (case pending it of
      [] \<Rightarrow> (\<exists>it'. r = Some it' \<and> ni_isEnd it')
    | t # q \<Rightarrow> (\<exists>it'. r = Some it' \<and> ni_wf it' \<and> \<not> ni_isEnd it' \<and> ni_currentNode it' = t
          \<and> pending it' = place (children t) q))"

lemma preIncrement_steps:
  assumes "ni_wf it" and "\<not> ni_isEnd it"
  shows "steps_to (\<lambda>kids q. kids @ q) it (ni_preIncrement Some it)"
    and "steps_to (\<lambda>kids q. q @ kids) it (nb_preIncrement Some it)"
proof -
  have stack: "ni_stack it = [] \<and> pending it = [] \<or> (\<exists>t ts rest. ni_stack it = (t # ts) # rest)"
    using assms(1) by (cases "ni_stack it"; cases "hd (ni_stack it)") (auto simp: ni_wf_def pending_def)
  then show "steps_to (\<lambda>kids q. kids @ q) it (ni_preIncrement Some it)"
    using assms by (auto simp: steps_to_def ni_preIncrement_def Let_def ni_wf_def pending_def)
  from stack show "steps_to (\<lambda>kids q. q @ kids) it (nb_preIncrement Some it)"
    using assms by (auto simp: steps_to_def nb_preIncrement_def Let_def ni_wf_def pending_def)
qed

text \<open>
  Where the undefined increment ends the program: the increment is the same as long as a child
  is left in the vector it looks at, and then more structures are pending.
\<close>

lemma preIncrement_strict:
  assumes "ni_wf it" and "\<not> ni_isEnd it" and "pending it = t # q"
  shows "ni_preIncrement (\<lambda>_. None) it = None \<or> ni_preIncrement (\<lambda>_. None) it = ni_preIncrement Some it \<and> q \<noteq> []"
    and "nb_preIncrement (\<lambda>_. None) it = None \<or> nb_preIncrement (\<lambda>_. None) it = nb_preIncrement Some it \<and> q \<noteq> []"
proof -
  obtain ts rest where "ni_stack it = (t # ts) # rest" "q = ts @ concat rest"
    using assms(1,3) by (cases "ni_stack it"; cases "hd (ni_stack it)") (auto simp: ni_wf_def pending_def)
  then show "ni_preIncrement (\<lambda>_. None) it = None \<or> ni_preIncrement (\<lambda>_. None) it = ni_preIncrement Some it \<and> q \<noteq> []"
    "nb_preIncrement (\<lambda>_. None) it = None \<or> nb_preIncrement (\<lambda>_. None) it = nb_preIncrement Some it \<and> q \<noteq> []"
    using assms(2) by (auto simp: ni_preIncrement_def nb_preIncrement_def Let_def)
qed

lemma visit_end: "ni_isEnd finish \<Longrightarrow> ni_isEnd it \<Longrightarrow> visit next k finish it = Inr []"
  by (simp add: visit.simps ni_notEqual_def)

lemma visit_node:
  "\<not> ni_isEnd it \<Longrightarrow> visit next (Suc k) finish it = (case next it of
     None \<Rightarrow> Inl DanglingIncrement
   | Some it' \<Rightarrow> map_sum id (Cons (ni_currentNode it)) (visit next k finish it'))"
  by (simp add: visit.simps [of _ "Suc k"] ni_notEqual_def)

text \<open>The order in which an iterator goes on, and how far there is to go.\<close>

lemma visit_order:
  assumes "ni_isEnd finish" and "ni_wf it" and "\<not> ni_isEnd it" and "length (nodes_of (pending it)) < k"
    and step: "\<And>it. ni_wf it \<Longrightarrow> \<not> ni_isEnd it \<Longrightarrow> steps_to place it (next it)"
    and order: "order [] = []" "\<And>t q. order (t # q) = t # order (place (children t) q)"
    and place: "\<And>kids q. length (nodes_of (place kids q)) = length (nodes_of (kids @ q))"
  shows "visit next k finish it = Inr (ni_currentNode it # order (pending it))"
  using assms(2-4)
proof (induction k arbitrary: it)
  case (Suc k)
  show ?case
  proof (cases "pending it")
    case Nil
    then obtain it' where "next it = Some it'" "ni_isEnd it'"
      using step [OF Suc.prems(1,2)] by (auto simp: steps_to_def)
    with Nil show ?thesis by (simp add: visit_node [OF Suc.prems(2)] visit_end [OF assms(1)] order)
  next
    case (Cons t q)
    then obtain it' where "next it = Some it'" "ni_wf it'" "\<not> ni_isEnd it'" "ni_currentNode it' = t"
      "pending it' = place (children t) q"
      using step [OF Suc.prems(1,2)] by (auto simp: steps_to_def)
    with Suc.IH [of it'] Suc.prems(3) Cons place show ?thesis
      by (simp add: visit_node [OF Suc.prems(2)] order)
  qed
qed simp

lemma visit_strict:
  assumes "ni_wf it" and "\<not> ni_isEnd it" and "length (nodes_of (pending it)) < k" and "pending it \<noteq> []"
    and step: "\<And>it. ni_wf it \<Longrightarrow> \<not> ni_isEnd it \<Longrightarrow> steps_to place it (next it)"
    and strict: "\<And>it t q. ni_wf it \<Longrightarrow> \<not> ni_isEnd it \<Longrightarrow> pending it = t # q \<Longrightarrow>
      strictly it = None \<or> strictly it = next it \<and> q \<noteq> []"
    and place: "\<And>kids q. length (nodes_of (place kids q)) = length (nodes_of (kids @ q))"
      "\<And>kids q. q \<noteq> [] \<Longrightarrow> place kids q \<noteq> []"
  shows "visit strictly k finish it = Inl DanglingIncrement"
  using assms(1-4)
proof (induction k arbitrary: it)
  case (Suc k)
  obtain t q where p: "pending it = t # q" using Suc.prems(4) by (cases "pending it") simp_all
  show ?case
  proof (cases "strictly it")
    case None
    then show ?thesis by (simp add: visit_node [OF Suc.prems(2)])
  next
    case (Some it')
    then have "next it = Some it'" "q \<noteq> []" using strict [OF Suc.prems(1,2) p] by auto
    with step [OF Suc.prems(1,2)] p have "ni_wf it'" "\<not> ni_isEnd it'" "pending it' = place (children t) q"
      by (simp_all add: steps_to_def)
    with Suc.IH [of it'] Suc.prems(3) p place \<open>q \<noteq> []\<close> show ?thesis
      by (simp add: visit_node [OF Suc.prems(2)] Some)
  qed
qed simp

text \<open>
  C33: where the undefined increment of the iterator of a vector that has just been popped does
  nothing else, both iterators end, within one turn for each structure, and see every structure of a tree exactly
  once: the depth-first iterator yields every structure before its children and these in their
  order; the breadth-first one yields the tree level by level. Where that increment ends the
  program, neither gets through any tree but a structure without children.
\<close>

theorem iterators_visit_all:
  assumes "length (preorder t) \<le> fuel"
  shows "depthFirst Some fuel t = Inr (preorder t) \<and> breadthFirst Some fuel t = Inr (level_order [t])
    \<and> depthFirst (\<lambda>_. None) fuel t = (if children t = [] then Inr [t] else Inl DanglingIncrement)
    \<and> breadthFirst (\<lambda>_. None) fuel t = (if children t = [] then Inr [t] else Inl DanglingIncrement)"
proof -
  let ?it = "nodeIterator t False" and ?fin = "nodeIterator t True"
  have it: "ni_wf ?it" "\<not> ni_isEnd ?it" "pending ?it = children t" "ni_currentNode ?it = t" "ni_isEnd ?fin"
    by (auto simp: nodeIterator_def ni_wf_def pending_def)
  have p: "preorder t = t # nodes_of (children t)" by (cases t) (simp add: nodes_of_def)
  then have fuel: "length (nodes_of (pending ?it)) < fuel" using assms it by simp
  have places: "length (nodes_of (q @ kids)) = length (nodes_of (kids @ q))" for q kids :: "'a base_structure list"
    by (simp add: nodes_of_def)
  have level: "level_order [t] = t # queue_order (children t)"
    using queue_level_order [of "[t]"] by simp
  have "depthFirst Some fuel t = Inr (preorder t)"
    using visit_order [OF it(5,1,2) fuel preIncrement_steps(1), of nodes_of] by (simp add: depthFirst_def it p)
  moreover have "breadthFirst Some fuel t = Inr (level_order [t])"
    using visit_order [OF it(5,1,2) fuel preIncrement_steps(2), of queue_order] places
    by (simp add: breadthFirst_def it level)
  moreover have "depthFirst (\<lambda>_. None) fuel t = Inl DanglingIncrement" if "children t \<noteq> []"
    using visit_strict [OF it(1,2) fuel _ preIncrement_steps(1) preIncrement_strict(1)] that
    by (simp add: depthFirst_def it)
  moreover have "breadthFirst (\<lambda>_. None) fuel t = Inl DanglingIncrement" if "children t \<noteq> []"
    using visit_strict [OF it(1,2) fuel _ preIncrement_steps(2) preIncrement_strict(2)] that places
    by (simp add: breadthFirst_def it)
  moreover have "depthFirst (\<lambda>_. None) fuel t = Inr [t] \<and> breadthFirst (\<lambda>_. None) fuel t = Inr [t]" if "children t = []"
    using fuel that
    by (cases fuel) (simp_all add: depthFirst_def breadthFirst_def visit.simps ni_notEqual_def nodeIterator_def
        ni_preIncrement_def nb_preIncrement_def)
  ultimately show ?thesis by simp
qed

definition example_structure :: "nat base_structure" where
  "example_structure = Structure 1 [Structure 2 [Structure 4 []], Structure 3 [Structure 5 [], Structure 6 []]]"

theorem iterators_visit_all_witness:
  "map_sum id (map content) (depthFirst Some 6 example_structure) = Inr [1, 2, 4, 3, 5, 6]
    \<and> map_sum id (map content) (breadthFirst Some 6 example_structure) = Inr [1, 2, 3, 4, 5, 6]
    \<and> depthFirst (\<lambda>_. None) 6 example_structure = Inl DanglingIncrement"
proof -
  have "length (preorder example_structure) \<le> 6" by (simp add: example_structure_def)
  from iterators_visit_all [OF this] show ?thesis
    by (simp add: example_structure_def level_order.simps)
qed

section \<open>Ranges and equality of entries\<close>

lemma entry_ranges:
  "de_tagEnd (EvioDictionaryEntry tag num tagEnd v ty ds f p) \<noteq> 0 \<longleftrightarrow> de_entryType (EvioDictionaryEntry tag num tagEnd v ty ds f p) = TAG_RANGE"
  "tagEnd \<noteq> 0 \<Longrightarrow> tagEnd \<noteq> tag \<Longrightarrow>
    inRange (EvioDictionaryEntry tag num tagEnd v ty ds f p) x \<longleftrightarrow> min tag tagEnd \<le> x \<and> x \<le> max tag tagEnd"
  by (auto simp: EvioDictionaryEntry_def inRange_def min_def max_def not_less dest: le_less_trans split: if_splits)

lemma de_equal_sym: "de_equal same a b \<longleftrightarrow> de_equal same b a" and de_equal_refl: "de_equal same a a"
  by (auto simp: de_equal_def Let_def split: option.splits if_splits)

text \<open>
  Entries that differ only in their parents are told apart, but each is equal to the entry without a parent:
  the equality that is to make entries keys of a hash table is not transitive.
\<close>

lemma de_equal_not_transitive:
  assumes "de_tag p \<noteq> de_tag q"
  shows "\<exists>a b c. de_equal False a b \<and> de_equal False b c \<and> \<not> de_equal False a c
    \<and> de_parentEntry a = Some p \<and> de_parentEntry c = Some q"
  using assms
  by (intro exI [of _ "entry_full tag num 0 ty [] [] (Some p)"] exI [of _ "entry_tag_num tag num ty"]
      exI [of _ "entry_full tag num 0 ty [] [] (Some q)"])
     (auto simp: de_equal_def entry_full_def entry_tag_num_def EvioDictionaryEntry_def Let_def)

end
