(* ===== verification/Structure_Transformer.thy ===== *)
theory Structure_Transformer
  imports Evio_Tree
begin

text \<open>
  \<open>StructureTransformer.h\<close> and \<open>StructureFinder.h\<close> with the predicates of \<open>DataType.h\<close>: banks, segments
  and tag segments made from one another, and the filters that look for structures. What
  headers and structures do is declared in \<open>BaseStructureHeader.h\<close> and \<open>BaseStructure.h\<close> without
  bodies; it is an argument, and the locale \<open>evio_library\<close> says what is relied on.
\<close>

section \<open>Kinds of data and of structures\<close>

definition isBank :: "data_type \<Rightarrow> bool" where
  "isBank t \<longleftrightarrow> t = BANK \<or> t = ALSOBANK"

definition isSegment :: "data_type \<Rightarrow> bool" where
  "isSegment t \<longleftrightarrow> t = SEGMENT \<or> t = ALSOSEGMENT"

definition isTagSegment :: "data_type \<Rightarrow> bool" where
  "isTagSegment t \<longleftrightarrow> t = TAGSEGMENT"

definition isStructure :: "data_type \<Rightarrow> bool" where
  "isStructure t \<longleftrightarrow> t = BANK \<or> t = SEGMENT \<or> t = TAGSEGMENT \<or> t = ALSOBANK \<or> t = ALSOSEGMENT"

definition isInteger :: "data_type \<Rightarrow> bool" where
  "isInteger t \<longleftrightarrow> t = UCHAR8 \<or> t = CHAR8 \<or> t = USHORT16 \<or> t = SHORT16 \<or> t = UINT32 \<or> t = INT32
     \<or> t = ULONG64 \<or> t = LONG64"

datatype structure_type = STRUCT_UNKNOWN32 | STRUCT_TAGSEGMENT | STRUCT_SEGMENT | STRUCT_BANK

text \<open>A structure of a class has a header and the rest, \<open>'b\<close>.\<close>

record ('h, 'b) evio_struct =
  getStructureType :: structure_type
  getHeader :: 'h
  rest :: 'b

text \<open>
  The constructors of the headers and of \<open>BaseStructure\<close>, the accessors of \<open>BaseStructureHeader\<close>,
  its \<open>copy\<close> and \<open>BaseStructure::transform\<close>; a setter returns the changed header.
\<close>

record ('h, 'b) evio_api =
  BankHeader :: "u16 \<Rightarrow> data_type \<Rightarrow> u8 \<Rightarrow> 'h"
  SegmentHeader :: "u16 \<Rightarrow> data_type \<Rightarrow> 'h"
  TagSegmentHeader :: "u16 \<Rightarrow> data_type \<Rightarrow> 'h"
  newRest :: 'b
  getTag :: "'h \<Rightarrow> u16"
  getType :: "'h \<Rightarrow> data_type"
  getNumber :: "'h \<Rightarrow> u8"
  getLength :: "'h \<Rightarrow> u32"
  getPad :: "'h \<Rightarrow> u8"
  setDataType :: "data_type \<Rightarrow> 'h \<Rightarrow> 'h"
  setNumber :: "u8 \<Rightarrow> 'h \<Rightarrow> 'h"
  setLength :: "u32 \<Rightarrow> 'h \<Rightarrow> 'h"
  setPadding :: "u8 \<Rightarrow> 'h \<Rightarrow> 'h"
  copyHeader :: "'h \<Rightarrow> 'h \<Rightarrow> 'h"
  transform :: "('h, 'b) evio_struct \<Rightarrow> ('h, 'b) evio_struct \<Rightarrow> ('h, 'b) evio_struct"

definition EvioBank :: "('h, 'b) evio_api \<Rightarrow> u16 \<Rightarrow> data_type \<Rightarrow> u8 \<Rightarrow> ('h, 'b) evio_struct" where
  "EvioBank api tag typ num =
    \<lparr>getStructureType = STRUCT_BANK, getHeader = BankHeader api tag typ num, rest = newRest api\<rparr>"

definition EvioSegment :: "('h, 'b) evio_api \<Rightarrow> u16 \<Rightarrow> data_type \<Rightarrow> ('h, 'b) evio_struct" where
  "EvioSegment api tag typ =
    \<lparr>getStructureType = STRUCT_SEGMENT, getHeader = SegmentHeader api tag typ, rest = newRest api\<rparr>"

definition EvioTagSegment :: "('h, 'b) evio_api \<Rightarrow> u16 \<Rightarrow> data_type \<Rightarrow> ('h, 'b) evio_struct" where
  "EvioTagSegment api tag typ =
    \<lparr>getStructureType = STRUCT_TAGSEGMENT, getHeader = TagSegmentHeader api tag typ, rest = newRest api\<rparr>"

section \<open>Transformations\<close>

text \<open>The copies change the structure given first; \<open>None\<close> is the exception for a bank that is too long.\<close>

definition segment_to_bank :: "('h, 'b) evio_api \<Rightarrow> ('h, 'b) evio_struct \<Rightarrow> u8 \<Rightarrow> ('h, 'b) evio_struct" where
  "segment_to_bank api segment num =
    (let segHeader = getHeader segment;
         bank = EvioBank api (getTag api segHeader) (getType api segHeader) num;
         bank = bank\<lparr>getHeader := setLength api (getLength api segHeader + 1) (getHeader bank)\<rparr>;
         bank = bank\<lparr>getHeader := setPadding api (getPad api segHeader) (getHeader bank)\<rparr>
     in transform api bank segment)"

definition copy_segment_to_bank ::
  "('h, 'b) evio_api \<Rightarrow> ('h, 'b) evio_struct \<Rightarrow> ('h, 'b) evio_struct \<Rightarrow> u8 \<Rightarrow> ('h, 'b) evio_struct" where
  "copy_segment_to_bank api bank segment num =
    (let segHeader = getHeader segment;
         bank = bank\<lparr>getHeader := copyHeader api (getHeader bank) segHeader\<rparr>;
         bank = bank\<lparr>getHeader := setNumber api num (getHeader bank)\<rparr>;
         bank = bank\<lparr>getHeader := setLength api (getLength api segHeader + 1) (getHeader bank)\<rparr>;
         bank = bank\<lparr>getHeader := setPadding api (getPad api segHeader) (getHeader bank)\<rparr>
     in transform api bank segment)"

definition tagsegment_to_bank :: "('h, 'b) evio_api \<Rightarrow> ('h, 'b) evio_struct \<Rightarrow> u8 \<Rightarrow> ('h, 'b) evio_struct" where
  "tagsegment_to_bank api tagsegment num =
    (let tagsegHeader = getHeader tagsegment;
         bank = EvioBank api (getTag api tagsegHeader) (getType api tagsegHeader) num;
         bank = bank\<lparr>getHeader := setLength api (getLength api tagsegHeader + 1) (getHeader bank)\<rparr>
     in transform api bank tagsegment)"

definition copy_tagsegment_to_bank ::
  "('h, 'b) evio_api \<Rightarrow> ('h, 'b) evio_struct \<Rightarrow> ('h, 'b) evio_struct \<Rightarrow> u8 \<Rightarrow> ('h, 'b) evio_struct" where
  "copy_tagsegment_to_bank api bank tagsegment num =
    (let tagsegHeader = getHeader tagsegment;
         bank = bank\<lparr>getHeader := copyHeader api (getHeader bank) tagsegHeader\<rparr>;
         bank = bank\<lparr>getHeader := setNumber api num (getHeader bank)\<rparr>;
         bank = bank\<lparr>getHeader := setLength api (getLength api tagsegHeader + 1) (getHeader bank)\<rparr>
     in transform api bank tagsegment)"

text \<open>The change of a 6-bit content type to an equivalent one of 4 bits, as each of the four places makes it.\<close>

definition narrowType :: "('h, 'b) evio_api \<Rightarrow> data_type \<Rightarrow> 'h \<Rightarrow> 'h" where
  "narrowType api t h =
    (if t = BANK then setDataType api ALSOBANK h
     else if t = SEGMENT then setDataType api ALSOSEGMENT h else h)"

definition segment_to_tagsegment :: "('h, 'b) evio_api \<Rightarrow> ('h, 'b) evio_struct \<Rightarrow> ('h, 'b) evio_struct" where
  "segment_to_tagsegment api segment =
    (let segHeader = getHeader segment;
         ts = EvioTagSegment api (getTag api segHeader) (getType api segHeader);
         ts = ts\<lparr>getHeader := setLength api (getLength api segHeader) (getHeader ts)\<rparr>;
         ts = ts\<lparr>getHeader := setPadding api (getPad api segHeader) (getHeader ts)\<rparr>;
         ts = ts\<lparr>getHeader := narrowType api (getType api segHeader) (getHeader ts)\<rparr>
     in transform api ts segment)"

definition copy_segment_to_tagsegment ::
  "('h, 'b) evio_api \<Rightarrow> ('h, 'b) evio_struct \<Rightarrow> ('h, 'b) evio_struct \<Rightarrow> ('h, 'b) evio_struct" where
  "copy_segment_to_tagsegment api tagsegment segment =
    (let segHeader = getHeader segment;
         ts = tagsegment\<lparr>getHeader := copyHeader api (getHeader tagsegment) segHeader\<rparr>;
         ts = ts\<lparr>getHeader := narrowType api (getType api segHeader) (getHeader ts)\<rparr>
     in transform api ts segment)"

definition tagsegment_to_segment :: "('h, 'b) evio_api \<Rightarrow> ('h, 'b) evio_struct \<Rightarrow> ('h, 'b) evio_struct" where
  "tagsegment_to_segment api tagsegment =
    (let tsHeader = getHeader tagsegment;
         seg = EvioSegment api (getTag api tsHeader) (getType api tsHeader);
         seg = seg\<lparr>getHeader := setLength api (getLength api tsHeader) (getHeader seg)\<rparr>
     in transform api seg tagsegment)"

text \<open>
  The copy of a tag segment into a segment takes two segments, and transforms the second from
  the first; the result is both of them.
\<close>

definition copy_tagsegment_to_segment ::
  "('h, 'b) evio_api \<Rightarrow> ('h, 'b) evio_struct \<Rightarrow> ('h, 'b) evio_struct \<Rightarrow> ('h, 'b) evio_struct \<times> ('h, 'b) evio_struct" where
  "copy_tagsegment_to_segment api segment tagsegment =
    (let segment = segment\<lparr>getHeader := copyHeader api (getHeader segment) (getHeader tagsegment)\<rparr>
     in (segment, transform api tagsegment segment))"

definition bank_to_segment :: "('h, 'b) evio_api \<Rightarrow> ('h, 'b) evio_struct \<Rightarrow> ('h, 'b) evio_struct option" where
  "bank_to_segment api bank =
    (let bankHeader = getHeader bank; bankLen = getLength api bankHeader in
     if bankLen > 65535 then None
     else let segment = EvioSegment api (getTag api bankHeader) (getType api bankHeader);
              segment = segment\<lparr>getHeader := setLength api (bankLen - 1) (getHeader segment)\<rparr>;
              segment = segment\<lparr>getHeader := setPadding api (getPad api bankHeader) (getHeader segment)\<rparr>;
              segment = segment\<lparr>getHeader := setNumber api (getNumber api bankHeader) (getHeader segment)\<rparr>
          in Some (transform api segment bank))"

definition copy_bank_to_segment ::
  "('h, 'b) evio_api \<Rightarrow> ('h, 'b) evio_struct \<Rightarrow> ('h, 'b) evio_struct \<Rightarrow> ('h, 'b) evio_struct option" where
  "copy_bank_to_segment api segment bank =
    (let bankHeader = getHeader bank; bankLen = getLength api bankHeader in
     if bankLen > 65535 then None
     else let segment = segment\<lparr>getHeader := copyHeader api (getHeader segment) bankHeader\<rparr>;
              segment = segment\<lparr>getHeader := setLength api (bankLen - 1) (getHeader segment)\<rparr>
          in Some (transform api segment bank))"

definition bank_to_tagsegment :: "('h, 'b) evio_api \<Rightarrow> ('h, 'b) evio_struct \<Rightarrow> ('h, 'b) evio_struct option" where
  "bank_to_tagsegment api bank =
    (let bankHeader = getHeader bank in
     if getLength api bankHeader > 65535 then None
     else let ts = EvioTagSegment api (getTag api bankHeader) (getType api bankHeader);
              ts = ts\<lparr>getHeader := setLength api (getLength api bankHeader - 1) (getHeader ts)\<rparr>;
              ts = ts\<lparr>getHeader := setPadding api (getPad api bankHeader) (getHeader ts)\<rparr>;
              ts = ts\<lparr>getHeader := setNumber api (getNumber api bankHeader) (getHeader ts)\<rparr>;
              ts = ts\<lparr>getHeader := narrowType api (getType api (getHeader ts)) (getHeader ts)\<rparr>
          in Some (transform api ts bank))"

definition copy_bank_to_tagsegment ::
  "('h, 'b) evio_api \<Rightarrow> ('h, 'b) evio_struct \<Rightarrow> ('h, 'b) evio_struct \<Rightarrow> ('h, 'b) evio_struct option" where
  "copy_bank_to_tagsegment api tagsegment bank =
    (let bankHeader = getHeader bank; bankLen = getLength api bankHeader in
     if bankLen > 65535 then None
     else let ts = tagsegment\<lparr>getHeader := copyHeader api (getHeader tagsegment) bankHeader\<rparr>;
              ts = ts\<lparr>getHeader := setLength api (bankLen - 1) (getHeader ts)\<rparr>;
              ts = ts\<lparr>getHeader := narrowType api (getType api bankHeader) (getHeader ts)\<rparr>
          in Some (transform api ts bank))"

section \<open>Filters\<close>

text \<open>
  Structures are found by address: \<open>typeOf\<close> and \<open>headerOf\<close> are what they have, \<open>parentOf\<close> and
  \<open>childrenOf\<close> their places, \<open>dictName\<close> is \<open>EvioXMLDictionary::getName\<close>, and \<open>matching\<close> is
  \<open>BaseStructure::getMatchingStructures\<close>, with the vector it fills. \<open>None\<close> is a null pointer.
\<close>

record 'n finder =
  typeOf :: "'n \<Rightarrow> structure_type"
  tagOf :: "'n \<Rightarrow> u16"
  numOf :: "'n \<Rightarrow> u8"
  parentOf :: "'n \<Rightarrow> 'n option"
  childrenOf :: "'n \<Rightarrow> 'n list"
  dictName :: "'n \<Rightarrow> string"
  matching :: "'n \<Rightarrow> (structure_type \<Rightarrow> 'n \<Rightarrow> bool) \<Rightarrow> 'n list \<Rightarrow> 'n list"

definition getMatchingStructures :: "'n finder \<Rightarrow> 'n option \<Rightarrow> (structure_type \<Rightarrow> 'n \<Rightarrow> bool) \<Rightarrow> 'n list \<Rightarrow> 'n list" where
  "getMatchingStructures F s accept vec = (case s of None \<Rightarrow> [] | Some n \<Rightarrow> matching F n accept vec)"

definition getMatchingBanks :: "'n finder \<Rightarrow> 'n option \<Rightarrow> u16 \<Rightarrow> u8 \<Rightarrow> 'n list \<Rightarrow> 'n list" where
  "getMatchingBanks F s tag num =
     getMatchingStructures F s (\<lambda>type n. type = STRUCT_BANK \<and> tag = tagOf F n \<and> num = numOf F n)"

definition getMatchingTag :: "'n finder \<Rightarrow> 'n option \<Rightarrow> u16 \<Rightarrow> 'n list \<Rightarrow> 'n list" where
  "getMatchingTag F s tag = getMatchingStructures F s (\<lambda>type n. tag = tagOf F n)"

definition getMatchingNonBanks :: "'n finder \<Rightarrow> 'n option \<Rightarrow> u16 \<Rightarrow> 'n list \<Rightarrow> 'n list" where
  "getMatchingNonBanks F s tag = getMatchingStructures F s (\<lambda>type n. type \<noteq> STRUCT_BANK \<and> tag = tagOf F n)"

definition getMatchingName :: "'n finder \<Rightarrow> 'n option \<Rightarrow> string \<Rightarrow> 'n list \<Rightarrow> 'n list" where
  "getMatchingName F s name = getMatchingStructures F s (\<lambda>type n. name = dictName F n)"

definition getMatchingParent :: "'n finder \<Rightarrow> 'n option \<Rightarrow> string \<Rightarrow> 'n list \<Rightarrow> 'n list" where
  "getMatchingParent F s name =
     getMatchingStructures F s (\<lambda>type n. case parentOf F n of None \<Rightarrow> False | Some p \<Rightarrow> name = dictName F p)"

fun anyChild :: "'n finder \<Rightarrow> string \<Rightarrow> 'n list \<Rightarrow> bool" where
  "anyChild F name [] = False"
| "anyChild F name (c # cs) = (if name = dictName F c then True else anyChild F name cs)"

definition getMatchingChild :: "'n finder \<Rightarrow> 'n option \<Rightarrow> string \<Rightarrow> 'n list \<Rightarrow> 'n list" where
  "getMatchingChild F s name = getMatchingStructures F s
     (\<lambda>type n. if childrenOf F n = [] then False else anyChild F name (childrenOf F n))"

section \<open>What the transformations rely on\<close>

text \<open>What the getters see of a header.\<close>

record header_view =
  v_tag :: u16
  v_type :: data_type
  v_number :: u8
  v_length :: u32
  v_padding :: u8

definition view :: "('h, 'b) evio_api \<Rightarrow> 'h \<Rightarrow> header_view" where
  "view api h = \<lparr>v_tag = getTag api h, v_type = getType api h, v_number = getNumber api h,
     v_length = getLength api h, v_padding = getPad api h\<rparr>"

text \<open>
  A constructor sets what it is given, a setter its field; \<open>copy\<close> copies all fields; \<open>transform\<close>
  copies the data, and of the header it sets the padding it calculates.
\<close>

locale evio_library =
  fixes api :: "('h, 'b) evio_api" and data :: "'b \<Rightarrow> bytes"
  assumes bank_header: "v_tag (view api (BankHeader api tag t num)) = tag" "v_type (view api (BankHeader api tag t num)) = t"
      "v_number (view api (BankHeader api tag t num)) = num"
    and segment_header: "v_tag (view api (SegmentHeader api tag t)) = tag" "v_type (view api (SegmentHeader api tag t)) = t"
    and tagsegment_header: "v_tag (view api (TagSegmentHeader api tag t)) = tag"
      "v_type (view api (TagSegmentHeader api tag t)) = t"
    and setDataType: "view api (setDataType api t h) = (view api h)\<lparr>v_type := t\<rparr>"
    and setNumber: "view api (setNumber api n h) = (view api h)\<lparr>v_number := n\<rparr>"
    and setLength: "view api (setLength api len h) = (view api h)\<lparr>v_length := len\<rparr>"
    and setPadding: "view api (setPadding api p h) = (view api h)\<lparr>v_padding := p\<rparr>"
    and copyHeader: "view api (copyHeader api h h') = view api h'"
    and transform_type: "getStructureType (transform api s x) = getStructureType s"
    and transform_header: "\<exists>p. view api (getHeader (transform api s x)) = (view api (getHeader s))\<lparr>v_padding := p\<rparr>"
    and transform_data: "data (rest (transform api s x)) = data (rest x)"
begin

lemma view_fields:
  "getTag api h = v_tag (view api h)" "getType api h = v_type (view api h)" "getNumber api h = v_number (view api h)"
  "getLength api h = v_length (view api h)"
  by (simp_all add: view_def)

lemma transform_fields:
  "v_tag (view api (getHeader (transform api s x))) = v_tag (view api (getHeader s))"
  "v_type (view api (getHeader (transform api s x))) = v_type (view api (getHeader s))"
  "v_number (view api (getHeader (transform api s x))) = v_number (view api (getHeader s))"
  "v_length (view api (getHeader (transform api s x))) = v_length (view api (getHeader s))"
  using transform_header [of s x] by auto

lemmas laws = view_fields transform_fields transform_type transform_data bank_header segment_header tagsegment_header
  setDataType setNumber setLength setPadding copyHeader

lemma narrow_fields:
  "v_type (view api (narrowType api t h)) = (if t = BANK then ALSOBANK else if t = SEGMENT then ALSOSEGMENT else v_type (view api h))"
  "v_tag (view api (narrowType api t h)) = v_tag (view api h)"
  "v_number (view api (narrowType api t h)) = v_number (view api h)"
  "v_length (view api (narrowType api t h)) = v_length (view api h)"
  by (simp_all add: narrowType_def setDataType)

lemmas transformations = segment_to_bank_def tagsegment_to_bank_def segment_to_tagsegment_def tagsegment_to_segment_def
  bank_to_segment_def bank_to_tagsegment_def copy_segment_to_bank_def copy_tagsegment_to_bank_def copy_segment_to_tagsegment_def
  copy_bank_to_segment_def copy_bank_to_tagsegment_def EvioBank_def EvioSegment_def EvioTagSegment_def Let_def

end

text \<open>What a reader sees of a structure, the padding apart.\<close>

definition seen :: "('h, 'b) evio_api \<Rightarrow> ('b \<Rightarrow> bytes) \<Rightarrow> ('h, 'b) evio_struct \<Rightarrow> structure_type \<times> u16 \<times> data_type \<times> u8 \<times> u32 \<times> bytes" where
  "seen api data s = (getStructureType s, getTag api (getHeader s), getType api (getHeader s), getNumber api (getHeader s),
     getLength api (getHeader s), data (rest s))"

definition narrowed :: "data_type \<Rightarrow> data_type" where
  "narrowed t = (if t = BANK then ALSOBANK else if t = SEGMENT then ALSOSEGMENT else t)"

lemma narrowed_same: "isBank (narrowed t) = isBank t" "isSegment (narrowed t) = isSegment t" "isTagSegment (narrowed t) = isTagSegment t"
    "isStructure (narrowed t) = isStructure t" "isInteger (narrowed t) = isInteger t"
  by (cases t; simp add: narrowed_def isBank_def isSegment_def isTagSegment_def isStructure_def isInteger_def)+

context evio_library
begin

lemma seen_to_bank:
  "seen api data (segment_to_bank api s num) =
    (STRUCT_BANK, getTag api (getHeader s), getType api (getHeader s), num, getLength api (getHeader s) + 1, data (rest s))"
  "seen api data (tagsegment_to_bank api s num) =
    (STRUCT_BANK, getTag api (getHeader s), getType api (getHeader s), num, getLength api (getHeader s) + 1, data (rest s))"
  by (simp_all add: seen_def transformations laws)

lemma seen_from_bank:
  "map_option (seen api data) (bank_to_segment api b) =
    (if getLength api (getHeader b) > 65535 then None else Some (STRUCT_SEGMENT, getTag api (getHeader b), getType api (getHeader b),
       getNumber api (getHeader b), getLength api (getHeader b) - 1, data (rest b)))"
  "map_option (seen api data) (bank_to_tagsegment api b) =
    (if getLength api (getHeader b) > 65535 then None else Some (STRUCT_TAGSEGMENT, getTag api (getHeader b),
       narrowed (getType api (getHeader b)), getNumber api (getHeader b), getLength api (getHeader b) - 1, data (rest b)))"
  by (simp_all add: seen_def transformations laws narrow_fields narrowed_def)

lemma copies_alike:
  "getStructureType b = STRUCT_BANK \<Longrightarrow> seen api data (copy_segment_to_bank api b s num) = seen api data (segment_to_bank api s num)"
  "getStructureType b = STRUCT_BANK \<Longrightarrow> seen api data (copy_tagsegment_to_bank api b s num) = seen api data (tagsegment_to_bank api s num)"
  "getStructureType g = STRUCT_SEGMENT \<Longrightarrow>
    map_option (seen api data) (copy_bank_to_segment api g b) = map_option (seen api data) (bank_to_segment api b)"
  "getStructureType g = STRUCT_TAGSEGMENT \<Longrightarrow>
    map_option (seen api data) (copy_bank_to_tagsegment api g b) = map_option (seen api data) (bank_to_tagsegment api b)"
  by (simp_all add: seen_def transformations laws narrow_fields)

end

section \<open>An instance\<close>

text \<open>Headers that are what the getters see, data as bytes, the padding to a whole word.\<close>

definition doc_library :: "(header_view, bytes) evio_api" where
  "doc_library = \<lparr>BankHeader = \<lambda>tag t num. \<lparr>v_tag = tag, v_type = t, v_number = num, v_length = 0, v_padding = 0\<rparr>,
     SegmentHeader = \<lambda>tag t. \<lparr>v_tag = tag, v_type = t, v_number = 0, v_length = 0, v_padding = 0\<rparr>,
     TagSegmentHeader = \<lambda>tag t. \<lparr>v_tag = tag, v_type = t, v_number = 0, v_length = 0, v_padding = 0\<rparr>,
     newRest = [], getTag = v_tag, getType = v_type, getNumber = v_number, getLength = v_length, getPad = v_padding,
     setDataType = \<lambda>t h. h\<lparr>v_type := t\<rparr>, setNumber = \<lambda>n h. h\<lparr>v_number := n\<rparr>, setLength = \<lambda>n h. h\<lparr>v_length := n\<rparr>,
     setPadding = \<lambda>p h. h\<lparr>v_padding := p\<rparr>, copyHeader = \<lambda>h h'. h',
     transform = \<lambda>s x. s\<lparr>getHeader := (getHeader s)\<lparr>v_padding := of_nat ((4 - length (rest x) mod 4) mod 4)\<rparr>, rest := rest x\<rparr>\<rparr>"

interpretation doc: evio_library doc_library id
  by unfold_locales (auto simp: view_def doc_library_def)

section \<open>Transformations there and back\<close>

text \<open>
  C34: A bank whose length is from 1 to 65535 words is transformed into a segment and into a tag
  segment, one word shorter, so that their length fits 16 bits; transformed back with the
  number they keep, the bank has its tag, its number, its length and its data again, and its
  type: by way of a tag segment BANK and SEGMENT have become their equivalents of 4 bits.
  Longer banks are refused.
\<close>

theorem transform_roundtrip:
  assumes "evio_library api data" and "getStructureType b = STRUCT_BANK" and "getLength api (getHeader b) \<ge> 1"
  shows "if getLength api (getHeader b) > 65535
     then bank_to_segment api b = None \<and> bank_to_tagsegment api b = None
     else \<exists>g t. bank_to_segment api b = Some g \<and> bank_to_tagsegment api b = Some t
       \<and> getStructureType g = STRUCT_SEGMENT \<and> getStructureType t = STRUCT_TAGSEGMENT
       \<and> unat (getLength api (getHeader g)) = unat (getLength api (getHeader b)) - 1
       \<and> getLength api (getHeader t) = getLength api (getHeader g)
       \<and> seen api data (segment_to_bank api g (getNumber api (getHeader g))) = seen api data b
       \<and> seen api data (tagsegment_to_bank api t (getNumber api (getHeader t)))
         = (STRUCT_BANK, getTag api (getHeader b), narrowed (getType api (getHeader b)), getNumber api (getHeader b),
            getLength api (getHeader b), data (rest b))"
proof -
  note seg = evio_library.seen_from_bank(1) [OF assms(1), of b] and tag = evio_library.seen_from_bank(2) [OF assms(1), of b]
  show ?thesis
  proof (cases "getLength api (getHeader b) > 65535")
    case True
    with seg tag show ?thesis by simp
  next
    case False
    with seg tag obtain g t where g: "bank_to_segment api b = Some g" and t: "bank_to_tagsegment api b = Some t"
      by (auto simp: map_option_case split: option.splits)
    have "seen api data (segment_to_bank api g (getNumber api (getHeader g))) = seen api data b"
      unfolding evio_library.seen_to_bank(1) [OF assms(1)] using seg False g assms(2) by (simp add: seen_def)
    moreover have "unat (getLength api (getHeader g)) = unat (getLength api (getHeader b)) - 1"
      using seg False g assms(3) by (simp add: seen_def unat_sub)
    moreover have "seen api data (tagsegment_to_bank api t (getNumber api (getHeader t)))
         = (STRUCT_BANK, getTag api (getHeader b), narrowed (getType api (getHeader b)), getNumber api (getHeader b),
            getLength api (getHeader b), data (rest b))"
      unfolding evio_library.seen_to_bank(2) [OF assms(1)] using tag False t by (simp add: seen_def)
    ultimately show ?thesis using seg tag False g t by (simp add: seen_def)
  qed
qed

definition sample_bank :: "(header_view, bytes) evio_struct" where
  "sample_bank = \<lparr>getStructureType = STRUCT_BANK,
     getHeader = \<lparr>v_tag = 7, v_type = SEGMENT, v_number = 3, v_length = 65535, v_padding = 1\<rparr>, rest = [1, 2, 3]\<rparr>"

theorem transform_roundtrip_witness:
  "\<exists>g t. bank_to_segment doc_library sample_bank = Some g \<and> bank_to_tagsegment doc_library sample_bank = Some t
     \<and> seen doc_library id (segment_to_bank doc_library g 3) = (STRUCT_BANK, 7, SEGMENT, 3, 65535, [1, 2, 3])
     \<and> seen doc_library id (tagsegment_to_bank doc_library t 3) = (STRUCT_BANK, 7, ALSOSEGMENT, 3, 65535, [1, 2, 3])"
proof -
  have b: "getStructureType sample_bank = STRUCT_BANK" "getLength doc_library (getHeader sample_bank) = 65535"
    "seen doc_library id sample_bank = (STRUCT_BANK, 7, SEGMENT, 3, 65535, [1, 2, 3])"
    by (simp_all add: sample_bank_def doc_library_def seen_def)
  then have n: "getNumber doc_library (getHeader g) = 3" if "bank_to_segment doc_library sample_bank = Some g \<or> bank_to_tagsegment doc_library sample_bank = Some g" for g
    using that doc.seen_from_bank [of sample_bank] by (auto simp: seen_def)
  show ?thesis
    using transform_roundtrip [OF doc.evio_library_axioms b(1)] b n by (auto simp: seen_def narrowed_def)
qed

text \<open>The copies into existing structures give what the transformations give.\<close>

lemma copies_equal_transformations:
  assumes "evio_library api data" and "getStructureType b' = STRUCT_BANK" and "getStructureType g = STRUCT_SEGMENT"
  shows "seen api data (copy_segment_to_bank api b' s num) = seen api data (segment_to_bank api s num)"
    and "map_option (seen api data) (copy_bank_to_segment api g b) = map_option (seen api data) (bank_to_segment api b)"
  using evio_library.copies_alike [OF assms(1)] assms(2,3) by auto

text \<open>
  The copy of a tag segment into a segment leaves the data of the segment as it was, and puts
  it into the structure that was to be copied.
\<close>

lemma copy_tagsegment_overwrites_source:
  assumes "evio_library api data" and "copy_tagsegment_to_segment api g t = (g', t')"
  shows "data (rest g') = data (rest g)" and "data (rest t') = data (rest g)"
  using assms(2) evio_library.transform_data [OF assms(1)] by (auto simp: copy_tagsegment_to_segment_def Let_def)

text \<open>A bank of length 0 is not refused: the length of its segment is the largest of 32 bits.\<close>

lemma empty_bank_length:
  assumes "evio_library api data" and "getLength api (getHeader b) = 0" and "bank_to_segment api b = Some g"
  shows "getLength api (getHeader g) = 2 ^ 32 - 1"
  using evio_library.seen_from_bank(1) [OF assms(1), of b] assms(2,3) by (simp add: seen_def)

section \<open>Searches\<close>

text \<open>\<open>getMatchingStructures\<close> collects all the structures that pass the filter.\<close>

locale structure_search =
  fixes F :: "'n finder" and inside :: "'n \<Rightarrow> 'n set"
  assumes collects: "set (matching F n accept vec) = {x \<in> inside n. accept (typeOf F x) x}"
begin

lemma found: "set (getMatchingStructures F s accept vec) = {x. \<exists>n. s = Some n \<and> x \<in> inside n \<and> accept (typeOf F x) x}"
  by (auto simp: getMatchingStructures_def collects split: option.splits)

lemma by_tag:
  "set (getMatchingTag F s tag vec) = (\<Union>num. set (getMatchingBanks F s tag num vec)) \<union> set (getMatchingNonBanks F s tag vec)"
  "set (getMatchingBanks F s tag num vec) \<inter> set (getMatchingNonBanks F s tag vec) = {}"
  by (auto simp: getMatchingTag_def getMatchingBanks_def getMatchingNonBanks_def found)

lemma anyChild_iff: "anyChild F name cs \<longleftrightarrow> (\<exists>c \<in> set cs. name = dictName F c)"
  by (induction cs) auto

lemma by_relatives:
  assumes "\<And>x c. x \<in> inside n \<Longrightarrow> c \<in> set (childrenOf F x) \<longleftrightarrow> c \<in> inside n \<and> parentOf F c = Some x"
  shows "set (getMatchingChild F (Some n) name vec)
      = {x \<in> inside n. \<exists>c \<in> set (getMatchingName F (Some n) name vec). parentOf F c = Some x}"
    and "(\<Union>x \<in> set (getMatchingName F (Some n) name vec). set (childrenOf F x)) \<subseteq> set (getMatchingParent F (Some n) name vec)"
proof -
  have "(childrenOf F x \<noteq> [] \<and> anyChild F name (childrenOf F x)) \<longleftrightarrow> (\<exists>c \<in> inside n. name = dictName F c \<and> parentOf F c = Some x)"
    if "x \<in> inside n" for x
    using assms [OF that] by (cases "childrenOf F x = []") (auto simp: anyChild_iff)
  then show "set (getMatchingChild F (Some n) name vec)
      = {x \<in> inside n. \<exists>c \<in> set (getMatchingName F (Some n) name vec). parentOf F c = Some x}"
    by (auto simp: getMatchingChild_def getMatchingName_def found)
  show "(\<Union>x \<in> set (getMatchingName F (Some n) name vec). set (childrenOf F x)) \<subseteq> set (getMatchingParent F (Some n) name vec)"
    using assms by (auto simp: getMatchingParent_def getMatchingName_def found)
qed

end

text \<open>The structures of a tree, each known by its path from the root.\<close>

fun paths :: "'a base_structure \<Rightarrow> nat list list" and paths_from :: "nat \<Rightarrow> 'a base_structure list \<Rightarrow> nat list list" where
  "paths (Structure a ts) = [] # paths_from 0 ts"
| "paths_from i [] = []"
| "paths_from i (t # ts) = map (Cons i) (paths t) @ paths_from (Suc i) ts"

fun subtree :: "'a base_structure \<Rightarrow> nat list \<Rightarrow> 'a base_structure" where
  "subtree T [] = T"
| "subtree T (i # p) = (if i < length (children T) then subtree (children T ! i) p else T)"

definition tree_finder :: "(structure_type \<times> u16 \<times> u8 \<times> string) base_structure \<Rightarrow> nat list finder" where
  "tree_finder T = \<lparr>typeOf = \<lambda>p. fst (content (subtree T p)), tagOf = \<lambda>p. fst (snd (content (subtree T p))),
     numOf = \<lambda>p. fst (snd (snd (content (subtree T p)))), parentOf = \<lambda>p. if p = [] then None else Some (butlast p),
     childrenOf = \<lambda>p. map (\<lambda>i. p @ [i]) [0..<length (children (subtree T p))],
     dictName = \<lambda>p. snd (snd (snd (content (subtree T p)))),
     matching = \<lambda>p accept vec. filter (\<lambda>x. accept (fst (content (subtree T x))) x) (map (\<lambda>q. p @ q) (paths (subtree T p)))\<rparr>"

interpretation tree: structure_search "tree_finder T" "\<lambda>p. set (map (\<lambda>q. p @ q) (paths (subtree T p)))" for T
  by unfold_locales (auto simp: tree_finder_def)

lemma paths_from_iff: "q \<in> set (paths_from i ts) \<longleftrightarrow> (\<exists>k < length ts. \<exists>q'. q = (i + k) # q' \<and> q' \<in> set (paths (ts ! k)))"
proof (induction ts arbitrary: i)
  case (Cons t ts)
  have "(\<exists>k < Suc (length ts). P k) \<longleftrightarrow> P 0 \<or> (\<exists>k < length ts. P (Suc k))" for P by (auto simp: less_Suc_eq_0_disj)
  with Cons show ?case by auto
qed simp

lemma paths_iff: "q \<in> set (paths T) \<longleftrightarrow> q = [] \<or> (\<exists>k < length (children T). \<exists>q'. q = k # q' \<and> q' \<in> set (paths (children T ! k)))"
  by (cases T) (simp add: paths_from_iff)

lemma paths_snoc: "q @ [i] \<in> set (paths T) \<longleftrightarrow> q \<in> set (paths T) \<and> i < length (children (subtree T q))"
proof (induction q arbitrary: T)
  case Nil
  show ?case using paths_iff [of "[]"] by (auto simp: paths_iff [of "[i]"] paths_iff [of "[]"])
next
  case (Cons k q)
  then show ?case by (auto simp: paths_iff [of "k # _"])
qed

text \<open>In a whole event, what is found by the name of a child are the parents of what is found by that name.\<close>

lemma event_children_found:
  "set (getMatchingChild (tree_finder T) (Some []) name vec)
     = {x \<in> set (paths T). \<exists>c \<in> set (getMatchingName (tree_finder T) (Some []) name vec). c \<noteq> [] \<and> butlast c = x}"
proof -
  have parent: "parentOf (tree_finder T) c = Some x \<longleftrightarrow> c \<noteq> [] \<and> butlast c = x" for c x by (simp add: tree_finder_def)
  have "c \<in> set (childrenOf (tree_finder T) x) \<longleftrightarrow> c \<in> set (paths T) \<and> c \<noteq> [] \<and> butlast c = x"
    if "x \<in> set (paths T)" for x c
  proof (cases c rule: rev_cases)
    case Nil
    then show ?thesis by (simp add: tree_finder_def image_iff)
  next
    case (snoc q i)
    have "c \<in> set (childrenOf (tree_finder T) x) \<longleftrightarrow> x = q \<and> i < length (children (subtree T x))"
      by (auto simp: tree_finder_def snoc)
    with that show ?thesis by (auto simp: snoc paths_snoc)
  qed
  with tree.by_relatives(1) [of "[]" T name vec] show ?thesis by (simp add: parent)
qed

end
