(* ===== verification/File_Names.thy ===== *)
theory File_Names
  imports Evio_Util
begin

text \<open>
  The part of \<open>Util.h\<close> that names the files of an event writer, splits and streams apart. The
  question is whether files can collide.
\<close>

section \<open>Numbers in a given base, as \<open>to_string\<close> and \<open>sprintf\<close> print them\<close>

definition digit :: "nat \<Rightarrow> char" where
  "digit d = ''0123456789abcdef'' ! d"

fun digits_of :: "nat \<Rightarrow> nat \<Rightarrow> string" where
  "digits_of base n = (if base \<le> 1 \<or> n < base then [digit n] else digits_of base (n div base) @ [digit (n mod base)])"

declare digits_of.simps [simp del]

definition to_string :: "nat \<Rightarrow> string" where
  "to_string = digits_of 10"

definition is_digit :: "char \<Rightarrow> bool" where
  "is_digit c \<longleftrightarrow> c \<in> set ''0123456789''"

fun read_width :: "nat \<Rightarrow> string \<Rightarrow> nat" where
  "read_width acc [] = acc"
| "read_width acc (c # s) = read_width (10 * acc + (of_char c - 48)) s"

text \<open>
  A directive with the flag or width \<open>w\<close>, a list of digits, and the conversion d (of an int) or
  x (of an unsigned int): a leading zero pads with zeros, after the sign.
\<close>

definition convert :: "string \<Rightarrow> char \<Rightarrow> u32 \<Rightarrow> string" where
  "convert w conv v =
    (let zero = (w \<noteq> [] \<and> hd w = CHR ''0'');
         width = read_width 0 w;
         sign = (if conv = CHR ''d'' \<and> sint v < 0 then ''-'' else []);
         body = (if conv = CHR ''x'' then digits_of 16 (unat v) else digits_of 10 (nat \<bar>sint v\<bar>));
         fill = width - length (sign @ body)
     in if zero then sign @ replicate fill CHR ''0'' @ body else replicate fill CHR '' '' @ sign @ body)"

text \<open>The regular expression \<open>%(\d*)([xd])\<close> at the start of a string, after the percent sign.\<close>

definition spec_here :: "string \<Rightarrow> (string \<times> char \<times> string) option" where
  "spec_here s =
    (case dropWhile is_digit s of
       [] \<Rightarrow> None
     | k # r \<Rightarrow> if k = CHR ''x'' \<or> k = CHR ''d'' then Some (takeWhile is_digit s, k, r) else None)"

text \<open>Its first match: what is before it, its two groups, what is after it.\<close>

fun next_spec :: "string \<Rightarrow> (string \<times> string \<times> char \<times> string) option" where
  "next_spec [] = None"
| "next_spec (c # s) =
    (case (if c = CHR ''%'' then spec_here s else None) of
       Some (w, k, r) \<Rightarrow> Some ([], w, k, r)
     | None \<Rightarrow> map_option (\<lambda>(p, x). (c # p, x)) (next_spec s))"

lemma spec_here_shorter: "spec_here s = Some (w, k, r) \<Longrightarrow> length r < length s"
proof -
  assume "spec_here s = Some (w, k, r)"
  then have "length (dropWhile is_digit s) = Suc (length r)"
    by (auto simp: spec_here_def split: list.splits if_splits)
  then show ?thesis using length_dropWhile_le [of is_digit s] by linarith
qed

lemma next_spec_shorter: "next_spec s = Some (p, w, k, r) \<Longrightarrow> length p + length r < length s"
proof (induction s arbitrary: p)
  case (Cons c s)
  then show ?case by (fastforce split: option.splits if_splits dest: spec_here_shorter)
qed simp

text \<open>The iterator over all matches, each with its position.\<close>

function spec_matches :: "nat \<Rightarrow> string \<Rightarrow> (nat \<times> string \<times> char) list" where
  "spec_matches at s =
    (case next_spec s of
       None \<Rightarrow> []
     | Some (p, w, k, r) \<Rightarrow> (at + length p, w, k) # spec_matches (at + length p + length w + 2) r)"
  by pat_completeness auto
termination by (relation "measure (length \<circ> snd)") (auto dest: next_spec_shorter)

declare spec_matches.simps [simp del]

definition replace_at :: "string \<Rightarrow> nat \<Rightarrow> nat \<Rightarrow> string \<Rightarrow> string" where
  "replace_at text pos len new = take pos text @ new @ drop (pos + len) text"

section \<open>Formatting\<close>

text \<open>
  Errors: the exceptions of the code, a directive or an argument that \<open>sprintf\<close> does not define,
  output longer than the array it is written to, an iterator used at its end.
\<close>

datatype name_error = EmptyString | ImproperlyFormatted | BadFormat | ArrayOverrun | NoMatch

function format :: "string \<Rightarrow> u32 list \<Rightarrow> name_error + string" where
  "format [] vs = Inr []"
| "format (c # s) vs =
    (if c \<noteq> CHR ''%'' then map_sum id (Cons c) (format s vs)
     else if s \<noteq> [] \<and> hd s = CHR ''%'' then map_sum id (Cons CHR ''%'') (format (tl s) vs)
     else case spec_here s of
         None \<Rightarrow> Inl BadFormat
       | Some (w, k, r) \<Rightarrow> (case vs of [] \<Rightarrow> Inl BadFormat | v # vs \<Rightarrow> map_sum id (append (convert w k v)) (format r vs)))"
  by pat_completeness auto
termination
  by (relation "measure (length \<circ> fst)") (auto dest: spec_here_shorter simp: less_Suc_eq)

text \<open>\<open>sprintf\<close> into an array of the length of the name and 1024 characters.\<close>

definition sprintf :: "string \<Rightarrow> u32 list \<Rightarrow> name_error + string" where
  "sprintf fmt vs =
    (case format fmt vs of
       Inl e \<Rightarrow> Inl e
     | Inr out \<Rightarrow> if length out + 1 > length fmt + 1024 then Inl ArrayOverrun else Inr out)"

section \<open>Base names\<close>

text \<open>The regular expression for \<open>$(NAME)\<close>, after the dollar sign, and its first match.\<close>

definition env_here :: "string \<Rightarrow> (string \<times> string) option" where
  "env_here s =
    (case s of
       [] \<Rightarrow> None
     | c # t \<Rightarrow>
        let name = takeWhile (\<lambda>c. c \<noteq> CHR '')'') t; after = dropWhile (\<lambda>c. c \<noteq> CHR '')'') t in
        if c = CHR ''('' \<and> name \<noteq> [] \<and> after \<noteq> [] then Some (name, tl after) else None)"

fun next_env :: "string \<Rightarrow> (string \<times> string \<times> string) option" where
  "next_env [] = None"
| "next_env (c # s) =
    (case (if c = CHR ''$'' then env_here s else None) of
       Some (n, r) \<Rightarrow> Some ([], n, r)
     | None \<Rightarrow> map_option (\<lambda>(p, x). (c # p, x)) (next_env s))"

text \<open>Loops that may run for ever take fuel; \<open>None\<close> is a loop still running. \<open>env\<close> is \<open>getenv\<close>.\<close>

fun expandEnvironmentalVariables :: "nat \<Rightarrow> (string \<Rightarrow> string option) \<Rightarrow> string \<Rightarrow> string option" where
  "expandEnvironmentalVariables fuel env text =
    (case next_env text of
       None \<Rightarrow> Some text
     | Some (p, name, r) \<Rightarrow>
        (case fuel of
           0 \<Rightarrow> None
         | Suc k \<Rightarrow> expandEnvironmentalVariables k env (p @ (case env name of None \<Rightarrow> [] | Some v \<Rightarrow> v) @ r)))"

declare expandEnvironmentalVariables.simps [simp del]

fun find_s :: "string \<Rightarrow> (string \<times> string) option" where
  "find_s [] = None"
| "find_s (c # s) =
    (if c = CHR ''%'' \<and> s \<noteq> [] \<and> hd s = CHR ''s'' then Some ([], tl s) else map_option (\<lambda>(p, r). (c # p, r)) (find_s s))"

fun insertRunType :: "nat \<Rightarrow> string \<Rightarrow> string \<Rightarrow> string option" where
  "insertRunType fuel runType text =
    (case find_s text of
       None \<Rightarrow> Some text
     | Some (p, r) \<Rightarrow> (case fuel of 0 \<Rightarrow> None | Suc k \<Rightarrow> insertRunType k runType (p @ runType @ r)))"

declare insertRunType.simps [simp del]

definition fixSpecifier :: "nat \<Rightarrow> string \<Rightarrow> name_error + string" where
  "fixSpecifier j text =
    (let ms = spec_matches 0 text in
     if j < length ms
     then case ms ! j of (pos, w, k) \<Rightarrow>
       if w \<noteq> [] \<and> hd w \<noteq> CHR ''0'' then Inr (replace_at text pos (length w) (CHR ''0'' # w)) else Inr text
     else Inl NoMatch)"

fun fixSpecifiers :: "nat list \<Rightarrow> string \<Rightarrow> name_error + string" where
  "fixSpecifiers [] text = Inr text"
| "fixSpecifiers (j # js) text = (case fixSpecifier j text of Inl e \<Rightarrow> Inl e | Inr text \<Rightarrow> fixSpecifiers js text)"

definition countAndFixIntSpecifiers :: "string \<Rightarrow> name_error + string \<times> nat" where
  "countAndFixIntSpecifiers text =
    (let specifierCount = length (spec_matches 0 text) in
     map_sum id (\<lambda>text. (text, specifierCount)) (fixSpecifiers [0..<specifierCount] text))"

definition generateBaseFileName ::
  "nat \<Rightarrow> (string \<Rightarrow> string option) \<Rightarrow> string \<Rightarrow> string \<Rightarrow> (name_error + string \<times> nat) option" where
  "generateBaseFileName fuel env baseName runType =
    (if baseName = [] then Some (Inl EmptyString)
     else case insertRunType fuel runType baseName of
       None \<Rightarrow> None
     | Some text \<Rightarrow>
        (case expandEnvironmentalVariables fuel env text of
           None \<Rightarrow> None
         | Some text \<Rightarrow>
            Some (case countAndFixIntSpecifiers text of
                Inl e \<Rightarrow> Inl e
              | Inr (text, specifierCount) \<Rightarrow>
                  if specifierCount > 3 then Inl ImproperlyFormatted else Inr (text, specifierCount))))"

section \<open>Complete names\<close>

text \<open>The n-th match of the iterator, counted from 0, replaced by what \<open>f\<close> makes of it.\<close>

definition replaceMatch :: "nat \<Rightarrow> (string \<Rightarrow> string) \<Rightarrow> string \<Rightarrow> name_error + string" where
  "replaceMatch n f fileName =
    (let ms = spec_matches 0 fileName in
     if n < length ms
     then case ms ! n of (pos, w, k) \<Rightarrow>
       let len = length w + 2 in Inr (replace_at fileName pos len (f (take len (drop pos fileName))))
     else Inl NoMatch)"

definition generateFileName :: "string \<Rightarrow> u32 \<Rightarrow> u32 \<Rightarrow> u64 \<Rightarrow> u32 \<Rightarrow> u32 \<Rightarrow> u32 \<Rightarrow> name_error + string" where
  "generateFileName fileName specifierCount runNumber split splitNumber streamId streamCount =
    (let streamCount = (if streamCount < 1 then 1 else streamCount);
         oneStream = (streamCount < 2);
         fileName = (if length fileName < 1 then ''file'' else fileName);
         stream = ''.'' @ to_string (unat streamId);
         splitNo = ''.'' @ to_string (unat splitNumber)
     in
     if split > 0 then
       if specifierCount < 1 then
         Inr (fileName @ (if oneStream then splitNo else stream @ splitNo))
       else if specifierCount = 1 then
         map_sum id (\<lambda>temp. temp @ (if oneStream then splitNo else stream @ splitNo)) (sprintf fileName [runNumber])
       else if specifierCount = 2 then
         if \<not> oneStream then
           (case replaceMatch 1 (append ''%d.'') fileName of
              Inl e \<Rightarrow> Inl e
            | Inr fileName \<Rightarrow> sprintf fileName [runNumber, streamId, splitNumber])
         else sprintf fileName [runNumber, splitNumber]
       else if specifierCount = 3 then sprintf fileName [runNumber, streamId, splitNumber]
       else Inr fileName
     else
       if specifierCount < 1 then Inr (if oneStream then fileName else fileName @ stream)
       else if specifierCount = 1 then
         map_sum id (\<lambda>temp. if oneStream then temp else temp @ stream) (sprintf fileName [runNumber])
       else if specifierCount = 2 then
         (case replaceMatch 1 (\<lambda>_. []) fileName of
            Inl e \<Rightarrow> Inl e
          | Inr fileName \<Rightarrow> map_sum id (\<lambda>temp. if oneStream then temp else temp @ stream) (sprintf fileName [runNumber]))
       else if specifierCount = 3 then
         (case replaceMatch 2 (\<lambda>_. []) fileName of
            Inl e \<Rightarrow> Inl e
          | Inr fileName \<Rightarrow> sprintf fileName [runNumber, streamId])
       else Inr fileName)"

section \<open>Printed numbers can be read back\<close>

definition digit_value :: "char \<Rightarrow> nat" where
  "digit_value c = (let n = of_char c in if n < 58 then n - 48 else n - 87)"

definition read_digits :: "nat \<Rightarrow> string \<Rightarrow> nat" where
  "read_digits base = foldl (\<lambda>acc c. base * acc + digit_value c) 0"

lemma less_16: "d < (16 :: nat) \<longleftrightarrow> d \<in> set [0..<16]"
  by simp

lemma digit_facts:
  assumes "d < 16"
  shows "digit_value (digit d) = d \<and> digit d \<notin> set '' -.%''"
proof -
  have "list_all (\<lambda>d. digit_value (digit d) = d \<and> digit d \<notin> set '' -.%'') [0..<16]" by code_simp
  with assms show ?thesis unfolding list_all_iff less_16 by blast
qed

lemma digits_of_facts:
  assumes "2 \<le> b" and "b \<le> 16"
  shows "digits_of b n \<noteq> [] \<and> set (digits_of b n) \<inter> set '' -.%'' = {} \<and> read_digits b (digits_of b n) = n"
proof (induction n rule: less_induct)
  case (less n)
  show ?case
  proof (cases "n < b")
    case True
    then have "digits_of b n = [digit n]" using assms by (simp add: digits_of.simps)
    with True assms digit_facts [of n] show ?thesis by (simp add: read_digits_def)
  next
    case False
    then have "digits_of b n = digits_of b (n div b) @ [digit (n mod b)]" using assms by (subst digits_of.simps) simp
    moreover have "n div b < n" using False assms by (intro div_less_dividend) simp_all
    moreover have "n mod b < 16" using assms mod_less_divisor [of b n] by linarith
    ultimately show ?thesis using less.IH [of "n div b"] digit_facts [of "n mod b"] by (simp add: read_digits_def)
  qed
qed

lemma read_digits_zeros: "read_digits b (replicate k CHR ''0'' @ s) = read_digits b s"
proof (induction k)
  case (Suc k)
  have "digit_value CHR ''0'' = 0" by (simp add: digit_value_def)
  then show ?case using Suc by (simp add: read_digits_def)
qed simp

lemma to_string_inj: "to_string n = to_string m \<longleftrightarrow> n = m"
proof
  assume "to_string n = to_string m"
  then have "read_digits 10 (digits_of 10 n) = read_digits 10 (digits_of 10 m)" by (simp add: to_string_def)
  then show "n = m" using digits_of_facts [of 10 n] digits_of_facts [of 10 m] by simp
qed simp

lemma to_string_chars: "CHR ''.'' \<notin> set (to_string n)"
  using digits_of_facts [of 10 n] by (auto simp: to_string_def)

text \<open>A converted number is read after the spaces and the sign.\<close>

definition read_converted :: "char \<Rightarrow> string \<Rightarrow> bool \<times> nat" where
  "read_converted conv s =
    (let s = dropWhile (\<lambda>c. c = CHR '' '') s; b = (if conv = CHR ''x'' then 16 else 10)
     in if hd s = CHR ''-'' then (True, read_digits b (tl s)) else (False, read_digits b s))"

lemma read_convert:
  "read_converted conv (convert w conv v)
    = (conv = CHR ''d'' \<and> sint v < 0, if conv = CHR ''x'' then unat v else nat \<bar>sint v\<bar>)"
proof -
  let ?b = "if conv = CHR ''x'' then 16 else 10 :: nat" and ?n = "if conv = CHR ''x'' then unat v else nat \<bar>sint v\<bar>"
  let ?sign = "if conv = CHR ''d'' \<and> sint v < 0 then ''-'' else []"
  define body where "body = digits_of ?b ?n"
  have body: "body \<noteq> []" "CHR '' '' \<notin> set body" "CHR ''-'' \<notin> set body" "read_digits ?b body = ?n"
    using digits_of_facts [of ?b ?n] by (auto simp: body_def)
  have hd: "hd (replicate k CHR ''0'' @ body) \<noteq> CHR '' ''" "hd (replicate k CHR ''0'' @ body) \<noteq> CHR ''-''" for k
    using body by (cases k; cases body; auto)+
  have drop: "dropWhile (\<lambda>c. c = CHR '' '') s = s" if "s \<noteq> []" "hd s \<noteq> CHR '' ''" for s :: string
    using that by (cases s) auto
  have spaces: "dropWhile (\<lambda>c. c = CHR '' '') (replicate k CHR '' '' @ s) = dropWhile (\<lambda>c. c = CHR '' '') s" for k and s :: string
    by (induction k) auto
  have read: "read_converted conv (?sign @ replicate k CHR ''0'' @ body) = (conv = CHR ''d'' \<and> sint v < 0, ?n)" for k
    using drop [of "replicate k CHR ''0'' @ body"] hd [of k] body by (auto simp: read_converted_def Let_def read_digits_zeros)
  have "read_converted conv (replicate k CHR '' '' @ ?sign @ body) = (conv = CHR ''d'' \<and> sint v < 0, ?n)" for k
    using read [of 0] by (simp add: read_converted_def spaces)
  moreover have b: "(if conv = CHR ''x'' then digits_of 16 (unat v) else digits_of 10 (nat \<bar>sint v\<bar>)) = body" by (simp add: body_def)
  have "convert w conv v = (if w \<noteq> [] \<and> hd w = CHR ''0'' then ?sign @ replicate (read_width 0 w - length (?sign @ body)) CHR ''0'' @ body
      else replicate (read_width 0 w - length (?sign @ body)) CHR '' '' @ ?sign @ body)"
    unfolding convert_def Let_def b by (rule refl)
  ultimately show ?thesis using read by (simp only: split: if_split) blast
qed

lemma convert_inj:
  assumes "convert w conv v = convert w conv v'" and "conv = CHR ''x'' \<or> conv = CHR ''d''"
  shows "v = v'"
proof -
  have "(conv = CHR ''d'' \<and> sint v < 0, if conv = CHR ''x'' then unat v else nat \<bar>sint v\<bar>)
      = (conv = CHR ''d'' \<and> sint v' < 0, if conv = CHR ''x'' then unat v' else nat \<bar>sint v'\<bar>)"
    using arg_cong [OF assms(1), of "read_converted conv"] by (simp only: read_convert)
  with assms(2) have "unat v = unat v' \<or> sint v = sint v'" by (auto split: if_splits)
  then show ?thesis
  proof
    assume "sint v = sint v'"
    then show ?thesis by (rule signed_word_eqI)
  qed (simp add: word_unat_eq_iff)
qed

section \<open>Names as literals and specifiers\<close>

text \<open>A specifier as it stands in a name.\<close>

definition spec_text :: "string \<Rightarrow> char \<Rightarrow> string" where
  "spec_text w k = CHR ''%'' # w @ [k]"

definition is_spec :: "string \<Rightarrow> char \<Rightarrow> bool" where
  "is_spec w k \<longleftrightarrow> list_all is_digit w \<and> (k = CHR ''x'' \<or> k = CHR ''d'')"

lemma not_digit [simp]: "\<not> is_digit CHR ''x''" "\<not> is_digit CHR ''d''" "\<not> is_digit CHR ''%''"
  by (simp_all add: is_digit_def)

lemma spec_here_spec: "is_spec w k \<Longrightarrow> spec_here (w @ k # r) = Some (w, k, r)"
  by (auto simp: spec_here_def is_spec_def list_all_iff dropWhile_append takeWhile_append)

lemma spec_here_Some: "spec_here s = Some (w, k, r) \<Longrightarrow> s = w @ k # r \<and> is_spec w k"
proof -
  assume s: "spec_here s = Some (w, k, r)"
  then have "takeWhile is_digit s = w" "dropWhile is_digit s = k # r" "k = CHR ''x'' \<or> k = CHR ''d''"
    by (auto simp: spec_here_def split: list.splits if_splits)
  moreover have "s = takeWhile is_digit s @ dropWhile is_digit s" by simp
  moreover have "list_all is_digit (takeWhile is_digit s)" by (auto simp: list_all_iff dest: set_takeWhileD)
  ultimately show ?thesis by (metis is_spec_def)
qed

lemma next_spec_Some:
  "next_spec s = Some (p, w, k, r) \<Longrightarrow> s = p @ spec_text w k @ r \<and> is_spec w k"
proof (induction s arbitrary: p)
  case (Cons c s)
  show ?case
  proof (cases "if c = CHR ''%'' then spec_here s else None")
    case None
    with Cons show ?thesis by auto
  next
    case (Some x)
    with Cons.prems have "c = CHR ''%''" "spec_here s = Some (w, k, r)" "p = []" by (auto split: if_splits)
    then show ?thesis by (auto simp: spec_text_def dest: spec_here_Some)
  qed
qed simp

lemma next_spec_literal: "CHR ''%'' \<notin> set p \<Longrightarrow> next_spec (p @ s) = map_option (\<lambda>(q, x). (p @ q, x)) (next_spec s)"
  by (induction p) (auto simp: option.map_comp comp_def case_prod_unfold map_option.identity split: option.splits)

lemma next_spec_spec: "is_spec w k \<Longrightarrow> next_spec (spec_text w k @ r) = Some ([], w, k, r)"
  by (simp add: spec_text_def spec_here_spec)

lemma spec_matches_none: "CHR ''%'' \<notin> set p \<Longrightarrow> spec_matches at p = []"
  using next_spec_literal [of p "[]"] by (simp add: spec_matches.simps)

lemma spec_matches_step:
  assumes "CHR ''%'' \<notin> set p" and "is_spec w k"
  shows "spec_matches at (p @ spec_text w k @ r) = (at + length p, w, k) # spec_matches (at + length p + length w + 2) r"
  using next_spec_literal [OF assms(1)] next_spec_spec [OF assms(2)]
  by (subst spec_matches.simps) simp

lemma spec_no_percent: "is_spec w k \<Longrightarrow> count_list (spec_text w k) CHR ''%'' = 1"
proof -
  assume "is_spec w k"
  then have "CHR ''%'' \<notin> set (w @ [k])" using not_digit(3) by (auto simp: is_spec_def list_all_iff)
  then show ?thesis by (auto simp: spec_text_def count_list_0_iff)
qed

lemma spec_matches_le: "length (spec_matches at s) \<le> count_list s CHR ''%''"
proof (induction at s rule: spec_matches.induct)
  case (1 at s)
  show ?case
  proof (cases "next_spec s")
    case None
    then show ?thesis by (simp add: spec_matches.simps)
  next
    case (Some x)
    obtain p w k r where x: "x = (p, w, k, r)" by (cases x)
    with Some next_spec_Some have s: "s = p @ spec_text w k @ r" "is_spec w k" by blast+
    moreover have "length (spec_matches at s) = Suc (length (spec_matches (at + length p + length w + 2) r))"
      using Some x by (subst spec_matches.simps) simp
    moreover have "length (spec_matches (at + length p + length w + 2) r) \<le> count_list r CHR ''%''" using 1 Some x by blast
    ultimately show ?thesis using spec_no_percent [OF s(2)] by simp
  qed
qed

text \<open>In a plain name each percent sign begins a specifier.\<close>

definition plain :: "string \<Rightarrow> bool" where
  "plain s \<longleftrightarrow> count_list s CHR ''%'' = length (spec_matches 0 s)"

lemma spec_matches_shift: "length (spec_matches at s) = length (spec_matches 0 s)"
proof (induction s arbitrary: at rule: measure_induct_rule [of length])
  case (less s)
  show ?case
  proof (cases "next_spec s")
    case None
    then show ?thesis by (simp add: spec_matches.simps)
  next
    case (Some x)
    obtain p w k r where x: "x = (p, w, k, r)" by (cases x)
    have "length r < length s" using next_spec_shorter [of s] Some x by fastforce
    from less [OF this] have "length (spec_matches a r) = length (spec_matches b r)" for a b by metis
    with Some x show ?thesis by (subst (1 2) spec_matches.simps) simp
  qed
qed

lemma plain_split:
  assumes "plain s" and "length (spec_matches 0 s) = Suc n"
  obtains p w k r where "s = p @ spec_text w k @ r" "is_spec w k" "CHR ''%'' \<notin> set p" "plain r" "length (spec_matches 0 r) = n"
proof -
  obtain x where x: "next_spec s = Some x"
    using assms(2) by (cases "next_spec s") (simp_all add: spec_matches.simps)
  obtain p w k r where "x = (p, w, k, r)" by (cases x)
  with x next_spec_Some have s: "s = p @ spec_text w k @ r" "is_spec w k" by blast+
  moreover have len: "length (spec_matches 0 s) = Suc (length (spec_matches 0 r))"
    using x \<open>x = (p, w, k, r)\<close> spec_matches_shift [of "length p + length w + 2" r] by (subst spec_matches.simps) simp
  moreover have "count_list p CHR ''%'' = 0 \<and> count_list r CHR ''%'' = length (spec_matches 0 r)"
    using assms(1) len s spec_no_percent [OF s(2)] spec_matches_le [of 0 r] by (simp add: plain_def)
  ultimately show ?thesis using assms(2) that [of p w k r] by (simp add: plain_def count_list_0_iff)
qed

lemma format_literal: "CHR ''%'' \<notin> set p \<Longrightarrow> format (p @ s) vs = map_sum id (append p) (format s vs)"
  by (induction p; cases "format s vs") auto

lemma format_plain: "CHR ''%'' \<notin> set p \<Longrightarrow> format p vs = Inr p"
  using format_literal [of p "[]"] by simp

lemma format_spec:
  assumes "is_spec w k"
  shows "format (spec_text w k @ r) (v # vs) = map_sum id (append (convert w k v)) (format r vs)"
proof -
  have "hd (w @ k # r) \<noteq> CHR ''%''" using assms not_digit(3) by (cases w) (auto simp: is_spec_def)
  with spec_here_spec [OF assms, of r] show ?thesis by (simp add: spec_text_def)
qed

section \<open>Files of different splits and streams\<close>

lemma dotted_eq:
  "CHR ''.'' \<notin> set x \<Longrightarrow> CHR ''.'' \<notin> set x' \<Longrightarrow> x @ CHR ''.'' # y = x' @ CHR ''.'' # y' \<Longrightarrow> x = x' \<and> y = y'"
proof (induction x arbitrary: x')
  case Nil
  then show ?case by (cases x') auto
next
  case (Cons c x)
  then show ?case by (cases x') auto
qed

lemma convert_no_dot: "CHR ''.'' \<notin> set (convert w k v)"
  using digits_of_facts [of 16 "unat v"] digits_of_facts [of 10 "nat \<bar>sint v\<bar>"]
  by (auto simp: convert_def Let_def set_replicate_conv_if split: if_splits)

lemma sprintf_Inr: "sprintf f vs = Inr out \<Longrightarrow> format f vs = Inr out"
  by (auto simp: sprintf_def split: sum.splits if_splits)

text \<open>What is printed for a plain name with two specifiers, and where the stream goes.\<close>

lemma two_specifiers:
  assumes "plain f" and "length (spec_matches 0 f) = 2"
  obtains p0 w k p1 w' k' p2 f' where "is_spec w' k'"
    and "\<And>a b. format f [a, b] = Inr (p0 @ convert w k a @ p1 @ convert w' k' b @ p2)"
    and "replaceMatch 1 (append ''%d.'') f = Inr f'"
    and "\<And>a b c. format f' [a, b, c] = Inr (p0 @ convert w k a @ p1 @ convert [] CHR ''d'' b @ ''.'' @ convert w' k' c @ p2)"
proof -
  obtain p0 w k r where f: "f = p0 @ spec_text w k @ r" "is_spec w k" "CHR ''%'' \<notin> set p0" "plain r" "length (spec_matches 0 r) = 1"
    using plain_split [OF assms(1), of 1] assms(2) by (metis Suc_1)
  obtain p1 w' k' p2 where r: "r = p1 @ spec_text w' k' @ p2" "is_spec w' k'" "CHR ''%'' \<notin> set p1" "plain p2" "length (spec_matches 0 p2) = 0"
    using plain_split [OF f(4), of 0] f(5) by (metis One_nat_def)
  have p2: "CHR ''%'' \<notin> set p2" using r(4,5) by (simp add: plain_def count_list_0_iff)
  have d: "is_spec [] CHR ''d''" by (simp add: is_spec_def)
  let ?f = "p0 @ spec_text w k @ p1 @ spec_text [] CHR ''d'' @ ''.'' @ spec_text w' k' @ p2"
  have "format f [a, b] = Inr (p0 @ convert w k a @ p1 @ convert w' k' b @ p2)" for a b
    by (simp add: f(1) r(1) format_literal f(3) r(3) format_spec f(2) r(2) format_plain p2)
  moreover have "replaceMatch 1 (append ''%d.'') f = Inr ?f"
    by (simp add: replaceMatch_def f(1) r(1) spec_matches_step [OF f(3,2)] spec_matches_step [OF r(3,2)] replace_at_def)
       (simp add: spec_text_def)
  moreover have "format ?f [a, b, c] = Inr (p0 @ convert w k a @ p1 @ convert [] CHR ''d'' b @ ''.'' @ convert w' k' c @ p2)" for a b c
    using format_literal [of "''.''"]
    by (simp add: format_literal f(3) r(3) format_spec f(2) r(2) d format_plain p2)
  ultimately show ?thesis using that r(2) by blast
qed

text \<open>
  C36: Files are not overwritten. In a name in which percent signs only begin specifiers, at most two of
  them, the names of the files of one run differ as soon as their split numbers differ or, with
  several streams, their stream ids do, whatever widths the specifiers have.
\<close>

theorem split_names_distinct:
  assumes "plain fileName" and "length (spec_matches 0 fileName) = n" and "n \<le> 2" and "split > 0"
    and "generateFileName fileName (of_nat n) runNo split t s streams = Inr name"
    and "generateFileName fileName (of_nat n) runNo split t' s' streams = Inr name"
  shows "t = t' \<and> (streams \<ge> 2 \<longrightarrow> s = s')"
proof -
  have one: "((if streams = 0 then 1 else streams) < 2) = (streams < 2)" by (simp add: word_less_nat_alt)
  have tail: "t = t' \<and> (streams \<ge> 2 \<longrightarrow> s = s')"
    if "(if streams < 2 then ''.'' @ to_string (unat t) else ''.'' @ to_string (unat s) @ ''.'' @ to_string (unat t))
      = (if streams < 2 then ''.'' @ to_string (unat t') else ''.'' @ to_string (unat s') @ ''.'' @ to_string (unat t'))"
  proof (cases "streams < 2")
    case True
    with that show ?thesis by (auto simp: to_string_inj word_unat_eq_iff)
  next
    case False
    with that have "to_string (unat s) @ CHR ''.'' # to_string (unat t) = to_string (unat s') @ CHR ''.'' # to_string (unat t')" by simp
    from dotted_eq [OF to_string_chars to_string_chars this] show ?thesis by (auto simp: to_string_inj word_unat_eq_iff)
  qed
  consider "n = 0" | "n = 1" | "n = 2" using assms(3) by linarith
  then show ?thesis
  proof cases
    case 1
    with assms(4-6) show ?thesis by (intro tail) (auto simp: generateFileName_def Let_def one split: if_splits)
  next
    case 2
    with assms(4-6) show ?thesis
      by (intro tail) (cases "sprintf (if length fileName < 1 then ''file'' else fileName) [runNo]"; auto simp: generateFileName_def Let_def one split: if_splits)
  next
    case 3
    then have "fileName \<noteq> []" using assms(2) by (auto simp: spec_matches.simps)
    obtain p0 w k p1 w' k' p2 f' where f: "is_spec w' k'"
      and one_stream: "\<And>a b. format fileName [a, b] = Inr (p0 @ convert w k a @ p1 @ convert w' k' b @ p2)"
      and f': "replaceMatch 1 (append ''%d.'') fileName = Inr f'"
      and streams: "\<And>a b c. format f' [a, b, c] = Inr (p0 @ convert w k a @ p1 @ convert [] CHR ''d'' b @ ''.'' @ convert w' k' c @ p2)"
      using two_specifiers [OF assms(1)] 3 assms(2) by metis
    show ?thesis
    proof (cases "streams < 2")
      case True
      then have "sprintf fileName [runNo, t] = Inr name" "sprintf fileName [runNo, t'] = Inr name"
        using assms(4-6) 3 \<open>fileName \<noteq> []\<close> by (simp_all add: generateFileName_def Let_def one)
      then have "convert w' k' t = convert w' k' t'" using one_stream by (auto dest!: sprintf_Inr)
      with convert_inj f True show ?thesis by (auto simp: is_spec_def)
    next
      case False
      then have "sprintf f' [runNo, s, t] = Inr name" "sprintf f' [runNo, s', t'] = Inr name"
        using assms(4-6) 3 \<open>fileName \<noteq> []\<close> f' by (simp_all add: generateFileName_def Let_def one)
      then have "convert [] CHR ''d'' s @ CHR ''.'' # convert w' k' t @ p2 = convert [] CHR ''d'' s' @ CHR ''.'' # convert w' k' t' @ p2"
        using streams by (auto dest!: sprintf_Inr)
      from dotted_eq [OF convert_no_dot convert_no_dot this]
      have "convert [] CHR ''d'' s = convert [] CHR ''d'' s'" "convert w' k' t = convert w' k' t'" by simp_all
      with convert_inj f show ?thesis by (auto simp: is_spec_def)
    qed
  qed
qed

text \<open>Streams 3 and 4 write splits, the second one numbered in hexadecimal.\<close>

definition sample_name :: string where
  "sample_name = ''run_%05d_%x.evio''"

lemma sample_plain: "plain sample_name" "length (spec_matches 0 sample_name) = 2"
  by code_simp+

theorem split_names_distinct_witness:
  "generateFileName sample_name 2 17 100 255 3 4 = Inr ''run_00017_3.ff.evio''
    \<and> generateFileName sample_name 2 17 100 255 4 4 \<noteq> Inr ''run_00017_3.ff.evio''"
proof -
  have "generateFileName sample_name 2 17 100 255 3 4 = Inr ''run_00017_3.ff.evio''" by code_simp
  moreover have "(2 :: nat) \<le> 2" "(100 :: u64) > 0" "(4 :: u32) \<ge> 2" "(3 :: u32) \<noteq> 4" by (simp_all add: word_le_nat_alt)
  ultimately show ?thesis
    using split_names_distinct [OF sample_plain, of 100 17 255 3 4 "''run_00017_3.ff.evio''" 255 4] by auto
qed

text \<open>
  Three specifiers that follow one another are printed without anything between them: two streams
  of one run write to the same file.
\<close>

lemma three_specifiers_collide:
  "generateFileName ''f%d%d%d'' 3 1 100 11 1 2 = generateFileName ''f%d%d%d'' 3 1 100 1 11 2"
  by code_simp

text \<open>A percent sign before the second specifier takes the one that the code puts before it: the split is lost.\<close>

lemma percent_loses_split:
  "generateFileName ''f%d%%d'' 2 1 100 5 3 2 = generateFileName ''f%d%%d'' 2 1 100 6 3 2"
  by code_simp

text \<open>A width of more than a thousand digits is printed past the end of the array.\<close>

lemma wide_specifier_overruns:
  "generateFileName ''f%01100d'' 1 7 100 1 1 1 = Inl ArrayOverrun"
proof -
  have "is_spec ''01100'' CHR ''d''" by (simp add: is_spec_def is_digit_def)
  from format_spec [OF this, of "[]" 7 "[]"] have "format ''f%01100d'' [7] = Inr (CHR ''f'' # convert ''01100'' CHR ''d'' 7)"
    by (simp add: spec_text_def)
  moreover have "length (convert ''01100'' CHR ''d'' 7) \<ge> 1100" by (simp add: convert_def Let_def)
  ultimately have "sprintf ''f%01100d'' [7] = Inl ArrayOverrun" by (simp add: sprintf_def)
  then show ?thesis by (simp add: generateFileName_def Let_def)
qed

section \<open>Substitutions end\<close>

lemma find_s_Some: "find_s t = Some (p, r) \<Longrightarrow> t = p @ ''%s'' @ r"
proof (induction t arbitrary: p)
  case (Cons c t)
  then show ?case by (cases t) (auto split: if_splits)
qed simp

lemma insertRunType_ends:
  assumes "CHR ''%'' \<notin> set runType" and "count_list t CHR ''%'' \<le> fuel"
  obtains t' where "insertRunType fuel runType t = Some t'" and "find_s t' = None"
    and "count_list t' c \<le> count_list t c + count_list t CHR ''%'' * count_list runType c"
proof -
  have "\<exists>t'. insertRunType fuel runType t = Some t' \<and> find_s t' = None
      \<and> count_list t' c \<le> count_list t c + count_list t CHR ''%'' * count_list runType c"
    using assms(2)
  proof (induction fuel arbitrary: t)
    case 0
    then have "find_s t = None" by (cases "find_s t") (auto dest: find_s_Some)
    then show ?case by (simp add: insertRunType.simps)
  next
    case (Suc k)
    show ?case
    proof (cases "find_s t")
      case None
      then show ?thesis by (simp add: insertRunType.simps)
    next
      case (Some x)
      then obtain p r where x: "find_s t = Some (p, r)" by (cases x) simp
      from find_s_Some [OF this] have t: "t = p @ ''%s'' @ r" .
      have none: "count_list runType CHR ''%'' = 0" using assms(1) by (simp add: count_list_0_iff)
      with t Suc.prems have "count_list (p @ runType @ r) CHR ''%'' \<le> k" by simp
      from Suc.IH [OF this] obtain t' where t': "insertRunType k runType (p @ runType @ r) = Some t'" "find_s t' = None"
        "count_list t' c \<le> count_list (p @ runType @ r) c + count_list (p @ runType @ r) CHR ''%'' * count_list runType c" by blast
      moreover have "count_list (p @ runType @ r) c + count_list (p @ runType @ r) CHR ''%'' * count_list runType c
          \<le> count_list t c + count_list t CHR ''%'' * count_list runType c"
        using none by (simp add: t algebra_simps)
      ultimately show ?thesis using x by (subst insertRunType.simps) auto
    qed
  qed
  then show ?thesis using that by blast
qed

lemma env_here_Some: "env_here s = Some (n, r) \<Longrightarrow> s = CHR ''('' # n @ CHR '')'' # r"
proof -
  assume s: "env_here s = Some (n, r)"
  then obtain t where t: "s = CHR ''('' # t" "n = takeWhile (\<lambda>c. c \<noteq> CHR '')'') t" "dropWhile (\<lambda>c. c \<noteq> CHR '')'') t \<noteq> []"
      "r = tl (dropWhile (\<lambda>c. c \<noteq> CHR '')'') t)"
    by (auto simp: env_here_def Let_def split: list.splits if_splits)
  have "hd (dropWhile (\<lambda>c. c \<noteq> CHR '')'') t) = CHR '')''" using hd_dropWhile [OF t(3)] by simp
  then have "dropWhile (\<lambda>c. c \<noteq> CHR '')'') t = CHR '')'' # r" using t(3,4) by (metis list.collapse)
  then have "t = n @ CHR '')'' # r" using takeWhile_dropWhile_id [of "\<lambda>c. c \<noteq> CHR '')''" t] t(2) by metis
  with t(1) show ?thesis by blast
qed

lemma next_env_Some: "next_env s = Some (p, n, r) \<Longrightarrow> s = p @ ''$('' @ n @ '')'' @ r"
proof (induction s arbitrary: p)
  case (Cons c s)
  show ?case
  proof (cases "if c = CHR ''$'' then env_here s else None")
    case None
    with Cons show ?thesis by auto
  next
    case (Some x)
    with Cons.prems have "c = CHR ''$''" "env_here s = Some (n, r)" "p = []" by (auto split: if_splits)
    then show ?thesis by (auto dest: env_here_Some)
  qed
qed simp

lemma expand_ends:
  assumes "\<forall>n v. env n = Some v \<longrightarrow> CHR ''$'' \<notin> set v"
  shows "count_list t CHR ''$'' \<le> fuel \<Longrightarrow> \<exists>t'. expandEnvironmentalVariables fuel env t = Some t' \<and> next_env t' = None"
proof (induction fuel arbitrary: t)
  case 0
  then have "next_env t = None" by (cases "next_env t") (auto dest: next_env_Some)
  then show ?case by (simp add: expandEnvironmentalVariables.simps)
next
  case (Suc k)
  show ?case
  proof (cases "next_env t")
    case None
    then show ?thesis by (simp add: expandEnvironmentalVariables.simps)
  next
    case (Some x)
    then obtain p n r where x: "next_env t = Some (p, n, r)" by (cases x) simp
    let ?v = "case env n of None \<Rightarrow> [] | Some v \<Rightarrow> v"
    have "count_list ?v CHR ''$'' = 0" using assms by (auto simp: count_list_0_iff split: option.splits)
    then have "count_list (p @ ?v @ r) CHR ''$'' \<le> k" using next_env_Some [OF x] Suc.prems by simp
    from Suc.IH [OF this] x show ?thesis by (subst expandEnvironmentalVariables.simps) simp
  qed
qed

text \<open>Specifiers that are right already: no width, or one that begins with a zero.\<close>

definition zero_widths :: "string \<Rightarrow> bool" where
  "zero_widths t \<longleftrightarrow> list_all (\<lambda>(pos, w, k). w = [] \<or> hd w = CHR ''0'') (spec_matches 0 t)"

lemma fixSpecifiers_same: "zero_widths t \<Longrightarrow> \<forall>j \<in> set js. j < length (spec_matches 0 t) \<Longrightarrow> fixSpecifiers js t = Inr t"
proof (induction js)
  case (Cons j js)
  then have "case spec_matches 0 t ! j of (pos, w, k) \<Rightarrow> w = [] \<or> hd w = CHR ''0''"
    by (simp add: zero_widths_def list_all_length)
  with Cons show ?case by (auto simp: fixSpecifier_def Let_def split: prod.splits)
qed simp

lemma countAndFix_same: "zero_widths t \<Longrightarrow> countAndFixIntSpecifiers t = Inr (t, length (spec_matches 0 t))"
  by (simp add: countAndFixIntSpecifiers_def Let_def fixSpecifiers_same)

text \<open>
  The base name is made in a bounded number of turns when the run type has no percent sign
  and the values of the environment have no dollar sign: every \<open>%s\<close> and then every \<open>$(NAME)\<close> is
  substituted. Where the widths begin with a zero, as they are meant to, the result is that
  text with the number of its specifiers, or the exception when there are more than three.
\<close>

theorem base_name_made:
  assumes "baseName \<noteq> []" and "CHR ''%'' \<notin> set runType" and "\<forall>n v. env n = Some v \<longrightarrow> CHR ''$'' \<notin> set v"
    and "fuel \<ge> length baseName * (length runType + 1)"
  shows "\<exists>t t'. insertRunType fuel runType baseName = Some t \<and> find_s t = None
    \<and> expandEnvironmentalVariables fuel env t = Some t' \<and> next_env t' = None
    \<and> (zero_widths t' \<longrightarrow> generateBaseFileName fuel env baseName runType =
        Some (if length (spec_matches 0 t') > 3 then Inl ImproperlyFormatted else Inr (t', length (spec_matches 0 t'))))"
proof -
  have "length baseName \<le> fuel" using assms(4) by (simp add: algebra_simps)
  then have pct: "count_list baseName CHR ''%'' \<le> fuel" using count_le_length [of baseName "CHR ''%''"] by linarith
  obtain t where t: "insertRunType fuel runType baseName = Some t" "find_s t = None"
    "count_list t CHR ''$'' \<le> count_list baseName CHR ''$'' + count_list baseName CHR ''%'' * count_list runType CHR ''$''"
    by (rule insertRunType_ends [OF assms(2) pct])
  have "count_list baseName CHR ''%'' * count_list runType CHR ''$'' \<le> length baseName * length runType"
    by (intro mult_le_mono count_le_length)
  then have "count_list t CHR ''$'' \<le> fuel"
    using t(3) assms(4) count_le_length [of baseName "CHR ''$''"] by (simp add: algebra_simps)
  from expand_ends [OF assms(3) this]
  obtain t' where t': "expandEnvironmentalVariables fuel env t = Some t'" "next_env t' = None" by blast
  have "generateBaseFileName fuel env baseName runType =
      Some (if length (spec_matches 0 t') > 3 then Inl ImproperlyFormatted else Inr (t', length (spec_matches 0 t')))" if "zero_widths t'"
    using that assms(1) t(1) t'(1) countAndFix_same [OF that] by (simp add: generateBaseFileName_def)
  with t t' show ?thesis by blast
qed

text \<open>A run type and variables as the data acquisition sets them.\<close>

definition sample_env :: "string \<Rightarrow> string option" where
  "sample_env n = (if n = ''DATA'' then Some ''/data'' else None)"

theorem base_name_made_witness:
  "generateBaseFileName 200 sample_env ''$(DATA)/%s_%04d.$(X)evio'' ''cosmic'' = Some (Inr (''/data/cosmic_%04d.evio'', 1))"
proof -
  have "\<forall>n v. sample_env n = Some v \<longrightarrow> CHR ''$'' \<notin> set v" by (simp add: sample_env_def)
  moreover have "insertRunType 200 ''cosmic'' ''$(DATA)/%s_%04d.$(X)evio'' = Some ''$(DATA)/cosmic_%04d.$(X)evio''"
    "expandEnvironmentalVariables 200 sample_env ''$(DATA)/cosmic_%04d.$(X)evio'' = Some ''/data/cosmic_%04d.evio''"
    "zero_widths ''/data/cosmic_%04d.evio''" "length (spec_matches 0 ''/data/cosmic_%04d.evio'') = 1"
    by code_simp+
  ultimately show ?thesis
    using base_name_made [of "''$(DATA)/%s_%04d.$(X)evio''" "''cosmic''" sample_env 200] by simp
qed

text \<open>A run type that holds \<open>%s\<close> itself is substituted for ever, and so is a variable whose value names it.\<close>

lemma find_s_append: "find_s t = Some x \<Longrightarrow> find_s (t @ r) \<noteq> None"
proof (induction t arbitrary: x)
  case (Cons c t)
  then show ?case by (cases t) (auto split: if_splits)
qed simp

lemma find_s_kept: "find_s t = Some x \<Longrightarrow> find_s (p @ t @ r) \<noteq> None"
  by (induction p) (auto dest: find_s_append [of _ _ r])

lemma runType_for_ever: "find_s runType = Some x \<Longrightarrow> find_s t \<noteq> None \<Longrightarrow> insertRunType fuel runType t = None"
proof (induction fuel arbitrary: t)
  case 0
  then show ?case by (auto simp: insertRunType.simps split: prod.splits)
next
  case (Suc k)
  then obtain p r where "find_s t = Some (p, r)" by auto
  with Suc.IH [of "p @ runType @ r"] Suc.prems find_s_kept [of runType x p r] show ?case by (subst insertRunType.simps) simp
qed

lemma variable_for_ever: "env ''X'' = Some ''$(X)'' \<Longrightarrow> expandEnvironmentalVariables fuel env ''$(X)'' = None"
proof (induction fuel)
  case 0
  then show ?case by (simp add: expandEnvironmentalVariables.simps env_here_def)
next
  case (Suc k)
  then show ?case by (subst expandEnvironmentalVariables.simps) (simp add: env_here_def)
qed

section \<open>Widths without a zero\<close>

text \<open>
  A specifier whose width does not begin with a zero is meant to get one. The code replaces
  as many characters as the width has, from the percent sign on: \<open>%3d\<close> becomes \<open>033d\<close>. The count
  still includes the specifier, no run number is printed any more, and all runs
  write to the same files.
\<close>

theorem width_without_zero_lost:
  assumes "CHR ''%'' \<notin> set (p @ q)" and "is_spec w k" and "w \<noteq> []" and "hd w \<noteq> CHR ''0''"
  shows "countAndFixIntSpecifiers (p @ spec_text w k @ q) = Inr (p @ CHR ''0'' # w @ last w # k # q, 1)
    \<and> generateFileName (p @ CHR ''0'' # w @ last w # k # q) 1 runNo split t s streams
      = generateFileName (p @ CHR ''0'' # w @ last w # k # q) 1 runNo' split t s streams"
proof -
  let ?f = "p @ CHR ''0'' # w @ last w # k # q"
  have ms: "spec_matches 0 (p @ spec_text w k @ q) = [(length p, w, k)]"
    using assms spec_matches_step [of p w k 0 q] spec_matches_none [of q] by simp
  have "CHR ''%'' # w @ [k] = (CHR ''%'' # butlast w) @ [last w, k]" using assms(3) by simp
  then have "drop (length w) (CHR ''%'' # w @ k # q) = last w # k # q"
    using assms(3) by (metis append.assoc append_Cons append_Nil append_eq_conv_conj append_butlast_last_id length_Cons length_append_singleton)
  then have "countAndFixIntSpecifiers (p @ spec_text w k @ q) = Inr (?f, 1)"
    using assms(3,4) ms by (simp add: countAndFixIntSpecifiers_def fixSpecifier_def replace_at_def spec_text_def)
  moreover have "CHR ''%'' \<notin> set w" "k \<noteq> CHR ''%''" using assms(2) not_digit(3) by (auto simp: is_spec_def list_all_iff)
  then have "CHR ''%'' \<notin> set ?f" using assms(1) last_in_set [OF assms(3)] by auto
  then have "sprintf ?f [runNo] = sprintf ?f [runNo']" by (simp add: sprintf_def format_plain)
  then have "generateFileName ?f 1 runNo split t s streams = generateFileName ?f 1 runNo' split t s streams"
    by (simp add: generateFileName_def Let_def)
  ultimately show ?thesis by blast
qed

theorem width_without_zero_lost_witness:
  "countAndFixIntSpecifiers ''f_%3d.evio'' = Inr (''f_033d.evio'', 1)
    \<and> generateFileName ''f_033d.evio'' 1 7 100 1 1 1 = generateFileName ''f_033d.evio'' 1 8 100 1 1 1"
  using width_without_zero_lost [of "''f_''" "''.evio''" "''3''" "CHR ''d''" 7 100 1 1 1 8]
  by (simp add: is_spec_def is_digit_def spec_text_def)

end
