(* ===== verification/Powers.thy ===== *)
theory Powers
  imports Evio_Util
begin

unbundle bit_operations_syntax

text \<open>\<open>powerOfTwo\<close> of \<open>Util.h\<close>: rounding an int to a power of two by shifts and by clearing bits.\<close>

section \<open>The code\<close>

text \<open>On a C int; the shifts of a negative number keep its sign.\<close>

fun clearLowest :: "nat \<Rightarrow> i32 \<Rightarrow> i32 option" where
  "clearLowest 0 x = None"
| "clearLowest (Suc k) x = (let y = x; x = x AND (x - 1) in if x \<noteq> 0 then clearLowest k x else Some y)"

definition powerOfTwo :: "nat \<Rightarrow> i32 \<Rightarrow> bool \<Rightarrow> i32 option" where
  "powerOfTwo fuel x roundUp =
    (if sint x < 0 then Some (-1)
     else if roundUp then
       let x = x - 1;
           x = x OR signed_drop_bit 1 x;
           x = x OR signed_drop_bit 2 x;
           x = x OR signed_drop_bit 4 x;
           x = x OR signed_drop_bit 8 x;
           x = x OR signed_drop_bit 16 x
       in Some (x + 1)
     else clearLowest fuel x)"

section \<open>Rounding to powers of two\<close>

lemma bit_unat32: "bit (z :: i32) i \<longleftrightarrow> odd (unat z div 2 ^ i)"
  by (metis bit_iff_odd bit_unsigned_iff possible_bit_nat)

lemma unat_pow32: "n \<le> 30 \<Longrightarrow> unat (2 ^ n :: i32) = 2 ^ n"
proof -
  assume "n \<le> 30"
  then have "unat (of_nat (2 ^ n) :: i32) = 2 ^ n" by (simp only: unsigned_of_nat take_bit_nat_eq_self_iff) simp
  then show ?thesis by simp
qed

lemma bit_top:
  fixes z :: i32
  assumes "2 ^ n \<le> unat z" and "unat z < 2 ^ Suc n"
  shows "bit z n" and "\<And>i. bit z i \<Longrightarrow> i \<le> n"
proof -
  have n: "unat z div 2 ^ n = 1" using assms by (intro div_nat_eqI) simp_all
  show "bit z n" by (simp add: bit_unat32 n)
  show "i \<le> n" if "bit z i" for i
  proof (rule ccontr)
    assume "\<not> i \<le> n"
    then have "(2 :: nat) ^ Suc n \<le> 2 ^ i" by (intro power_increasing) simp_all
    then have "unat z div 2 ^ i = 0" using assms(2) by simp
    with that show False by (simp add: bit_unat32)
  qed
qed

lemma top_of_bit: "bit (z :: i32) n \<Longrightarrow> 2 ^ n \<le> unat z"
proof -
  assume "bit z n"
  then have "odd (unat z div 2 ^ n)" by (simp add: bit_unat32)
  then have "unat z div 2 ^ n \<noteq> 0" by (metis even_zero)
  then show ?thesis by (meson div_less not_le)
qed

text \<open>A number whose highest bits, from the n-th down, are set; each shift doubles how many.\<close>

definition smeared :: "nat \<Rightarrow> nat \<Rightarrow> i32 \<Rightarrow> bool" where
  "smeared n m z \<longleftrightarrow> (\<forall>i. bit z i \<longrightarrow> i \<le> n) \<and> (\<forall>i. i \<le> n \<and> n < i + m \<longrightarrow> bit z i)"

lemma smeared_shift:
  assumes "smeared n m z" and "n \<le> 30" and "m \<le> 16"
  shows "smeared n (2 * m) (z OR signed_drop_bit m z)"
proof -
  have "\<not> bit z 31" using assms(1,2) by (auto simp: smeared_def)
  then have shift: "bit (signed_drop_bit m z) i \<longleftrightarrow> i < 32 - m \<and> bit z (m + i)" for i
    using assms by (auto simp: bit_signed_drop_bit_iff smeared_def dest: bit_imp_le_length)
  show ?thesis
    unfolding smeared_def
  proof (intro conjI allI impI)
    show "i \<le> n" if "bit (z OR signed_drop_bit m z) i" for i
      using that assms(1) by (auto simp: bit_or_iff shift smeared_def)
    show "bit (z OR signed_drop_bit m z) i" if "i \<le> n \<and> n < i + 2 * m" for i
    proof (cases "n < i + m")
      case True
      with that assms(1) show ?thesis by (simp add: bit_or_iff smeared_def)
    next
      case False
      with that assms(1) have "bit z (m + i)" by (simp add: smeared_def)
      moreover have "i < 32 - m" using False assms(2) by linarith
      ultimately show ?thesis by (simp add: bit_or_iff shift)
    qed
  qed
qed

lemma smeared_all:
  assumes "smeared n 32 z" and "n \<le> 30"
  shows "z + 1 = 2 ^ Suc n"
proof -
  have "z = mask (Suc n)"
    using assms by (intro bit_eqI) (auto simp: smeared_def bit_mask_iff less_Suc_eq_le)
  then show ?thesis by (simp add: mask_eq_exp_minus_1)
qed

lemma roundUp_power:
  assumes "2 ^ n \<le> unat (x - 1 :: i32)" and "unat (x - 1) < 2 ^ Suc n" and "n \<le> 30" and "sint x \<ge> 0"
  shows "powerOfTwo fuel x True = Some (2 ^ Suc n)"
proof -
  have "smeared n 1 (x - 1)" using bit_top [OF assms(1,2)] by (auto simp: smeared_def less_Suc_eq_le)
  note s1 = smeared_shift [OF this assms(3)]
  note s2 = smeared_shift [OF s1 assms(3)]
  note s4 = smeared_shift [OF s2 assms(3)]
  note s8 = smeared_shift [OF s4 assms(3)]
  note s16 = smeared_shift [OF s8 assms(3)]
  show ?thesis using smeared_all [of n, OF _ assms(3)] s16 assms(4) by (simp add: powerOfTwo_def Let_def)
qed

lemma and_pred_less:
  fixes x :: i32
  assumes "x \<noteq> 0"
  shows "{i. bit (x AND (x - 1)) i} \<subset> {i. bit x i}"
proof -
  have "x AND (x - 1) \<le> x - 1" by (metis and.commute word_and_le1)
  moreover have "x - 1 < x" using assms by (simp add: word_less_nat_alt unat_minus_one unat_gt_0)
  ultimately have "x AND (x - 1) \<noteq> x" by auto
  moreover have "x AND (x - 1) = x" if "{i. bit (x AND (x - 1)) i} = {i. bit x i}"
    using that by (intro bit_eqI) blast
  ultimately show ?thesis by (auto simp: bit_and_iff)
qed

lemma clearLowest_top:
  "2 ^ n \<le> unat x \<Longrightarrow> unat x < 2 ^ Suc n \<Longrightarrow> n \<le> 30 \<Longrightarrow> card {i. bit x i} \<le> fuel \<Longrightarrow> clearLowest fuel x = Some (2 ^ n)"
proof (induction fuel arbitrary: x)
  case 0
  then have "{i. bit x i} = {}" by (simp add: finite_bit_word)
  with bit_top(1) [OF 0(1,2)] show ?case by blast
next
  case (Suc k)
  let ?x = "x AND (x - 1)"
  have "x \<noteq> 0" using Suc.prems(1) by (metis not_less power_eq_0_iff unat_0 zero_less_power zero_less_numeral le_0_eq zero_neq_numeral)
  note less = and_pred_less [OF this]
  have pred: "unat (x - 1) = unat x - 1" using \<open>x \<noteq> 0\<close> by (simp add: unat_minus_one)
  show ?case
  proof (cases "unat x = 2 ^ n")
    case True
    have "\<not> bit ?x i" for i
    proof
      assume i: "bit ?x i"
      then have "i \<le> n" "2 ^ i \<le> unat (x - 1)" using bit_top(2) [OF Suc.prems(1,2)] top_of_bit by (auto simp: bit_and_iff)
      have "bit x i" using i by (simp add: bit_and_iff)
      moreover have "x = 2 ^ n" using True Suc.prems(3) by (simp add: word_unat_eq_iff unat_pow32)
      ultimately have "i = n" by (simp add: bit_exp_iff)
      with \<open>2 ^ i \<le> unat (x - 1)\<close> True pred show False by (simp add: not_less [symmetric])
    qed
    then have "?x = 0" by (intro bit_eqI) simp
    moreover have "x = 2 ^ n" using True Suc.prems(3) by (simp add: word_unat_eq_iff unat_pow32)
    ultimately show ?thesis by simp
  next
    case False
    then have "2 ^ n \<le> unat (x - 1)" "unat (x - 1) < 2 ^ Suc n" using Suc.prems(1,2) pred by linarith+
    then have "bit ?x n" using bit_top(1) Suc.prems(1,2) by (auto simp: bit_and_iff)
    then have "2 ^ n \<le> unat ?x" by (rule top_of_bit)
    moreover have "unat ?x < 2 ^ Suc n" using Suc.prems(2) word_and_le2 [of x "x - 1"] by (simp add: word_le_nat_alt)
    moreover have "card {i. bit ?x i} \<le> k"
      using psubset_card_mono [OF finite_bit_word less] Suc.prems(4) by simp
    moreover have "?x \<noteq> 0" using \<open>bit ?x n\<close> by auto
    ultimately show ?thesis using Suc.IH [of ?x] Suc.prems(3) by simp
  qed
qed

text \<open>
  C40: \<open>powerOfTwo\<close> rounds a positive int up to the least power of two that is not smaller, if that
  is an int, and down to the greatest that is not greater; the loop that rounds down ends
  within 31 turns.
\<close>

theorem power_of_two_closest:
  assumes "1 \<le> unat x" and "unat x < 2 ^ 31" and "fuel \<ge> 31"
  shows "(unat x \<le> 2 ^ 30 \<longrightarrow> (\<exists>k y. powerOfTwo fuel x True = Some y \<and> unat y = 2 ^ k \<and> unat x \<le> 2 ^ k \<and> 2 ^ k < 2 * unat x))
    \<and> (\<exists>k y. powerOfTwo fuel x False = Some y \<and> unat y = 2 ^ k \<and> 2 ^ k \<le> unat x \<and> unat x < 2 * 2 ^ k)"
proof -
  have sint: "\<not> sint x < 0"
  proof -
    have "\<not> bit x 31" using top_of_bit [of x 31] assms(2) by auto
    then show ?thesis by (simp add: sint_uint signed_take_bit_negative_iff bit_uint_iff)
  qed
  have pred: "unat (x - 1) = unat x - 1" using assms(1) by (intro unat_minus_one) auto
  obtain n where n: "2 ^ n \<le> unat x" "unat x < 2 ^ Suc n" using ex_power_ivl1 [of 2 "unat x"] assms(1) by auto
  then have "(2 :: nat) ^ n < 2 ^ 31" using assms(2) by linarith
  then have "n < 31" by (rule power_less_imp_less_exp [rotated]) simp
  then have n30: "n \<le> 30" by simp
  have "{i. bit x i} \<subseteq> {..n}" using bit_top(2) [OF n] by auto
  then have "card {i. bit x i} \<le> Suc n" using card_mono [of "{..n}" "{i. bit x i}"] by simp
  with n30 assms(3) have "clearLowest fuel x = Some (2 ^ n)" by (intro clearLowest_top n) simp_all
  then have down: "powerOfTwo fuel x False = Some (2 ^ n)" using sint by (simp add: powerOfTwo_def)
  have "\<exists>k y. powerOfTwo fuel x True = Some y \<and> unat y = 2 ^ k \<and> unat x \<le> 2 ^ k \<and> 2 ^ k < 2 * unat x" if small: "unat x \<le> 2 ^ 30"
  proof (cases "unat x = 1")
    case True
    then have "x = 1" by (simp add: word_unat_eq_iff)
    then have "powerOfTwo fuel x True = Some 1" using sint by (simp add: powerOfTwo_def Let_def)
    with True show ?thesis by (intro exI [of _ 0] exI [of _ 1]) simp
  next
    case False
    with assms(1) have "1 \<le> unat x - 1" by linarith
    then obtain m where m: "2 ^ m \<le> unat x - 1" "unat x - 1 < 2 ^ Suc m" using ex_power_ivl1 [of 2 "unat x - 1"] by auto
    then have "(2 :: nat) ^ m < 2 ^ 30" using small assms(1) by linarith
    then have "m < 30" by (rule power_less_imp_less_exp [rotated]) simp
    then have "Suc m \<le> 30" by simp
    moreover have "powerOfTwo fuel x True = Some (2 ^ Suc m)"
      using m pred calculation sint by (intro roundUp_power) simp_all
    ultimately show ?thesis using unat_pow32 [of "Suc m"] m assms(1) by (intro exI [of _ "Suc m"] exI [of _ "2 ^ Suc m"]) auto
  qed
  moreover have "\<exists>k y. powerOfTwo fuel x False = Some y \<and> unat y = 2 ^ k \<and> 2 ^ k \<le> unat x \<and> unat x < 2 * 2 ^ k"
    using down n unat_pow32 [OF n30] by (intro exI [of _ n] exI [of _ "2 ^ n"]) simp
  ultimately show ?thesis by blast
qed

theorem power_of_two_closest_witness:
  "powerOfTwo 31 1000 True = Some 1024 \<and> powerOfTwo 31 1000 False = Some 512
    \<and> (\<exists>k y. powerOfTwo 31 1000 False = Some y \<and> unat y = 2 ^ k \<and> 2 ^ k \<le> (1000 :: nat) \<and> (1000 :: nat) < 2 * 2 ^ k)"
proof -
  have "powerOfTwo 31 1000 True = Some 1024" "powerOfTwo 31 1000 False = Some 512" by code_simp+
  with power_of_two_closest [of 1000 31] show ?thesis by simp
qed

text \<open>Above 2 to the power of 30 there is none to round up to: the sum overflows.\<close>

lemma roundUp_overflows: "powerOfTwo fuel 1073741825 True = Some (2 ^ 31)"
proof -
  have "sint (1073741825 :: i32) \<ge> 0" by code_simp
  then show ?thesis using roundUp_power [of 30 1073741825] by simp
qed

end
