(* ===== verification/Evio_Buffers.thy ===== *)
theory Evio_Buffers
  imports Evio_Util Block_Header
begin

text \<open>
  What the EVIO headers do with two byte buffers: \<open>findEvioVersion\<close> of \<open>Util.h\<close>, the swaps of
  \<open>EventHeaderParser.h\<close> and \<open>swapLeafData\<close> of \<open>EvioSwap.h\<close>. The accessors of \<open>ByteBuffer\<close> at an index
  are declared without bodies; they are an argument, with their laws in a locale.
\<close>

datatype buffer_error = Underflow | OutOfRange | BadMagic u32 | SameOrder

record 'b buffer_ops =
  limit :: "'b \<Rightarrow> u64"
  order :: "'b \<Rightarrow> byte_order"
  setOrder :: "byte_order \<Rightarrow> 'b \<Rightarrow> 'b"
  getLong :: "'b \<Rightarrow> nat \<Rightarrow> buffer_error + u64"
  getInt :: "'b \<Rightarrow> nat \<Rightarrow> buffer_error + u32"
  getShort :: "'b \<Rightarrow> nat \<Rightarrow> buffer_error + u16"
  getByte :: "'b \<Rightarrow> nat \<Rightarrow> buffer_error + u8"
  putLong :: "'b \<Rightarrow> nat \<Rightarrow> u64 \<Rightarrow> buffer_error + 'b"
  putInt :: "'b \<Rightarrow> nat \<Rightarrow> u32 \<Rightarrow> buffer_error + 'b"
  putShort :: "'b \<Rightarrow> nat \<Rightarrow> u16 \<Rightarrow> buffer_error + 'b"
  putByte :: "'b \<Rightarrow> nat \<Rightarrow> u8 \<Rightarrow> buffer_error + 'b"

section \<open>The version of a block\<close>

text \<open>The result and the buffer, whose order may have been changed.\<close>

definition findEvioVersion :: "'b buffer_ops \<Rightarrow> 'b \<Rightarrow> u64 \<Rightarrow> (buffer_error + u32) \<times> 'b" where
  "findEvioVersion ops bb initialPos =
    (if limit ops bb - initialPos < 32 then (Inl Underflow, bb)
     else let version = (\<lambda>bb. (map_sum id (\<lambda>bitInfo. bitInfo AND VERSION_MASK)
                 (getInt ops bb (unat (initialPos + of_nat BIT_INFO_OFFSET))), bb))
       in case getInt ops bb (unat (initialPos + of_nat MAGIC_OFFSET)) of
            Inl e \<Rightarrow> (Inl e, bb)
          | Inr magicNumber \<Rightarrow>
             if magicNumber \<noteq> MAGIC_NUMBER then
               let byteOrder = (if order ops bb = ENDIAN_BIG then ENDIAN_LITTLE else ENDIAN_BIG);
                   bb = setOrder ops byteOrder bb
               in case getInt ops bb (unat (initialPos + of_nat MAGIC_OFFSET)) of
                    Inl e \<Rightarrow> (Inl e, bb)
                  | Inr magicNumber \<Rightarrow> if magicNumber \<noteq> MAGIC_NUMBER then (Inl (BadMagic magicNumber), bb) else version bb
             else version bb)"

section \<open>Swapping headers\<close>

text \<open>The fields of an \<open>EvioNode\<close> that the swaps set.\<close>

record evio_node =
  n_tag :: u16
  n_dataType :: u32
  n_pad :: u32
  n_num :: u8
  n_len :: u32
  n_pos :: nat
  n_dataPos :: nat
  n_dataLen :: u32

definition swap_word :: "'b buffer_ops \<Rightarrow> 'b \<Rightarrow> 'b \<Rightarrow> nat \<Rightarrow> nat \<Rightarrow> buffer_error + u32 \<times> 'b" where
  "swap_word ops src dst srcPos destPos =
    (case getInt ops src srcPos of
       Inl e \<Rightarrow> Inl e
     | Inr word \<Rightarrow> map_sum id (\<lambda>dst. (word, dst)) (putInt ops dst destPos word))"

definition swapBankHeader :: "'b buffer_ops \<Rightarrow> 'b \<Rightarrow> 'b \<Rightarrow> u32 \<Rightarrow> u32 \<Rightarrow> buffer_error + evio_node \<times> 'b" where
  "swapBankHeader ops src dst srcPos destPos =
    (if order ops src = order ops dst then Inl SameOrder
     else case swap_word ops src dst (unat srcPos) (unat destPos) of
       Inl e \<Rightarrow> Inl e
     | Inr (len, dst) \<Rightarrow>
        (case swap_word ops src dst (unat (srcPos + 4)) (unat (destPos + 4)) of
           Inl e \<Rightarrow> Inl e
         | Inr (word, dst) \<Rightarrow>
            let dt = drop_bit 8 word AND 0xff
            in Inr (\<lparr>n_tag = ucast (drop_bit 16 word AND 0xffff), n_dataType = dt AND 0x3f, n_pad = drop_bit 6 dt,
                 n_num = ucast (word AND 0xff), n_len = len, n_pos = unat (destPos + 4 - 4), n_dataPos = unat (destPos + 4 + 4),
                 n_dataLen = len - 1\<rparr>, dst)))"

definition swapSegmentHeader :: "'b buffer_ops \<Rightarrow> 'b \<Rightarrow> 'b \<Rightarrow> u32 \<Rightarrow> u32 \<Rightarrow> buffer_error + evio_node \<times> 'b" where
  "swapSegmentHeader ops src dst srcPos destPos =
    (if order ops src = order ops dst then Inl SameOrder
     else case swap_word ops src dst (unat srcPos) (unat destPos) of
       Inl e \<Rightarrow> Inl e
     | Inr (word, dst) \<Rightarrow>
        let dt = drop_bit 16 word AND 0xff
        in Inr (\<lparr>n_tag = ucast (drop_bit 24 word AND 0xff), n_dataType = dt AND 0x3f, n_pad = drop_bit 6 dt, n_num = 0,
             n_len = word AND 0xffff, n_pos = unat destPos, n_dataPos = unat (destPos + 4), n_dataLen = word AND 0xffff\<rparr>, dst))"

definition swapTagSegmentHeader :: "'b buffer_ops \<Rightarrow> 'b \<Rightarrow> 'b \<Rightarrow> u32 \<Rightarrow> u32 \<Rightarrow> buffer_error + evio_node \<times> 'b" where
  "swapTagSegmentHeader ops src dst srcPos destPos =
    (if order ops src = order ops dst then Inl SameOrder
     else case swap_word ops src dst (unat srcPos) (unat destPos) of
       Inl e \<Rightarrow> Inl e
     | Inr (word, dst) \<Rightarrow>
        Inr (\<lparr>n_tag = ucast (drop_bit 20 word AND 0xfff), n_dataType = drop_bit 16 word AND 0xf, n_pad = 0, n_num = 0,
             n_len = word AND 0xffff, n_pos = unat destPos, n_dataPos = unat (destPos + 4), n_dataLen = word AND 0xffff\<rparr>, dst))"

section \<open>Swapping data\<close>

text \<open>One loop of \<open>swapLeafData\<close>, with the accessors of its type. Positions in a buffer are far below \<open>2^64\<close>.\<close>

function leaf_loop ::
  "nat \<Rightarrow> ('b \<Rightarrow> nat \<Rightarrow> buffer_error + 'w) \<Rightarrow> ('b \<Rightarrow> nat \<Rightarrow> 'w \<Rightarrow> buffer_error + 'b) \<Rightarrow> 'b \<Rightarrow> nat \<Rightarrow> nat \<Rightarrow> nat \<Rightarrow> 'b \<Rightarrow> buffer_error + 'b" where
  "leaf_loop width get put src srcPos endPos destPos dst =
    (if width > 0 \<and> srcPos < endPos then
       (case get src srcPos of
          Inl e \<Rightarrow> Inl e
        | Inr v \<Rightarrow>
           (case put dst destPos v of
              Inl e \<Rightarrow> Inl e
            | Inr dst \<Rightarrow> leaf_loop width get put src (srcPos + width) endPos (destPos + width) dst))
     else Inr dst)"
  by pat_completeness auto
termination by (relation "measure (\<lambda>(width, get, put, src, srcPos, endPos, destPos, dst). endPos - srcPos)") auto

declare leaf_loop.simps [simp del]

text \<open>\<open>swapAll\<close> is \<open>CompositeData::swapAll\<close>; other types are left alone.\<close>

definition swapLeafData ::
  "'b buffer_ops \<Rightarrow> ('b \<Rightarrow> 'b \<Rightarrow> nat \<Rightarrow> nat \<Rightarrow> nat \<Rightarrow> buffer_error + 'b) \<Rightarrow> data_type \<Rightarrow> 'b \<Rightarrow> 'b \<Rightarrow> nat \<Rightarrow> nat \<Rightarrow> nat \<Rightarrow> buffer_error + 'b" where
  "swapLeafData ops swapAll type src dst srcPos destPos len =
    (let endPos = srcPos + 4 * len in
     if type = LONG64 \<or> type = ULONG64 \<or> type = DOUBLE64 then leaf_loop 8 (getLong ops) (putLong ops) src srcPos endPos destPos dst
     else if type = INT32 \<or> type = UINT32 \<or> type = FLOAT32 then leaf_loop 4 (getInt ops) (putInt ops) src srcPos endPos destPos dst
     else if type = SHORT16 \<or> type = USHORT16 then leaf_loop 2 (getShort ops) (putShort ops) src srcPos endPos destPos dst
     else if type = UNKNOWN32 \<or> type = CHAR8 \<or> type = UCHAR8 \<or> type = CHARSTAR8
       then leaf_loop 1 (getByte ops) (putByte ops) src srcPos endPos destPos dst
     else if type = COMPOSITE then swapAll src dst srcPos destPos len
     else Inr dst)"

section \<open>What is relied on\<close>

text \<open>The bytes of values of a size, one after the other, in the other order.\<close>

function turned :: "nat \<Rightarrow> bytes \<Rightarrow> bytes" where
  "turned width bs = (if width = 0 \<or> bs = [] then bs else rev (take width bs) @ turned width (drop width bs))"
  by pat_completeness auto
termination by (relation "measure (length \<circ> snd)") (auto simp: neq_Nil_conv)

declare turned.simps [simp del]

text \<open>An accessor of values of a size: it reads and writes their bytes in the order of the buffer.\<close>

locale accessor =
  fixes order :: "'b \<Rightarrow> byte_order" and content :: "'b \<Rightarrow> bytes" and width :: nat and enc :: "'w \<Rightarrow> byte_order \<Rightarrow> bytes"
    and get :: "'b \<Rightarrow> nat \<Rightarrow> buffer_error + 'w" and put :: "'b \<Rightarrow> nat \<Rightarrow> 'w \<Rightarrow> buffer_error + 'b"
  assumes width: "width > 0" "length (enc v o') = width"
    and opposite: "enc v ENDIAN_LITTLE = rev (enc v ENDIAN_BIG)"
    and get: "i + width \<le> length (content b) \<Longrightarrow> \<exists>v. get b i = Inr v \<and> enc v (order b) = take width (drop i (content b))"
    and get_outside: "length (content b) < i + width \<Longrightarrow> get b i = Inl OutOfRange"
    and put: "i + width \<le> length (content b) \<Longrightarrow>
      \<exists>b'. put b i v = Inr b' \<and> content b' = overwrite (content b) i (enc v (order b)) \<and> order b' = order b"
begin

lemma enc_orders: "enc v o' = (if o' = o'' then enc v o'' else rev (enc v o''))"
  using opposite [of v] by (cases o'; cases o'') simp_all

lemma loop_copies:
  assumes "width dvd n" and "srcPos + n \<le> length (content src)" and "destPos + n \<le> length (content dst)"
  shows "\<exists>dst'. leaf_loop width get put src srcPos (srcPos + n) destPos dst = Inr dst' \<and> order dst' = order dst
    \<and> content dst' = overwrite (content dst) destPos
        (if order src = order dst then take n (drop srcPos (content src)) else turned width (take n (drop srcPos (content src))))"
  using assms
proof (induction n arbitrary: srcPos destPos dst rule: less_induct)
  case (less n)
  show ?case
  proof (cases "n = 0")
    case True
    then show ?thesis by (simp add: leaf_loop.simps turned.simps)
  next
    case False
    then have n: "width \<le> n" "width dvd n - width" using less.prems(1) dvd_imp_le by auto
    define bs where "bs = take n (drop srcPos (content src))"
    define r where "r = take (n - width) (drop (srcPos + width) (content src))"
    let ?f = "\<lambda>bs. if order src = order dst then bs else turned width bs"
    have bs: "take width bs = take width (drop srcPos (content src))" "drop width bs = r" "length bs = n"
      using n less.prems(2) by (simp_all add: bs_def r_def min.absorb1 min.absorb2 drop_take add.commute)
    obtain v where v: "get src srcPos = Inr v" "enc v (order src) = take width bs"
      using get [of srcPos src] less.prems(2) n bs(1) by auto
    obtain d where d: "put dst destPos v = Inr d" "content d = overwrite (content dst) destPos (enc v (order dst))" "order d = order dst"
      using put [of destPos dst v] less.prems(3) n by auto
    have ld: "length (content d) = length (content dst)" using d(2) width less.prems(3) n by simp
    have "n - width < n" using False width by simp
    from less.IH [OF this n(2), of "srcPos + width" "destPos + width" d] less.prems n ld
    obtain dst' where dst': "leaf_loop width get put src (srcPos + width) (srcPos + width + (n - width)) (destPos + width) d = Inr dst'"
      "order dst' = order dst" "content dst' = overwrite (content d) (destPos + width) (?f r)"
      by (auto simp: d(3) r_def)
    have "bs = enc v (order src) @ r" unfolding v(2) bs(2) [symmetric] by simp
    moreover have "turned width bs = rev (enc v (order src)) @ turned width r"
    proof -
      have "\<not> (width = 0 \<or> bs = [])" using width(1) bs(3) False by fastforce
      from if_not_P [OF this] turned.simps [of width bs]
      have "turned width bs = rev (take width bs) @ turned width (drop width bs)" by (rule trans [rotated])
      then show ?thesis unfolding v(2) bs(2) .
    qed
    ultimately have "?f bs = enc v (order dst) @ ?f r"
      using enc_orders [of v "order dst" "order src"] by metis
    then have "content dst' = overwrite (content dst) destPos (?f bs)"
      using dst'(3) d(2) width(2) overwrite_adjacent [of destPos "content dst" "destPos + width" "enc v (order dst)" "?f r"] less.prems(3) n
      by simp
    then show ?thesis using dst' v(1) d(1) False width(1) n by (subst leaf_loop.simps) (simp add: bs_def)
  qed
qed

end

text \<open>A buffer: accessors of all sizes, a limit, and an order that can be set.\<close>

locale evio_buffer =
  fixes ops :: "'b buffer_ops" and content :: "'b \<Rightarrow> bytes"
  assumes longs: "accessor (order ops) content 8 longBytes (getLong ops) (putLong ops)"
    and ints: "accessor (order ops) content 4 intBytes (getInt ops) (putInt ops)"
    and shorts: "accessor (order ops) content 2 shortBytes (getShort ops) (putShort ops)"
    and bytes: "accessor (order ops) content 1 (\<lambda>v _. [v]) (getByte ops) (putByte ops)"
    and limit: "length (content b) < 2 ^ 64 \<Longrightarrow> unat (limit ops b) = length (content b)"
    and setOrder: "content (setOrder ops o' b) = content b" "order ops (setOrder ops o' b) = o'"

sublocale evio_buffer \<subseteq> longs: accessor "order ops" content 8 longBytes "getLong ops" "putLong ops"
  by (rule longs)

sublocale evio_buffer \<subseteq> ints: accessor "order ops" content 4 intBytes "getInt ops" "putInt ops"
  by (rule ints)

sublocale evio_buffer \<subseteq> shorts: accessor "order ops" content 2 shortBytes "getShort ops" "putShort ops"
  by (rule shorts)

sublocale evio_buffer \<subseteq> bytes: accessor "order ops" content 1 "\<lambda>v _. [v]" "getByte ops" "putByte ops"
  by (rule bytes)

lemma header_word_enc:
  assumes "intBytes w ord = take 4 bs" and "4 \<le> length bs"
  shows "header_word bs ord = Some w"
proof -
  have "toInt (Some (intBytes w ord @ drop 4 bs)) ord = Inr w" by (rule toInt_intBytes)
  then have "toInt (Some bs) ord = Inr w" by (simp add: assms(1))
  then show ?thesis using toIntArray_word [OF assms(2)] by (simp add: toInt_def)
qed

context evio_buffer
begin

lemma getInt_enc:
  assumes "take 4 (drop i (content b)) = intBytes w (order ops b)"
  shows "getInt ops b i = Inr w"
proof -
  have "length (take 4 (drop i (content b))) = 4" using assms ints.width(2) by simp
  then have i: "i + 4 \<le> length (content b)" by simp
  then obtain v where v: "getInt ops b i = Inr v" "intBytes v (order ops b) = take 4 (drop i (content b))"
    using ints.get by blast
  have "toInt (Some (intBytes v (order ops b) @ [])) (order ops b) = toInt (Some (intBytes w (order ops b) @ [])) (order ops b)"
    using v(2) assms by simp
  then have "v = w" by (simp only: toInt_intBytes) simp
  with v(1) show ?thesis by simp
qed

lemma swapped_word:
  assumes "srcPos + 4 \<le> length (content src)" and "destPos + 4 \<le> length (content dst)"
  obtains w dst' where "swap_word ops src dst srcPos destPos = Inr (w, dst')" and "order ops dst' = order ops dst"
    and "intBytes w (order ops src) = take 4 (drop srcPos (content src))"
    and "content dst' = overwrite (content dst) destPos (intBytes w (order ops dst))"
proof -
  obtain w where w: "getInt ops src srcPos = Inr w" "intBytes w (order ops src) = take 4 (drop srcPos (content src))"
    using ints.get [OF assms(1)] by blast
  obtain d where "putInt ops dst destPos w = Inr d" "content d = overwrite (content dst) destPos (intBytes w (order ops dst))" "order ops d = order ops dst"
    using ints.put [OF assms(2), of w] by blast
  with w that show ?thesis by (simp add: swap_word_def)
qed

end

section \<open>The version is found in either order\<close>

lemma concat_window:
  "(\<And>w. length (f w) = k) \<Longrightarrow> i < length ws \<Longrightarrow> take k (drop (k * i) (concat (map f ws))) = f (ws ! i)"
proof (induction ws arbitrary: i)
  case (Cons w ws)
  then show ?case by (cases i) (auto simp: drop_append)
qed simp

lemma magic_not_symmetric: "intBytes MAGIC_NUMBER ENDIAN_LITTLE \<noteq> intBytes MAGIC_NUMBER ENDIAN_BIG"
  by code_simp

lemma sixth_word_version: "v4_getSixthWord h AND 0xff = v4_version h AND 0xff"
  by (rule bit_word_eqI) (auto simp: v4_getSixthWord_def bit_version_byte bit_orBitInfo)

context evio_buffer
begin

lemma version_of_words:
  assumes bs: "take 32 (drop (unat pos) (content b)) = concat (map (\<lambda>w. intBytes w ord) ws)" "unat pos + 32 \<le> length (content b)"
    and ws: "length ws = 8" "ws ! 7 = MAGIC_NUMBER" and fits: "length (content b) < 2 ^ 64"
  shows "\<exists>b'. findEvioVersion ops b pos = (Inr (ws ! 5 AND 0xff), b') \<and> order ops b' = ord \<and> content b' = content b"
proof -
  have len: "length (intBytes w o') = 4" for w o' by (rule ints.width)
  have room: "unat pos + 32 \<le> unat (limit ops b)" using bs(2) limit [OF fits] by simp
  then have le: "pos \<le> limit ops b" by (simp add: word_le_nat_alt)
  then have "unat (limit ops b - pos) = unat (limit ops b) - unat pos" by (rule unat_sub)
  then have enough: "\<not> limit ops b - pos < 32" using room by (simp add: word_less_nat_alt)
  have small: "unat pos + 32 < 2 ^ 64" using room unsigned_less [of "limit ops b", where ?'a = nat] by simp
  have at: "unat (pos + of_nat k) = unat pos + k" if "k < 32" for k
    using that small by (subst unat_add_small) (simp_all add: unat_of_nat_64)
  have word: "take 4 (drop (unat (pos + of_nat (4 * i))) (content c)) = intBytes (ws ! i) ord" if "i < 8" "content c = content b" for i c
  proof -
    have "take 4 (drop (4 * i) (take 32 (drop (unat pos) (content b)))) = take 4 (drop (unat pos + 4 * i) (content b))"
      using that by (simp add: drop_take min_def add.commute)
    moreover have "take 4 (drop (4 * i) (concat (map (\<lambda>w. intBytes w ord) ws))) = intBytes (ws ! i) ord"
      using that ws(1) len by (intro concat_window) simp_all
    ultimately show ?thesis using that at [of "4 * i"] bs(1) by simp
  qed
  have magic: "take 4 (drop (unat (pos + of_nat MAGIC_OFFSET)) (content c)) = intBytes MAGIC_NUMBER ord"
    and sixth: "take 4 (drop (unat (pos + of_nat BIT_INFO_OFFSET)) (content c)) = intBytes (ws ! 5) ord" if "content c = content b" for c
    using word [of 7 c] word [of 5 c] that ws(2) by (simp_all add: MAGIC_OFFSET_def BIT_INFO_OFFSET_def)
  have right: "getInt ops c (unat (pos + of_nat MAGIC_OFFSET)) = Inr MAGIC_NUMBER"
    "getInt ops c (unat (pos + of_nat BIT_INFO_OFFSET)) = Inr (ws ! 5)" if "content c = content b" "order ops c = ord" for c
    using getInt_enc magic [OF that(1)] sixth [OF that(1)] that(2) by auto
  show ?thesis
  proof (cases "order ops b = ord")
    case True
    with right [of b] enough show ?thesis by (simp add: findEvioVersion_def Let_def VERSION_MASK_def)
  next
    case False
    let ?i = "unat (pos + of_nat MAGIC_OFFSET)" and ?b = "setOrder ops ord b"
    have "?i + 4 \<le> length (content b)" using at [of MAGIC_OFFSET] bs(2) by (simp add: MAGIC_OFFSET_def)
    then obtain v where v: "getInt ops b ?i = Inr v" "intBytes v (order ops b) = take 4 (drop ?i (content b))" using ints.get by blast
    have "v \<noteq> MAGIC_NUMBER"
      using v(2) magic [of b] False magic_not_symmetric by (cases ord; cases "order ops b") auto
    moreover have "(if order ops b = ENDIAN_BIG then ENDIAN_LITTLE else ENDIAN_BIG) = ord" using False by (cases ord; cases "order ops b") auto
    ultimately show ?thesis
      using v(1) right [of ?b] enough setOrder by (auto simp: findEvioVersion_def Let_def VERSION_MASK_def)
  qed
qed

end

text \<open>
  C39: Whatever byte order a buffer is set to, \<open>findEvioVersion\<close> recognises the header of a block of
  version 2 or 4 written at the position in either order: it returns the version and leaves
  the buffer set to the order of the header, its bytes unchanged.
\<close>

theorem version_found:
  assumes "evio_buffer ops content" and "(ws, v) \<in> {(v4_words h, v4_version h), (v2_words g, v2_version g)}"
    and "ws ! 7 = MAGIC_NUMBER" and "v < 256" and "unat pos + 32 \<le> length (content b)"
    and "take 32 (drop (unat pos) (content b)) = concat (map (\<lambda>w. intBytes w ord) ws)" and "length (content b) < 2 ^ 64"
  shows "\<exists>b'. findEvioVersion ops b pos = (Inr v, b') \<and> order ops b' = ord \<and> content b' = content b"
proof -
  have "length ws = 8" using assms(2) by (auto simp: v4_words_def v2_words_def)
  moreover have "v AND 0xff = v"
  proof -
    have "take_bit 8 (unat v) = unat v" using assms(4) by (simp add: take_bit_nat_eq_self_iff word_less_nat_alt)
    then show ?thesis by (simp add: and_0xff word_unat_eq_iff unsigned_take_bit_eq)
  qed
  then have "ws ! 5 AND 0xff = v" using assms(2) sixth_word_version [of h] by (auto simp: v4_words_def v2_words_def)
  ultimately show ?thesis using evio_buffer.version_of_words [OF assms(1,6,5)] assms(3,7) by auto
qed

section \<open>Headers and data\<close>

text \<open>What a swap leaves in a node, next to what the parser of the same header finds.\<close>

definition node_of :: "structure_header \<Rightarrow> nat \<Rightarrow> nat \<Rightarrow> evio_node" where
  "node_of h words pos = \<lparr>n_tag = sh_tag h, n_dataType = sh_type h, n_pad = ucast (sh_padding h), n_num = sh_number h,
     n_len = sh_length h, n_pos = pos, n_dataPos = pos + 4 * words, n_dataLen = sh_length h - of_nat (words - 1)\<rparr>"

definition leaf_width :: "data_type \<Rightarrow> nat option" where
  "leaf_width t =
    (if t \<in> {LONG64, ULONG64, DOUBLE64} then Some 8 else if t \<in> {INT32, UINT32, FLOAT32} then Some 4
     else if t \<in> {SHORT16, USHORT16} then Some 2 else if t \<in> {UNKNOWN32, CHAR8, UCHAR8, CHARSTAR8} then Some 1 else None)"

lemma and_0xfff: "(x :: 'a::len word) AND 0xfff = take_bit 12 x"
  by (simp add: take_bit_eq_mask mask_eq_exp_minus_1)

lemma and_3: "(x :: 'a::len word) AND 3 = take_bit 2 x"
  by (simp add: take_bit_eq_mask mask_eq_exp_minus_1)

lemma unat_advance:
  "unat p + 4 < 2 ^ 32 \<Longrightarrow> unat (p + 4 :: u32) = unat p + 4" "unat p + 8 < 2 ^ 32 \<Longrightarrow> unat (p + 8 :: u32) = unat p + 8"
  by (simp_all add: unat_word_ariths)

lemma node_fields:
  "(ucast (drop_bit 16 w AND 0xffff) :: u16) = ucast (drop_bit 16 w)" "(ucast (w AND 0xff) :: u8) = ucast w"
  "(ucast (drop_bit 24 w AND 0xff) :: u16) = ucast (drop_bit 24 w)" "(ucast (drop_bit 20 w AND 0xfff) :: u16) = ucast (drop_bit 20 w)"
  "(ucast (ucast (v AND 3) :: u8) :: u32) = v AND 3"
  for w v :: u32
  unfolding and_0xff and_0xffff and_0xfff and_3
  by (rule bit_word_eqI, auto simp: bit_simps dest: bit_imp_le_length)+

context evio_buffer
begin

lemma one_word_swapped:
  assumes "srcPos + 4 \<le> length (content src)" and "destPos + 4 \<le> length (content dst)"
  obtains w dst' where "swap_word ops src dst srcPos destPos = Inr (w, dst')" and "order ops dst' = order ops dst"
    and "header_word (drop srcPos (content src)) (order ops src) = Some w"
    and "header_word (drop destPos (content dst')) (order ops dst') = Some w"
    and "content dst' = overwrite (content dst) destPos (intBytes w (order ops dst))"
proof -
  obtain w dst' where w: "swap_word ops src dst srcPos destPos = Inr (w, dst')" "order ops dst' = order ops dst"
    "intBytes w (order ops src) = take 4 (drop srcPos (content src))"
    "content dst' = overwrite (content dst) destPos (intBytes w (order ops dst))"
    by (rule swapped_word [OF assms])
  have len: "length (intBytes w (order ops dst)) = 4" by (rule ints.width)
  have "take 4 (drop destPos (content dst')) = intBytes w (order ops dst)"
    using window_overwrite_same [of destPos "intBytes w (order ops dst)" "content dst"] assms(2) by (simp add: w(4) len)
  moreover have "length (content dst') = length (content dst)" using w(4) len assms(2) by simp
  ultimately have "header_word (drop destPos (content dst')) (order ops dst') = Some w"
    using assms(2) w(2) by (intro header_word_enc) simp_all
  moreover have "header_word (drop srcPos (content src)) (order ops src) = Some w"
    using assms(1) w(3) by (intro header_word_enc) simp_all
  ultimately show ?thesis using that w by blast
qed


lemma bank_swapped:
  assumes "order ops src \<noteq> order ops dst" and "unat srcPos + 8 \<le> length (content src)" and "unat destPos + 8 \<le> length (content dst)"
    and "unat srcPos + 8 < 2 ^ 32" and "unat destPos + 8 < 2 ^ 32"
  shows "\<exists>h d. createBankHeader (drop (unat srcPos) (content src)) (order ops src) = Some h
    \<and> swapBankHeader ops src dst srcPos destPos = Inr (node_of h 2 (unat destPos), d)
    \<and> createBankHeader (drop (unat destPos) (content d)) (order ops d) = Some h"
proof -
  have near: "unat srcPos + 4 \<le> length (content src)" "unat destPos + 4 \<le> length (content dst)" using assms(2,3) by simp_all
  obtain w c where w: "swap_word ops src dst (unat srcPos) (unat destPos) = Inr (w, c)" "order ops c = order ops dst"
    "header_word (drop (unat srcPos) (content src)) (order ops src) = Some w"
    "content c = overwrite (content dst) (unat destPos) (intBytes w (order ops dst))"
    by (rule one_word_swapped [OF near])
  have len: "length (intBytes x o') = 4" for x o' by (rule ints.width)
  have lc: "length (content c) = length (content dst)" using w(4) assms(3) by (simp add: len)
  have src4: "unat srcPos + 4 + 4 \<le> length (content src)" and dst4: "unat destPos + 4 + 4 \<le> length (content c)" using assms(2,3) lc by simp_all
  obtain x d where x: "swap_word ops src c (unat srcPos + 4) (unat destPos + 4) = Inr (x, d)" "order ops d = order ops c"
    "header_word (drop (unat srcPos + 4) (content src)) (order ops src) = Some x"
    "header_word (drop (unat destPos + 4) (content d)) (order ops d) = Some x"
    "content d = overwrite (content c) (unat destPos + 4) (intBytes x (order ops c))"
    by (rule one_word_swapped [OF src4 dst4])
  have second: "header_word (drop 4 (drop (unat srcPos) (content src))) (order ops src) = Some x" "header_word (drop 4 (drop (unat destPos) (content d))) (order ops d) = Some x"
    using x(3,4) by (simp_all add: add.commute)
  have "take 4 (drop (unat destPos) (content d)) = intBytes w (order ops dst)"
    using window_overwrite_same [of "unat destPos" "intBytes w (order ops dst)" "content dst"] assms(3) dst4
    by (simp add: x(5) window_overwrite len w(4))
  moreover have "length (content d) = length (content dst)" using x(5) lc dst4 by (simp add: len)
  ultimately have "header_word (drop (unat destPos) (content d)) (order ops d) = Some w"
    using assms(3) x(2) w(2) by (intro header_word_enc) simp_all
  moreover have "unat (srcPos + 4) = unat srcPos + 4" "unat (destPos + 4) = unat destPos + 4" "unat (8 + destPos) = unat destPos + 8"
    using assms(4,5) by (simp_all add: unat_advance add.commute [of 8])
  ultimately show ?thesis
    using assms(1) w(1,3) x(1) second by (simp add: createBankHeader_def swapBankHeader_def node_of_def Let_def node_fields del: drop_drop)
qed

lemma segments_swapped:
  assumes "order ops src \<noteq> order ops dst" and "unat srcPos + 4 \<le> length (content src)" and "unat destPos + 4 \<le> length (content dst)"
    and "unat destPos + 4 < 2 ^ 32"
  shows "\<exists>h d. createSegmentHeader (drop (unat srcPos) (content src)) (order ops src) = Some h
      \<and> swapSegmentHeader ops src dst srcPos destPos = Inr (node_of h 1 (unat destPos), d)
      \<and> createSegmentHeader (drop (unat destPos) (content d)) (order ops d) = Some h"
    and "\<exists>h d. createTagSegmentHeader (drop (unat srcPos) (content src)) (order ops src) = Some h
      \<and> swapTagSegmentHeader ops src dst srcPos destPos = Inr (node_of h 1 (unat destPos), d)
      \<and> createTagSegmentHeader (drop (unat destPos) (content d)) (order ops d) = Some h"
proof -
  obtain w d where w: "swap_word ops src dst (unat srcPos) (unat destPos) = Inr (w, d)"
    "header_word (drop (unat srcPos) (content src)) (order ops src) = Some w" "header_word (drop (unat destPos) (content d)) (order ops d) = Some w"
    by (rule one_word_swapped [OF assms(2,3)])
  have next4: "unat (destPos + 4) = unat destPos + 4" using assms(4) by (simp add: unat_advance)
  show "\<exists>h d. createSegmentHeader (drop (unat srcPos) (content src)) (order ops src) = Some h
      \<and> swapSegmentHeader ops src dst srcPos destPos = Inr (node_of h 1 (unat destPos), d)
      \<and> createSegmentHeader (drop (unat destPos) (content d)) (order ops d) = Some h"
    using assms(1) w next4 by (simp add: createSegmentHeader_def swapSegmentHeader_def node_of_def Let_def node_fields)
  show "\<exists>h d. createTagSegmentHeader (drop (unat srcPos) (content src)) (order ops src) = Some h
      \<and> swapTagSegmentHeader ops src dst srcPos destPos = Inr (node_of h 1 (unat destPos), d)
      \<and> createTagSegmentHeader (drop (unat destPos) (content d)) (order ops d) = Some h"
    using assms(1) w next4 by (simp add: createTagSegmentHeader_def swapTagSegmentHeader_def node_of_def Let_def node_fields)
qed

lemma leaf_swapped:
  assumes "leaf_width t = Some k" and "k dvd 4 * len"
    and "srcPos + 4 * len \<le> length (content src)" and "destPos + 4 * len \<le> length (content dst)"
  shows "\<exists>d. swapLeafData ops swapAll t src dst srcPos destPos len = Inr d \<and> order ops d = order ops dst
    \<and> content d = overwrite (content dst) destPos
        (if order ops src = order ops dst then take (4 * len) (drop srcPos (content src))
         else turned k (take (4 * len) (drop srcPos (content src))))"
proof -
  consider "t \<in> {LONG64, ULONG64, DOUBLE64}" "k = 8" | "t \<in> {INT32, UINT32, FLOAT32}" "k = 4" | "t \<in> {SHORT16, USHORT16}" "k = 2"
      | "t \<in> {UNKNOWN32, CHAR8, UCHAR8, CHARSTAR8}" "k = 1"
    using assms(1) by (auto simp: leaf_width_def split: if_splits)
  then show ?thesis
  proof cases
    case 1
    then have "swapLeafData ops swapAll t src dst srcPos destPos len
        = leaf_loop 8 (getLong ops) (putLong ops) src srcPos (srcPos + 4 * len) destPos dst" by (auto simp: swapLeafData_def Let_def)
    with longs.loop_copies [OF _ assms(3,4)] assms(2) 1(2) show ?thesis by metis
  next
    case 2
    then have "swapLeafData ops swapAll t src dst srcPos destPos len
        = leaf_loop 4 (getInt ops) (putInt ops) src srcPos (srcPos + 4 * len) destPos dst" by (auto simp: swapLeafData_def Let_def)
    with ints.loop_copies [OF _ assms(3,4)] assms(2) 2(2) show ?thesis by metis
  next
    case 3
    then have "swapLeafData ops swapAll t src dst srcPos destPos len
        = leaf_loop 2 (getShort ops) (putShort ops) src srcPos (srcPos + 4 * len) destPos dst" by (auto simp: swapLeafData_def Let_def)
    with shorts.loop_copies [OF _ assms(3,4)] assms(2) 3(2) show ?thesis by metis
  next
    case 4
    then have "swapLeafData ops swapAll t src dst srcPos destPos len
        = leaf_loop 1 (getByte ops) (putByte ops) src srcPos (srcPos + 4 * len) destPos dst" by (auto simp: swapLeafData_def Let_def)
    with bytes.loop_copies [OF _ assms(3,4)] assms(2) 4(2) show ?thesis by metis
  qed
qed

end

text \<open>
  C38: Between buffers of different orders the swaps of the headers of banks, segments and tag
  segments write to the target what its parser reads as the same header, and return the node
  that belongs to it; between buffers of the same order they are refused.
\<close>

theorem swapped_headers_parse:
  assumes "evio_buffer ops content" and "unat srcPos + 8 \<le> length (content src)" and "unat destPos + 8 \<le> length (content dst)"
    and "unat srcPos + 8 < 2 ^ 32" and "unat destPos + 8 < 2 ^ 32"
  shows "if order ops src = order ops dst
     then swapBankHeader ops src dst srcPos destPos = Inl SameOrder \<and> swapSegmentHeader ops src dst srcPos destPos = Inl SameOrder
       \<and> swapTagSegmentHeader ops src dst srcPos destPos = Inl SameOrder
     else (\<exists>h d. createBankHeader (drop (unat srcPos) (content src)) (order ops src) = Some h
           \<and> swapBankHeader ops src dst srcPos destPos = Inr (node_of h 2 (unat destPos), d)
           \<and> createBankHeader (drop (unat destPos) (content d)) (order ops d) = Some h)
       \<and> (\<exists>h d. createSegmentHeader (drop (unat srcPos) (content src)) (order ops src) = Some h
           \<and> swapSegmentHeader ops src dst srcPos destPos = Inr (node_of h 1 (unat destPos), d)
           \<and> createSegmentHeader (drop (unat destPos) (content d)) (order ops d) = Some h)
       \<and> (\<exists>h d. createTagSegmentHeader (drop (unat srcPos) (content src)) (order ops src) = Some h
           \<and> swapTagSegmentHeader ops src dst srcPos destPos = Inr (node_of h 1 (unat destPos), d)
           \<and> createTagSegmentHeader (drop (unat destPos) (content d)) (order ops d) = Some h)"
proof -
  have "unat srcPos + 4 \<le> length (content src)" "unat destPos + 4 \<le> length (content dst)" using assms(2,3) by simp_all
  moreover have "unat destPos + 4 < 2 ^ 32" using assms(5) by simp
  ultimately show ?thesis
    using evio_buffer.bank_swapped [OF assms(1) _ assms(2-5)] evio_buffer.segments_swapped [OF assms(1), of src dst srcPos destPos]
    by (simp add: swapBankHeader_def [of ops src dst] swapSegmentHeader_def [of ops src dst] swapTagSegmentHeader_def [of ops src dst])
qed

text \<open>
  C37: \<open>swapLeafData\<close> between two buffers copies the words of data that hold whole values of the type; every value is
  turned around when the orders of the buffers differ and kept when they are the same, and
  nothing else of the target changes.
\<close>

theorem leaf_data_swapped:
  assumes "evio_buffer ops content" and "leaf_width t = Some k" and "k dvd 4 * len"
    and "srcPos + 4 * len \<le> length (content src)" and "destPos + 4 * len \<le> length (content dst)"
  shows "\<exists>d. swapLeafData ops swapAll t src dst srcPos destPos len = Inr d \<and> order ops d = order ops dst
    \<and> content d = overwrite (content dst) destPos
        (if order ops src = order ops dst then take (4 * len) (drop srcPos (content src))
         else turned k (take (4 * len) (drop srcPos (content src))))"
  by (rule evio_buffer.leaf_swapped [OF assms])

section \<open>A buffer of bytes\<close>

text \<open>The laws hold of a list of bytes with an order.\<close>

record plain_buffer =
  plain_order :: byte_order
  plain_bytes :: bytes

definition plain_get :: "nat \<Rightarrow> plain_buffer \<Rightarrow> nat \<Rightarrow> buffer_error + 'a::len word" where
  "plain_get n b i =
    (if i + n \<le> length (plain_bytes b) then Inr (native_word (plain_order b) (take n (drop i (plain_bytes b)))) else Inl OutOfRange)"

definition plain_put :: "nat \<Rightarrow> plain_buffer \<Rightarrow> nat \<Rightarrow> 'a::len word \<Rightarrow> buffer_error + plain_buffer" where
  "plain_put n b i v =
    (if i + n \<le> length (plain_bytes b) then Inr (b\<lparr>plain_bytes := overwrite (plain_bytes b) i (native_bytes (plain_order b) n v)\<rparr>)
     else Inl OutOfRange)"

definition plain_ops :: "plain_buffer buffer_ops" where
  "plain_ops =
    \<lparr>limit = (\<lambda>b. of_nat (length (plain_bytes b))), order = plain_order, setOrder = (\<lambda>o' b. b\<lparr>plain_order := o'\<rparr>),
     getLong = plain_get 8, getInt = plain_get 4, getShort = plain_get 2, getByte = plain_get 1,
     putLong = plain_put 8, putInt = plain_put 4, putShort = plain_put 2, putByte = plain_put 1\<rparr>"

lemma bytes_le_take_bit: "8 * n \<le> m \<Longrightarrow> bytes_le n (take_bit m w) = bytes_le n w"
proof (induction n arbitrary: m w)
  case (Suc n)
  have "(ucast (take_bit m w) :: u8) = ucast w" using Suc.prems by (intro bit_word_eqI) (auto simp: bit_simps)
  moreover have "bytes_le n (drop_bit 8 (take_bit m w)) = bytes_le n (drop_bit 8 w)"
    using Suc.IH [of "m - 8" "drop_bit 8 w"] Suc.prems by (simp add: drop_bit_take_bit)
  ultimately show ?case by simp
qed simp

lemma bytes_le_word_le: "8 * length bs \<le> LENGTH('a) \<Longrightarrow> bytes_le (length bs) (word_le bs :: 'a::len word) = bs"
proof (induction bs)
  case (Cons b bs)
  let ?w = "word_le bs :: 'a word"
  have "(ucast (ucast b OR push_bit 8 ?w :: 'a word) :: u8) = b"
    using Cons.prems by (intro bit_word_eqI) (auto simp: bit_simps)
  moreover have "drop_bit 8 (ucast b OR push_bit 8 ?w) = take_bit (LENGTH('a) - 8) ?w"
    by (rule bit_word_eqI) (auto simp: bit_simps dest: bit_imp_le_length)
  moreover have "bytes_le (length bs) (take_bit (LENGTH('a) - 8) ?w) = bs"
    using Cons by (simp add: bytes_le_take_bit)
  ultimately show ?case by simp
qed simp

lemma native_bytes_word: "length bs = n \<Longrightarrow> 8 * n \<le> LENGTH('a) \<Longrightarrow> native_bytes ord n (native_word ord bs :: 'a::len word) = bs"
  using bytes_le_word_le [of bs, where ?'a = 'a] bytes_le_word_le [of "rev bs", where ?'a = 'a]
  by (cases ord) (simp_all add: native_bytes_def native_word_def)

text \<open>All four accessors at once.\<close>

lemma plain_accessor:
  assumes enc: "\<And>v o'. enc v o' = native_bytes o' n (v :: 'w::len word)" and "0 < n" and "8 * n \<le> LENGTH('w)"
  shows "accessor plain_order plain_bytes n enc (plain_get n) (plain_put n)"
proof
  show "length (enc v o') = n" for v o' by (cases o') (simp_all add: enc native_bytes_def)
  show "enc v ENDIAN_LITTLE = rev (enc v ENDIAN_BIG)" for v by (simp add: enc native_bytes_def)
  show "\<exists>v. plain_get n b i = Inr v \<and> enc v (plain_order b) = take n (drop i (plain_bytes b))"
    if "i + n \<le> length (plain_bytes b)" for i b
    using that assms(3) by (simp add: plain_get_def enc native_bytes_word)
qed (use assms(2) in \<open>simp_all add: plain_get_def plain_put_def enc\<close>)

lemma shortBytes_le: "shortBytes w ENDIAN_LITTLE = bytes_le 2 w" "shortBytes w ENDIAN_BIG = rev (bytes_le 2 w)"
  by (simp_all add: shortBytes_def bytes_le_2)

lemma native_encodings:
  "longBytes v o' = native_bytes o' 8 v" "intBytes w o' = native_bytes o' 4 w" "shortBytes x o' = native_bytes o' 2 x"
  "[y] = native_bytes o' 1 (y :: u8)"
  by (cases o'; simp add: native_bytes_def longBytes_le intBytes_le shortBytes_le)+

interpretation plain_buf: evio_buffer plain_ops plain_bytes
proof (rule evio_buffer.intro)
  show "accessor (order plain_ops) plain_bytes 8 longBytes (getLong plain_ops) (putLong plain_ops)"
    using plain_accessor [of longBytes 8] by (simp add: plain_ops_def native_encodings)
  show "accessor (order plain_ops) plain_bytes 4 intBytes (getInt plain_ops) (putInt plain_ops)"
    using plain_accessor [of intBytes 4] by (simp add: plain_ops_def native_encodings)
  show "accessor (order plain_ops) plain_bytes 2 shortBytes (getShort plain_ops) (putShort plain_ops)"
    using plain_accessor [of shortBytes 2] by (simp add: plain_ops_def native_encodings)
  show "accessor (order plain_ops) plain_bytes 1 (\<lambda>v _. [v]) (getByte plain_ops) (putByte plain_ops)"
    unfolding plain_ops_def buffer_ops.simps by (rule plain_accessor [OF native_encodings(4)]) simp_all
qed (simp_all add: plain_ops_def unat_of_nat_64)

theorem leaf_data_swapped_witness:
  "let src = \<lparr>plain_order = ENDIAN_LITTLE, plain_bytes = [1, 2, 3, 4, 5, 6, 7, 8]\<rparr>;
       dst = \<lparr>plain_order = ENDIAN_BIG, plain_bytes = [0, 0, 0, 0, 0]\<rparr>
   in \<exists>d. swapLeafData plain_ops (\<lambda>_ d _ _ _. Inr d) USHORT16 src dst 4 1 1 = Inr d
     \<and> plain_bytes d = [0, 6, 5, 8, 7]"
proof -
  let ?src = "\<lparr>plain_order = ENDIAN_LITTLE, plain_bytes = [1, 2, 3, 4, 5, 6, 7, 8]\<rparr>"
    and ?dst = "\<lparr>plain_order = ENDIAN_BIG, plain_bytes = [0, 0, 0, 0, 0]\<rparr>"
  have "overwrite [0, 0, 0, 0, 0] 1 (turned 2 (take (4 * 1) (drop 4 [1, 2, 3, 4, 5, 6, 7, 8 :: u8]))) = [0, 6, 5, 8, 7]"
    by code_simp
  with leaf_data_swapped [OF plain_buf.evio_buffer_axioms, of USHORT16 2 1 4 ?src 1 ?dst "\<lambda>_ d _ _ _. Inr d"]
  show ?thesis by (auto simp: leaf_width_def plain_ops_def)
qed

theorem swapped_headers_parse_witness:
  "let src = \<lparr>plain_order = ENDIAN_BIG, plain_bytes = [0, 0, 0, 3, 0, 5, 0xc1, 7]\<rparr>;
       dst = \<lparr>plain_order = ENDIAN_LITTLE, plain_bytes = [9, 0, 0, 0, 0, 0, 0, 0, 0]\<rparr>
   in \<exists>h d. createBankHeader (plain_bytes src) ENDIAN_BIG = Some h \<and> sh_length h = 3
     \<and> swapBankHeader plain_ops src dst 0 1 = Inr (node_of h 2 1, d)"
proof -
  let ?src = "\<lparr>plain_order = ENDIAN_BIG, plain_bytes = [0, 0, 0, 3, 0, 5, 0xc1, 7]\<rparr>"
    and ?dst = "\<lparr>plain_order = ENDIAN_LITTLE, plain_bytes = [9, 0, 0, 0, 0, 0, 0, 0, 0]\<rparr>"
  have "\<exists>h d. createBankHeader (plain_bytes ?src) ENDIAN_BIG = Some h \<and> swapBankHeader plain_ops ?src ?dst 0 1 = Inr (node_of h 2 1, d)"
    using swapped_headers_parse [OF plain_buf.evio_buffer_axioms, of 0 ?src 1 ?dst] by (auto simp: plain_ops_def)
  moreover have "map_option sh_length (createBankHeader (plain_bytes ?src) ENDIAN_BIG) = Some 3" by code_simp
  ultimately show ?thesis by auto
qed

theorem version_found_witness:
  "let h = BlockHeaderV4 ENDIAN_BIG 100 1;
       b = \<lparr>plain_order = ENDIAN_LITTLE, plain_bytes = [7] @ concat (map (\<lambda>w. intBytes w ENDIAN_BIG) (v4_words h))\<rparr>
   in \<exists>b'. findEvioVersion plain_ops b 1 = (Inr 4, b') \<and> plain_order b' = ENDIAN_BIG"
proof -
  let ?h = "BlockHeaderV4 ENDIAN_BIG 100 1"
  let ?bs = "concat (map (\<lambda>w. intBytes w ENDIAN_BIG) (v4_words ?h))"
  have h: "v4_version ?h = 4" "v4_words ?h ! 7 = MAGIC_NUMBER" "length ?bs = 32"
    by (simp_all add: BlockHeaderV4_def BlockHeaderV4_default_def v4_words_def intBytes_def)
  have "\<exists>b'. findEvioVersion plain_ops \<lparr>plain_order = ENDIAN_LITTLE, plain_bytes = [7] @ ?bs\<rparr> 1 = (Inr (v4_version ?h), b')
      \<and> order plain_ops b' = ENDIAN_BIG \<and> plain_bytes b' = plain_bytes \<lparr>plain_order = ENDIAN_LITTLE, plain_bytes = [7] @ ?bs\<rparr>"
  proof (rule version_found [OF plain_buf.evio_buffer_axioms, where h = ?h and ws = "v4_words ?h"])
    show "take 32 (drop (unat (1 :: u64)) (plain_bytes \<lparr>plain_order = ENDIAN_LITTLE, plain_bytes = [7] @ ?bs\<rparr>)) = ?bs"
      using h(3) by simp
  qed (use h in simp_all)
  then show ?thesis by (auto simp: h(1) plain_ops_def Let_def)
qed

text \<open>The test for room wraps for a position behind the limit, and the read that follows is out of range.\<close>

lemma version_behind_limit:
  "findEvioVersion plain_ops \<lparr>plain_order = ENDIAN_BIG, plain_bytes = []\<rparr> 4
     = (Inl OutOfRange, \<lparr>plain_order = ENDIAN_BIG, plain_bytes = []\<rparr>)"
  by code_simp

text \<open>An odd number of words of 64-bit values is read and written four bytes past the data.\<close>

lemma leaf_data_overrun:
  "map_sum id plain_bytes (swapLeafData plain_ops (\<lambda>_ d _ _ _. Inr d) LONG64
     \<lparr>plain_order = ENDIAN_BIG, plain_bytes = [1, 2, 3, 4, 5, 6, 7, 8]\<rparr>
     \<lparr>plain_order = ENDIAN_LITTLE, plain_bytes = replicate 8 0\<rparr> 0 0 1) = Inr [8, 7, 6, 5, 4, 3, 2, 1]"
  by code_simp

end
