(* ===== verification/Xmsg_Messages.thy ===== *)
theory Xmsg_Messages
  imports Dift_Prelude
begin

text \<open>
  The messages of xMsg: values stored in protobuf \<open>Data\<close> objects (\<open>proto/data.h\<close>), the
  metadata (\<open>proto/meta.h\<close>), messages and responses (\<open>message.h\<close>) and addresses
  (\<open>address.h\<close>). Protobuf's serialisation is an argument, with its laws in a locale.
\<close>

section \<open>Values and their types\<close>

text \<open>The types with a \<open>set_value\<close>; floating point values are their bits, strings their characters.\<close>

datatype xvalue =
  V_int32 u32 | V_int64 u64 | V_float u32 | V_double u64 | V_string string | V_cstring string
  | V_int32s "u32 list" | V_int64s "u64 list" | V_floats "u32 list" | V_doubles "u64 list" | V_strings "string list"

datatype xtype =
  T_int32 | T_int64 | T_float | T_double | T_string | T_cstring
  | T_int32s | T_int64s | T_floats | T_doubles | T_strings

fun type_of :: "xvalue \<Rightarrow> xtype" where
  "type_of (V_int32 _) = T_int32"
| "type_of (V_int64 _) = T_int64"
| "type_of (V_float _) = T_float"
| "type_of (V_double _) = T_double"
| "type_of (V_string _) = T_string"
| "type_of (V_cstring _) = T_cstring"
| "type_of (V_int32s _) = T_int32s"
| "type_of (V_int64s _) = T_int64s"
| "type_of (V_floats _) = T_floats"
| "type_of (V_doubles _) = T_doubles"
| "type_of (V_strings _) = T_strings"

text \<open>The fields of a \<open>Data\<close> object; an optional field that is not set is read as its default.\<close>

record pb_data =
  pd_vlsint32 :: "u32 option"
  pd_vlsint64 :: "u64 option"
  pd_flsint32 :: "u32 option"
  pd_flsint64 :: "u64 option"
  pd_float :: "u32 option"
  pd_double :: "u64 option"
  pd_string :: "string option"
  pd_bytes :: "string option"
  pd_vlsint32a :: "u32 list"
  pd_vlsint64a :: "u64 list"
  pd_flsint32a :: "u32 list"
  pd_flsint64a :: "u64 list"
  pd_floata :: "u32 list"
  pd_doublea :: "u64 list"
  pd_stringa :: "string list"
  pd_bytesa :: "string list"
  pd_type :: "u32 option"

definition new_data :: pb_data where
  "new_data = \<lparr>pd_vlsint32 = None, pd_vlsint64 = None, pd_flsint32 = None, pd_flsint64 = None, pd_float = None, pd_double = None,
     pd_string = None, pd_bytes = None, pd_vlsint32a = [], pd_vlsint64a = [], pd_flsint32a = [], pd_flsint64a = [],
     pd_floata = [], pd_doublea = [], pd_stringa = [], pd_bytesa = [], pd_type = None\<rparr>"

definition or_default :: "'a \<Rightarrow> 'a option \<Rightarrow> 'a" where
  "or_default z x = (case x of None \<Rightarrow> z | Some v \<Rightarrow> v)"

fun set_value :: "pb_data \<Rightarrow> xvalue \<Rightarrow> pb_data" where
  "set_value data (V_int32 v) = data\<lparr>pd_flsint32 := Some v\<rparr>"
| "set_value data (V_int64 v) = data\<lparr>pd_flsint64 := Some v\<rparr>"
| "set_value data (V_float v) = data\<lparr>pd_float := Some v\<rparr>"
| "set_value data (V_double v) = data\<lparr>pd_double := Some v\<rparr>"
| "set_value data (V_string v) = data\<lparr>pd_string := Some v\<rparr>"
| "set_value data (V_cstring v) = data\<lparr>pd_string := Some v\<rparr>"
| "set_value data (V_int32s v) = data\<lparr>pd_flsint32a := v\<rparr>"
| "set_value data (V_int64s v) = data\<lparr>pd_flsint64a := v\<rparr>"
| "set_value data (V_floats v) = data\<lparr>pd_floata := v\<rparr>"
| "set_value data (V_doubles v) = data\<lparr>pd_doublea := v\<rparr>"
| "set_value data (V_strings v) = data\<lparr>pd_stringa := v\<rparr>"

text \<open>There is no \<open>get_value\<close> for \<open>const char*\<close>: such a call is refused by the compiler.\<close>

fun get_value :: "xtype \<Rightarrow> pb_data \<Rightarrow> xvalue option" where
  "get_value T_int32 data = Some (V_int32 (or_default 0 (pd_flsint32 data)))"
| "get_value T_int64 data = Some (V_int64 (or_default 0 (pd_flsint64 data)))"
| "get_value T_float data = Some (V_float (or_default 0 (pd_float data)))"
| "get_value T_double data = Some (V_double (or_default 0 (pd_double data)))"
| "get_value T_string data = Some (V_string (or_default '''' (pd_string data)))"
| "get_value T_cstring data = None"
| "get_value T_int32s data = Some (V_int32s (pd_flsint32a data))"
| "get_value T_int64s data = Some (V_int64s (pd_flsint64a data))"
| "get_value T_floats data = Some (V_floats (pd_floata data))"
| "get_value T_doubles data = Some (V_doubles (pd_doublea data))"
| "get_value T_strings data = Some (V_strings (pd_stringa data))"

definition xmsg_data :: string where
  "xmsg_data = ''binary/native''"

text \<open>With the strings of \<open>constants.h\<close>.\<close>

fun get_mimetype :: "xtype \<Rightarrow> string" where
  "get_mimetype T_int32 = ''binary/sfixed32''"
| "get_mimetype T_int64 = ''binary/sfixed64''"
| "get_mimetype T_float = ''binary/float''"
| "get_mimetype T_double = ''binary/double''"
| "get_mimetype T_string = ''text/string''"
| "get_mimetype T_cstring = ''text/string''"
| "get_mimetype T_int32s = ''binary/array-sfixed32''"
| "get_mimetype T_int64s = ''binary/array-sfixed32''"
| "get_mimetype T_floats = ''binary/array-float''"
| "get_mimetype T_doubles = ''binary/array-double''"
| "get_mimetype T_strings = ''binary/array-string''"

definition make_data :: "xvalue \<Rightarrow> pb_data" where
  "make_data data = set_value new_data data"

text \<open>
  Protobuf: \<open>ByteSizeLong\<close>, \<open>SerializeToArray\<close> as what it leaves in an array, and \<open>ParseFromArray\<close> as what
  it leaves in a new object.
\<close>

record 'm protobuf_ops =
  ByteSizeLong :: "'m \<Rightarrow> nat"
  SerializeToArray :: "'m \<Rightarrow> bytes \<Rightarrow> bytes"
  ParseFromArray :: "bytes \<Rightarrow> 'm"

definition serialize_data :: "pb_data protobuf_ops \<Rightarrow> pb_data \<Rightarrow> bytes" where
  "serialize_data pb data = (let buffer = replicate (ByteSizeLong pb data) 0 in SerializeToArray pb data buffer)"

definition parse_data :: "pb_data protobuf_ops \<Rightarrow> bytes \<Rightarrow> pb_data" where
  "parse_data pb buffer = ParseFromArray pb buffer"

section \<open>Messages\<close>

record xmsg_meta =
  mt_version :: "string option"
  mt_description :: "string option"
  mt_author :: "string option"
  mt_status :: "u32 option"
  mt_severityId :: "u32 option"
  mt_sender :: "string option"
  mt_senderState :: "string option"
  mt_communicationId :: "u32 option"
  mt_composition :: "string option"
  mt_executionTime :: "u64 option"
  mt_action :: "u32 option"
  mt_control :: "u32 option"
  mt_dataType :: "string option"
  mt_dataTypeDescription :: "string option"
  mt_replyTo :: "string option"
  mt_byteOrder :: "u32 option"

definition make_meta :: xmsg_meta where
  "make_meta = \<lparr>mt_version = None, mt_description = None, mt_author = None, mt_status = None, mt_severityId = None,
     mt_sender = None, mt_senderState = None, mt_communicationId = None, mt_composition = None, mt_executionTime = None,
     mt_action = None, mt_control = None, mt_dataType = None, mt_dataTypeDescription = None, mt_replyTo = None,
     mt_byteOrder = None\<rparr>"

datatype message_error = NullMetadata | NullMimeType

definition set_datatype :: "xmsg_meta \<Rightarrow> string option \<Rightarrow> message_error + xmsg_meta" where
  "set_datatype meta datatype =
    (case datatype of Some t \<Rightarrow> Inr (meta\<lparr>mt_dataType := Some t\<rparr>) | None \<Rightarrow> Inl NullMimeType)"

text \<open>A topic is its string.\<close>

record message =
  msg_topic :: string
  msg_meta :: xmsg_meta
  msg_data :: bytes

definition Message_meta :: "string \<Rightarrow> xmsg_meta option \<Rightarrow> bytes \<Rightarrow> message_error + message" where
  "Message_meta topic metadata data =
    (case metadata of None \<Rightarrow> Inl NullMetadata | Some m \<Rightarrow> Inr \<lparr>msg_topic = topic, msg_meta = m, msg_data = data\<rparr>)"

definition Message_mimetype :: "string \<Rightarrow> string option \<Rightarrow> bytes \<Rightarrow> message_error + message" where
  "Message_mimetype topic mimetype data =
    map_sum id (\<lambda>meta. \<lparr>msg_topic = topic, msg_meta = meta, msg_data = data\<rparr>) (set_datatype make_meta mimetype)"

definition datatype_of :: "message \<Rightarrow> string" where
  "datatype_of msg = or_default '''' (mt_dataType (msg_meta msg))"

definition has_replyto :: "message \<Rightarrow> bool" where
  "has_replyto msg \<longleftrightarrow> mt_replyTo (msg_meta msg) \<noteq> None"

definition replyto :: "message \<Rightarrow> string" where
  "replyto msg = or_default '''' (mt_replyTo (msg_meta msg))"

definition clear_replyto :: "xmsg_meta \<Rightarrow> xmsg_meta" where
  "clear_replyto meta = meta\<lparr>mt_replyTo := None\<rparr>"

definition make_message :: "pb_data protobuf_ops \<Rightarrow> string \<Rightarrow> xvalue \<Rightarrow> message_error + message" where
  "make_message pb topic data =
    (let xdata = make_data data
     in Message_mimetype topic (Some (get_mimetype (type_of data))) (serialize_data pb xdata))"

definition make_message_data :: "pb_data protobuf_ops \<Rightarrow> string \<Rightarrow> pb_data \<Rightarrow> message_error + message" where
  "make_message_data pb topic data =
    (let buffer = serialize_data pb data in Message_mimetype topic (Some xmsg_data) buffer)"

definition parse_message :: "pb_data protobuf_ops \<Rightarrow> xtype \<Rightarrow> message \<Rightarrow> xvalue option" where
  "parse_message pb t msg = (let xdata = parse_data pb (msg_data msg) in get_value t xdata)"

definition parse_message_data :: "pb_data protobuf_ops \<Rightarrow> message \<Rightarrow> pb_data" where
  "parse_message_data pb msg = parse_data pb (msg_data msg)"

text \<open>The message that is moved, and the one that is copied.\<close>

definition make_response_move :: "message \<Rightarrow> message" where
  "make_response_move msg =
    (let msg = msg\<lparr>msg_topic := replyto msg\<rparr> in msg\<lparr>msg_meta := clear_replyto (msg_meta msg)\<rparr>)"

definition make_response :: "message \<Rightarrow> message_error + message" where
  "make_response msg =
    (let meta = clear_replyto (msg_meta msg) in Message_meta (replyto msg) (Some meta) (msg_data msg))"

definition message_eq :: "(xmsg_meta \<Rightarrow> bytes) \<Rightarrow> message \<Rightarrow> message \<Rightarrow> bool" where
  "message_eq SerializeAsString lhs rhs \<longleftrightarrow> msg_topic lhs = msg_topic rhs
     \<and> SerializeAsString (msg_meta lhs) = SerializeAsString (msg_meta rhs) \<and> msg_data lhs = msg_data rhs"

section \<open>Addresses\<close>

record proxy_address =
  pa_host :: string
  pa_pub_port :: u32
  pa_sub_port :: u32

record reg_address =
  ra_host :: string
  ra_port :: u32

definition proxy_eq :: "proxy_address \<Rightarrow> proxy_address \<Rightarrow> bool" where
  "proxy_eq lhs rhs \<longleftrightarrow>
    (pa_host lhs, pa_pub_port lhs, pa_sub_port lhs) = (pa_host rhs, pa_pub_port rhs, pa_sub_port rhs)"

definition reg_eq :: "reg_address \<Rightarrow> reg_address \<Rightarrow> bool" where
  "reg_eq lhs rhs \<longleftrightarrow> (ra_host lhs, ra_port lhs) = (ra_host rhs, ra_port rhs)"

text \<open>With the hashes of strings and integers of the standard library.\<close>

definition proxy_hash :: "(string \<Rightarrow> u64) \<Rightarrow> (u32 \<Rightarrow> u64) \<Rightarrow> proxy_address \<Rightarrow> u64" where
  "proxy_hash hash_string hash_int k = hash_string (pa_host k) XOR push_bit 1 (hash_int (pa_pub_port k))"

definition reg_hash :: "(string \<Rightarrow> u64) \<Rightarrow> (u32 \<Rightarrow> u64) \<Rightarrow> reg_address \<Rightarrow> u64" where
  "reg_hash hash_string hash_int k = hash_string (ra_host k) XOR push_bit 1 (hash_int (ra_port k))"

text \<open>What a hash table needs: addresses that compare as equal have the same hash.\<close>

lemma equal_addresses_hash:
  "proxy_eq a b \<Longrightarrow> proxy_hash hs hi a = proxy_hash hs hi b" "reg_eq c d \<Longrightarrow> reg_hash hs hi c = reg_hash hs hi d"
  by (simp_all add: proxy_eq_def proxy_hash_def reg_eq_def reg_hash_def)

lemma address_eq_iff: "proxy_eq a b \<longleftrightarrow> a = b" "reg_eq c d \<longleftrightarrow> c = d"
  by (cases a; cases b; simp add: proxy_eq_def) (cases c; cases d; simp add: reg_eq_def)

section \<open>What protobuf promises\<close>

text \<open>Of objects smaller than 2 GB, its limit.\<close>

locale protobuf =
  fixes pb :: "'m protobuf_ops"
  assumes roundtrip: "ByteSizeLong pb m < 2 ^ 31 \<Longrightarrow> length buf = ByteSizeLong pb m \<Longrightarrow> ParseFromArray pb (SerializeToArray pb m buf) = m"


text \<open>What a reader of a type gets from an object that holds one value.\<close>

fun as_read :: "xvalue \<Rightarrow> xvalue" where
  "as_read (V_cstring s) = V_string s"
| "as_read v = v"

fun default_value :: "xtype \<Rightarrow> xvalue" where
  "default_value T_int32 = V_int32 0"
| "default_value T_int64 = V_int64 0"
| "default_value T_float = V_float 0"
| "default_value T_double = V_double 0"
| "default_value T_string = V_string ''''"
| "default_value T_cstring = V_cstring ''''"
| "default_value T_int32s = V_int32s []"
| "default_value T_int64s = V_int64s []"
| "default_value T_floats = V_floats []"
| "default_value T_doubles = V_doubles []"
| "default_value T_strings = V_strings []"

lemma get_made:
  "get_value t (make_data v)
    = (if t = T_cstring then None else Some (if t = type_of (as_read v) then as_read v else default_value t))"
  by (cases t; cases v) (simp_all add: make_data_def new_data_def or_default_def)

context protobuf
begin

lemma parse_serialized: "ByteSizeLong pb m < 2 ^ 31 \<Longrightarrow> ParseFromArray pb (SerializeToArray pb m (replicate (ByteSizeLong pb m) z)) = m"
  by (rule roundtrip) simp_all

end

text \<open>
  A message made of a value has the topic and the MIME type of the value's type; reading it as that
  type gives the value, a \<open>const char*\<close> back as a string, and reading it as another type gives
  that type's zero or empty value and no error. An object of type \<open>Data\<close> comes back as it was.
\<close>

theorem message_roundtrip:
  assumes "protobuf pb" and "ByteSizeLong pb (make_data v) < 2 ^ 31" and "ByteSizeLong pb d < 2 ^ 31"
  shows "(\<exists>msg. make_message pb topic v = Inr msg \<and> msg_topic msg = topic \<and> datatype_of msg = get_mimetype (type_of v)
      \<and> parse_message pb t msg
        = (if t = T_cstring then None else Some (if t = type_of (as_read v) then as_read v else default_value t)))
    \<and> (\<exists>msg. make_message_data pb topic d = Inr msg \<and> datatype_of msg = xmsg_data \<and> parse_message_data pb msg = d)"
  using protobuf.parse_serialized [OF assms(1,2)] protobuf.parse_serialized [OF assms(1,3)]
  by (simp add: make_message_def make_message_data_def Message_mimetype_def set_datatype_def datatype_of_def or_default_def
      parse_message_def parse_message_data_def parse_data_def serialize_data_def Let_def get_made)

text \<open>
  The MIME types tell the types apart, but for the two kinds of strings and, because
  \<open>array_sfixed64\<close> has the text of \<open>array_sfixed32\<close>, the arrays of 32-bit and of 64-bit integers:
  a receiver that goes by the MIME type reads an array of 64-bit integers as empty.
\<close>

lemma mimetype_collisions:
  "get_mimetype s = get_mimetype t \<longleftrightarrow> s = t \<or> {s, t} = {T_string, T_cstring} \<or> {s, t} = {T_int32s, T_int64s}"
  by (cases s; cases t) (simp_all add: doubleton_eq_iff)

text \<open>
  Both ways to make a response agree; the response goes where the message asked, keeps its data
  and type, and asks for no response itself. Of a message that asks for none it has the empty topic.
\<close>

lemma response_made:
  "make_response msg = Inr (make_response_move msg)"
  "msg_topic (make_response_move msg) = replyto msg" "msg_data (make_response_move msg) = msg_data msg"
  "datatype_of (make_response_move msg) = datatype_of msg" "\<not> has_replyto (make_response_move msg)"
  "\<not> has_replyto msg \<Longrightarrow> msg_topic (make_response_move msg) = ''''"
  by (cases msg; cases "msg_meta msg";
      auto simp: make_response_def make_response_move_def Message_meta_def clear_replyto_def replyto_def has_replyto_def datatype_of_def
        or_default_def Let_def)+

text \<open>Messages compare as equal just when they are, if the serialisation of metadata is injective.\<close>

lemma message_eq_iff: "inj SerializeAsString \<Longrightarrow> message_eq SerializeAsString lhs rhs \<longleftrightarrow> lhs = rhs"
  by (cases lhs; cases rhs) (auto simp: message_eq_def dest: injD)

section \<open>A serialisation\<close>

text \<open>An encoding that can be read back from the front of a sequence of bytes.\<close>

locale codec =
  fixes enc :: "'a \<Rightarrow> bytes" and dec :: "bytes \<Rightarrow> 'a \<times> bytes"
  assumes dec: "dec (enc x @ r) = (x, r)"

definition word_dec :: "nat \<Rightarrow> bytes \<Rightarrow> 'a::len word \<times> bytes" where
  "word_dec n bs = (word_le (take n bs), drop n bs)"

definition char_enc :: "char \<Rightarrow> bytes" where
  "char_enc c = [of_nat (of_char c)]"

definition char_dec :: "bytes \<Rightarrow> char \<times> bytes" where
  "char_dec bs = (case bs of [] \<Rightarrow> (CHR ''0'', []) | b # r \<Rightarrow> (char_of (unat b), r))"

definition option_enc :: "('a \<Rightarrow> bytes) \<Rightarrow> 'a option \<Rightarrow> bytes" where
  "option_enc e x = (case x of None \<Rightarrow> [0] | Some v \<Rightarrow> 1 # e v)"

definition option_dec :: "(bytes \<Rightarrow> 'a \<times> bytes) \<Rightarrow> bytes \<Rightarrow> 'a option \<times> bytes" where
  "option_dec d bs = (case bs of [] \<Rightarrow> (None, []) | b # r \<Rightarrow> if b = 0 then (None, r) else map_prod Some id (d r))"

definition list_enc :: "('a \<Rightarrow> bytes) \<Rightarrow> 'a list \<Rightarrow> bytes" where
  "list_enc e xs = concat (map (\<lambda>x. 1 # e x) xs) @ [0]"

fun list_loop :: "nat \<Rightarrow> (bytes \<Rightarrow> 'a \<times> bytes) \<Rightarrow> bytes \<Rightarrow> 'a list \<times> bytes" where
  "list_loop 0 d bs = ([], bs)"
| "list_loop (Suc n) d bs =
    (case bs of [] \<Rightarrow> ([], []) | b # r \<Rightarrow> if b = 0 then ([], r)
       else let (x, r) = d r; (xs, r) = list_loop n d r in (x # xs, r))"

definition list_dec :: "(bytes \<Rightarrow> 'a \<times> bytes) \<Rightarrow> bytes \<Rightarrow> 'a list \<times> bytes" where
  "list_dec d bs = list_loop (length bs) d bs"

definition pair_enc :: "('a \<Rightarrow> bytes) \<Rightarrow> ('b \<Rightarrow> bytes) \<Rightarrow> 'a \<times> 'b \<Rightarrow> bytes" where
  "pair_enc e f = (\<lambda>(x, y). e x @ f y)"

definition pair_dec :: "(bytes \<Rightarrow> 'a \<times> bytes) \<Rightarrow> (bytes \<Rightarrow> 'b \<times> bytes) \<Rightarrow> bytes \<Rightarrow> ('a \<times> 'b) \<times> bytes" where
  "pair_dec d f bs = (let (x, bs) = d bs; (y, bs) = f bs in ((x, y), bs))"

lemma word_codec: "LENGTH('a) \<le> 8 * n \<Longrightarrow> codec (bytes_le n) (word_dec n :: _ \<Rightarrow> 'a::len word \<times> _)"
  by unfold_locales (simp add: word_dec_def word_le_bytes_le_full)

lemma char_codec: "codec char_enc char_dec"
proof
  fix c r
  have "(of_char c :: nat) < 256" by simp
  then show "char_dec (char_enc c @ r) = (c, r)" by (simp add: char_dec_def char_enc_def unat_of_nat take_bit_nat_eq_self)
qed

lemma option_codec: "codec e d \<Longrightarrow> codec (option_enc e) (option_dec d)"
  by (auto simp: codec_def option_enc_def option_dec_def split: option.splits)

lemma pair_codec: "codec e d \<Longrightarrow> codec f g \<Longrightarrow> codec (pair_enc e f) (pair_dec d g)"
  by (auto simp: codec_def pair_enc_def pair_dec_def)

context codec
begin

lemma list_loop_enc: "length xs < n \<Longrightarrow> list_loop n dec (list_enc enc xs @ r) = (xs, r)"
proof (induction xs arbitrary: n)
  case Nil
  then show ?case by (cases n) (simp_all add: list_enc_def)
next
  case (Cons x xs)
  then obtain m where m: "n = Suc m" "length xs < m" by (cases n) auto
  have "list_enc enc (x # xs) @ r = 1 # enc x @ list_enc enc xs @ r" by (simp add: list_enc_def)
  with m Cons.IH [OF m(2)] show ?case by (simp add: dec)
qed

lemma list_enc_length: "length xs < length (list_enc enc xs)"
  by (induction xs) (auto simp: list_enc_def)

end

lemma list_codec: "codec e d \<Longrightarrow> codec (list_enc e) (list_dec d)"
  unfolding codec_def [of "list_enc e"] list_dec_def
  using codec.list_loop_enc [of e d] codec.list_enc_length [of e d] by (metis length_append trans_less_add1)


text \<open>The fields one after the other.\<close>

abbreviation "w32_enc \<equiv> bytes_le 4 :: u32 \<Rightarrow> bytes"
abbreviation "w64_enc \<equiv> bytes_le 8 :: u64 \<Rightarrow> bytes"
abbreviation "w32_dec \<equiv> word_dec 4 :: bytes \<Rightarrow> u32 \<times> bytes"
abbreviation "w64_dec \<equiv> word_dec 8 :: bytes \<Rightarrow> u64 \<times> bytes"
abbreviation "string_enc \<equiv> list_enc char_enc"
abbreviation "string_dec \<equiv> list_dec char_dec"

definition singles_enc where
  "singles_enc =
    pair_enc (option_enc w32_enc) (pair_enc (option_enc w64_enc) (pair_enc (option_enc w32_enc) (pair_enc (option_enc w64_enc)
    (pair_enc (option_enc w32_enc) (pair_enc (option_enc w64_enc) (pair_enc (option_enc string_enc)
    (pair_enc (option_enc string_enc) (option_enc w32_enc))))))))"

definition singles_dec where
  "singles_dec =
    pair_dec (option_dec w32_dec) (pair_dec (option_dec w64_dec) (pair_dec (option_dec w32_dec) (pair_dec (option_dec w64_dec)
    (pair_dec (option_dec w32_dec) (pair_dec (option_dec w64_dec) (pair_dec (option_dec string_dec)
    (pair_dec (option_dec string_dec) (option_dec w32_dec))))))))"

definition arrays_enc where
  "arrays_enc =
    pair_enc (list_enc w32_enc) (pair_enc (list_enc w64_enc) (pair_enc (list_enc w32_enc) (pair_enc (list_enc w64_enc)
    (pair_enc (list_enc w32_enc) (pair_enc (list_enc w64_enc) (pair_enc (list_enc string_enc) (list_enc string_enc)))))))"

definition arrays_dec where
  "arrays_dec =
    pair_dec (list_dec w32_dec) (pair_dec (list_dec w64_dec) (pair_dec (list_dec w32_dec) (pair_dec (list_dec w64_dec)
    (pair_dec (list_dec w32_dec) (pair_dec (list_dec w64_dec) (pair_dec (list_dec string_dec) (list_dec string_dec)))))))"

definition data_enc :: "pb_data \<Rightarrow> bytes" where
  "data_enc d =
    pair_enc singles_enc arrays_enc
      ((pd_vlsint32 d, pd_vlsint64 d, pd_flsint32 d, pd_flsint64 d, pd_float d, pd_double d, pd_string d, pd_bytes d, pd_type d),
       (pd_vlsint32a d, pd_vlsint64a d, pd_flsint32a d, pd_flsint64a d, pd_floata d, pd_doublea d, pd_stringa d, pd_bytesa d))"

definition data_dec :: "bytes \<Rightarrow> pb_data" where
  "data_dec bs =
    (case fst (pair_dec singles_dec arrays_dec bs) of ((a, b, c, d, e, f, g, h, i), (j, k, l, m, n, p, q, r)) \<Rightarrow>
      \<lparr>pd_vlsint32 = a, pd_vlsint64 = b, pd_flsint32 = c, pd_flsint64 = d, pd_float = e, pd_double = f, pd_string = g, pd_bytes = h,
       pd_vlsint32a = j, pd_vlsint64a = k, pd_flsint32a = l, pd_flsint64a = m, pd_floata = n, pd_doublea = p, pd_stringa = q,
       pd_bytesa = r, pd_type = i\<rparr>)"

lemma fields_codec: "codec (pair_enc singles_enc arrays_enc) (pair_dec singles_dec arrays_dec)"
  unfolding singles_enc_def singles_dec_def arrays_enc_def arrays_dec_def
  by (intro pair_codec option_codec list_codec word_codec char_codec) simp_all

lemma data_dec_enc: "data_dec (data_enc d) = d"
  using codec.dec [OF fields_codec, where r = "[]"] by (simp add: data_dec_def data_enc_def)

definition plain_pb :: "pb_data protobuf_ops" where
  "plain_pb = \<lparr>ByteSizeLong = length \<circ> data_enc, SerializeToArray = (\<lambda>d buf. overwrite buf 0 (data_enc d)), ParseFromArray = data_dec\<rparr>"

interpretation plain_proto: protobuf plain_pb
  by unfold_locales (simp add: plain_pb_def overwrite_def data_dec_enc)

interpretation field_codec: codec "pair_enc singles_enc arrays_enc" "pair_dec singles_dec arrays_dec"
  by (rule fields_codec)

lemma array_size: "ByteSizeLong plain_pb (make_data (V_int64s xs)) = 17 + 9 * length xs"
  by (induction xs) (simp_all add: plain_pb_def data_enc_def pair_enc_def singles_enc_def arrays_enc_def option_enc_def list_enc_def
      make_data_def new_data_def)

theorem message_roundtrip_witness:
  "\<exists>msg. make_message plain_pb ''t'' (V_int64s [5]) = Inr msg \<and> datatype_of msg = get_mimetype T_int32s
     \<and> parse_message plain_pb T_int32s msg = Some (V_int32s []) \<and> parse_message plain_pb T_int64s msg = Some (V_int64s [5])"
proof -
  have small: "ByteSizeLong plain_pb (make_data (V_int64s [5])) < 2 ^ 31" by (simp add: array_size)
  then show ?thesis
    using message_roundtrip [OF plain_proto.protobuf_axioms small small, of "''t''" T_int32s]
      message_roundtrip [OF plain_proto.protobuf_axioms small small, of "''t''" T_int64s] by auto
qed


end
