(* ===== verification/Spec2Isabelle.thy ===== *)
theory Spec2Isabelle
  imports Packetize_More Assemble_More Grpc_Transfer Et_Receiver Block_Header Evio_Swap Supplier_N Disruptor_Builder Structure_Transformer
    File_Names Powers Evio_Buffers Xmsg_Messages
begin

text \<open>
  \<^bold>\<open>What this verifies.\<close> The repository is an installation of the EJFAT data
  transfer stack: header-only C++ for sending large buffers as UDP packets through a load
  balancer and putting them together again (\<open>ejfat_packetize.hpp\<close>,
  \<open>ejfat_assemble_ersap.hpp\<close>, with variants over ET and for the gRPC simulation), the Disruptor
  ring with its consumers and the supplies of reusable buffers built on it (\<open>Disruptor/\<close>,
  \<open>Supplier.h\<close>, \<open>SupplierN.h\<close>) that hand buffers between the threads around them, and the headers of the EVIO data format the buffers carry
  (\<open>common/include/\<close>). Everything else under \<open>installation/include\<close> is third-party,
  generated, or declarations without bodies.

  \<^bold>\<open>How the parts interact.\<close> A sender cuts a buffer into pieces, writes a load balancer
  header and a reassembly header before each and sends them; the load balancer removes its
  header and routes by tick; a receiver reads datagrams, parses the reassembly header and
  copies each piece to its offset until the whole buffer has arrived. Around both, threads
  take buffers from a supply, publish them and release them; the supply uses the ring's
  sequencer to decide when a slot may be reused. Buffers hold EVIO blocks written through
  \<open>ByteBuffer\<close>.

  \<^bold>\<open>Theories.\<close>
  \<^item> \<open>Dift_Prelude\<close>: types of machine integers, lists overwritten at an index, the pieces of a
    buffer, and lemmas shared by all theories.
  \<^item> \<open>Byte_Order\<close>: \<open>ByteOrder.h\<close> and the swaps of \<open>ejfat_packetize.hpp\<close>; native and network
    representations of words for both host byte orders.
  \<^item> \<open>Packet_Headers\<close>: all writers and parsers of the packet headers, byte by byte, with
    their round trips between hosts of any byte order.
  \<^item> \<open>Packetize\<close>: \<open>sendPacketizedBufferSendNew\<close> as an iteration of its loop body. The socket
    is an argument (a function from its state and the packet to the result of \<open>send\<close>).
    Shown: which packets are sent, what the counters are, and that a path that refuses large
    packets makes the sender shrink them until the whole buffer is delivered.
  \<^item> \<open>Packetize_More\<close>: the other senders (version 1 headers with \<open>send\<close>, \<open>sendto\<close> and \<open>sendmsg\<close>,
    the two that write headers into the caller's array), the MTU helpers and \<open>sendBuffer\<close>. All
    are shown to be in step with one reference sender without packet storage; so the fast
    senders are equivalent to the copying ones, and \<open>sendBuffer\<close> delivers the whole buffer.
  \<^item> \<open>Assemble\<close>: \<open>getCompletePacketizedBuffer\<close> over a list of received datagrams. Shown:
    reassembly in any order after the first packet and between packets of other sources, no
    write outside the caller's buffer, and two failures: division by zero on a packet
    without data, and a duplicate counted as new data.
  \<^item> \<open>Assemble_More\<close>: the receiver that allocates and grows its buffer, related step by step to
    the one with a fixed buffer, the one that reads in stages, \<open>writeBuffer\<close> and \<open>getBuffer\<close>.
    Shown: exactly when the growing buffer is large enough, and what a stage reads.
  \<^item> \<open>Grpc_Transfer\<close>: the sender and receiver of \<open>ersap_grpc_packetize.hpp\<close> and
    \<open>ersap_grpc_assemble.hpp\<close>, which count by packet numbers and record the order of arrival,
    and their bounded queue. Shown: the round trip, first in first out, and a write past the
    vector by the first packet of a longer tick.
  \<^item> \<open>Et_Receiver\<close>: \<open>getBuffers\<close> of \<open>ejfat_assemble_ersap_et.hpp\<close>, which collects the buffers of
    all sources for each tick in an entry of an ET fifo. Shown: no entry is lost or used
    twice whatever arrives, successive ticks are delivered, bytes from before a packet of
    another tick do not count, and a late packet is written into an entry already handed over.
  \<^item> \<open>Byte_Buffer\<close>, \<open>Block_Header\<close>: the accessors of EVIO's \<open>ByteBuffer.h\<close> and the block headers
    of versions 2 and 4 with their packed sixth word.
  \<^item> \<open>Evio_Swap\<close>: \<open>EvioSwap.h\<close>, the change of byte order of whole events through their nested
    structures. Well-formed events are an inductive predicate; they are swapped without
    leaving their words, and back to themselves.
  \<^item> \<open>Evio_Util\<close>: conversions, string arrays and header parsers of \<open>Util.h\<close> and
    \<open>EventHeaderParser.h\<close>, with the round trip of string arrays.
  \<^item> \<open>Evio_Buffers\<close>: what \<open>Util.h\<close>, \<open>EventHeaderParser.h\<close> and \<open>EvioSwap.h\<close> do with whole byte
    buffers over accessors that are arguments. Shown: the version of a block is found in either
    byte order, swapped headers parse as the same headers, and swapped data is turned around
    value by value.
  \<^item> \<open>File_Names\<close>, \<open>Powers\<close>: the names of files of \<open>Util.h\<close> and its \<open>powerOfTwo\<close>. Shown: files of
    different splits and streams do not share a name, when a base name is made, how a width
    without a zero loses the run number, and that the power of two is the closest one.
  \<^item> \<open>Evio_Tree\<close>: the iterators of \<open>BaseStructure.h\<close>, which increment an iterator that is no longer
    there; what that does is an argument. Shown: if it does nothing else, they end and see every
    structure once in the order they promise; if it ends the program, they see no children. And the dictionary entries of \<open>EvioDictionaryEntry.h\<close>.
  \<^item> \<open>Structure_Transformer\<close>: \<open>StructureTransformer.h\<close> and \<open>StructureFinder.h\<close> over headers and
    structures that are arguments. Shown: banks become segments and tag segments and banks
    again, copies agree with transformations, and how searches are related.
  \<^item> \<open>Sequencer\<close>, \<open>Multi_Sequencer\<close>: the single- and multi-producer sequencers. The second is also
    a step relation in which producer threads interleave between any two shared accesses;
    invariants hold in all reachable states.
  \<^item> \<open>Ring_Buffer\<close>: the entries over either sequencer, the event translators and the batches.
  \<^item> \<open>Worker_Pool\<close>: \<open>WorkProcessor.h\<close> and \<open>WorkerPool.h\<close>, processors that claim events of a shared
    sequence, as runs of any interleaving of the calls of their \<open>run\<close>, the owner and one
    producer on the single-producer sequencer. Shown: every sequence is claimed once; events
    are protected as long as no call overlaps another of its processor and no handler releases;
    and how a second call after \<open>halt\<close> and \<open>EventReleaser\<close> break the protection.
  \<^item> \<open>Event_Processors\<close>: \<open>EventPoller.h\<close> and \<open>BatchEventProcessor.h\<close> with handlers that may throw.
    Shown: what a poll delivers; that a batch processor delivers events in order, again only
    after the two exceptions it uses itself, and every event once when handlers throw others.
  \<^item> \<open>Disruptor_Builder\<close>: \<open>Disruptor.h\<close>, \<open>EventHandlerGroup.h\<close> and \<open>ConsumerRepository.h\<close>, any
    sequence of calls that connects consumers. Shown: the sequences that gate the ring protect
    every consumer, and \<open>shutdown\<close> halts exactly when all have caught up while all are running,
    but at once when none is.
  \<^item> \<open>Supplier\<close>, \<open>Supplier_N\<close>: the supplies; that releases in any order are counted rightly,
    that an item is never reused while held, and that the one is an instance of the other.
  \<^item> \<open>Xmsg_Messages\<close>: \<open>xmsg/message.h\<close>, \<open>xmsg/proto/data.h\<close>, \<open>meta.h\<close> and \<open>address.h\<close>: values in protobuf
    objects, messages and responses. Shown: values come back from messages, what a reader of
    another type gets, and which types share a MIME type.

  \<^bold>\<open>Interfaces.\<close> Locales state what one part relies on in another: \<open>int_sink\<close> (a buffer that
  appends words), \<open>block_header\<close>, \<open>chunk_sender\<close> (a sending loop), \<open>header_layout\<close> (a writer of
  packet headers), \<open>byte_swapper\<close> (a change of byte order), \<open>min_sequence\<close> (the documented minimum of
  \<open>Util::getMinimumSequence\<close>), \<open>sequencer\<close> and \<open>ring_sequencer\<close> (what a ring needs of its
  sequencer, met by both), \<open>et_fifo\<close> and \<open>et_fifo_ready\<close> (the ET library), \<open>evio_library\<close> and
  \<open>structure_search\<close> (EVIO structures and the search through them), \<open>accessor\<close> and \<open>evio_buffer\<close>
  (the accessors of \<open>ByteBuffer\<close> at an index), \<open>protobuf\<close> (its serialisation), \<open>codec\<close> (an encoding read from the front), \<open>supply_item\<close>, \<open>barrier\<close> and \<open>ring_environment\<close> (functions whose
  bodies are not in the repository). Each is interpreted on the definitions of the model or,
  for code that is not here, on functions computed from its documentation.

  \<^bold>\<open>Bounds and fuel.\<close> The senders take fuel, since against an arbitrary socket their loops
  may retry for ever; the theorems give the fuel that is enough (one turn for each piece, and
  one for each size tried) and conclude that the call returns. The swaps take fuel for each
  call and turn, enough of which exists for every well-formed event. The loops that substitute
  into file names and \<open>powerOfTwo\<close> take fuel too; when the former end, and that 31 turns are enough for the latter, is shown. The receivers consume
  one datagram in each turn and need none. Packet fields, byte counts and positions are words
  of their C types; sequence numbers, 64-bit counters that start at -1 and grow by claims, are
  integers.

  \<^bold>\<open>What is not modelled.\<close> Socket creation and options, printing, time stamps and sleeps;
  the wait strategies of the Disruptor; the client of the load balancer's control plane;
  EVIO's readers, writers and records, the actors of xMsg, and the ET library. Of the last five the repository
  holds declarations without bodies.
\<close>

section \<open>From sender to receiver\<close>

text \<open>What is left of a packet once the load balancer has removed its own header.\<close>

definition at_receiver :: "send_args \<Rightarrow> bytes \<Rightarrow> recv" where
  "at_receiver a p = Datagram (drop (lbHeaderSize a) p)"

definition carried :: "send_args \<Rightarrow> piece \<Rightarrow> recv" where
  "carried a = (\<lambda>q. Datagram (re_packet (sa_fullLen a) (sa_tick a) (sa_version a) (sa_dataId a) (sa_reserved a) q))"

lemma at_receiver_packet: "at_receiver a (packet_new a (of_nat off) b c) = carried a (off, c)"
  by (simp add: at_receiver_def carried_def packet_new_def header_new_def lbHeaderSize_def re_packet_def
      size_defs)

lemma wire_pieces:
  "map (at_receiver a) (emit (packet_new a) advance_new (of_nat off) cs) = map (carried a) (pieces off cs)"
  by (induction cs arbitrary: off) (simp_all add: at_receiver_packet advance_new_def flip: of_nat_add)

lemma mset_map_reorder:
  "mset ys = mset (map f xs) \<Longrightarrow> \<exists>zs. mset zs = mset xs \<and> map f zs = ys"
proof (induction ys arbitrary: xs)
  case Nil
  then show ?case by simp
next
  case (Cons y ys)
  then have "y \<in> set (map f xs)" by (metis list.set_intros(1) mset_eq_setD)
  then obtain us x vs where xs: "xs = us @ x # vs" and x: "f x = y"
    by (auto dest: split_list)
  then have "mset ys = mset (map f (us @ vs))" using Cons.prems by simp
  then obtain zs where "mset zs = mset (us @ vs)" "map f zs = ys" using Cons.IH by blast
  with xs x show ?case by (intro exI [of _ "x # zs"]) simp
qed

lemma carried_inj:
  assumes "carried a (off, c) = carried a (0, c0)" and "off < 2 ^ 32"
  shows "(off, c) = (0, c0)"
proof -
  let ?f = "re_packet (sa_fullLen a) (sa_tick a) (sa_version a) (sa_dataId a) (sa_reserved a)"
  have eq: "?f (off, c) = ?f (0, c0)" using assms(1) by (simp add: carried_def)
  have "(of_nat off :: u32) = 0"
    using arg_cong [OF eq, of "parseReHeader ENDIAN_BIG"] by simp
  then have "off = 0" using assms(2) uint_of_length [of off] by simp
  moreover have "c = c0" using arg_cong [OF eq, of "drop RE_HEADER_BYTES"] by simp
  ultimately show ?thesis by simp
qed

lemma own_Inr [simp]: "own (map Inr ps) = ps" and foreigns_Inr [simp]: "foreigns (map Inr ps) = 0"
  by (induction ps) (simp_all add: foreigns_def)

lemma hd_chunks_pieces: "pieces 0 (chunks m d) = (0, hd (chunks m d)) # tl (pieces 0 (chunks m d))"
  by (cases "chunks m d") auto

text \<open>Any reordering of a buffer's packets that keeps the first one first is reassembled.\<close>

lemma receiver_rebuilds:
  assumes m: "0 < m" "RE_HEADER_BYTES + min (length d) m \<le> PKT_STORAGE"
    and d: "d \<noteq> []" "length d < 2 ^ 32" "length d \<le> bufLen" "length d \<le> length buf"
    and a: "sa_fullLen a = of_nat (length d)" and tp: "prescale \<noteq> 0"
    and net: "mset net = mset (map (carried a) (pieces 0 (chunks m d)))"
      "hd net = carried a (0, hd (chunks m d))"
  shows "\<exists>st'. getCompletePacketizedBuffer host buf bufLen (net @ later) expected sts prescale
      = (Ret (int (length d)) st', later)
    \<and> asm_complete d buf (sa_tick a) (sa_dataId a) (map_option (completed_stats (sa_tick a) expected
        prescale (length d) (length net) 0) sts) st'"
proof -
  obtain zs where zs: "mset zs = mset (pieces 0 (chunks m d))" "map (carried a) zs = net"
    using mset_map_reorder [OF net(1)] by blast
  have tl: "tiles d zs" using tiles_perm [OF zs(1)] tiles_pieces [OF m(1) d(1)] by simp
  have "zs \<noteq> []" using zs(1) hd_chunks_pieces [of m d] by (metis mset_zero_iff_right list.distinct(1))
  then obtain off c zs' where z: "zs = (off, c) # zs'" by (metis list.exhaust surj_pair)
  have "off < 2 ^ 32" using tl d(2) by (auto simp: z tiles_def piece_of_def)
  then have c: "off = 0" using carried_inj [of a off c] zs(2) net(2) z by fastforce
  have "RE_HEADER_BYTES + length (snd p) \<le> PKT_STORAGE" if "p \<in> set zs" for p
  proof -
    have "p \<in> set (pieces 0 (chunks m d))" using that mset_eq_setD [OF zs(1)] by simp
    then have "snd p \<in> set (chunks m d)" by (rule snd_pieces)
    then show ?thesis using length_chunk_min [OF m(1)] m(2) by fastforce
  qed
  then have "\<forall>(off, c) \<in> set zs. RE_HEADER_BYTES + length c \<le> PKT_STORAGE" by auto
  then have ok: "arrivals_ok host (sa_dataId a) (Inr (0, c) # map Inr zs')"
    unfolding arrivals_ok_def z c by (auto simp: last_map)
  have "net = map (arrives (re_packet (of_nat (length d)) (sa_tick a) (sa_version a) (sa_dataId a)
      (sa_reserved a))) (Inr (0, c) # map Inr zs')"
    using zs(2) by (auto simp: z c carried_def a)
  with reassembles [OF _ ok d(2-4) tp, of "sa_tick a" "sa_version a" "sa_reserved a" later expected sts] tl
  show ?thesis by (simp add: z c)
qed

text \<open>The packets in the order in which they were sent, as the receivers' lemmas want them.\<close>

lemma in_order_arrivals:
  assumes m: "0 < m" "RE_HEADER_BYTES + min (length d) m \<le> PKT_STORAGE" and d: "d \<noteq> []"
    and a: "sa_fullLen a = of_nat (length d)"
  shows "\<exists>c zs. pieces 0 (chunks m d) = (0, c) # zs \<and> tiles d ((0, c) # own (map Inr zs))
    \<and> arrivals_ok host (sa_dataId a) (Inr (0, c) # map Inr zs)
    \<and> map (carried a) (pieces 0 (chunks m d)) = map (arrives (re_packet (of_nat (length d)) (sa_tick a) (sa_version a)
        (sa_dataId a) (sa_reserved a))) (Inr (0, c) # map Inr zs)"
proof -
  obtain c zs where z: "pieces 0 (chunks m d) = (0, c) # zs" using hd_chunks_pieces by blast
  have tl: "tiles d ((0, c) # zs)" using tiles_pieces [OF m(1) d] z by simp
  have "RE_HEADER_BYTES + length (snd p) \<le> PKT_STORAGE" if "p \<in> set ((0, c) # zs)" for p
  proof -
    have "snd p \<in> set (chunks m d)" using that snd_pieces [of p 0 "chunks m d"] z by simp
    then show ?thesis using length_chunk_min [OF m(1)] m(2) by fastforce
  qed
  then have "\<forall>(off, c) \<in> set ((0, c) # zs). RE_HEADER_BYTES + length c \<le> PKT_STORAGE" by fastforce
  then have "arrivals_ok host (sa_dataId a) (Inr (0, c) # map Inr zs)"
    unfolding arrivals_ok_def by (auto simp: last_map)
  with z tl show ?thesis by (intro exI [of _ c] exI [of _ zs]) (simp add: carried_def a)
qed

section \<open>Properties that span components\<close>

text \<open>
  C1: end to end. A non-empty buffer sent by \<open>sendPacketizedBufferSendNew\<close> over a socket
  that takes its packets is rebuilt by \<open>getCompletePacketizedBuffer\<close> on a host of any byte
  order, whatever the order in which the packets arrive after the first: the receiver
  returns the length of the buffer, its bytes are in place with nothing written behind
  them, the tick and the data id are the sender's, and the statistics count the packets.
\<close>

theorem transfer_roundtrip:
  assumes "accepts L sock" and "0 < sint mp" and "headerSize a + min (length d) (unat mp) \<le> L"
    and "headerSize a + min (length d) (unat mp) \<le> PACKET_STORAGE"
    and "d \<noteq> []" and "length d < 2 ^ 32" and "sa_fullLen a = of_nat (length d)"
    and "length (chunks (unat mp) d) < fuel"
    and "length d \<le> bufLen" and "bufLen \<le> length buf" and "prescale \<noteq> 0"
  shows "\<exists>res. sendPacketizedBufferSendNew fuel sender sock a d (of_nat (length d)) mp 0 dc = Some res
    \<and> ret res = 0
    \<and> (\<forall>net. mset net = mset (map (at_receiver a) (out_wire res))
           \<and> hd net = at_receiver a (hd (out_wire res)) \<longrightarrow>
        (\<exists>st'. getCompletePacketizedBuffer receiver buf bufLen (net @ later) expected sts prescale
             = (Ret (int (length d)) st', later)
           \<and> asm_complete d buf (sa_tick a) (sa_dataId a) (map_option (completed_stats (sa_tick a)
                expected prescale (length d) (length net) 0) sts) st'))"
proof -
  let ?w = "emit (packet_new a) advance_new (0 :: u32) (chunks (unat mp) d)"
  have len: "unat (of_nat (length d) :: u64) = length d"
    using assms(6) by (simp add: unat_of_nat)
  have m: "0 < unat mp" using assms(2) by (rule sint_pos_unat)
  have fit: "RE_HEADER_BYTES + min (length d) (unat mp) \<le> PKT_STORAGE"
    using assms(4) by (auto simp: headerSize_def size_defs PKT_STORAGE_def PACKET_STORAGE_def split: if_splits)
  have send: "sendPacketizedBufferSendNew fuel sender sock a d (of_nat (length d)) mp 0 dc
      = Some (sent_ok a (of_nat (length d)) dc ?w)"
    using sendNew_sends [OF assms(1-4) len assms(8), of sender 0 dc] by simp
  have wire: "map (at_receiver a) ?w = map (carried a) (pieces 0 (chunks (unat mp) d))"
    using wire_pieces [of a 0] by simp
  have "at_receiver a (hd ?w) = carried a (0, hd (chunks (unat mp) d))"
    using at_receiver_packet [of a 0] by (cases "chunks (unat mp) d") simp_all
  then show ?thesis
    using receiver_rebuilds [OF m fit assms(5,6,9) _ assms(7,11), of buf] assms(9,10) wire send
    by (intro exI [of _ "sent_ok a (of_nat (length d)) dc ?w"]) (simp add: sent_ok_def)
qed

theorem transfer_roundtrip_witness:
  "length (chunks (unat (2 :: i32)) example_data) < 4 \<and>
   (\<exists>res. sendPacketizedBufferSendNew 4 ENDIAN_LITTLE (mtu_socket 40) example_args example_data
        (of_nat (length example_data)) 2 0 0 = Some res
    \<and> ret res = 0
    \<and> (\<forall>net. mset net = mset (map (at_receiver example_args) (out_wire res))
           \<and> hd net = at_receiver example_args (hd (out_wire res)) \<longrightarrow>
        (\<exists>st'. getCompletePacketizedBuffer ENDIAN_BIG (replicate 8 0) 8 (net @ []) 7 None 1
             = (Ret 5 st', [])
           \<and> asm_complete example_data (replicate 8 0) (sa_tick example_args) (sa_dataId example_args)
               None st')))"
  using transfer_roundtrip [of 40 "mtu_socket 40" 2 example_args example_data 4 8 "replicate 8 0" 1
      ENDIAN_LITTLE 0 ENDIAN_BIG "[]" 7 None]
  by (simp add: chunks_example PACKET_STORAGE_def)

text \<open>
  C3: a buffer given to \<open>sendBuffer\<close>, in its copying or its fast form, on a path whose MTU it is
  told, arrives at a host that calls \<open>getBuffer\<close> without a block of its own: when the packets
  come in the order in which they were sent, \<open>getBuffer\<close> returns 0 and a block that starts with
  the buffer, however much larger than the 100 kB it begins with the buffer is.
\<close>

theorem sendBuffer_to_getBuffer:
  assumes "0 \<le> net_socket net v6" and "\<forall>h. 0 \<le> net_connect net v6 h"
    and "100 \<le> sint m" and "sint m \<le> 9978" and "mtu_limited (unat m - 28) (path (setMTU net interface m))"
    and "0 < bufLen" and "base + unat bufLen = length mem" and "HEADER_BYTES \<le> base"
    and "\<not> sa_noConnect args" and "sa_reserved args = 0" and "heap_ok fresh"
  shows "\<exists>k wire. sendBuffer k sender net path args mem base bufLen hostName interface m fast v6 = Some (0, wire)
    \<and> (\<forall>udp. udp (if port < 1024 then 17750 else port) addr ipv6
              = Some (map (at_receiver (args\<lparr>sa_direct := False\<rparr>)) wire) \<longrightarrow>
        (\<exists>res b. getBuffer receiver fresh udp (Some None) (Some 0) port addr False ipv6 = Ret 0 res
           \<and> ar_buf res = Some b \<and> length b = unat (ar_len res) \<and> take (unat bufLen) b = drop base mem))"
proof -
  let ?a = "args\<lparr>sa_fullLen := bufLen, sa_direct := False\<rparr>" and ?d = "drop base mem"
  have d: "?d \<noteq> []" "unat bufLen = length ?d" using assms(6,7) by (auto simp: word_less_nat_alt)
  have "unat bufLen < 2 ^ LENGTH(32)" by (rule unsigned_less)
  then have d32: "length ?d < 2 ^ 32" using d(2) by simp
  have full: "sa_fullLen ?a = of_nat (length ?d)" unfolding d(2) [symmetric] by simp
  from sendBuffer_sends [where path = path and net = net and interface = interface, OF assms(1-10),
      of sender hostName fast] obtain mp k where
    mp: "0 < sint (mp :: i32)" "HEADER_BYTES + min (length ?d) (unat mp) + 28 \<le> unat m"
      "sendBuffer k sender net path args mem base bufLen hostName interface m fast v6
       = Some (0, emit (packet_new ?a) advance_new 0 (chunks (unat mp) ?d))"
    using d(2) by auto
  have m: "0 < unat mp" using mp(1) by (rule sint_pos_unat)
  have small: "min (length ?d) (unat mp) \<le> 10000" using mp(2) assms(3,4) by (simp add: unat_sint_nonneg)
  then have fit: "RE_HEADER_BYTES + min (length ?d) (unat mp) \<le> PKT_STORAGE" by (simp add: size_defs PKT_STORAGE_def)
  obtain c zs where z: "pieces 0 (chunks (unat mp) ?d) = (0, c) # zs" "tiles ?d ((0, c) # own (map Inr zs))"
      "arrivals_ok receiver (sa_dataId ?a) (Inr (0, c) # map Inr zs)"
      "map (carried ?a) (pieces 0 (chunks (unat mp) ?d)) = map (arrives (re_packet (of_nat (length ?d)) (sa_tick ?a)
         (sa_version ?a) (sa_dataId ?a) (sa_reserved ?a))) (Inr (0, c) # map Inr zs)"
    using in_order_arrivals [OF m fit d(1) full, of receiver] by blast
  have L: "alloc_size None 0 = 100000" by (simp add: alloc_size_def alloc_request_def)
  have "length x \<le> 100000" if "x \<in> set (chunks (unat mp) ?d)" for x
    using length_chunk_min [OF m that] small by linarith
  then have f: "fits (alloc_size None 0) ((0, c) # own (map Inr zs))"
    using fits_in_order [of "chunks (unat mp) ?d" 100000 0] z(1) L by simp
  have wire: "map (at_receiver (args\<lparr>sa_direct := False\<rparr>)) (emit (packet_new ?a) advance_new 0 (chunks (unat mp) ?d))
      = map (carried ?a) (pieces 0 (chunks (unat mp) ?d))"
  proof -
    have "at_receiver (args\<lparr>sa_direct := False\<rparr>) = at_receiver ?a"
      by (simp add: fun_eq_iff at_receiver_def lbHeaderSize_def)
    then show ?thesis using wire_pieces [of ?a 0] by simp
  qed
  obtain res b where "getCompleteAllocatedBuffer receiver fresh (Some None) (Some 0)
        (map (carried ?a) (pieces 0 (chunks (unat mp) ?d))) 0 None 1 = (Ret (int (length ?d)) res, [])"
      "ar_buf res = Some b" "take (length ?d) b = ?d" "length b = unat (ar_len res)"
    using allocated_reassembles [OF z(2,3) d32 one_neq_zero assms(11), of None 0 "sa_tick ?a" "sa_version ?a" "sa_reserved ?a" "[]" 0 None]
    unfolding if_P [OF f] z(4) append_Nil2 by blast
  then show ?thesis
    using mp(3) wire d(2) by (intro exI [of _ k] exI) (auto simp: getBuffer_def)
qed


theorem sendBuffer_to_getBuffer_witness:
  "\<exists>k wire. sendBuffer k ENDIAN_LITTLE
      \<lparr>if_get = \<lambda>_. None, if_set = \<lambda>_ _. None, net_socket = \<lambda>_. 3, net_connect = \<lambda>_ _. 0\<rparr>
      (\<lambda>_. mtu_socket 72) example_args (replicate 40 0 @ example_data) 40 5 [] [] 100 True False = Some (0, wire)
    \<and> (\<exists>res b. getBuffer ENDIAN_BIG (\<lambda>n. Some (replicate n 0))
           (\<lambda>_ _ _. Some (map (at_receiver (example_args\<lparr>sa_direct := False\<rparr>)) wire)) (Some None) (Some 0) 80 None False False
           = Ret 0 res \<and> ar_buf res = Some b \<and> take 5 b = example_data)"
proof -
  let ?net = "\<lparr>if_get = \<lambda>_. None, if_set = \<lambda>_ _. None, net_socket = \<lambda>_. 3, net_connect = \<lambda>_ _. 0\<rparr>"
  have a: "\<not> sa_noConnect example_args" "sa_reserved example_args = 0" by (simp_all add: example_args_def)
  have "heap_ok (\<lambda>n. Some (replicate n 0))" by (simp add: heap_ok_def)
  with a sendBuffer_to_getBuffer [of ?net False 100 "\<lambda>_. mtu_socket 72" "[]" 5 40 "replicate 40 0 @ example_data"
      example_args "\<lambda>n. Some (replicate n 0)" ENDIAN_LITTLE "[]" True 80 None False ENDIAN_BIG]
  show ?thesis by (fastforce simp: size_defs)
qed

end
